(* ===== verification/Prelude.thy ===== *)
theory Prelude
  imports Main "HOL-Library.Word"
begin

text \<open>
  Shared vocabulary of the development: the machine integer types of
  \<^verbatim>\<open>include/es/types.h\<close>, byte stores (the contents of a disk or of a stream, as a function
  from byte addresses), the collections of simplification rules the component theories use,
  and generic lemmas on lists, byte stores and words.
\<close>

unbundle bit_operations_syntax

type_synonym u8 = "8 word"
type_synonym u16 = "16 word"
type_synonym u32 = "32 word"
type_synonym s32 = "32 word"
type_synonym u64 = "64 word"

type_synonym store = "nat \<Rightarrow> u8"

text \<open>
  Failures. \<^verbatim>\<open>ASSERT\<close> (\<^verbatim>\<open>include/es.h\<close>) panics when its condition is false;
  \<^verbatim>\<open>esThrow\<close> (\<^verbatim>\<open>os/libes++/src/throw.cpp\<close>) raises the exception of an error number.
  \<open>Undefined\<close> stands for a run whose behaviour C++ leaves undefined, such as the use of an
  uninitialised value or of a null pointer.
\<close>

datatype errno = EACCES | EALREADY | EEXIST | EINVAL | ENAMETOOLONG | ENOENT | ENOSPC | EPERM | EROFS | ETIMEDOUT
  | OutOfRange

datatype es_error = AssertFailed | Thrown errno | Undefined

type_synonym 'a result = "es_error + 'a"

abbreviation ensuring :: "bool \<Rightarrow> 'a result \<Rightarrow> 'a result" where
  "ensuring b r \<equiv> if b then r else Inl AssertFailed"

definition andThen :: "'a result \<Rightarrow> ('a \<Rightarrow> 'b result) \<Rightarrow> 'b result" where
  "andThen r f = (case r of Inl e \<Rightarrow> Inl e | Inr x \<Rightarrow> f x)"

lemma andThen_simps [simp]: "andThen (Inl e) f = Inl e" "andThen (Inr x) f = f x"
  by (simp_all add: andThen_def)

text \<open>
  A loop that need not end is a \<^theory_text>\<open>partial_function\<close> whose value \<open>None\<close> stands for not
  returning; \<open>Some (Inl e)\<close> is a failure and \<open>Some (Inr x)\<close> a result.
\<close>

type_synonym 'a run = "'a result option"

abbreviation ok :: "'a \<Rightarrow> 'a run" where
  "ok x \<equiv> Some (Inr x)"

definition obind :: "'a run \<Rightarrow> ('a \<Rightarrow> 'b run) \<Rightarrow> 'b run" where
  "obind m f = Option.bind m (\<lambda>r. case r of Inl e \<Rightarrow> Some (Inl e) | Inr x \<Rightarrow> f x)"

lemma obind_simps [simp]:
  "obind None f = None" "obind (Some (Inl e)) f = Some (Inl e)" "obind (ok x) f = f x"
  by (simp_all add: obind_def)

lemma obind_ok [simp]: "obind m (\<lambda>x. ok x) = m"
  by (cases m) (auto simp: obind_def split: sum.splits)

lemma obind_assoc: "obind (obind m f) g = obind m (\<lambda>x. obind (f x) g)"
  by (cases m) (auto simp: obind_def split: sum.splits)

lemma obind_eq_Some:
  "obind m f = Some r \<longleftrightarrow> (\<exists>e. m = Some (Inl e) \<and> r = Inl e) \<or> (\<exists>x. m = ok x \<and> f x = Some r)"
  by (cases m) (auto simp: obind_def split: sum.splits)

lemma obind_mono [partial_function_mono]:
  assumes "mono_option B" "\<And>y. mono_option (\<lambda>f. C y f)"
  shows "mono_option (\<lambda>f. obind (B f) (\<lambda>y. C y f))"
  unfolding obind_def
proof (rule bind_mono [OF assms(1)])
  fix r
  show "mono_option (\<lambda>f. case r of Inl e \<Rightarrow> Some (Inl e) | Inr x \<Rightarrow> C x f)"
    using assms(2) by (cases r) (simp_all add: monotone_def flat_ord_def fun_ord_def)
qed

named_theorems store_simps \<open>reading a byte store after a write\<close>
named_theorems codec_simps \<open>reading integers out of byte buffers\<close>
named_theorems frame_simps \<open>fields an operation leaves alone\<close>

subsection \<open>Byte stores\<close>

definition store_read :: "store \<Rightarrow> nat \<Rightarrow> nat \<Rightarrow> u8 list" where
  "store_read m off n = map m [off..<off + n]"

definition store_write :: "store \<Rightarrow> nat \<Rightarrow> u8 list \<Rightarrow> store" where
  "store_write m off bs = (\<lambda>a. if off \<le> a \<and> a < off + length bs then bs ! (a - off) else m a)"

lemma length_store_read [simp]: "length (store_read m off n) = n"
  by (simp add: store_read_def)

lemma nth_store_read [simp]: "i < n \<Longrightarrow> store_read m off n ! i = m (off + i)"
  by (simp add: store_read_def)

lemma store_read_0 [simp]: "store_read m off 0 = []"
  by (simp add: store_read_def)

lemma store_write_Nil [simp]: "store_write m off [] = m"
  by (auto simp: store_write_def fun_eq_iff)

lemma store_read_write_same [store_simps]:
  "length bs = n \<Longrightarrow> store_read (store_write m off bs) off n = bs"
  by (auto intro: nth_equalityI simp: store_write_def)

lemma store_read_write_disjoint [store_simps]:
  "off + n \<le> off' \<or> off' + length bs \<le> off \<Longrightarrow>
   store_read (store_write m off' bs) off n = store_read m off n"
  by (auto intro!: nth_equalityI simp: store_write_def)

lemma store_write_in [store_simps]:
  "off \<le> a \<Longrightarrow> a < off + length bs \<Longrightarrow> store_write m off bs a = bs ! (a - off)"
  by (simp add: store_write_def)

lemma store_write_out [store_simps]:
  "a < off \<or> off + length bs \<le> a \<Longrightarrow> store_write m off bs a = m a"
  by (auto simp: store_write_def)

lemma store_write_read_id [simp]: "store_write m off (store_read m off n) = m"
  by (auto simp: store_write_def fun_eq_iff)

lemma store_read_append:
  "store_read m off (n + k) = store_read m off n @ store_read m (off + n) k"
  by (auto intro!: nth_equalityI simp: nth_append)

lemma store_read_Suc: "store_read m off (Suc n) = m off # store_read m (Suc off) n"
  by (auto intro!: nth_equalityI simp: nth_Cons split: nat.splits)

lemma take_store_read: "k \<le> n \<Longrightarrow> take k (store_read m off n) = store_read m off k"
  by (auto intro: nth_equalityI)

lemma drop_store_read: "drop k (store_read m off n) = store_read m (off + k) (n - k)"
  by (auto intro!: nth_equalityI simp: add.assoc)

subsection \<open>Words\<close>

lemma unat_ucast_up:
  "LENGTH('a) \<le> LENGTH('b) \<Longrightarrow> unat (ucast (x :: 'a::len word) :: 'b::len word) = unat x"
  by (simp add: unsigned_ucast_eq take_bit_nat_eq_self_iff order_less_le_trans[OF unsigned_less])

lemma unat_u8_less [simp]: "unat (x :: u8) < 256"
  using unsigned_less[of x] by simp

lemma unat_u16_less [simp]: "unat (x :: u16) < 65536"
  using unsigned_less[of x] by simp

lemma unat_u32_less [simp]: "unat (x :: u32) < 4294967296"
  using unsigned_less[of x] by simp

lemma unat_add_no_wrap:
  "unat x + unat y < 2 ^ LENGTH('a) \<Longrightarrow> unat (x + y :: 'a::len word) = unat x + unat y"
  by (simp add: unat_word_ariths)

lemma unat_mult_no_wrap:
  "unat x * unat y < 2 ^ LENGTH('a) \<Longrightarrow> unat (x * y :: 'a::len word) = unat x * unat y"
  by (simp add: unat_word_ariths)

lemma unat_add_u32: "unat x + unat y < 2 ^ 32 \<Longrightarrow> unat (x + y :: u32) = unat x + unat y"
  by (rule unat_add_no_wrap) simp

lemma unat_mult_u32: "unat x * unat y < 2 ^ 32 \<Longrightarrow> unat (x * y :: u32) = unat x * unat y"
  by (rule unat_mult_no_wrap) simp

lemma take_bit_u32 [simp]: "take_bit 32 (x :: u32) = x"
  using take_bit_length_eq [of x] by simp

lemma take_bit_u16 [simp]: "take_bit 16 (x :: u16) = x"
  using take_bit_length_eq [of x] by simp

lemma unat_of_nat_u32: "x < 2 ^ 32 \<Longrightarrow> unat (of_nat x :: u32) = x"
  by (simp add: unat_of_nat)

lemma take_bit_word_small: "unat x < 2 ^ n \<Longrightarrow> take_bit n (x :: 'a::len word) = x"
  by (simp add: word_unat_eq_iff unsigned_take_bit_eq take_bit_nat_eq_self_iff)

text \<open>Equality of words byte by byte; the bits of a byte stop at eight.\<close>

lemma bit_u8_beyond [codec_simps]: "8 \<le> n \<Longrightarrow> \<not> bit (x :: u8) n"
  using bit_imp_le_length[of x n] by auto

lemma u32_eqI_bytes:
  assumes "\<And>k. k < 8 \<Longrightarrow> bit x k = bit y k"
    and "\<And>k. k < 8 \<Longrightarrow> bit x (8 + k) = bit y (8 + k)"
    and "\<And>k. k < 8 \<Longrightarrow> bit x (16 + k) = bit y (16 + k)"
    and "\<And>k. k < 8 \<Longrightarrow> bit x (24 + k) = bit y (24 + k)"
  shows "x = (y :: u32)"
proof (rule bit_word_eqI)
  fix n :: nat
  assume "n < LENGTH(32)"
  then consider "n < 8" | "8 \<le> n" "n - 8 < 8" | "16 \<le> n" "n - 16 < 8" | "24 \<le> n" "n - 24 < 8"
    by fastforce
  then show "bit x n = bit y n"
    using assms(1)[of n] assms(2)[of "n - 8"] assms(3)[of "n - 16"] assms(4)[of "n - 24"]
    by cases simp_all
qed

lemma u16_eqI_bytes:
  assumes "\<And>k. k < 8 \<Longrightarrow> bit x k = bit y k"
    and "\<And>k. k < 8 \<Longrightarrow> bit x (8 + k) = bit y (8 + k)"
  shows "x = (y :: u16)"
proof (rule bit_word_eqI)
  fix n :: nat
  assume "n < LENGTH(16)"
  then consider "n < 8" | "8 \<le> n" "n - 8 < 8" by fastforce
  then show "bit x n = bit y n"
    using assms(1)[of n] assms(2)[of "n - 8"] by cases simp_all
qed

text \<open>Conversion of a value to \<^verbatim>\<open>int\<close>, and the signed value of a 32 bit word.\<close>

definition int32 :: "int \<Rightarrow> int" where
  "int32 x = signed_take_bit 31 x"

lemma int32_id [simp]: "- (2 ^ 31) \<le> x \<Longrightarrow> x < 2 ^ 31 \<Longrightarrow> int32 x = x"
  by (simp add: int32_def signed_take_bit_int_eq_self)

lemma u32_of_int: "0 \<le> x \<Longrightarrow> x < 2 ^ 32 \<Longrightarrow> unat (word_of_int x :: u32) = nat x"
  by (simp add: unat_eq_nat_uint uint_word_of_int)

subsection \<open>Lists\<close>

text \<open>A copy out of a buffer and a copy into it: \<^verbatim>\<open>memmove\<close> from and to \<open>buf + pos\<close>.\<close>

definition slice :: "nat \<Rightarrow> nat \<Rightarrow> 'a list \<Rightarrow> 'a list" where
  "slice pos n xs = take n (drop pos xs)"

definition overwrite :: "'a list \<Rightarrow> nat \<Rightarrow> 'a list \<Rightarrow> 'a list" where
  "overwrite xs pos ys = take pos xs @ ys @ drop (pos + length ys) xs"

lemma length_slice [simp]: "pos + n \<le> length xs \<Longrightarrow> length (slice pos n xs) = n"
  by (simp add: slice_def)

lemma nth_slice [simp]: "i < n \<Longrightarrow> pos + n \<le> length xs \<Longrightarrow> slice pos n xs ! i = xs ! (pos + i)"
  by (simp add: slice_def)

lemma slice_0 [simp]: "slice pos 0 xs = []"
  by (simp add: slice_def)

lemma length_overwrite [simp]:
  "pos + length ys \<le> length xs \<Longrightarrow> length (overwrite xs pos ys) = length xs"
  by (simp add: overwrite_def)

lemma nth_overwrite:
  "pos + length ys \<le> length xs \<Longrightarrow> i < length xs \<Longrightarrow>
   overwrite xs pos ys ! i = (if pos \<le> i \<and> i < pos + length ys then ys ! (i - pos) else xs ! i)"
  by (auto simp: overwrite_def nth_append min_def)

lemma overwrite_Nil [simp]: "overwrite xs pos [] = xs"
  by (simp add: overwrite_def)

lemma list_update_append_less:
  "i < length xs \<Longrightarrow> (xs @ ys)[i := v] = xs[i := v] @ ys"
  by (simp add: list_update_append1)

end
