(* ===== verification/Endian.thy ===== *)
theory Endian
  imports Prelude
begin

text \<open>
  The integer codecs of \<^verbatim>\<open>include/es/endian.h\<close>: reading and writing 8, 16 and 32 bit
  integers in a byte buffer, in both byte orders. A C pointer \<open>p + off\<close> is a buffer (a
  byte list) and an offset. The two byte orders share one contract, the locale
  \<open>byte_codec\<close>, interpreted for each of the two name spaces of the header.
\<close>

subsection \<open>namespace LittleEndian\<close>

definition le_byte :: "u8 list \<Rightarrow> nat \<Rightarrow> u32" where
  "le_byte p i = ucast (p ! i)"

definition le_word :: "u8 list \<Rightarrow> nat \<Rightarrow> u32" where
  "le_word p i = ucast (p ! i) OR push_bit 8 (ucast (p ! (i + 1)))"

definition le_dword :: "u8 list \<Rightarrow> nat \<Rightarrow> u32" where
  "le_dword p i = ucast (p ! i) OR push_bit 8 (ucast (p ! (i + 1)))
     OR push_bit 16 (ucast (p ! (i + 2))) OR push_bit 24 (ucast (p ! (i + 3)))"

definition le_xbyte :: "u8 list \<Rightarrow> nat \<Rightarrow> u32 \<Rightarrow> u8 list" where
  "le_xbyte p i v = p[i := ucast v]"

definition le_xword :: "u8 list \<Rightarrow> nat \<Rightarrow> u32 \<Rightarrow> u8 list" where
  "le_xword p i v = p[i := ucast v, i + 1 := ucast (drop_bit 8 v)]"

definition le_xdword :: "u8 list \<Rightarrow> nat \<Rightarrow> u32 \<Rightarrow> u8 list" where
  "le_xdword p i v = p[i := ucast v, i + 1 := ucast (drop_bit 8 v),
     i + 2 := ucast (drop_bit 16 v), i + 3 := ucast (drop_bit 24 v)]"

subsection \<open>namespace BigEndian\<close>

definition be_byte :: "u8 list \<Rightarrow> nat \<Rightarrow> u32" where
  "be_byte p i = ucast (p ! i)"

definition be_word :: "u8 list \<Rightarrow> nat \<Rightarrow> u32" where
  "be_word p i = ucast (p ! (i + 1)) OR push_bit 8 (ucast (p ! i))"

definition be_dword :: "u8 list \<Rightarrow> nat \<Rightarrow> u32" where
  "be_dword p i = ucast (p ! (i + 3)) OR push_bit 8 (ucast (p ! (i + 2)))
     OR push_bit 16 (ucast (p ! (i + 1))) OR push_bit 24 (ucast (p ! i))"

definition be_xbyte :: "u8 list \<Rightarrow> nat \<Rightarrow> u32 \<Rightarrow> u8 list" where
  "be_xbyte p i v = p[i := ucast v]"

definition be_xword :: "u8 list \<Rightarrow> nat \<Rightarrow> u32 \<Rightarrow> u8 list" where
  "be_xword p i v = p[i := ucast (drop_bit 8 v), i + 1 := ucast v]"

definition be_xdword :: "u8 list \<Rightarrow> nat \<Rightarrow> u32 \<Rightarrow> u8 list" where
  "be_xdword p i v = p[i := ucast (drop_bit 24 v), i + 1 := ucast (drop_bit 16 v),
     i + 2 := ucast (drop_bit 8 v), i + 3 := ucast v]"

definition bswap16 :: "u16 \<Rightarrow> u16" where
  "bswap16 x = drop_bit 8 x OR push_bit 8 x"

subsection \<open>The contract of a codec\<close>

text \<open>
  A codec for integers that occupy \<open>n\<close> bytes: what is written is read back, reduced to
  \<open>8 * n\<close> bits; bytes outside the field keep their value; and a read looks at the bytes of
  its field only.
\<close>

locale byte_codec =
  fixes get :: "u8 list \<Rightarrow> nat \<Rightarrow> u32"
    and put :: "u8 list \<Rightarrow> nat \<Rightarrow> u32 \<Rightarrow> u8 list"
    and n :: nat
  assumes length_put [simp]: "length (put p i v) = length p"
    and get_put_same: "i + n \<le> length p \<Longrightarrow> get (put p i v) i = take_bit (8 * n) v"
    and nth_put_other: "j < i \<or> i + n \<le> j \<Longrightarrow> put p i v ! j = p ! j"
    and get_local: "(\<And>k. k < n \<Longrightarrow> p ! (i + k) = q ! (j + k)) \<Longrightarrow> get p i = get q j"
begin

lemma get_put_other:
  assumes "j + n \<le> i \<or> i + n \<le> j"
  shows "get (put p i v) j = get p j"
  by (rule get_local, rule nth_put_other) (use assms in auto)

lemma get_append_left: "i + n \<le> length p \<Longrightarrow> get (p @ q) i = get p i"
  by (rule get_local) (simp add: nth_append)

lemma get_append_right: "get (p @ q) (length p + i) = get q i"
  by (rule get_local) (simp add: add.assoc nth_append)

lemma get_take: "i + n \<le> k \<Longrightarrow> get (take k p) i = get p i"
  by (rule get_local) simp

lemma get_drop: "k + i + n \<le> length p \<Longrightarrow> get (drop k p) i = get p (k + i)"
  by (rule get_local) (simp add: add.assoc)

lemma get_put_id_value:
  assumes "i + n \<le> length p" and "take_bit (8 * n) v = v"
  shows "get (put p i v) i = v"
  using assms by (simp add: get_put_same)

end

interpretation le8: byte_codec le_byte le_xbyte 1
  by unfold_locales
    (auto simp: le_byte_def le_xbyte_def bit_simps intro!: bit_word_eqI dest: meta_spec [of _ 0])

interpretation le16: byte_codec le_word le_xword 2
proof (unfold_locales, goal_cases)
  case (2 i p v)
  then show ?case
    by (auto simp: le_word_def le_xword_def bit_simps codec_simps nth_list_update intro!: u32_eqI_bytes)
next
  case (4 p i q j)
  from this[of 0] this[of 1] show ?case by (simp add: le_word_def)
qed (auto simp: le_xword_def)

interpretation le32: byte_codec le_dword le_xdword 4
proof (unfold_locales, goal_cases)
  case (2 i p v)
  then show ?case
    by (auto simp: le_dword_def le_xdword_def bit_simps codec_simps nth_list_update intro!: u32_eqI_bytes)
next
  case (4 p i q j)
  from this[of 0] this[of 1] this[of 2] this[of 3] show ?case by (simp add: le_dword_def)
qed (auto simp: le_xdword_def)

interpretation be8: byte_codec be_byte be_xbyte 1
  by unfold_locales
    (auto simp: be_byte_def be_xbyte_def bit_simps intro!: bit_word_eqI dest: meta_spec [of _ 0])

interpretation be16: byte_codec be_word be_xword 2
proof (unfold_locales, goal_cases)
  case (2 i p v)
  then show ?case
    by (auto simp: be_word_def be_xword_def bit_simps codec_simps nth_list_update intro!: u32_eqI_bytes)
next
  case (4 p i q j)
  from this[of 0] this[of 1] show ?case by (simp add: be_word_def)
qed (auto simp: be_xword_def)

interpretation be32: byte_codec be_dword be_xdword 4
proof (unfold_locales, goal_cases)
  case (2 i p v)
  then show ?case
    by (auto simp: be_dword_def be_xdword_def bit_simps codec_simps nth_list_update intro!: u32_eqI_bytes)
next
  case (4 p i q j)
  from this[of 0] this[of 1] this[of 2] this[of 3] show ?case by (simp add: be_dword_def)
qed (auto simp: be_xdword_def)

lemmas le_codec [codec_simps] =
  le8.get_put_same le8.get_put_other le16.get_put_same le16.get_put_other
  le32.get_put_same le32.get_put_other le8.nth_put_other le16.nth_put_other le32.nth_put_other

subsection \<open>Ranges and the two orders against each other\<close>

lemma le_byte_less: "unat (le_byte p i) < 256"
  by (simp add: le_byte_def unat_ucast_up)

lemma le_word_take_bit: "take_bit 16 (le_word p i) = le_word p i"
  by (rule u32_eqI_bytes) (auto simp: le_word_def bit_simps codec_simps)

lemma le_word_less: "unat (le_word p i) < 65536"
proof -
  have "unat (take_bit 16 (le_word p i)) < 2 ^ 16"
    unfolding unsigned_take_bit_eq by (rule take_bit_nat_less_exp)
  then show ?thesis by (simp add: le_word_take_bit del: unsigned_take_bit_eq)
qed

lemma be_word_swap: "be_word [a, b] 0 = le_word [b, a] 0"
  by (simp add: be_word_def le_word_def)

lemma be_dword_swap: "be_dword [a, b, c, d] 0 = le_dword [d, c, b, a] 0"
  by (simp add: be_dword_def le_dword_def numeral_eq_Suc)

lemma bswap16_involutive: "bswap16 (bswap16 x) = x"
  by (rule u16_eqI_bytes) (auto simp: bswap16_def bit_simps)

lemma be_word_bswap16:
  "be_word p i = ucast (bswap16 (ucast (le_word p i)))"
  by (rule u32_eqI_bytes) (auto simp: bswap16_def be_word_def le_word_def bit_simps codec_simps)

end
