(* ===== verification/RingBuffer.thy ===== *)
theory RingBuffer
  imports Prelude
begin

text \<open>
  The ring buffer of \<^verbatim>\<open>include/es/ring.h\<close> and \<^verbatim>\<open>os/libes++/src/ring.cpp\<close>: pipes, the
  loopback interface and both directions of a TCP connection keep their bytes in one. A
  pointer into the buffer is its index from \<open>buf\<close>; the end pointer is \<open>size\<close>. The second
  \<open>write\<close> takes bytes at an offset beyond the tail and remembers the blocks that are not
  contiguous yet (\<open>Vec\<close>): the receive side of TCP.

  Operations return the bytes they copy out, or the count they return, in an
  \<^typ>\<open>'a result\<close>: a false \<open>ASSERT\<close> is \<^term>\<open>Inl AssertFailed\<close>.
\<close>

subsection \<open>State\<close>

record ring =
  ring_buf :: "u8 list"
  ring_size :: nat
  ring_head :: nat
  ring_used :: nat

record vec =
  vec_data :: "nat option"
  vec_count :: nat

definition vec_null :: vec where
  "vec_null = \<lparr>vec_data = None, vec_count = 0\<rparr>"

definition ring_init :: "u8 list \<Rightarrow> ring" where
  "ring_init b = \<lparr>ring_buf = b, ring_size = length b, ring_head = 0, ring_used = 0\<rparr>"

definition ring_pos :: "ring \<Rightarrow> nat \<Rightarrow> nat \<Rightarrow> nat" where
  "ring_pos r org ptr = (if org \<le> ptr then ptr - org else ptr + ring_size r - org)"

definition ring_getUnused :: "ring \<Rightarrow> nat" where
  "ring_getUnused r = ring_size r - ring_used r"

subsection \<open>Operations\<close>

definition ring_peek :: "ring \<Rightarrow> int \<Rightarrow> int \<Rightarrow> u8 list result" where
  "ring_peek r count offset =
    ensuring (0 \<le> offset)
     (let used = int (ring_used r);
          end = int (ring_size r);
          count = (if used < offset + count then used - offset else count)
      in if count \<le> 0 then Inr []
         else ensuring (offset < used) (ensuring (ring_head r < ring_size r)
          (let src = int (ring_head r) + offset;
               src = (if end \<le> src then offset - (end - src) else src)
           in ensuring (0 \<le> src \<and> src < end)
               (if src + count < end
                then Inr (slice (nat src) (nat count) (ring_buf r))
                else let snip = end - src
                     in ensuring (snip \<le> count)
                         (Inr (slice (nat src) (nat snip) (ring_buf r)
                               @ slice 0 (nat (count - snip)) (ring_buf r)))))))"

definition ring_read :: "ring \<Rightarrow> int \<Rightarrow> (u8 list \<times> ring) result" where
  "ring_read r count =
    (let count = (if int (ring_used r) < count then int (ring_used r) else count)
     in if count \<le> 0 then Inr ([], r)
        else ensuring (ring_head r < ring_size r)
         (let n = nat count; head = ring_head r; end = ring_size r
          in if head + n < end
             then Inr (slice head n (ring_buf r),
                       r\<lparr>ring_head := head + n, ring_used := ring_used r - n\<rparr>)
             else let snip = end - head
                  in ensuring (snip \<le> n) (ensuring (n - snip < end)
                      (Inr (slice head snip (ring_buf r) @ slice 0 (n - snip) (ring_buf r),
                            r\<lparr>ring_head := n - snip, ring_used := ring_used r - n\<rparr>)))))"

definition ring_skip :: "ring \<Rightarrow> int \<Rightarrow> (int \<times> ring) result" where
  "ring_skip r count =
    (let count = (if int (ring_used r) < count then int (ring_used r) else count)
     in if count \<le> 0 then Inr (0, r)
        else ensuring (ring_head r < ring_size r)
         (let n = nat count; head = ring_head r; end = ring_size r
          in if head + n < end
             then Inr (count, r\<lparr>ring_head := head + n, ring_used := ring_used r - n\<rparr>)
             else let snip = end - head
                  in ensuring (snip \<le> n) (ensuring (n - snip < end)
                      (Inr (count, r\<lparr>ring_head := n - snip, ring_used := ring_used r - n\<rparr>)))))"

definition ring_tail :: "ring \<Rightarrow> nat" where
  "ring_tail r =
    (let tail = ring_head r + ring_used r
     in if ring_size r \<le> tail then tail - ring_size r else tail)"

definition ring_put :: "ring \<Rightarrow> nat \<Rightarrow> u8 list \<Rightarrow> u8 list" where
  "ring_put r at bs =
    (if ring_head r \<le> at
     then let free = ring_size r - at
          in if length bs \<le> free then overwrite (ring_buf r) at bs
             else overwrite (overwrite (ring_buf r) at (take free bs)) 0 (drop free bs)
     else overwrite (ring_buf r) at bs)"

definition ring_write :: "ring \<Rightarrow> u8 list \<Rightarrow> int \<Rightarrow> (int \<times> ring) result" where
  "ring_write r src count =
    (let count = (if int (ring_size r) < int (ring_used r) + count
                  then int (ring_size r) - int (ring_used r) else count)
     in if count \<le> 0 then Inr (0, r)
        else ensuring (ring_head r < ring_size r)
         (Inr (count, r\<lparr>ring_buf := ring_put r (ring_tail r) (take (nat count) src),
                        ring_used := ring_used r + nat count\<rparr>)))"

text \<open>
  \<open>Ring::marge\<close>. The two loops walk the block array with an index; a block that touches the
  interval from \<open>pl\<close> to \<open>pr\<close> (positions from the tail) is swallowed and deleted, which
  shifts the rest of the array down and clears the last slot.
\<close>

definition vec_delete :: "vec list \<Rightarrow> nat \<Rightarrow> vec list" where
  "vec_delete blocks i = take i blocks @ drop (i + 1) blocks @ [vec_null]"

lemma vec_delete_measure:
  assumes "i < length blocks" "vec_data (blocks ! i) \<noteq> None"
  shows "length (filter (\<lambda>v. vec_data v \<noteq> None) (drop i (vec_delete blocks i)))
       < length (filter (\<lambda>v. vec_data v \<noteq> None) (drop i blocks))"
  using assms by (simp add: vec_delete_def vec_null_def Cons_nth_drop_Suc [symmetric])

function marge_tail :: "ring \<Rightarrow> nat \<Rightarrow> vec list \<Rightarrow> nat \<Rightarrow> nat \<Rightarrow> vec list \<times> nat" where
  "marge_tail r tail blocks i pr =
    (if i < length blocks \<and> vec_data (blocks ! i) \<noteq> None
     then let block = blocks ! i; pb = ring_pos r tail (the (vec_data block))
          in if pb \<le> pr
             then marge_tail r tail (vec_delete blocks i) i (max (pb + vec_count block) pr)
             else marge_tail r tail blocks (i + 1) pr
     else (blocks, pr))"
  by pat_completeness auto
termination
  by (relation "measure (\<lambda>(r, tail, blocks, i, pr).
        length (filter (\<lambda>v. vec_data v \<noteq> None) (drop i blocks)))")
    (use vec_delete_measure in \<open>auto simp: Cons_nth_drop_Suc [symmetric]\<close>)

function marge_block ::
  "ring \<Rightarrow> nat \<Rightarrow> vec list \<Rightarrow> nat \<Rightarrow> nat \<Rightarrow> nat \<Rightarrow> nat \<Rightarrow> vec list \<times> nat \<times> nat \<times> nat \<times> nat" where
  "marge_block r tail blocks i pl pr adv =
    (if i < length blocks \<and> vec_data (blocks ! i) \<noteq> None
     then let block = blocks ! i; d = the (vec_data block); pb = ring_pos r tail d
          in if pl \<le> pb + vec_count block \<and> pb \<le> pr
             then marge_block r tail (vec_delete blocks i) i (if pb < pl then pb else pl)
                    (max (pb + vec_count block) pr) (if pb < pl then d else adv)
             else marge_block r tail blocks (i + 1) pl pr adv
     else (blocks, i, pl, pr, adv))"
  by pat_completeness auto
termination
  by (relation "measure (\<lambda>(r, tail, blocks, i, pl, pr, adv).
        length (filter (\<lambda>v. vec_data v \<noteq> None) (drop i blocks)))")
    (use vec_delete_measure in \<open>auto simp: Cons_nth_drop_Suc [symmetric]\<close>)

declare marge_tail.simps [simp del] marge_block.simps [simp del]

definition ring_marge ::
  "ring \<Rightarrow> nat \<Rightarrow> nat \<Rightarrow> vec list \<Rightarrow> nat \<Rightarrow> (nat \<times> vec list \<times> ring) result" where
  "ring_marge r adv count blocks tail =
    ensuring (1 < length blocks)
     (let pl = ring_pos r tail adv; pr = pl + count
      in if tail = adv
         then let (blocks', pr') = marge_tail r tail blocks 0 pr; count' = pr' - pl
              in Inr (count', blocks', r\<lparr>ring_used := ring_used r + count'\<rparr>)
         else let (blocks', i, pl', pr', adv') = marge_block r tail blocks 0 pl pr adv;
                  new = \<lparr>vec_data = Some adv', vec_count = pr' - pl'\<rparr>
              in if i < length blocks'
                 then ensuring (vec_data (blocks' ! i) = None) (Inr (0, blocks'[i := new], r))
                 else Inr (0, tl blocks' @ [new], r))"

definition ring_write_at ::
  "ring \<Rightarrow> u8 list \<Rightarrow> int \<Rightarrow> int \<Rightarrow> vec list \<Rightarrow> (nat \<times> vec list \<times> ring) result" where
  "ring_write_at r src count offset blocks =
    ensuring (0 \<le> offset \<and> offset \<le> int (ring_size r))
     (let size = int (ring_size r); used = int (ring_used r);
          count = (if size < used + offset + count then size - used - offset else count)
      in if count \<le> 0 then Inr (0, blocks, r)
         else ensuring (used + offset + count \<le> size) (ensuring (ring_head r < ring_size r)
          (let tail = ring_tail r;
               adv = tail + nat offset;
               adv = (if ring_size r \<le> adv then adv - ring_size r else adv);
               r' = r\<lparr>ring_buf := ring_put r adv (take (nat count) src)\<rparr>
           in ring_marge r' adv (nat count) blocks tail)))"

subsection \<open>Representation invariant and contents\<close>

definition ring_wf :: "ring \<Rightarrow> bool" where
  "ring_wf r \<longleftrightarrow> length (ring_buf r) = ring_size r \<and> ring_head r < ring_size r
     \<and> ring_used r \<le> ring_size r"

definition ring_at :: "ring \<Rightarrow> nat \<Rightarrow> u8" where
  "ring_at r i = ring_buf r ! ((ring_head r + i) mod ring_size r)"

definition ring_contents :: "ring \<Rightarrow> u8 list" where
  "ring_contents r = map (ring_at r) [0..<ring_used r]"

lemma ring_mod: "a < n + n \<Longrightarrow> a mod n = (if a < n then a else a - n)" for a n :: nat
  by (simp add: le_mod_geq)

lemma length_ring_contents [simp]: "length (ring_contents r) = ring_used r"
  by (simp add: ring_contents_def)

lemma nth_ring_contents [simp]: "i < ring_used r \<Longrightarrow> ring_contents r ! i = ring_at r i"
  by (simp add: ring_contents_def)

lemma ring_contents_eqI:
  "length xs = ring_used r \<Longrightarrow> (\<And>i. i < ring_used r \<Longrightarrow> ring_at r i = xs ! i) \<Longrightarrow> ring_contents r = xs"
  by (auto simp: ring_contents_def intro!: nth_equalityI)

text \<open>The two-part copy out of the buffer is the bytes at consecutive ring positions.\<close>

lemma ring_copy_out:
  assumes wf: "ring_wf r" and n: "n \<le> ring_size r"
    and at: "at = (ring_head r + k) mod ring_size r"
  shows "(if at + n < ring_size r then slice at n (ring_buf r)
          else slice at (ring_size r - at) (ring_buf r)
               @ slice 0 (n - (ring_size r - at)) (ring_buf r)) = map (\<lambda>i. ring_at r (k + i)) [0..<n]"
proof (rule nth_equalityI, goal_cases)
  case 1
  have "at < ring_size r" using wf at by (auto simp: ring_wf_def)
  then show ?case using wf n by (auto simp: ring_wf_def)
next
  case (2 i)
  have atN: "at < ring_size r" using wf at by (auto simp: ring_wf_def)
  have i: "i < n" using 2 wf n atN by (auto simp: ring_wf_def split: if_splits)
  have "(ring_head r + (k + i)) mod ring_size r = (at + i) mod ring_size r"
    unfolding at mod_add_left_eq by (simp add: add.assoc)
  also have "\<dots> = (if at + i < ring_size r then at + i else at + i - ring_size r)"
    using atN i n by (intro ring_mod) simp
  finally show ?case using wf i n atN
    by (auto simp: ring_wf_def ring_at_def nth_append add.commute add.left_commute)
qed

text \<open>
  Where the bytes go: in the buffer indexes \<open>at\<close> up to the end, then from the start. The
  first lemma says it for an index \<open>p\<close>, the second for a ring position \<open>i\<close>.
\<close>

lemma ring_put_nth:
  assumes "length (ring_buf r) = ring_size r" "p < ring_size r" "at < ring_size r"
    and "if ring_head r \<le> at then length bs \<le> ring_size r - at + ring_head r
         else at + length bs \<le> ring_head r"
    and "ring_head r < ring_size r"
  shows "ring_put r at bs ! p
       = (if at \<le> p \<and> p < at + length bs then bs ! (p - at)
          else if p + ring_size r < at + length bs then bs ! (p + ring_size r - at)
          else ring_buf r ! p)"
proof -
  consider "ring_head r \<le> at" "length bs \<le> ring_size r - at"
    | "ring_head r \<le> at" "\<not> length bs \<le> ring_size r - at" | "\<not> ring_head r \<le> at" by blast
  then show ?thesis
  proof cases
    case 1
    with assms show ?thesis by (auto simp: ring_put_def nth_overwrite)
  next
    case 2
    let ?f = "ring_size r - at"
    have len: "length (overwrite (ring_buf r) at (take ?f bs)) = ring_size r"
      using assms 2 by simp
    have "ring_put r at bs ! p
        = overwrite (overwrite (ring_buf r) at (take ?f bs)) 0 (drop ?f bs) ! p"
      using 2 by (simp add: ring_put_def Let_def)
    also have "\<dots> = (if p < length bs - ?f then bs ! (?f + p)
        else overwrite (ring_buf r) at (take ?f bs) ! p)"
      using assms 2 len by (subst nth_overwrite) auto
    also have "\<dots> = (if p < length bs - ?f then bs ! (?f + p)
        else if at \<le> p then bs ! (p - at) else ring_buf r ! p)"
      using assms 2 by (subst nth_overwrite) auto
    finally show ?thesis using assms 2 by (auto simp: add.commute)
  next
    case 3
    with assms show ?thesis by (auto simp: ring_put_def nth_overwrite)
  qed
qed

lemma ring_put_at:
  assumes "ring_wf r" "k + length bs \<le> ring_size r" "i < ring_size r"
    and "at = (ring_head r + k) mod ring_size r" "k < ring_size r"
  shows "ring_put r at bs ! ((ring_head r + i) mod ring_size r)
       = (if k \<le> i \<and> i < k + length bs then bs ! (i - k) else ring_at r i)"
proof -
  define h n where "h = ring_head r" and "n = ring_size r"
  define p where "p = (h + i) mod n"
  have p: "p = (if h + i < n then h + i else h + i - n)"
    and at: "at = (if h + k < n then h + k else h + k - n)"
    using assms by (auto simp: p_def h_def n_def ring_wf_def ring_mod)
  have "ring_put r at bs ! p
       = (if at \<le> p \<and> p < at + length bs then bs ! (p - at)
          else if p + n < at + length bs then bs ! (p + n - at)
          else ring_buf r ! p)"
    unfolding n_def
    by (rule ring_put_nth) (use assms p at in \<open>auto simp: ring_wf_def h_def n_def split: if_splits\<close>)
  moreover have "i < n" "k + length bs \<le> n" "h < n" "k < n"
    using assms by (auto simp: h_def n_def ring_wf_def)
  ultimately have "ring_put r at bs ! p = (if k \<le> i \<and> i < k + length bs then bs ! (i - k) else ring_buf r ! p)"
    using p at by (cases "h + i < n"; cases "h + k < n") auto
  then show ?thesis by (simp add: p_def h_def n_def ring_at_def)
qed

lemma length_ring_put:
  assumes "ring_wf r" "k + length bs \<le> ring_size r" "at = (ring_head r + k) mod ring_size r"
    "k < ring_size r"
  shows "length (ring_put r at bs) = ring_size r"
  using assms
  by (auto simp: ring_put_def ring_wf_def ring_mod Let_def min_def split: if_splits)

lemma ring_tail_mod: "ring_wf r \<Longrightarrow> ring_tail r = (ring_head r + ring_used r) mod ring_size r"
  by (auto simp: ring_tail_def ring_wf_def ring_mod Let_def)

subsection \<open>Every operation against the contents\<close>

lemma ring_read_spec:
  assumes wf: "ring_wf r"
  shows "\<exists>r'. ring_read r c = Inr (take (nat c) (ring_contents r), r') \<and> ring_wf r'
     \<and> ring_contents r' = drop (nat c) (ring_contents r) \<and> ring_size r' = ring_size r"
proof (cases "(if int (ring_used r) < c then int (ring_used r) else c) \<le> 0")
  case True
  then have "nat c = 0 \<or> ring_used r = 0" by (auto split: if_splits)
  then have "take (nat c) (ring_contents r) = []" "drop (nat c) (ring_contents r) = ring_contents r"
    by (auto simp: ring_contents_def)
  with True wf show ?thesis by (auto simp: ring_read_def)
next
  case False
  define n where "n = nat (if int (ring_used r) < c then int (ring_used r) else c)"
  have n: "0 < n" "n \<le> ring_used r" "n = min (nat c) (ring_used r)"
    using False by (auto simp: n_def)
  define r' where "r' = r\<lparr>ring_head := (ring_head r + n) mod ring_size r, ring_used := ring_used r - n\<rparr>"
  have wf': "ring_wf r'" using wf by (auto simp: r'_def ring_wf_def)
  have "map (\<lambda>i. ring_at r (0 + i)) [0..<n] = take (nat c) (ring_contents r)"
    using n by (intro nth_equalityI) auto
  then have "ring_read r c = Inr (take (nat c) (ring_contents r), r')"
    using False wf n ring_copy_out [OF wf, of n "ring_head r" 0]
    by (auto simp: ring_read_def Let_def n_def [symmetric] r'_def ring_wf_def ring_mod split: if_splits)
  moreover have "ring_contents r' = drop (nat c) (ring_contents r)"
    using n by (intro ring_contents_eqI)
      (auto simp: r'_def ring_contents_def drop_map ring_at_def mod_add_left_eq add.assoc min_def
        split: if_splits)
  ultimately show ?thesis using wf' by (auto simp: r'_def)
qed

text \<open>\<open>skip\<close> is \<open>read\<close> without the copy.\<close>

lemma ring_skip_read:
  "ring_skip r c = (case ring_read r c of Inl e \<Rightarrow> Inl e
     | Inr (bs, r') \<Rightarrow> Inr (max 0 (min c (int (ring_used r))), r'))"
  by (auto simp: ring_skip_def ring_read_def Let_def)

lemma ring_write_spec:
  assumes wf: "ring_wf r" and src: "nat c \<le> length src"
  shows "\<exists>r'. ring_write r src c = Inr (int (min (nat c) (ring_size r - ring_used r)), r') \<and> ring_wf r'
     \<and> ring_contents r' = ring_contents r @ take (min (nat c) (ring_size r - ring_used r)) src
     \<and> ring_size r' = ring_size r"
proof -
  let ?c = "if int (ring_size r) < int (ring_used r) + c
            then int (ring_size r) - int (ring_used r) else c"
  let ?n = "min (nat c) (ring_size r - ring_used r)"
  show ?thesis
  proof (cases "?c \<le> 0")
    case True
    then have "?n = 0" using wf by (auto simp: ring_wf_def split: if_splits)
    with True wf show ?thesis by (auto simp: ring_write_def Let_def)
  next
    case False
    define n where "n = ?n"
    from False have n: "nat ?c = n" "0 < n" "?c = int n" "n \<le> nat c" "n \<le> ring_size r - ring_used r"
      using wf by (auto simp: n_def ring_wf_def split: if_splits)
    define r' where "r' = r\<lparr>ring_buf := ring_put r (ring_tail r) (take n src),
      ring_used := ring_used r + n\<rparr>"
    have len: "length (take n src) = n" using n src by simp
    have fits: "ring_used r + length (take n src) \<le> ring_size r" "ring_used r < ring_size r"
      using n wf by (auto simp: ring_wf_def)
    have run: "ring_write r src c = Inr (int n, r')"
      using False wf unfolding ring_write_def Let_def n(1) by (simp add: n(3) r'_def ring_wf_def)
    have wf': "ring_wf r'"
      using wf fits n length_ring_put [OF wf fits(1) ring_tail_mod [OF wf] fits(2)]
      by (auto simp: r'_def ring_wf_def)
    have "ring_contents r' = ring_contents r @ take n src"
    proof (rule ring_contents_eqI, goal_cases)
      case 1
      show ?case using len by (simp add: r'_def)
    next
      case (2 i)
      then have i: "i < ring_size r" using fits n by (auto simp: r'_def)
      have "ring_at r' i = ring_put r (ring_tail r) (take n src) ! ((ring_head r + i) mod ring_size r)"
        by (simp add: ring_at_def r'_def)
      also have "\<dots> = (if ring_used r \<le> i \<and> i < ring_used r + length (take n src)
          then take n src ! (i - ring_used r) else ring_at r i)"
        by (rule ring_put_at [OF wf fits(1) i ring_tail_mod [OF wf] fits(2)])
      finally show ?case
        using 2 by (simp only: len) (auto simp: nth_append r'_def)
    qed
    with run wf' show ?thesis by (auto simp: r'_def n_def)
  qed
qed

text \<open>
  The code computes a wrapped position of \<open>peek\<close> as \<open>buf + (offset - (end - src))\<close> where
  \<open>src\<close> already includes the offset: past the end of the buffer the offset counts twice.
\<close>

definition peek_position :: "ring \<Rightarrow> nat \<Rightarrow> nat" where
  "peek_position r off = (if ring_head r + off < ring_size r then off else 2 * off)"

lemma ring_peek_spec:
  assumes wf: "ring_wf r" and off: "0 \<le> off"
  shows "ring_peek r c off =
    (let k = peek_position r (nat off); n = min (nat c) (ring_used r - nat off)
     in if n = 0 then Inr []
        else ensuring (ring_head r + k < 2 * ring_size r)
          (Inr (map (\<lambda>i. ring_at r (k + i)) [0..<n])))"
proof -
  obtain k where k: "off = int k" using off nonneg_int_cases by blast
  let ?cc = "if int (ring_used r) < off + c then int (ring_used r) - off else c"
  define n where "n = min (nat c) (ring_used r - k)"
  show ?thesis
  proof (cases "?cc \<le> 0")
    case True
    then have "n = 0" using k by (auto simp: n_def split: if_splits)
    with True k show ?thesis by (auto simp: ring_peek_def n_def Let_def)
  next
    case False
    have cc: "?cc = int n" using False k by (auto simp: n_def split: if_splits)
    have n: "0 < n" "k < ring_used r" "n \<le> ring_size r"
      using False k wf by (auto simp: n_def ring_wf_def split: if_splits)
    define at where "at = ring_head r + peek_position r k"
    have src: "(if int (ring_size r) \<le> int (ring_head r) + off
          then off - (int (ring_size r) - (int (ring_head r) + off)) else int (ring_head r) + off)
        = (if ring_head r + k < ring_size r then int at else int at - int (ring_size r))"
      using k by (auto simp: at_def peek_position_def)
    have wrap: "ring_size r \<le> at" if "\<not> ring_head r + k < ring_size r"
      using that by (simp add: at_def peek_position_def)
    define p where "p = (if ring_head r + k < ring_size r then at else at - ring_size r)"
    have p: "(if ring_head r + k < ring_size r then int at else int at - int (ring_size r)) = int p"
      using wrap by (auto simp: p_def)
    have inr: "p < ring_size r \<longleftrightarrow> at < 2 * ring_size r"
      using wrap by (auto simp: p_def at_def peek_position_def)
    have "ring_peek r c off = ensuring (p < ring_size r)
       (if p + n < ring_size r then Inr (slice p n (ring_buf r))
        else Inr (slice p (ring_size r - p) (ring_buf r)
             @ slice 0 (n - (ring_size r - p)) (ring_buf r)))"
      unfolding ring_peek_def Let_def cc src p using off k n wf
      by (auto simp: ring_wf_def nat_int_add nat_diff_distrib simp flip: of_nat_diff of_nat_add)
    also have "\<dots> = ensuring (at < 2 * ring_size r) (Inr (map (\<lambda>i. ring_at r (peek_position r k + i)) [0..<n]))"
    proof (cases "p < ring_size r")
      case True
      then have "p = (ring_head r + peek_position r k) mod ring_size r"
        using wrap by (auto simp: p_def at_def ring_mod)
      with True inr ring_copy_out [OF wf n(3) this] show ?thesis by (auto split: if_splits)
    qed (use inr in simp)
    finally show ?thesis using n k by (simp add: n_def [symmetric] at_def Let_def)
  qed
qed

subsection \<open>The contract of a byte queue\<close>

text \<open>
  What the users of the ring (a pipe, the loopback device, a TCP stream) rely on: bytes come
  out in the order in which they went in, none lost and none invented. \<open>fifo_run\<close> runs a
  sequence of calls and collects the bytes the queue accepted and the bytes it gave back.
\<close>

datatype fifo_op = FWrite "u8 list" | FRead int

fun fifo_run ::
  "('q \<Rightarrow> u8 list \<Rightarrow> int \<Rightarrow> (int \<times> 'q) result) \<Rightarrow> ('q \<Rightarrow> int \<Rightarrow> (u8 list \<times> 'q) result) \<Rightarrow>
   'q \<Rightarrow> fifo_op list \<Rightarrow> (u8 list \<times> u8 list \<times> 'q) result" where
  "fifo_run wr rd q [] = Inr ([], [], q)"
| "fifo_run wr rd q (FWrite bs # ops) =
     (case wr q bs (int (length bs)) of Inl e \<Rightarrow> Inl e
      | Inr (n, q') \<Rightarrow> (case fifo_run wr rd q' ops of Inl e \<Rightarrow> Inl e
          | Inr (acc, out, q'') \<Rightarrow> Inr (take (nat n) bs @ acc, out, q'')))"
| "fifo_run wr rd q (FRead n # ops) =
     (case rd q n of Inl e \<Rightarrow> Inl e
      | Inr (bs, q') \<Rightarrow> (case fifo_run wr rd q' ops of Inl e \<Rightarrow> Inl e
          | Inr (acc, out, q'') \<Rightarrow> Inr (acc, bs @ out, q'')))"

locale byte_fifo =
  fixes wf :: "'q \<Rightarrow> bool"
    and contents :: "'q \<Rightarrow> u8 list"
    and capacity :: "'q \<Rightarrow> nat"
    and wr :: "'q \<Rightarrow> u8 list \<Rightarrow> int \<Rightarrow> (int \<times> 'q) result"
    and rd :: "'q \<Rightarrow> int \<Rightarrow> (u8 list \<times> 'q) result"
  assumes bounded: "wf q \<Longrightarrow> length (contents q) \<le> capacity q"
    and write_law: "wf q \<Longrightarrow> nat c \<le> length src \<Longrightarrow>
      \<exists>q'. wr q src c = Inr (int (min (nat c) (capacity q - length (contents q))), q') \<and> wf q'
        \<and> contents q' = contents q @ take (min (nat c) (capacity q - length (contents q))) src
        \<and> capacity q' = capacity q"
    and read_law: "wf q \<Longrightarrow>
      \<exists>q'. rd q c = Inr (take (nat c) (contents q), q') \<and> wf q'
        \<and> contents q' = drop (nat c) (contents q) \<and> capacity q' = capacity q"
begin

lemma run_fifo:
  "wf q \<Longrightarrow> \<exists>acc out q'. fifo_run wr rd q ops = Inr (acc, out, q') \<and> wf q'
     \<and> capacity q' = capacity q \<and> contents q @ acc = out @ contents q'"
proof (induction ops arbitrary: q)
  case Nil
  then show ?case by simp
next
  case (Cons op ops)
  show ?case
  proof (cases op)
    case (FWrite bs)
    let ?n = "min (length bs) (capacity q - length (contents q))"
    obtain q1 where q1: "wr q bs (int (length bs)) = Inr (int ?n, q1)" "wf q1"
      "contents q1 = contents q @ take ?n bs" "capacity q1 = capacity q"
      using write_law [OF Cons.prems, of "int (length bs)" bs] by auto
    obtain acc out q2 where "fifo_run wr rd q1 ops = Inr (acc, out, q2)" "wf q2"
      "capacity q2 = capacity q1" "contents q1 @ acc = out @ contents q2"
      using Cons.IH [OF q1(2)] by blast
    with q1 FWrite show ?thesis by simp
  next
    case (FRead c)
    obtain q1 where q1: "rd q c = Inr (take (nat c) (contents q), q1)" "wf q1"
      "contents q1 = drop (nat c) (contents q)" "capacity q1 = capacity q"
      using read_law [OF Cons.prems] by blast
    obtain acc out q2 where q2: "fifo_run wr rd q1 ops = Inr (acc, out, q2)" "wf q2"
      "capacity q2 = capacity q1" "contents q1 @ acc = out @ contents q2"
      using Cons.IH [OF q1(2)] by blast
    have "contents q @ acc = take (nat c) (contents q) @ (drop (nat c) (contents q) @ acc)" by simp
    with q1 q2 FRead show ?thesis by simp
  qed
qed

lemma run_never_fails: "wf q \<Longrightarrow> fifo_run wr rd q ops \<noteq> Inl e"
  using run_fifo [of q ops] by auto

lemma run_output_prefix:
  assumes "wf q" "contents q = []" "fifo_run wr rd q ops = Inr (acc, out, q')"
  shows "out = take (length out) acc \<and> length acc - length out \<le> capacity q"
proof -
  have "wf q'" "capacity q' = capacity q" "acc = out @ contents q'"
    using run_fifo [OF assms(1), of ops] assms(2,3) by auto
  with bounded [of q'] show ?thesis by simp
qed

end

interpretation ring_fifo: byte_fifo ring_wf ring_contents ring_size ring_write ring_read
  by unfold_locales
    (use ring_write_spec ring_read_spec in \<open>auto simp: ring_wf_def\<close>)

definition ring_run :: "ring \<Rightarrow> fifo_op list \<Rightarrow> (u8 list \<times> u8 list \<times> ring) result" where
  "ring_run = fifo_run ring_write ring_read"

lemma ring_init_wf: "b \<noteq> [] \<Longrightarrow> ring_wf (ring_init b)"
  by (simp add: ring_wf_def ring_init_def)

lemma ring_init_contents [simp]: "ring_contents (ring_init b) = []"
  by (simp add: ring_contents_def ring_init_def)

subsection \<open>Properties\<close>

text \<open>C29: Whatever sequence of reads and writes is made on a well-formed ring, no assertion
  fails, the ring stays well-formed, and the bytes come out in the order they were accepted:
  old contents followed by the accepted bytes are the bytes read followed by the new contents.\<close>

theorem ring_keeps_byte_order:
  assumes "ring_wf r"
  shows "\<exists>acc out r'. ring_run r ops = Inr (acc, out, r') \<and> ring_wf r'
     \<and> ring_contents r @ acc = out @ ring_contents r'"
  using ring_fifo.run_fifo [OF assms, of ops] unfolding ring_run_def by blast

theorem ring_keeps_byte_order_witness:
  "\<exists>acc out r'. ring_run (ring_init [0, 0, 0, 0])
       [FWrite [1, 2, 3], FRead 2, FWrite [4, 5, 6, 7], FRead 9] = Inr (acc, out, r')
     \<and> ring_wf r' \<and> [] @ acc = out @ ring_contents r'"
  using ring_keeps_byte_order [OF ring_init_wf [of "[0, 0, 0, 0]"],
      of "[FWrite [1, 2, 3], FRead 2, FWrite [4, 5, 6, 7], FRead 9]"]
  by simp

text \<open>As long as the position peeked at does not wrap past the end of the buffer,
  \<open>peek\<close> returns the bytes of the contents at the offset, cut to what is there.\<close>

theorem ring_peek_unwrapped:
  assumes "ring_wf r" and "0 \<le> off" and "ring_head r + nat off < ring_size r"
  shows "ring_peek r c off = Inr (take (nat c) (drop (nat off) (ring_contents r)))"
proof -
  have "map (\<lambda>i. ring_at r (nat off + i)) [0..<min (nat c) (ring_used r - nat off)]
      = take (nat c) (drop (nat off) (ring_contents r))"
    by (intro nth_equalityI) (auto simp: min.commute less_diff_conv add.commute)
  with assms show ?thesis by (auto simp: ring_peek_spec peek_position_def Let_def)
qed

theorem ring_peek_unwrapped_witness:
  "ring_peek \<lparr>ring_buf = [3, 4, 0, 0, 1, 2], ring_size = 6, ring_head = 4, ring_used = 4\<rparr> 2 1
   = Inr [2, 3]"
  by (subst ring_peek_unwrapped)
    (simp_all add: ring_wf_def ring_contents_def ring_at_def upt_rec)

text \<open>C36: When the position does wrap, the offset is counted twice: \<open>peek\<close> reads from twice
  the offset, or fails its assertion when even that lies past the end of the second lap.\<close>

theorem ring_peek_wrapped:
  assumes "ring_wf r" and "0 \<le> off" and "off < int (ring_used r)" and "0 < c"
    and "ring_size r \<le> ring_head r + nat off"
  shows "ring_peek r c off =
    (if ring_head r + 2 * nat off < 2 * ring_size r
     then Inr (map (\<lambda>i. ring_at r (2 * nat off + i)) [0..<min (nat c) (ring_used r - nat off)])
     else Inl AssertFailed)"
  using assms by (auto simp: ring_peek_spec peek_position_def Let_def)

theorem ring_peek_wrapped_witness:
  "let r = \<lparr>ring_buf = [3, 4, 5, 6, 0, 0, 1, 2], ring_size = 8, ring_head = 6, ring_used = 6\<rparr>
   in ring_contents r = [1, 2, 3, 4, 5, 6] \<and> ring_peek r 2 3 = Inr [0, 0]"
  unfolding Let_def
  by (subst ring_peek_wrapped)
    (simp_all add: ring_wf_def ring_contents_def ring_at_def upt_rec)

end
