(* ===== verification/RingWindow.thy ===== *)
theory RingWindow
  imports RingBuffer
begin

text \<open>
  Out-of-order writes into the ring (\<open>Ring::write\<close> with an offset, and \<open>Ring::marge\<close>): the
  receive window of a TCP stream. The block array is abstracted to a list of intervals of
  positions from the tail. The theory proves that one pass over the array is enough because
  the blocks are pairwise separated, that no byte is reported before it has arrived, and that
  the bytes handed over are those of the stream.
\<close>

subsection \<open>Merging intervals\<close>

type_synonym ivl = "nat \<times> nat" \<comment> \<open>start and length\<close>

fun ivl_set :: "ivl \<Rightarrow> nat set" where
  "ivl_set (p, c) = {p..<p + c}"

definition cover :: "ivl list \<Rightarrow> nat set" where
  "cover bs = (\<Union>b\<in>set bs. ivl_set b)"

fun apart :: "ivl \<Rightarrow> ivl \<Rightarrow> bool" where
  "apart (p, c) (q, d) \<longleftrightarrow> p + c < q \<or> q + d < p"

fun absorb :: "ivl list \<Rightarrow> nat \<Rightarrow> nat \<Rightarrow> ivl list \<times> nat \<times> nat" where
  "absorb [] pl pr = ([], pl, pr)"
| "absorb ((pb, c) # bs) pl pr =
     (if pl \<le> pb + c \<and> pb \<le> pr then absorb bs (min pb pl) (max (pb + c) pr)
      else let (ks, pl', pr') = absorb bs pl pr in ((pb, c) # ks, pl', pr'))"

lemma cover_simps [simp]:
  "cover [] = {}" "cover ((p, c) # bs) = {p..<p + c} \<union> cover bs"
  "cover (bs @ ds) = cover bs \<union> cover ds"
  by (auto simp: cover_def)

lemma apart_commute: "apart x y \<longleftrightarrow> apart y x"
  by (cases x; cases y) auto

lemma absorb_bounds: "absorb bs pl pr = (ks, pl', pr') \<Longrightarrow> pl' \<le> pl \<and> pr \<le> pr'"
  by (induction bs pl pr arbitrary: ks rule: absorb.induct) (fastforce split: if_splits prod.splits)+

lemma absorb_subset: "absorb bs pl pr = (ks, pl', pr') \<Longrightarrow> set ks \<subseteq> set bs"
  by (induction bs pl pr arbitrary: ks rule: absorb.induct) (fastforce split: if_splits prod.splits)+

lemma absorb_cover:
  "absorb bs pl pr = (ks, pl', pr') \<Longrightarrow> pl \<le> pr \<Longrightarrow>
   cover ks \<union> {pl'..<pr'} = cover bs \<union> {pl..<pr}"
proof (induction bs pl pr arbitrary: ks rule: absorb.induct)
  case (1 pl pr)
  then show ?case by simp
next
  case (2 pb c bs pl pr)
  show ?case
  proof (cases "pl \<le> pb + c \<and> pb \<le> pr")
    case True
    with 2 have "cover ks \<union> {pl'..<pr'} = cover bs \<union> {min pb pl..<max (pb + c) pr}" by simp
    moreover from True have "{min pb pl..<max (pb + c) pr} = {pb..<pb + c} \<union> {pl..<pr}" by auto
    ultimately show ?thesis by (simp add: Un_ac)
  next
    case False
    then obtain ks' where ks: "absorb bs pl pr = (ks', pl', pr')" "ks = (pb, c) # ks'"
      using 2 by (auto split: prod.splits)
    have "cover ks' \<union> {pl'..<pr'} = cover bs \<union> {pl..<pr}"
      using 2(2) [OF False ks(1)] 2(4) by simp
    with ks show ?thesis by auto
  qed
qed

text \<open>
  The interval that grows absorbs every block it touches, although the code looks at each
  block once: an earlier block that stayed out is apart from the later ones, so it stays
  apart from the union.
\<close>

lemma absorb_keeps_apart:
  "absorb bs pl pr = (ks, pl', pr') \<Longrightarrow> pl \<le> pr \<Longrightarrow>
   apart x (pl, pr - pl) \<Longrightarrow> (\<forall>b\<in>set bs. apart x b) \<Longrightarrow> apart x (pl', pr' - pl')"
proof (induction bs pl pr arbitrary: ks rule: absorb.induct)
  case (1 pl pr)
  then show ?case by simp
next
  case (2 pb c bs pl pr)
  show ?case
  proof (cases "pl \<le> pb + c \<and> pb \<le> pr")
    case True
    with 2 have "apart x (min pb pl, max (pb + c) pr - min pb pl)"
      by (cases x) (auto simp: min_def max_def)
    with 2(1) [OF True] 2(3-) True show ?thesis by (auto simp: le_max_iff_disj min_le_iff_disj)
  next
    case False
    then obtain ks' where "absorb bs pl pr = (ks', pl', pr')"
      using 2 by (auto split: prod.splits)
    with 2(2) [OF False] 2(4-) show ?thesis by simp
  qed
qed

lemma absorb_apart:
  "absorb bs pl pr = (ks, pl', pr') \<Longrightarrow> pl \<le> pr \<Longrightarrow> sorted_wrt apart bs \<Longrightarrow>
   sorted_wrt apart ks \<and> (\<forall>b\<in>set ks. apart b (pl', pr' - pl'))"
proof (induction bs pl pr arbitrary: ks rule: absorb.induct)
  case (1 pl pr)
  then show ?case by simp
next
  case (2 pb c bs pl pr)
  show ?case
  proof (cases "pl \<le> pb + c \<and> pb \<le> pr")
    case True
    with 2 show ?thesis by (auto simp: le_max_iff_disj min_le_iff_disj)
  next
    case False
    then obtain ks' where ks: "absorb bs pl pr = (ks', pl', pr')" "ks = (pb, c) # ks'"
      using 2 by (auto split: prod.splits)
    have IH: "sorted_wrt apart ks' \<and> (\<forall>b\<in>set ks'. apart b (pl', pr' - pl'))"
      using 2(2) [OF False ks(1)] 2(4-) by simp
    have "apart (pb, c) (pl', pr' - pl')"
      by (rule absorb_keeps_apart [OF ks(1)]) (use False 2(4-) in auto)
    with IH ks absorb_subset [OF ks(1)] 2(5) show ?thesis by auto
  qed
qed

text \<open>No block is absorbed exactly if all of them are apart from the interval.\<close>

lemma absorb_none: "\<forall>b\<in>set bs. apart b (pl, pr - pl) \<Longrightarrow> pl \<le> pr \<Longrightarrow> absorb bs pl pr = (bs, pl, pr)"
  by (induction bs pl pr rule: absorb.induct) auto

lemma absorb_length: "absorb bs pl pr = (ks, pl', pr') \<Longrightarrow> length ks \<le> length bs"
  by (induction bs pl pr arbitrary: ks rule: absorb.induct) (fastforce split: if_splits prod.splits)+

lemma absorb_all_kept:
  "absorb bs pl pr = (ks, pl', pr') \<Longrightarrow> length ks = length bs \<Longrightarrow> ks = bs \<and> pl' = pl \<and> pr' = pr"
proof (induction bs pl pr arbitrary: ks rule: absorb.induct)
  case (2 pb c bs pl pr)
  show ?case
  proof (cases "pl \<le> pb + c \<and> pb \<le> pr")
    case True
    then have "length ks \<le> length bs" using 2(3) absorb_length by simp
    then show ?thesis using 2(4) by simp
  next
    case False
    then show ?thesis using 2(2) [OF False] 2(3,4) by (fastforce split: prod.splits)
  qed
qed simp

subsection \<open>The loops of \<open>marge\<close>\<close>

definition vec_ivl :: "ring \<Rightarrow> nat \<Rightarrow> vec \<Rightarrow> ivl" where
  "vec_ivl r tail v = (ring_pos r tail (the (vec_data v)), vec_count v)"

abbreviation nulls :: "nat \<Rightarrow> vec list" where
  "nulls k \<equiv> replicate k vec_null"

lemma vec_delete_at [simp]: "vec_delete (ds @ v # vs @ nulls k) (length ds) = ds @ vs @ nulls (Suc k)"
  by (simp add: vec_delete_def replicate_append_same)

lemma vec_null_data [simp]: "vec_data vec_null = None"
  by (simp add: vec_null_def)

lemma loop_stops: "\<not> (length ds < length (ds @ nulls k) \<and> vec_data ((ds @ nulls k) ! length ds) \<noteq> None)"
  by (cases k) auto

lemma marge_tail_absorb:
  "\<forall>v\<in>set vs. vec_data v \<noteq> None \<Longrightarrow>
   \<exists>ks pr'. marge_tail r tail (ds @ vs @ nulls k) (length ds) pr
       = (ds @ ks @ nulls (length vs + k - length ks), pr')
     \<and> absorb (map (vec_ivl r tail) vs) 0 pr = (map (vec_ivl r tail) ks, 0, pr')
     \<and> set ks \<subseteq> set vs \<and> length ks \<le> length vs"
proof (induction vs arbitrary: ds k pr)
  case Nil
  then show ?case using loop_stops [of ds k] by (subst marge_tail.simps) auto
next
  case (Cons v vs)
  let ?pb = "ring_pos r tail (the (vec_data v))"
  let ?B = "ds @ (v # vs) @ nulls k"
  have iv: "vec_ivl r tail v = (?pb, vec_count v)" by (simp add: vec_ivl_def)
  have go: "length ds < length ?B \<and> vec_data (?B ! length ds) \<noteq> None" using Cons.prems by simp
  show ?case
  proof (cases "?pb \<le> pr")
    case True
    then have "marge_tail r tail ?B (length ds) pr
        = marge_tail r tail (ds @ vs @ nulls (Suc k)) (length ds) (max (?pb + vec_count v) pr)"
      using go by (subst marge_tail.simps) (simp add: Let_def)
    moreover obtain ks pr' where "marge_tail r tail (ds @ vs @ nulls (Suc k)) (length ds)
          (max (?pb + vec_count v) pr) = (ds @ ks @ nulls (length vs + Suc k - length ks), pr')"
      "absorb (map (vec_ivl r tail) vs) 0 (max (?pb + vec_count v) pr) = (map (vec_ivl r tail) ks, 0, pr')"
      "set ks \<subseteq> set vs" "length ks \<le> length vs"
      using Cons.IH [of ds "Suc k"] Cons.prems by force
    ultimately show ?thesis using True by (intro exI [of _ ks] exI [of _ pr']) (auto simp: iv)
  next
    case False
    then have "marge_tail r tail ?B (length ds) pr
        = marge_tail r tail ((ds @ [v]) @ vs @ nulls k) (length (ds @ [v])) pr"
      using go by (subst marge_tail.simps) (simp add: Let_def)
    moreover obtain ks pr' where "marge_tail r tail ((ds @ [v]) @ vs @ nulls k) (length (ds @ [v])) pr
        = ((ds @ [v]) @ ks @ nulls (length vs + k - length ks), pr')"
      "absorb (map (vec_ivl r tail) vs) 0 pr = (map (vec_ivl r tail) ks, 0, pr')"
      "set ks \<subseteq> set vs" "length ks \<le> length vs"
      using Cons.IH [of "ds @ [v]" k] Cons.prems by force
    ultimately show ?thesis using False
      by (intro exI [of _ "v # ks"] exI [of _ pr']) (auto simp: iv)
  qed
qed

lemma marge_block_absorb:
  "\<forall>v\<in>set vs. vec_data v \<noteq> None \<Longrightarrow> ring_pos r tail adv = pl \<Longrightarrow>
   \<exists>ks pl' pr' adv'. marge_block r tail (ds @ vs @ nulls k) (length ds) pl pr adv
       = (ds @ ks @ nulls (length vs + k - length ks), length ds + length ks, pl', pr', adv')
     \<and> absorb (map (vec_ivl r tail) vs) pl pr = (map (vec_ivl r tail) ks, pl', pr')
     \<and> ring_pos r tail adv' = pl' \<and> set ks \<subseteq> set vs \<and> length ks \<le> length vs
     \<and> adv' \<in> insert adv (set (map (the \<circ> vec_data) vs))"
proof (induction vs arbitrary: ds k pl pr adv)
  case Nil
  then show ?case using loop_stops [of ds k] by (subst marge_block.simps) auto
next
  case (Cons v vs)
  let ?d = "the (vec_data v)"
  let ?pb = "ring_pos r tail ?d"
  let ?B = "ds @ (v # vs) @ nulls k"
  have iv: "vec_ivl r tail v = (?pb, vec_count v)" by (simp add: vec_ivl_def)
  have go: "length ds < length ?B \<and> vec_data (?B ! length ds) \<noteq> None" using Cons.prems by simp
  show ?case
  proof (cases "pl \<le> ?pb + vec_count v \<and> ?pb \<le> pr")
    case True
    let ?pl = "if ?pb < pl then ?pb else pl" and ?adv = "if ?pb < pl then ?d else adv"
      and ?pr = "max (?pb + vec_count v) pr"
    have pos: "ring_pos r tail ?adv = ?pl" using Cons.prems by simp
    have vs: "\<forall>v\<in>set vs. vec_data v \<noteq> None" using Cons.prems by simp
    have "marge_block r tail ?B (length ds) pl pr adv
        = marge_block r tail (ds @ vs @ nulls (Suc k)) (length ds) ?pl ?pr ?adv"
      using go True by (subst marge_block.simps) (simp add: Let_def)
    moreover obtain ks pl' pr' adv' where
      "marge_block r tail (ds @ vs @ nulls (Suc k)) (length ds) ?pl ?pr ?adv
        = (ds @ ks @ nulls (length vs + Suc k - length ks), length ds + length ks, pl', pr', adv')"
      "absorb (map (vec_ivl r tail) vs) ?pl ?pr = (map (vec_ivl r tail) ks, pl', pr')"
      "ring_pos r tail adv' = pl'" "set ks \<subseteq> set vs" "length ks \<le> length vs"
      "adv' \<in> insert ?adv (set (map (the \<circ> vec_data) vs))"
      using Cons.IH [OF vs pos, of ds "Suc k" ?pr] by blast
    moreover have "?pl = min ?pb pl" by simp
    moreover have "absorb (map (vec_ivl r tail) (v # vs)) pl pr
        = absorb (map (vec_ivl r tail) vs) (min ?pb pl) ?pr"
      using True by (simp add: iv)
    ultimately show ?thesis
      by (intro exI [of _ ks] exI [of _ pl'] exI [of _ pr'] exI [of _ adv'] conjI)
        (simp_all only: length_Cons add_Suc add_Suc_right append_Cons, auto split: if_splits)
  next
    case False
    then have "marge_block r tail ?B (length ds) pl pr adv
        = marge_block r tail ((ds @ [v]) @ vs @ nulls k) (length (ds @ [v])) pl pr adv"
      using go by (subst marge_block.simps) (auto simp: Let_def)
    moreover obtain ks pl' pr' adv' where
      "marge_block r tail ((ds @ [v]) @ vs @ nulls k) (length (ds @ [v])) pl pr adv
        = ((ds @ [v]) @ ks @ nulls (length vs + k - length ks), length (ds @ [v]) + length ks, pl', pr', adv')"
      "absorb (map (vec_ivl r tail) vs) pl pr = (map (vec_ivl r tail) ks, pl', pr')"
      "ring_pos r tail adv' = pl'" "set ks \<subseteq> set vs" "length ks \<le> length vs"
      "adv' \<in> insert adv (set (map (the \<circ> vec_data) vs))"
      using Cons.IH [OF _ Cons.prems(2), of "ds @ [v]" k pr] Cons.prems(1) by auto
    ultimately show ?thesis using False
      by (intro exI [of _ "v # ks"] exI [of _ pl'] exI [of _ pr'] exI [of _ adv']) (auto simp: iv)
  qed
qed

subsection \<open>The receive window\<close>

definition win_live :: "vec list \<Rightarrow> vec list" where
  "win_live blocks = takeWhile (\<lambda>v. vec_data v \<noteq> None) blocks"

definition win_ivls :: "ring \<Rightarrow> vec list \<Rightarrow> ivl list" where
  "win_ivls r blocks = map (vec_ivl r (ring_tail r)) (win_live blocks)"

definition vec_ok :: "ring \<Rightarrow> vec \<Rightarrow> bool" where
  "vec_ok r v \<longleftrightarrow> vec_data v \<noteq> None \<and> the (vec_data v) < ring_size r \<and> 0 < vec_count v
     \<and> 0 < ring_pos r (ring_tail r) (the (vec_data v))
     \<and> ring_pos r (ring_tail r) (the (vec_data v)) + vec_count v \<le> ring_size r - ring_used r"

text \<open>
  The invariant of the window: the live blocks come first in the array, lie strictly beyond
  the tail and within the free space, are pairwise separated, and every byte in them is the
  byte of the stream \<open>S\<close> at that position (counted from the tail).
\<close>

definition win_inv :: "ring \<Rightarrow> vec list \<Rightarrow> (nat \<Rightarrow> u8) \<Rightarrow> bool" where
  "win_inv r blocks S \<longleftrightarrow> ring_wf r \<and> 1 < length blocks
     \<and> blocks = win_live blocks @ nulls (length blocks - length (win_live blocks))
     \<and> (\<forall>v\<in>set (win_live blocks). vec_ok r v)
     \<and> sorted_wrt apart (win_ivls r blocks)
     \<and> (\<forall>j\<in>cover (win_ivls r blocks). ring_at r (ring_used r + j) = S j)"

text \<open>The array of blocks is full, and a new block \<open>(k, c)\<close> beyond the tail touches none of them: then
  the code drops the first block of the array for it.\<close>

definition win_forgets :: "ring \<Rightarrow> vec list \<Rightarrow> nat \<Rightarrow> nat \<Rightarrow> bool" where
  "win_forgets r blocks k c \<longleftrightarrow>
     win_live blocks = blocks \<and> 0 < k \<and> 0 < c \<and> (\<forall>b\<in>set (win_ivls r blocks). apart b (k, c))"

lemma apart_disjoint: "apart a b \<Longrightarrow> ivl_set a \<inter> ivl_set b = {}"
  by (cases a; cases b) auto

lemma cover_tl: "sorted_wrt apart ks \<Longrightarrow> ks \<noteq> [] \<Longrightarrow> cover (tl ks) = cover ks - ivl_set (hd ks)"
  by (cases ks) (auto simp: cover_def dest: apart_disjoint)

lemma win_live_append: "\<forall>v\<in>set vs. vec_data v \<noteq> None \<Longrightarrow> win_live (vs @ nulls k) = vs"
  by (cases k) (simp_all add: win_live_def)

lemma win_live_data: "v \<in> set (win_live blocks) \<Longrightarrow> vec_data v \<noteq> None"
  by (auto simp: win_live_def dest: set_takeWhileD)

lemma win_invI:
  assumes "ring_wf r" "1 < length vs + k" "\<And>v. v \<in> set vs \<Longrightarrow> vec_ok r v"
    and "sorted_wrt apart (map (vec_ivl r (ring_tail r)) vs)"
    and "\<And>j. j \<in> cover (map (vec_ivl r (ring_tail r)) vs) \<Longrightarrow> ring_at r (ring_used r + j) = S j"
  shows "win_inv r (vs @ nulls k) S"
proof -
  have "win_live (vs @ nulls k) = vs"
    using assms(3) by (intro win_live_append) (auto simp: vec_ok_def)
  with assms show ?thesis by (auto simp: win_inv_def win_ivls_def)
qed

lemma ring_pos_iff:
  assumes "tail < ring_size r" "d < ring_size r" "p < ring_size r"
  shows "ring_pos r tail d = p \<longleftrightarrow> d = (tail + p) mod ring_size r"
  using assms by (auto simp: ring_pos_def ring_mod)

lemma ring_pos_less:
  "tail < ring_size r \<Longrightarrow> d < ring_size r \<Longrightarrow> ring_pos r tail d < ring_size r"
  by (auto simp: ring_pos_def)

lemma ring_pos_shift:
  assumes "tail < ring_size r" "d < ring_size r" "n \<le> ring_pos r tail d"
  shows "ring_pos r ((tail + n) mod ring_size r) d = ring_pos r tail d - n"
proof -
  let ?N = "ring_size r" and ?p = "ring_pos r tail d"
  have p: "?p < ?N" "d = (tail + ?p) mod ?N"
    using assms ring_pos_less [of tail r d] ring_pos_iff [of tail r d ?p] by auto
  have "((tail + n) mod ?N + (?p - n)) mod ?N = (tail + n + (?p - n)) mod ?N"
    by (rule mod_add_left_eq)
  with p assms show ?thesis
    by (subst ring_pos_iff) auto
qed

lemma ring_tail_less: "ring_wf r \<Longrightarrow> ring_tail r < ring_size r"
  by (auto simp: ring_tail_mod ring_wf_def)

text \<open>Storing bytes of the stream at a window position changes no other byte of the window.\<close>

lemma ring_put_window:
  fixes r :: ring
  assumes wf: "ring_wf r" and fit: "ring_used r + k + length bs \<le> ring_size r" "bs \<noteq> []"
    and r': "r' = r\<lparr>ring_buf := ring_put r ((ring_head r + (ring_used r + k)) mod ring_size r) bs\<rparr>"
  shows "ring_wf r'" and "ring_tail r' = ring_tail r" and "ring_used r' = ring_used r"
    and "ring_size r' = ring_size r" and "ring_head r' = ring_head r"
    and "ring_contents r' = ring_contents r"
    and "j < ring_size r - ring_used r \<Longrightarrow> ring_at r' (ring_used r + j)
          = (if k \<le> j \<and> j < k + length bs then bs ! (j - k) else ring_at r (ring_used r + j))"
proof -
  let ?k = "ring_used r + k"
  let ?at = "(ring_head r + ?k) mod ring_size r"
  have k: "?k + length bs \<le> ring_size r" "?k < ring_size r" using fit by (cases bs; simp)+
  have put: "ring_at r' i = (if ?k \<le> i \<and> i < ?k + length bs then bs ! (i - ?k) else ring_at r i)"
    if "i < ring_size r" for i
    using ring_put_at [OF wf k(1) that refl k(2)] by (simp add: r' ring_at_def)
  show "ring_wf r'"
    using wf length_ring_put [OF wf k(1) refl k(2)] by (simp add: r' ring_wf_def)
  show "ring_tail r' = ring_tail r" "ring_used r' = ring_used r" "ring_size r' = ring_size r"
    "ring_head r' = ring_head r" by (simp_all add: r' ring_tail_def Let_def)
  show "ring_contents r' = ring_contents r"
    by (rule ring_contents_eqI) (use put k wf in \<open>auto simp: r' ring_wf_def\<close>)
  show "j < ring_size r - ring_used r \<Longrightarrow> ring_at r' (ring_used r + j)
      = (if k \<le> j \<and> j < k + length bs then bs ! (j - k) else ring_at r (ring_used r + j))"
    using put [of "ring_used r + j"] by auto
qed

lemma vec_ivl_set: "vec_ok r v \<Longrightarrow> ivl_set (vec_ivl r (ring_tail r) v) \<subseteq> {0<..<ring_size r - ring_used r}"
  by (auto simp: vec_ok_def vec_ivl_def)

lemma cover_window:
  "\<forall>v\<in>set vs. vec_ok r v \<Longrightarrow>
   cover (map (vec_ivl r (ring_tail r)) vs) \<subseteq> {0<..<ring_size r - ring_used r}"
  using vec_ivl_set by (fastforce simp: cover_def)

lemma cover_mono: "set ks \<subseteq> set bs \<Longrightarrow> cover ks \<subseteq> cover bs"
  by (auto simp: cover_def)

lemma marge_tail_spec:
  assumes inv: "win_inv r blocks S"
    and new: "\<And>j. j < c \<Longrightarrow> ring_at r (ring_used r + j) = S j"
    and c: "0 < c" "c \<le> ring_size r - ring_used r"
  defines "A \<equiv> {0..<c} \<union> cover (win_ivls r blocks)"
  shows "\<exists>n blocks' r'. ring_marge r (ring_tail r) c blocks (ring_tail r) = Inr (n, blocks', r')
     \<and> win_inv r' blocks' (\<lambda>j. S (n + j)) \<and> ring_contents r' = ring_contents r @ map S [0..<n]
     \<and> {0..<n} \<subseteq> A \<and> n \<notin> A \<and> length blocks' = length blocks
     \<and> (\<lambda>j. n + j) ` cover (win_ivls r' blocks') = A - {0..<n}"
proof -
  let ?t = "ring_tail r" and ?vs = "win_live blocks"
  define k where "k = length blocks - length ?vs"
  have wf: "ring_wf r" and t: "?t < ring_size r" and blocks: "blocks = [] @ ?vs @ nulls k"
    and vok: "\<forall>v\<in>set ?vs. vec_ok r v" and sep: "sorted_wrt apart (map (vec_ivl r ?t) ?vs)"
    and data: "\<forall>j\<in>cover (map (vec_ivl r ?t) ?vs). ring_at r (ring_used r + j) = S j"
    and len: "1 < length blocks"
    using inv ring_tail_less by (auto simp: win_inv_def win_ivls_def k_def)
  obtain ks n where run: "marge_tail r ?t blocks 0 c = (ks @ nulls (length ?vs + k - length ks), n)"
    and ab: "absorb (map (vec_ivl r ?t) ?vs) 0 c = (map (vec_ivl r ?t) ks, 0, n)"
    and ks: "set ks \<subseteq> set ?vs" "length ks \<le> length ?vs"
    using marge_tail_absorb [of ?vs r ?t "[]" k c] win_live_data [of _ blocks] blocks by fastforce
  let ?r = "r\<lparr>ring_used := ring_used r + n\<rparr>"
  have A: "A = cover (map (vec_ivl r ?t) ks) \<union> {0..<n}"
    using absorb_cover [OF ab] by (auto simp: A_def win_ivls_def)
  have "A \<subseteq> {0..<ring_size r - ring_used r}"
    using cover_window [OF vok] c by (auto simp: A_def win_ivls_def)
  moreover have "c \<le> n" using absorb_bounds [OF ab] by simp
  ultimately have n: "0 < n" "n \<le> ring_size r - ring_used r"
    using c A by (force, cases n) auto
  have beyond: "n < ring_pos r ?t (the (vec_data v))" if "v \<in> set ks" for v
    using absorb_apart [OF ab _ sep] that by (auto simp: vec_ivl_def)
  have tail': "ring_tail ?r = (?t + n) mod ring_size r" and wf': "ring_wf ?r"
    using wf n ring_tail_mod [of ?r] ring_tail_mod [OF wf]
    by (auto simp: ring_wf_def mod_add_left_eq add.assoc)
  have shift: "vec_ivl ?r (ring_tail ?r) v = (ring_pos r ?t (the (vec_data v)) - n, vec_count v)"
    if "v \<in> set ks" for v
  proof -
    have "the (vec_data v) < ring_size r" using that ks vok by (auto simp: vec_ok_def)
    then have "ring_pos r ((?t + n) mod ring_size r) (the (vec_data v)) = ring_pos r ?t (the (vec_data v)) - n"
      using ring_pos_shift [OF t] beyond [OF that] by auto
    moreover have "ring_pos ?r a b = ring_pos r a b" for a b by (simp add: ring_pos_def)
    ultimately show ?thesis by (simp add: vec_ivl_def tail')
  qed
  have at': "ring_at ?r i = ring_at r i" for i by (simp add: ring_at_def)
  have "win_inv ?r (ks @ nulls (length ?vs + k - length ks)) (\<lambda>j. S (n + j))"
  proof (rule win_invI [OF wf'], goal_cases)
    case 1
    have "length blocks = length ?vs + k" by (subst blocks) simp
    then show ?case using len ks(2) by linarith
  next
    case (2 v)
    then have "vec_ok r v" using ks vok by auto
    with shift [OF 2] beyond [OF 2] show ?case by (auto simp: vec_ok_def vec_ivl_def)
  next
    case 3
    have "sorted_wrt apart (map (vec_ivl r ?t) ks)" using absorb_apart [OF ab _ sep] by simp
    then show ?case unfolding sorted_wrt_map
      by (rule sorted_wrt_mono_rel [rotated])
        (use shift beyond in \<open>fastforce simp: vec_ivl_def\<close>)
  next
    case (4 j)
    then obtain v where v: "v \<in> set ks" "j \<in> ivl_set (vec_ivl ?r (ring_tail ?r) v)"
      by (auto simp: cover_def)
    then have "n + j \<in> ivl_set (vec_ivl r ?t v)" using shift beyond by (fastforce simp: vec_ivl_def)
    then have "n + j \<in> cover (map (vec_ivl r ?t) ?vs)" using v ks by (auto simp: cover_def)
    with data show ?case by (auto simp: at' add.assoc)
  qed
  moreover have "ring_contents ?r = ring_contents r @ map S [0..<n]"
  proof (rule ring_contents_eqI, goal_cases)
    case (2 i)
    show ?case
    proof (cases "i < ring_used r")
      case False
      then obtain j where j: "i = ring_used r + j" "j < n" using 2 le_Suc_ex by (auto simp: not_less)
      then have "j \<in> A" using A by auto
      then have "ring_at r (ring_used r + j) = S j" using new data by (auto simp: A_def win_ivls_def)
      with j show ?thesis by (simp add: nth_append at')
    qed (simp add: nth_append at')
  qed simp
  moreover have "(\<lambda>j. n + j) ` cover (win_ivls ?r (ks @ nulls (length ?vs + k - length ks))) = A - {0..<n}"
  proof -
    have "\<forall>v\<in>set ks. vec_data v \<noteq> None" using ks vok by (auto simp: vec_ok_def)
    then have "win_ivls ?r (ks @ nulls (length ?vs + k - length ks))
        = map (\<lambda>v. (ring_pos r ?t (the (vec_data v)) - n, vec_count v)) ks"
      using shift by (simp add: win_ivls_def win_live_append)
    moreover have "(\<lambda>j. n + j) ` ivl_set (ring_pos r ?t (the (vec_data v)) - n, vec_count v) = ivl_set (vec_ivl r ?t v)"
      if "v \<in> set ks" for v
      using beyond [OF that] by (simp add: vec_ivl_def)
    ultimately have "(\<lambda>j. n + j) ` cover (win_ivls ?r (ks @ nulls (length ?vs + k - length ks))) = cover (map (vec_ivl r ?t) ks)"
      by (simp add: cover_def image_UN)
    moreover have "cover (map (vec_ivl r ?t) ks) \<inter> {0..<n} = {}"
      using beyond by (fastforce simp: cover_def vec_ivl_def)
    ultimately show ?thesis using A by auto
  qed
  moreover have "length (ks @ nulls (length ?vs + k - length ks)) = length blocks"
    using ks(2) arg_cong [OF blocks, of length] by simp
  moreover have "n \<notin> A"
    using A beyond by (auto simp: cover_def vec_ivl_def dest: leD)
  moreover have "ring_marge r ?t c blocks ?t = Inr (n, ks @ nulls (length ?vs + k - length ks), ?r)"
    using len run by (simp add: ring_marge_def ring_pos_def)
  ultimately show ?thesis using A by auto
qed

lemma marge_block_spec:
  assumes inv: "win_inv r blocks S"
    and new: "\<And>j. k \<le> j \<Longrightarrow> j < k + c \<Longrightarrow> ring_at r (ring_used r + j) = S j"
    and c: "0 < c" "k + c \<le> ring_size r - ring_used r" "0 < k"
    and adv: "adv = (ring_tail r + k) mod ring_size r"
  defines "A \<equiv> cover (win_ivls r blocks) \<union> {k..<k + c}"
  shows "\<exists>blocks'. ring_marge r adv c blocks (ring_tail r) = Inr (0, blocks', r) \<and> win_inv r blocks' S
     \<and> length blocks' = length blocks
     \<and> cover (win_ivls r blocks') = (if win_forgets r blocks k c then A - ivl_set (hd (win_ivls r blocks)) else A)"
proof -
  let ?t = "ring_tail r" and ?vs = "win_live blocks"
  define m where "m = length blocks - length ?vs"
  have wf: "ring_wf r" and t: "?t < ring_size r" and blocks: "blocks = [] @ ?vs @ nulls m"
    and vok: "\<forall>v\<in>set ?vs. vec_ok r v" and sep: "sorted_wrt apart (map (vec_ivl r ?t) ?vs)"
    and data: "\<forall>j\<in>cover (map (vec_ivl r ?t) ?vs). ring_at r (ring_used r + j) = S j"
    and len: "1 < length blocks"
    using inv ring_tail_less by (auto simp: win_inv_def win_ivls_def m_def)
  have lenb: "length blocks = length ?vs + m" by (subst blocks) simp
  have kN: "k < ring_size r" and advN: "adv < ring_size r" using c wf adv t by auto
  then have pos: "ring_pos r ?t adv = k" using t adv by (simp add: ring_pos_iff)
  then have ne: "?t \<noteq> adv" using c by (auto simp: ring_pos_def)
  obtain ks pl pr adv' where
    run: "marge_block r ?t blocks 0 k (k + c) adv
        = (ks @ nulls (length ?vs + m - length ks), length ks, pl, pr, adv')"
    and ab: "absorb (map (vec_ivl r ?t) ?vs) k (k + c) = (map (vec_ivl r ?t) ks, pl, pr)"
    and pos': "ring_pos r ?t adv' = pl"
    and ks: "set ks \<subseteq> set ?vs" "length ks \<le> length ?vs"
    and advin: "adv' \<in> insert adv (set (map (the \<circ> vec_data) ?vs))"
    using marge_block_absorb [of ?vs r ?t adv k "[]" m "k + c"] win_live_data [of _ blocks] pos blocks
    by fastforce
  let ?new = "\<lparr>vec_data = Some adv', vec_count = pr - pl\<rparr>"
  let ?A = "cover (map (vec_ivl r ?t) ?vs) \<union> {k..<k + c}"
  have A: "cover (map (vec_ivl r ?t) ks) \<union> {pl..<pr} = ?A" using absorb_cover [OF ab] by simp
  have "?A \<subseteq> {0<..<ring_size r - ring_used r}" using cover_window [OF vok] c by auto
  then have win: "{pl..<pr} \<subseteq> {0<..<ring_size r - ring_used r}" using A by blast
  have lt: "pl < pr" using absorb_bounds [OF ab] c by simp
  then have "pl \<in> {pl..<pr}" "pr - 1 \<in> {pl..<pr}" by auto
  then have "pl \<in> {0<..<ring_size r - ring_used r}" "pr - 1 \<in> {0<..<ring_size r - ring_used r}"
    using win by blast+
  with lt have pl: "0 < pl" "pr \<le> ring_size r - ring_used r" "pl < pr" by auto
  have "adv' < ring_size r" using advin advN vok by (auto simp: vec_ok_def)
  with pl pos' have newok: "vec_ok r ?new" by (simp add: vec_ok_def)
  have newivl: "vec_ivl r ?t ?new = (pl, pr - pl)" using pos' by (simp add: vec_ivl_def)
  have sepk: "sorted_wrt apart (map (vec_ivl r ?t) (ks @ [?new]))"
    using absorb_apart [OF ab _ sep] newivl by (simp add: sorted_wrt_append)
  have dataA: "ring_at r (ring_used r + j) = S j" if "j \<in> ?A" for j
    using that data new by auto
  have win_new: "win_inv r (vs @ nulls i) S"
    if "1 < length vs + i" "set vs \<subseteq> set (ks @ [?new])" "sorted_wrt apart (map (vec_ivl r ?t) vs)" for vs i
  proof (rule win_invI [OF wf that(1) _ that(3)], goal_cases)
    case (1 v)
    then show ?case using that(2) ks vok newok by auto
  next
    case (2 j)
    then have "j \<in> cover (map (vec_ivl r ?t) (ks @ [?new]))"
      using cover_mono [of "map (vec_ivl r ?t) vs"] that(2) by (metis image_mono image_set subsetD)
    then have "j \<in> ?A" using A pl(3) newivl by auto
    then show ?case by (rule dataA)
  qed
  have ivls: "win_ivls r (vs @ nulls i) = map (vec_ivl r ?t) vs" if "set vs \<subseteq> set (ks @ [?new])" for vs i
  proof -
    have "\<forall>v\<in>set (ks @ [?new]). vec_data v \<noteq> None" using ks vok newok by (fastforce simp: vec_ok_def)
    then have "\<forall>v\<in>set vs. vec_data v \<noteq> None" using that by blast
    then show ?thesis by (simp add: win_ivls_def win_live_append)
  qed
  have A': "cover (map (vec_ivl r ?t) (ks @ [?new])) = A"
    using A newivl pl(3) by (simp add: A_def win_ivls_def)
  have forgets: "win_forgets r blocks k c \<longleftrightarrow> length ?vs + m - length ks = 0"
  proof
    assume "win_forgets r blocks k c"
    then have f: "length ?vs = length blocks" "\<forall>b\<in>set (map (vec_ivl r ?t) ?vs). apart b (k, k + c - k)"
      by (simp_all add: win_forgets_def win_ivls_def)
    have "map (vec_ivl r ?t) ks = map (vec_ivl r ?t) ?vs" using ab absorb_none [OF f(2)] by simp
    then have "length ks = length ?vs" by (rule map_eq_imp_length_eq)
    then show "length ?vs + m - length ks = 0" using f(1) by (simp add: m_def)
  next
    assume z: "length ?vs + m - length ks = 0"
    then have "m = 0" "length ks = length ?vs" using ks(2) by simp_all
    then have "map (vec_ivl r ?t) ks = map (vec_ivl r ?t) ?vs \<and> pl = k \<and> pr = k + c"
      using absorb_all_kept [OF ab] by simp
    then have "\<forall>b\<in>set (map (vec_ivl r ?t) ?vs). apart b (k, c)"
      using absorb_apart [OF ab _ sep] by simp
    then show "win_forgets r blocks k c" using blocks \<open>m = 0\<close> c by (simp add: win_forgets_def win_ivls_def)
  qed
  show ?thesis
  proof (cases "length ?vs + m - length ks")
    case 0
    then have full: "length ks = length blocks" using ks(2) lenb by simp
    then obtain a ks' where cons: "ks = a # ks'" using len by (cases ks) auto
    then have "win_inv r ((tl ks @ [?new]) @ nulls 0) S"
      by (intro win_new) (use full len sepk in auto)
    moreover have "cover (win_ivls r ((tl ks @ [?new]) @ nulls 0)) = A - ivl_set (hd (win_ivls r blocks))"
    proof -
      have "map (vec_ivl r ?t) ks = map (vec_ivl r ?t) ?vs"
        using absorb_all_kept [OF ab] 0 ks(2) by simp
      then have "hd (win_ivls r blocks) = hd (map (vec_ivl r ?t) (ks @ [?new]))" using cons by (auto simp: win_ivls_def)
      moreover have "win_ivls r ((tl ks @ [?new]) @ nulls 0) = tl (map (vec_ivl r ?t) (ks @ [?new]))"
        using cons by (subst ivls) auto
      ultimately show ?thesis using cover_tl [OF sepk] A' by simp
    qed
    moreover have "length (tl ks @ [?new]) = length blocks" using full cons by simp
    moreover have "ring_marge r adv c blocks ?t = Inr (0, tl ks @ [?new], r)"
      using len ne pos run 0 full by (simp add: ring_marge_def)
    ultimately show ?thesis using forgets 0 by simp
  next
    case (Suc i)
    have "cover (win_ivls r ((ks @ [?new]) @ nulls i)) = A" using A' by (subst ivls) simp_all
    moreover have "length ((ks @ [?new]) @ nulls i) = length blocks" using Suc lenb by simp
    moreover have "\<not> win_forgets r blocks k c" using forgets Suc by simp
    moreover
    have "win_inv r ((ks @ [?new]) @ nulls i) S"
      by (rule win_new) (use Suc ks(2) lenb len sepk in auto)
    moreover have "ring_marge r adv c blocks ?t = Inr (0, (ks @ [?new]) @ nulls i, r)"
      using len ne pos run Suc by (simp add: ring_marge_def)
    ultimately show ?thesis by (intro exI [of _ "(ks @ [?new]) @ nulls i"]) simp
  qed
qed

subsection \<open>Writing into the window\<close>

text \<open>C30: A write at an offset beyond the tail keeps the window invariant, with the stream
  moved on by the \<open>n\<close> bytes that became contiguous. Those \<open>n\<close> bytes are appended to the
  contents, they are the bytes of the stream, each of them was in the write or in a stored
  block, and \<open>n\<close> is maximal: the next byte was in neither. The blocks stored after the write hold
  exactly the other bytes that have arrived, the write's and those of the blocks before it; only if
  the array is full and the write beyond the tail touches none of its blocks, the first of them is
  forgotten for the new one. The array keeps its length, and no assertion fails.\<close>

theorem ring_window_write:
  assumes inv: "win_inv r blocks S" and off: "0 \<le> off" "off \<le> int (ring_size r)"
    and src: "nat c \<le> length src" "\<And>j. j < nat c \<Longrightarrow> src ! j = S (nat off + j)"
  defines "A \<equiv> {nat off..<min (nat off + nat c) (ring_size r - ring_used r)} \<union> cover (win_ivls r blocks)"
  shows "\<exists>n blocks' r'. ring_write_at r src c off blocks = Inr (n, blocks', r')
     \<and> win_inv r' blocks' (\<lambda>j. S (n + j)) \<and> ring_contents r' = ring_contents r @ map S [0..<n]
     \<and> {0..<n} \<subseteq> A \<and> n \<notin> A \<and> length blocks' = length blocks
     \<and> (\<lambda>j. n + j) ` cover (win_ivls r' blocks')
       = (if win_forgets r blocks (nat off) (min (nat c) (ring_size r - ring_used r - nat off))
          then A - ivl_set (hd (win_ivls r blocks)) else A - {0..<n})"
proof -
  have wf: "ring_wf r" using inv by (simp add: win_inv_def)
  obtain k where k: "off = int k" using off(1) nonneg_int_cases by blast
  define m where "m = min (nat c) (ring_size r - ring_used r - k)"
  let ?c = "if int (ring_size r) < int (ring_used r) + off + c
            then int (ring_size r) - int (ring_used r) - off else c"
  have zero: "0 \<notin> cover (win_ivls r blocks)"
    using inv cover_window [of "win_live blocks" r] by (auto simp: win_inv_def win_ivls_def)
  show ?thesis
  proof (cases "?c \<le> 0")
    case True
    then have "nat c = 0 \<or> ring_size r - ring_used r \<le> k" using k by (auto split: if_splits)
    then have "A = cover (win_ivls r blocks)" "min (nat c) (ring_size r - ring_used r - nat off) = 0"
      using k by (auto simp: A_def)
    with True off inv zero show ?thesis
      by (intro exI [of _ 0] exI [of _ blocks] exI [of _ r]) (auto simp: ring_write_at_def Let_def win_forgets_def)
  next
    case False
    then have c': "?c = int m" "0 < m" and fit: "ring_used r + k + m \<le> ring_size r" and mc: "m \<le> nat c"
      using k wf by (auto simp: m_def ring_wf_def split: if_splits)
    let ?bs = "take m src"
    have bs: "length ?bs = m" "?bs \<noteq> []" using src(1) mc c'(2) by auto
    define at where "at = (ring_head r + (ring_used r + k)) mod ring_size r"
    define r' where "r' = r\<lparr>ring_buf := ring_put r at ?bs\<rparr>"
    have adv: "(if ring_size r \<le> ring_tail r + k then ring_tail r + k - ring_size r else ring_tail r + k) = at"
      and at: "at = (ring_tail r + k) mod ring_size r"
      using wf fit c'(2) by (auto simp: at_def ring_tail_def ring_wf_def ring_mod Let_def)
    note put = ring_put_window [OF wf, of k ?bs r', unfolded bs(1), OF fit bs(2) r'_def [unfolded at_def]]
    have stored: "ring_at r' (ring_used r' + j) = S j"
      if "j \<in> {k..<k + m} \<or> j \<in> cover (win_ivls r blocks)" for j
    proof -
      have "j < ring_size r - ring_used r"
        using that fit inv cover_window [of "win_live blocks" r]
        by (auto simp: win_inv_def win_ivls_def)
      with that put src(2) mc k inv show ?thesis by (auto simp: win_inv_def)
    qed
    have ivls: "win_ivls r' blocks = win_ivls r blocks" "\<And>v. vec_ok r' v = vec_ok r v"
      using put(2-4) by (simp_all add: win_ivls_def vec_ivl_def ring_pos_def vec_ok_def)
    have inv': "win_inv r' blocks S"
      using inv put(1) stored unfolding win_inv_def ivls by auto
    have run: "ring_write_at r src c off blocks = ring_marge r' at m blocks (ring_tail r)"
      unfolding ring_write_at_def Let_def c'(1)
      using off k c'(2) fit wf adv
      by (cases "ring_size r \<le> ring_tail r + k") (simp_all add: r'_def ring_wf_def)
    have A: "A = {k..<k + m} \<union> cover (win_ivls r blocks)"
      using k fit by (auto simp: A_def m_def)
    have forgets: "win_forgets r' blocks k m = win_forgets r blocks (nat off) (min (nat c) (ring_size r - ring_used r - nat off))"
      using k by (simp add: win_forgets_def ivls m_def)
    show ?thesis
    proof (cases "k = 0")
      case True
      then have "at = ring_tail r'" using at put(2) ring_tail_less [OF wf] by simp
      moreover have "\<exists>n blocks' r''. ring_marge r' (ring_tail r') m blocks (ring_tail r') = Inr (n, blocks', r'')
          \<and> win_inv r'' blocks' (\<lambda>j. S (n + j)) \<and> ring_contents r'' = ring_contents r' @ map S [0..<n]
          \<and> {0..<n} \<subseteq> {0..<m} \<union> cover (win_ivls r' blocks) \<and> n \<notin> {0..<m} \<union> cover (win_ivls r' blocks)
          \<and> length blocks' = length blocks
          \<and> (\<lambda>j. n + j) ` cover (win_ivls r'' blocks') = {0..<m} \<union> cover (win_ivls r' blocks) - {0..<n}"
        by (rule marge_tail_spec [OF inv']) (use stored fit c' True put(3,4) in auto)
      moreover have "\<not> win_forgets r' blocks k m" using True by (simp add: win_forgets_def)
      ultimately show ?thesis unfolding forgets [symmetric] using run A ivls True put(2,6) by simp
    next
      case nz: False
      have "\<exists>blocks'. ring_marge r' at m blocks (ring_tail r') = Inr (0, blocks', r') \<and> win_inv r' blocks' S
          \<and> length blocks' = length blocks
          \<and> cover (win_ivls r' blocks') = (if win_forgets r' blocks k m
              then cover (win_ivls r' blocks) \<union> {k..<k + m} - ivl_set (hd (win_ivls r' blocks))
              else cover (win_ivls r' blocks) \<union> {k..<k + m})"
        by (rule marge_block_spec [OF inv', where k = k])
          (use stored fit c' nz at put(2-4) in auto)
      then obtain blocks' where b: "ring_marge r' at m blocks (ring_tail r') = Inr (0, blocks', r')" "win_inv r' blocks' S"
          "length blocks' = length blocks"
          "cover (win_ivls r' blocks') = (if win_forgets r' blocks k m
              then cover (win_ivls r' blocks) \<union> {k..<k + m} - ivl_set (hd (win_ivls r' blocks))
              else cover (win_ivls r' blocks) \<union> {k..<k + m})"
        by blast
      have "cover (win_ivls r' blocks') = (if win_forgets r' blocks k m then A - ivl_set (hd (win_ivls r blocks)) else A)"
        unfolding b(4) A ivls(1) by (simp add: Un_commute)
      then show ?thesis
        unfolding forgets [symmetric] using run A zero nz put(2,6) b(1-3)
        by (intro exI [of _ 0] exI [of _ blocks'] exI [of _ r']) simp
    qed
  qed
qed

theorem ring_window_write_witness:
  "\<exists>n blocks' r'.
     ring_write_at \<lparr>ring_buf = [0, 30, 40, 0, 0, 0, 0, 5], ring_size = 8, ring_head = 7, ring_used = 1\<rparr>
       [20] 1 0 [\<lparr>vec_data = Some 1, vec_count = 2\<rparr>, vec_null] = Inr (n, blocks', r')
     \<and> ring_contents r' = [5] @ map (\<lambda>j. 20 + 10 * of_nat j) [0..<n]
     \<and> {0..<n} \<subseteq> {0..<3} \<and> n \<notin> {0..<3}"
proof -
  let ?r = "\<lparr>ring_buf = [0, 30, 40, 0, 0, 0, 0, 5], ring_size = 8, ring_head = 7, ring_used = 1\<rparr>"
  let ?bl = "[\<lparr>vec_data = Some 1, vec_count = 2\<rparr>, vec_null]"
  let ?S = "\<lambda>j. 20 + 10 * of_nat j :: u8"
  have ivls: "win_ivls ?r ?bl = [(1, 2)]" by code_simp
  have live: "win_live ?bl = [\<lparr>vec_data = Some 1, vec_count = 2\<rparr>]" by code_simp
  have wf: "ring_wf ?r" by code_simp
  have ok: "vec_ok ?r \<lparr>vec_data = Some 1, vec_count = 2\<rparr>" by code_simp
  have bytes: "ring_at ?r 2 = ?S 1" "ring_at ?r 3 = ?S 2" by code_simp+
  have old: "ring_contents ?r = [5]" by code_simp
  have "{1..<1 + 2} = {1, 2 :: nat}" by auto
  with wf ok bytes have "win_inv ?r ?bl ?S"
    unfolding win_inv_def ivls live by (simp add: vec_null_def del: One_nat_def)
  from ring_window_write [OF this, of 0 1 "[20]"]
  have "\<exists>n blocks' r'. ring_write_at ?r [20] 1 0 ?bl = Inr (n, blocks', r')
     \<and> ring_contents r' = [5] @ map ?S [0..<n]
     \<and> {0..<n} \<subseteq> {0..<1} \<union> {1..<1 + 2} \<and> n \<notin> {0..<1} \<union> {1..<1 + 2}"
    unfolding ivls old by auto
  moreover have "{0..<1} \<union> {1..<1 + 2} = {0..<3 :: nat}" by auto
  ultimately show ?thesis by metis
qed

end
