(* ===== verification/FatVolume.thy ===== *)
theory FatVolume
  imports Endian
begin

text \<open>
  A mounted FAT volume (\<^verbatim>\<open>os/fs/fat/fatStream.h\<close>, class \<^verbatim>\<open>FatFileSystem\<close>) and its file
  allocation table: the type of the FAT, the predicates on directory entries of
  \<^verbatim>\<open>fatFileSystem.cpp\<close>, and \<^verbatim>\<open>clusEntryVal\<close>, \<^verbatim>\<open>setClusEntryVal\<close> of
  \<^verbatim>\<open>fatCluster.cpp\<close>. The partition and the cached stream over it are one byte store,
  addressed by the byte offset the code computes; the 32 bit arithmetic of that offset is
  kept. The locale \<open>fat_table\<close> is the contract of the table towards the allocator.
\<close>

subsection \<open>Offsets of \<^verbatim>\<open>fat.h\<close>\<close>

abbreviation (input) BPB_BytsPerSec :: nat where "BPB_BytsPerSec \<equiv> 11"
abbreviation (input) BPB_SecPerClus :: nat where "BPB_SecPerClus \<equiv> 13"
abbreviation (input) BPB_RsvdSecCnt :: nat where "BPB_RsvdSecCnt \<equiv> 14"
abbreviation (input) BPB_NumFATs :: nat where "BPB_NumFATs \<equiv> 16"
abbreviation (input) BPB_RootEntCnt :: nat where "BPB_RootEntCnt \<equiv> 17"
abbreviation (input) BPB_TotSec16 :: nat where "BPB_TotSec16 \<equiv> 19"
abbreviation (input) BPB_Media :: nat where "BPB_Media \<equiv> 21"
abbreviation (input) BPB_FATSz16 :: nat where "BPB_FATSz16 \<equiv> 22"
abbreviation (input) BPB_SecPerTrk :: nat where "BPB_SecPerTrk \<equiv> 24"
abbreviation (input) BPB_NumHeads :: nat where "BPB_NumHeads \<equiv> 26"
abbreviation (input) BPB_HiddSec :: nat where "BPB_HiddSec \<equiv> 28"
abbreviation (input) BPB_TotSec32 :: nat where "BPB_TotSec32 \<equiv> 32"
abbreviation (input) BS_VolID :: nat where "BS_VolID \<equiv> 39"
abbreviation (input) BS_FilSysType :: nat where "BS_FilSysType \<equiv> 54"
abbreviation (input) BPB_FATSz32 :: nat where "BPB_FATSz32 \<equiv> 36"
abbreviation (input) BPB_RootClus :: nat where "BPB_RootClus \<equiv> 44"
abbreviation (input) BPB_FSInfo :: nat where "BPB_FSInfo \<equiv> 48"
abbreviation (input) BPB_BkBootSec :: nat where "BPB_BkBootSec \<equiv> 50"
abbreviation (input) BS32_VolID :: nat where "BS32_VolID \<equiv> 67"
abbreviation (input) BS32_FilSysType :: nat where "BS32_FilSysType \<equiv> 82"
abbreviation (input) FSI_LeadSig :: nat where "FSI_LeadSig \<equiv> 0"
abbreviation (input) FSI_StrucSig :: nat where "FSI_StrucSig \<equiv> 484"
abbreviation (input) FSI_Free_Count :: nat where "FSI_Free_Count \<equiv> 488"
abbreviation (input) FSI_Nxt_Free :: nat where "FSI_Nxt_Free \<equiv> 492"
abbreviation (input) FSI_TrailSig :: nat where "FSI_TrailSig \<equiv> 508"
abbreviation (input) DIR_Attr :: nat where "DIR_Attr \<equiv> 11"
abbreviation (input) DIR_NTRes :: nat where "DIR_NTRes \<equiv> 12"
abbreviation (input) DIR_CrtTimeTenth :: nat where "DIR_CrtTimeTenth \<equiv> 13"
abbreviation (input) DIR_CrtTime :: nat where "DIR_CrtTime \<equiv> 14"
abbreviation (input) DIR_CrtDate :: nat where "DIR_CrtDate \<equiv> 16"
abbreviation (input) DIR_LstAccDate :: nat where "DIR_LstAccDate \<equiv> 18"
abbreviation (input) DIR_FstClusHI :: nat where "DIR_FstClusHI \<equiv> 20"
abbreviation (input) DIR_WrtTime :: nat where "DIR_WrtTime \<equiv> 22"
abbreviation (input) DIR_WrtDate :: nat where "DIR_WrtDate \<equiv> 24"
abbreviation (input) DIR_FstClusLO :: nat where "DIR_FstClusLO \<equiv> 26"
abbreviation (input) DIR_FileSize :: nat where "DIR_FileSize \<equiv> 28"
abbreviation (input) LDIR_Ord :: nat where "LDIR_Ord \<equiv> 0"
abbreviation (input) LDIR_Name1 :: nat where "LDIR_Name1 \<equiv> 1"
abbreviation (input) LDIR_Attr :: nat where "LDIR_Attr \<equiv> 11"
abbreviation (input) LDIR_Chksum :: nat where "LDIR_Chksum \<equiv> 13"
abbreviation (input) LDIR_Name2 :: nat where "LDIR_Name2 \<equiv> 14"
abbreviation (input) LDIR_Name3 :: nat where "LDIR_Name3 \<equiv> 28"
abbreviation (input) ATTR_READ_ONLY :: u8 where "ATTR_READ_ONLY \<equiv> 0x01"
abbreviation (input) ATTR_HIDDEN :: u8 where "ATTR_HIDDEN \<equiv> 0x02"
abbreviation (input) ATTR_SYSTEM :: u8 where "ATTR_SYSTEM \<equiv> 0x04"
abbreviation (input) ATTR_VOLUME_ID :: u8 where "ATTR_VOLUME_ID \<equiv> 0x08"
abbreviation (input) ATTR_DIRECTORY :: u8 where "ATTR_DIRECTORY \<equiv> 0x10"
abbreviation (input) ATTR_ARCHIVE :: u8 where "ATTR_ARCHIVE \<equiv> 0x20"
abbreviation (input) ATTR_LONG_NAME :: u8 where "ATTR_LONG_NAME \<equiv> 0x0f"
abbreviation (input) ATTR_LONG_NAME_MASK :: u8 where "ATTR_LONG_NAME_MASK \<equiv> 0x3f"
abbreviation (input) LAST_LONG_ENTRY :: u8 where "LAST_LONG_ENTRY \<equiv> 0x40"
abbreviation (input) DIR_LIMIT :: nat where "DIR_LIMIT \<equiv> 65536 * 32"
abbreviation (input) NTRes_LOWER3 :: u8 where "NTRes_LOWER3 \<equiv> 0x10"
abbreviation (input) NTRes_LOWER8 :: u8 where "NTRes_LOWER8 \<equiv> 0x08"

subsection \<open>The volume\<close>

record fatfs =
  fs_mounted :: bool
  fs_disk :: store
  fs_bpb :: "u8 list"
  fs_fsi :: "u8 list"
  bytsPerSec :: u16
  bytsPerClus :: u32
  hiddSec :: u32
  firstRootDirSector :: u32
  rootDirSectors :: u32
  fatSz :: u32
  totSec :: u32
  firstDataSector :: u32
  dataSec :: u32
  countOfClusters :: u32
  nxtFree :: u32
  freeCount :: u32

definition isFat12 :: "fatfs \<Rightarrow> bool" where
  "isFat12 fs = (countOfClusters fs < 4085)"

definition isFat16 :: "fatfs \<Rightarrow> bool" where
  "isFat16 fs = (4085 \<le> countOfClusters fs \<and> countOfClusters fs < 65525)"

definition isFat32 :: "fatfs \<Rightarrow> bool" where
  "isFat32 fs = (65525 \<le> countOfClusters fs)"

definition isEof :: "fatfs \<Rightarrow> u32 \<Rightarrow> bool" where
  "isEof fs clus = (countOfClusters fs + 1 < clus)"

definition isBadCluster :: "fatfs \<Rightarrow> u32 \<Rightarrow> bool" where
  "isBadCluster fs clus =
    (if isFat12 fs then clus = 0x0FF7
     else if isFat16 fs then clus = 0xFFF7
     else clus = 0x0FFFFFF7)"

definition firstSectorOfCluster :: "fatfs \<Rightarrow> u32 \<Rightarrow> u32" where
  "firstSectorOfCluster fs n =
    (if 0 < n then (n - 2) * le_byte (fs_bpb fs) BPB_SecPerClus + firstDataSector fs
     else firstRootDirSector fs)"

definition isFatPartition :: "u8 \<Rightarrow> bool" where
  "isFatPartition type = (type \<in> set [0x01, 0x04, 0x06, 0x0B, 0x0C, 0x0E])"

text \<open>Predicates on the 32 bytes of a directory entry.\<close>

definition isFreeEntry :: "u8 list \<Rightarrow> bool" where
  "isFreeEntry fcb = (fcb ! 0 = 0xe5 \<or> fcb ! 0 = 0x00)"

definition fcb_canRead :: "u8 list \<Rightarrow> bool" where
  "fcb_canRead fcb = (fcb ! DIR_Attr AND ATTR_VOLUME_ID = 0)"

definition fcb_canWrite :: "u8 list \<Rightarrow> bool" where
  "fcb_canWrite fcb = (fcb ! DIR_Attr AND (ATTR_VOLUME_ID OR ATTR_READ_ONLY) = 0)"

definition fcb_isDirectory :: "u8 list \<Rightarrow> bool" where
  "fcb_isDirectory fcb = (fcb ! DIR_Attr AND ATTR_DIRECTORY \<noteq> 0)"

definition fcb_isFile :: "u8 list \<Rightarrow> bool" where
  "fcb_isFile fcb = (fcb ! DIR_Attr AND (ATTR_VOLUME_ID OR ATTR_DIRECTORY) = 0)"

definition fcb_isHidden :: "u8 list \<Rightarrow> bool" where
  "fcb_isHidden fcb = (fcb ! DIR_Attr AND ATTR_HIDDEN \<noteq> 0)"

definition isLongNameComponent :: "u8 list \<Rightarrow> bool" where
  "isLongNameComponent fcb = (fcb ! DIR_Attr AND ATTR_LONG_NAME_MASK = ATTR_LONG_NAME)"

definition isVolumeID :: "u8 list \<Rightarrow> bool" where
  "isVolumeID fcb = (fcb ! DIR_Attr AND ATTR_VOLUME_ID \<noteq> 0)"

fun checksum_loop :: "u8 list \<Rightarrow> u8 \<Rightarrow> u8" where
  "checksum_loop [] acc = acc"
| "checksum_loop (b # bs) acc =
     checksum_loop bs ((if acc AND 1 \<noteq> 0 then 0x80 else 0) + drop_bit 1 acc + b)"

definition getChecksum :: "u8 list \<Rightarrow> u8" where
  "getChecksum fcb = checksum_loop (take 11 fcb) 0"

definition fat_hashCode :: "u32 \<Rightarrow> u32 \<Rightarrow> u32" where
  "fat_hashCode dirClus offset = dirClus * (512 div 32) + offset div 32"

subsection \<open>The file allocation table\<close>

definition fatOffset :: "fatfs \<Rightarrow> u32 \<Rightarrow> u32" where
  "fatOffset fs n = (if isFat12 fs then n + n div 2 else if isFat16 fs then n * 2 else n * 4)"

definition fatPosition :: "fatfs \<Rightarrow> u32 \<Rightarrow> nat" where
  "fatPosition fs n =
    (let bps = ucast (bytsPerSec fs);
         thisFatSecNum = le_word (fs_bpb fs) BPB_RsvdSecCnt + fatOffset fs n div bps;
         thisFatOffset = fatOffset fs n mod bps
     in unat (thisFatSecNum * bps + thisFatOffset))"

definition clusEntryVal :: "fatfs \<Rightarrow> u32 \<Rightarrow> u32" where
  "clusEntryVal fs n =
    (let offset = fatPosition fs n
     in if isFat12 fs
        then let val = le_word (store_read (fs_disk fs) offset 2) 0
             in if n AND 1 \<noteq> 0 then drop_bit 4 val else val AND 0xfff
        else if isFat16 fs then le_word (store_read (fs_disk fs) offset 2) 0
        else le_dword (store_read (fs_disk fs) offset 4) 0)"

fun fat_mirror :: "store \<Rightarrow> nat \<Rightarrow> nat \<Rightarrow> nat \<Rightarrow> u8 list \<Rightarrow> store" where
  "fat_mirror m 0 offset step buf = m"
| "fat_mirror m (Suc n) offset step buf =
     fat_mirror (store_write m offset buf) n (offset + step) step buf"

text \<open>The bytes that \<^verbatim>\<open>setClusEntryVal\<close> writes, from the old bytes at the same place.\<close>

definition fat_encode :: "fatfs \<Rightarrow> u32 \<Rightarrow> u32 \<Rightarrow> u8 list" where
  "fat_encode fs n v =
    (let offset = fatPosition fs n
     in if isFat12 fs
        then let buf = store_read (fs_disk fs) offset 2;
                 v = (if n AND 1 \<noteq> 0 then push_bit 4 v OR (le_word buf 0 AND 0x000f)
                      else (v AND 0xfff) OR (le_word buf 0 AND 0xf000))
             in le_xword buf 0 v
        else if isFat16 fs then le_xword [0, 0] 0 v
        else let buf = store_read (fs_disk fs) offset 4;
                 v = (v AND 0x0fffffff) OR (le_dword buf 0 AND 0xf0000000)
             in le_xdword buf 0 v)"

definition setClusEntryVal :: "fatfs \<Rightarrow> u32 \<Rightarrow> u32 \<Rightarrow> fatfs result" where
  "setClusEntryVal fs n v =
    ensuring (\<not> isEof fs n)
     (Inr (fs\<lparr>fs_disk := fat_mirror (fs_disk fs) (unat (fs_bpb fs ! BPB_NumFATs)) (fatPosition fs n)
                (unat (fatSz fs * ucast (bytsPerSec fs))) (fat_encode fs n v)\<rparr>))"

definition isClean :: "fatfs \<Rightarrow> bool" where
  "isClean fs =
    (if isFat16 fs then clusEntryVal fs 1 AND 0x8000 \<noteq> 0
     else if isFat32 fs then clusEntryVal fs 1 AND 0x08000000 \<noteq> 0
     else True)"

definition setClean :: "fatfs \<Rightarrow> bool \<Rightarrow> fatfs result" where
  "setClean fs clean =
    (let val = clusEntryVal fs 1
     in if isFat16 fs
        then setClusEntryVal fs 1 (if clean then val OR 0x8000 else val AND NOT 0x8000)
        else if isFat32 fs
        then setClusEntryVal fs 1 (if clean then val OR 0x08000000 else val AND NOT 0x08000000)
        else Inr fs)"

definition getFreeSpace :: "fatfs \<Rightarrow> nat" where
  "getFreeSpace fs = unat (freeCount fs) * unat (bytsPerClus fs)"

definition getTotalSpace :: "fatfs \<Rightarrow> nat" where
  "getTotalSpace fs = unat (countOfClusters fs) * unat (bytsPerClus fs)"

subsection \<open>Where the entries are\<close>

definition fat_bps :: "fatfs \<Rightarrow> nat" where
  "fat_bps fs = unat (bytsPerSec fs)"

definition fat_base :: "fatfs \<Rightarrow> nat" where
  "fat_base fs = unat (le_word (fs_bpb fs) BPB_RsvdSecCnt) * fat_bps fs"

definition fat_len :: "fatfs \<Rightarrow> nat" where
  "fat_len fs = unat (fatSz fs) * fat_bps fs"

definition fat_rel :: "fatfs \<Rightarrow> nat \<Rightarrow> nat" where
  "fat_rel fs n = (if isFat12 fs then n + n div 2 else if isFat16 fs then n * 2 else n * 4)"

definition fat_width :: "fatfs \<Rightarrow> nat" where
  "fat_width fs = (if isFat32 fs then 4 else 2)"

text \<open>
  The geometry a mounted volume has: sectors are not empty, there is a FAT, its size and
  position fit 32 bits, and the entries of all clusters fit in it. The bound on the number of
  clusters is the one of the FAT32 specification.
\<close>

definition fat_ok :: "fatfs \<Rightarrow> bool" where
  "fat_ok fs \<longleftrightarrow> 0 < fat_bps fs \<and> fs_bpb fs ! BPB_NumFATs \<noteq> 0
     \<and> fat_base fs + fat_len fs < 2 ^ 32
     \<and> fat_rel fs (unat (countOfClusters fs) + 1) + fat_width fs \<le> fat_len fs
     \<and> countOfClusters fs < 0x0ffffff5"

lemma fat_types:
  "isFat12 fs \<or> isFat16 fs \<or> isFat32 fs" "isFat12 fs \<Longrightarrow> \<not> isFat16 fs" "isFat12 fs \<Longrightarrow> \<not> isFat32 fs"
  "isFat16 fs \<Longrightarrow> \<not> isFat32 fs"
  by (auto simp: isFat12_def isFat16_def isFat32_def word_less_nat_alt word_le_nat_alt)

lemma isFat32_else: "\<not> isFat12 fs \<Longrightarrow> \<not> isFat16 fs \<Longrightarrow> isFat32 fs"
  using fat_types(1) by blast

lemma isEof_nat:
  "countOfClusters fs < 0x0ffffff5 \<Longrightarrow> isEof fs n \<longleftrightarrow> unat (countOfClusters fs) + 1 < unat n"
  by (simp add: isEof_def word_less_nat_alt unat_word_ariths)

lemma fat_rel_mono: "m \<le> n \<Longrightarrow> fat_rel fs m \<le> fat_rel fs n"
  by (auto simp: fat_rel_def intro: add_mono div_le_mono)

lemma fat_rel_in:
  assumes "fat_ok fs" "\<not> isEof fs n"
  shows "fat_rel fs (unat n) + fat_width fs \<le> fat_len fs"
  using assms fat_rel_mono [of "unat n" "unat (countOfClusters fs) + 1" fs]
  by (auto simp: fat_ok_def isEof_nat)

lemma fatOffset_nat:
  assumes "fat_ok fs" "\<not> isEof fs n"
  shows "unat (fatOffset fs n) = fat_rel fs (unat n)"
proof -
  have "fat_rel fs (unat n) < 2 ^ 32"
    using fat_rel_in [OF assms] assms(1) by (simp add: fat_ok_def)
  then show ?thesis
    by (auto simp: fatOffset_def fat_rel_def unat_word_ariths unat_div)
qed

text \<open>The sector and byte-in-sector arithmetic adds up to a plain byte offset.\<close>

lemma fatPosition_eq:
  assumes "fat_ok fs" "\<not> isEof fs n"
  shows "fatPosition fs n = fat_base fs + fat_rel fs (unat n)"
proof -
  let ?r = "le_word (fs_bpb fs) BPB_RsvdSecCnt" and ?b = "ucast (bytsPerSec fs) :: u32"
    and ?o = "fatOffset fs n"
  have b: "unat ?b = fat_bps fs" by (simp add: fat_bps_def unat_ucast_up)
  have o: "unat ?o = fat_rel fs (unat n)" using assms by (rule fatOffset_nat)
  have pos: "0 < fat_bps fs" and fit: "fat_base fs + fat_rel fs (unat n) < 2 ^ 32"
    using assms fat_rel_in [OF assms] by (auto simp: fat_ok_def)
  let ?q = "unat ?o div fat_bps fs" and ?m = "unat ?o mod fat_bps fs"
  have split: "(unat ?r + ?q) * fat_bps fs + ?m = fat_base fs + fat_rel fs (unat n)"
    unfolding fat_base_def o by (simp add: add_mult_distrib)
  have "unat ?r + ?q \<le> (unat ?r + ?q) * fat_bps fs" using pos by simp
  then have 1: "unat ?r + ?q < 2 ^ 32" "(unat ?r + ?q) * fat_bps fs < 2 ^ 32"
    using split fit by linarith+
  have "unat (?r + ?o div ?b) = unat ?r + ?q"
    using 1 by (simp add: unat_add_no_wrap unat_div b)
  then have "unat ((?r + ?o div ?b) * ?b) = (unat ?r + ?q) * fat_bps fs"
    using 1 by (simp add: unat_mult_no_wrap b)
  then have "unat ((?r + ?o div ?b) * ?b + ?o mod ?b) = fat_base fs + fat_rel fs (unat n)"
    using split fit by (simp add: unat_add_no_wrap unat_mod b)
  then show ?thesis by (simp add: fatPosition_def Let_def)
qed

lemma fat_step_eq:
  assumes "fat_ok fs"
  shows "unat (fatSz fs * ucast (bytsPerSec fs)) = fat_len fs"
  using assms
  by (subst unat_mult_u32) (simp_all add: fat_ok_def fat_len_def fat_bps_def unat_ucast_up)

subsection \<open>Reading back what was written\<close>

lemma fat_mirror_nth:
  assumes "0 < step" "length buf \<le> step"
  shows "fat_mirror m n off step buf a =
    (if off \<le> a \<and> a < off + n * step \<and> (a - off) mod step < length buf
     then buf ! ((a - off) mod step) else m a)"
proof (induction n arbitrary: m off)
  case 0
  then show ?case by auto
next
  case (Suc n)
  consider "a < off" | "off \<le> a" "a < off + step" | "off + step \<le> a" by linarith
  then show ?case
  proof cases
    case 1
    then show ?thesis using assms by (simp add: Suc store_write_def)
  next
    case 2
    then have "(a - off) mod step = a - off" by simp
    then show ?thesis using 2 assms by (auto simp: Suc store_write_def)
  next
    case 3
    then have "(a - off) mod step = (a - (off + step)) mod step"
      by (simp add: le_mod_geq)
    moreover have "\<not> a < off + length buf" using 3 assms by simp
    ultimately show ?thesis using 3 by (auto simp: Suc store_write_def add.assoc)
  qed
qed

text \<open>Byte \<open>q\<close> of the \<open>k\<close>-th copy of the table.\<close>

definition fat_byte :: "fatfs \<Rightarrow> nat \<Rightarrow> nat \<Rightarrow> u8" where
  "fat_byte fs k q = fs_disk fs (fat_base fs + k * fat_len fs + q)"

lemma fat_mirror_copy:
  assumes "k < n" "q < len" "r + length buf \<le> len"
  shows "fat_mirror m n (base + r) len buf (base + k * len + q) =
    (if r \<le> q \<and> q < r + length buf then buf ! (q - r) else m (base + k * len + q))"
proof (cases "r \<le> q")
  case True
  have "base + k * len + q - (base + r) = k * len + (q - r)" using True by simp
  then have "(base + k * len + q - (base + r)) mod len = q - r"
    using assms(2) by simp
  moreover have "k * len + q < n * len + r"
  proof -
    have "Suc k * len \<le> n * len" using assms(1) by (intro mult_le_mono1) simp
    then show ?thesis using assms(2) by simp
  qed
  ultimately show ?thesis using True assms by (subst fat_mirror_nth) auto
next
  case False
  show ?thesis
  proof (cases k)
    case 0
    then show ?thesis using False assms by (subst fat_mirror_nth) auto
  next
    case (Suc i)
    then have "base + k * len + q - (base + r) = i * len + (len + q - r)" using assms by simp
    moreover have "len + q - r < len" using False assms by linarith
    ultimately have "(base + k * len + q - (base + r)) mod len = len + q - r" by simp
    moreover have "\<not> len + q - r < length buf" using assms by simp
    ultimately show ?thesis using False assms by (subst fat_mirror_nth) auto
  qed
qed

lemma length_fat_encode: "length (fat_encode fs n v) = fat_width fs"
  using fat_types by (auto simp: fat_encode_def fat_width_def Let_def le_xword_def le_xdword_def isFat32_else)

lemma setClusEntryVal_Inr:
  "\<not> isEof fs n \<Longrightarrow> \<exists>m. setClusEntryVal fs n v = Inr (fs\<lparr>fs_disk := m\<rparr>)"
  by (simp add: setClusEntryVal_def) blast

lemma setClusEntryVal_frame:
  assumes "setClusEntryVal fs n v = Inr fs'"
  shows "fs' = fs\<lparr>fs_disk := fs_disk fs'\<rparr>" "\<not> isEof fs n"
  using assms by (auto simp: setClusEntryVal_def split: if_splits)

lemma fat_disk_frame [frame_simps, simp]:
  "isFat12 (fs\<lparr>fs_disk := m\<rparr>) = isFat12 fs" "isFat16 (fs\<lparr>fs_disk := m\<rparr>) = isFat16 fs"
  "isFat32 (fs\<lparr>fs_disk := m\<rparr>) = isFat32 fs" "isEof (fs\<lparr>fs_disk := m\<rparr>) = isEof fs"
  "isBadCluster (fs\<lparr>fs_disk := m\<rparr>) = isBadCluster fs"
  "fat_ok (fs\<lparr>fs_disk := m\<rparr>) = fat_ok fs" "fat_rel (fs\<lparr>fs_disk := m\<rparr>) = fat_rel fs"
  "fat_base (fs\<lparr>fs_disk := m\<rparr>) = fat_base fs" "fat_len (fs\<lparr>fs_disk := m\<rparr>) = fat_len fs"
  "fat_width (fs\<lparr>fs_disk := m\<rparr>) = fat_width fs" "fatPosition (fs\<lparr>fs_disk := m\<rparr>) = fatPosition fs"
  by (auto simp: isFat12_def isFat16_def isFat32_def isEof_def isBadCluster_def fat_ok_def fat_rel_def
      fat_base_def fat_len_def fat_width_def fat_bps_def fatPosition_def fatOffset_def fun_eq_iff)

text \<open>An entry in terms of the bytes of the first copy.\<close>

lemma store_read_2: "store_read m a 2 = [m a, m (a + 1)]"
  by (simp add: numeral_2_eq_2 store_read_Suc)

lemma store_read_4: "store_read m a 4 = [m a, m (a + 1), m (a + 2), m (a + 3)]"
  by (simp add: numeral_eq_Suc store_read_Suc)

lemma clusEntryVal_bytes:
  assumes "fat_ok fs" "\<not> isEof fs n"
  defines "b \<equiv> \<lambda>i. fat_byte fs 0 (fat_rel fs (unat n) + i)"
  shows "clusEntryVal fs n =
    (if isFat12 fs
     then if n AND 1 \<noteq> 0 then drop_bit 4 (le_word [b 0, b 1] 0) else le_word [b 0, b 1] 0 AND 0xfff
     else if isFat16 fs then le_word [b 0, b 1] 0 else le_dword [b 0, b 1, b 2, b 3] 0)"
  using assms
  by (simp add: clusEntryVal_def fatPosition_eq store_read_2 store_read_4 fat_byte_def add.assoc Let_def)

lemma fat_byte_set:
  assumes ok: "fat_ok fs" and set: "setClusEntryVal fs n v = Inr fs'"
    and k: "k < unat (fs_bpb fs ! BPB_NumFATs)" and q: "q < fat_len fs"
  shows "fat_byte fs' k q =
    (if fat_rel fs (unat n) \<le> q \<and> q < fat_rel fs (unat n) + fat_width fs
     then fat_encode fs n v ! (q - fat_rel fs (unat n)) else fat_byte fs k q)"
proof -
  have n: "\<not> isEof fs n" using set by (rule setClusEntryVal_frame)
  have "fat_rel fs (unat n) + length (fat_encode fs n v) \<le> fat_len fs"
    using fat_rel_in [OF ok n] by (simp add: length_fat_encode)
  from fat_mirror_copy [OF k q this] show ?thesis
    using set n ok by (auto simp: setClusEntryVal_def fat_byte_def fatPosition_eq fat_step_eq length_fat_encode)
qed

lemma numFATs_pos: "fat_ok fs \<Longrightarrow> 0 < unat (fs_bpb fs ! BPB_NumFATs)"
  by (simp add: fat_ok_def unat_gt_0)

text \<open>The value an entry reads back as, by the type of the table.\<close>

definition fat_norm :: "fatfs \<Rightarrow> u32 \<Rightarrow> u32 \<Rightarrow> u32" where
  "fat_norm fs n v =
    (if isFat12 fs then v AND 0xfff else if isFat16 fs then v AND 0xffff
     else (v AND 0x0fffffff) OR (clusEntryVal fs n AND 0xf0000000))"

lemma mask_words:
  "(0xf :: u32) = mask 4" "(0xfff :: u32) = mask 12" "(0xffff :: u32) = mask 16"
  "(0x0fffffff :: u32) = mask 28" "(0xf000 :: u32) = push_bit 12 (mask 4)"
  "(0xf0000000 :: u32) = push_bit 28 (mask 4)"
  by (simp_all add: mask_eq_exp_minus_1 push_bit_eq_mult)

lemma mask_bits [codec_simps]:
  "bit (0xf :: u32) k \<longleftrightarrow> k < 4" "bit (0xfff :: u32) k \<longleftrightarrow> k < 12" "bit (0xffff :: u32) k \<longleftrightarrow> k < 16"
  "bit (0x0fffffff :: u32) k \<longleftrightarrow> k < 28" "bit (0xf000 :: u32) k \<longleftrightarrow> 12 \<le> k \<and> k < 16"
  "bit (0xf0000000 :: u32) k \<longleftrightarrow> 28 \<le> k \<and> k < 32"
  unfolding mask_words bit_push_bit_iff bit_mask_iff by auto

lemma low_bits [codec_simps]:
  "(v :: u32) AND 0xf = take_bit 4 v" "v AND 0xfff = take_bit 12 v" "v AND 0xffff = take_bit 16 v"
  "v AND 0x0fffffff = take_bit 28 v"
  by (simp_all only: take_bit_eq_mask mask_words)

lemma high_bits [codec_simps]:
  "(v :: u32) AND 0xf000 = push_bit 12 (take_bit 4 (drop_bit 12 v))"
  "v AND 0xf0000000 = push_bit 28 (take_bit 4 (drop_bit 28 v))"
  unfolding mask_words by (rule bit_word_eqI, force simp add: bit_simps)+

lemma odd_word: "(n :: u32) AND 1 \<noteq> 0 \<longleftrightarrow> odd (unat n)"
proof -
  have "n AND 1 \<noteq> 0 \<longleftrightarrow> unat (n AND 1) \<noteq> 0" by (simp only: unat_0_iff)
  also have "unat (n AND 1) = unat n mod 2" by (simp add: and_one_eq unat_mod)
  finally show ?thesis by (simp add: odd_iff_mod_2_eq_one)
qed

lemma setClusEntryVal_bytes:
  assumes ok: "fat_ok fs" and set: "setClusEntryVal fs n v = Inr fs'" and m: "\<not> isEof fs m"
    and i: "i < fat_width fs"
  shows "fat_byte fs' 0 (fat_rel fs (unat m) + i) =
    (if fat_rel fs (unat n) \<le> fat_rel fs (unat m) + i
        \<and> fat_rel fs (unat m) + i < fat_rel fs (unat n) + fat_width fs
     then fat_encode fs n v ! (fat_rel fs (unat m) + i - fat_rel fs (unat n))
     else fat_byte fs 0 (fat_rel fs (unat m) + i))"
  using fat_rel_in [OF ok m] i
  by (intro fat_byte_set [OF ok set numFATs_pos [OF ok]]) simp

lemma clusEntryVal_set_same:
  assumes ok: "fat_ok fs" and set: "setClusEntryVal fs n v = Inr fs'"
  shows "clusEntryVal fs' n = fat_norm fs n v"
proof -
  have n: "\<not> isEof fs n" and fs': "fs' = fs\<lparr>fs_disk := fs_disk fs'\<rparr>"
    using setClusEntryVal_frame [OF set] by auto
  have fr: "fat_ok fs'" "\<not> isEof fs' n" "isFat12 fs' = isFat12 fs" "isFat16 fs' = isFat16 fs"
    "fat_rel fs' = fat_rel fs"
    using ok n by (subst fs', simp)+
  define b where "b i = fat_byte fs 0 (fat_rel fs (unat n) + i)" for i
  have new: "fat_byte fs' 0 (fat_rel fs (unat n) + i) = fat_encode fs n v ! i" if "i < fat_width fs" for i
    using setClusEntryVal_bytes [OF ok set n that] that by simp
  have old: "store_read (fs_disk fs) (fatPosition fs n) 2 = [b 0, b 1]"
    "store_read (fs_disk fs) (fatPosition fs n) 4 = [b 0, b 1, b 2, b 3]"
    using ok n by (simp_all add: store_read_2 store_read_4 b_def fat_byte_def fatPosition_eq add.assoc)
  note val = clusEntryVal_bytes [OF fr(1,2), unfolded fr(3-5)]
  consider "isFat12 fs" | "\<not> isFat12 fs" "isFat16 fs" | "\<not> isFat12 fs" "\<not> isFat16 fs" by blast
  then show ?thesis
  proof cases
    case 1
    then have w: "fat_width fs = 2" using fat_types by (simp add: fat_width_def)
    have enc: "length (fat_encode fs n v) = 2" by (simp add: length_fat_encode w)
    then have two: "[fat_encode fs n v ! 0, fat_encode fs n v ! 1] = fat_encode fs n v"
      by (intro nth_equalityI) (auto simp: less_Suc_eq numeral_2_eq_2)
    have "le_word (fat_encode fs n v) 0 = take_bit 16 (if n AND 1 \<noteq> 0
        then push_bit 4 v OR (le_word [b 0, b 1] 0 AND 0x000f)
        else (v AND 0xfff) OR (le_word [b 0, b 1] 0 AND 0xf000))"
      using 1 by (simp add: fat_encode_def Let_def old le16.get_put_same)
    moreover have "clusEntryVal fs' n = (if n AND 1 \<noteq> 0 then drop_bit 4 (le_word (fat_encode fs n v) 0)
        else le_word (fat_encode fs n v) 0 AND 0xfff)"
      using 1 val new [of 0] new [of 1] two w by simp
    ultimately have "clusEntryVal fs' n = (if n AND 1 \<noteq> 0
        then drop_bit 4 (take_bit 16 (push_bit 4 v OR (le_word [b 0, b 1] 0 AND 0x000f)))
        else take_bit 16 ((v AND 0xfff) OR (le_word [b 0, b 1] 0 AND 0xf000)) AND 0xfff)" by simp
    also have "\<dots> = v AND 0xfff"
      unfolding low_bits high_bits by (rule bit_word_eqI) (auto simp: bit_simps)
    finally show ?thesis using 1 by (simp add: fat_norm_def)
  next
    case 2
    then have w: "fat_width fs = 2" using fat_types by (simp add: fat_width_def)
    have enc: "length (fat_encode fs n v) = 2" by (simp add: length_fat_encode w)
    then have two: "[fat_encode fs n v ! 0, fat_encode fs n v ! 1] = fat_encode fs n v"
      by (intro nth_equalityI) (auto simp: less_Suc_eq numeral_2_eq_2)
    then have "clusEntryVal fs' n = le_word (fat_encode fs n v) 0"
      using 2 val new [of 0] new [of 1] w by simp
    also have "\<dots> = take_bit 16 v" using 2 by (simp add: fat_encode_def le16.get_put_same)
    also have "\<dots> = v AND 0xffff" by (simp add: low_bits)
    finally show ?thesis using 2 by (simp add: fat_norm_def)
  next
    case 3
    then have w: "fat_width fs = 4" by (simp add: fat_width_def isFat32_else)
    have enc: "length (fat_encode fs n v) = 4" by (simp add: length_fat_encode w)
    then have four: "[fat_encode fs n v ! 0, fat_encode fs n v ! 1, fat_encode fs n v ! 2,
        fat_encode fs n v ! 3] = fat_encode fs n v"
      by (intro nth_equalityI) (auto simp: less_Suc_eq numeral_eq_Suc)
    have "clusEntryVal fs n = le_dword [b 0, b 1, b 2, b 3] 0"
      using 3 clusEntryVal_bytes [OF ok n] by (simp add: b_def)
    moreover have "clusEntryVal fs' n = le_dword (fat_encode fs n v) 0"
      using 3 val new [of 0] new [of 1] new [of 2] new [of 3] w four by simp
    moreover have "\<dots> = (v AND 0x0fffffff) OR (le_dword [b 0, b 1, b 2, b 3] 0 AND 0xf0000000)"
      using 3 by (simp add: fat_encode_def Let_def old le32.get_put_same)
    ultimately show ?thesis using 3 by (simp add: fat_norm_def)
  qed
qed

text \<open>A FAT12 entry shares one byte with a neighbour, whose four bits are kept.\<close>

lemma fat12_high_kept:
  assumes "isFat12 fs" "n AND 1 = 0" "4 \<le> k" "k < 8"
  shows "bit (fat_encode fs n v ! 1) k = bit (fs_disk fs (fatPosition fs n + 1)) k"
  using assms
  by (auto simp: fat_encode_def Let_def le_xword_def le_word_def store_read_2 high_bits low_bits bit_simps
      codec_simps)

lemma fat12_low_kept:
  assumes "isFat12 fs" "n AND 1 \<noteq> 0" "k < 4"
  shows "bit (fat_encode fs n v ! 0) k = bit (fs_disk fs (fatPosition fs n)) k"
  using assms
  by (auto simp: fat_encode_def Let_def le_xword_def le_word_def store_read_2 high_bits low_bits bit_simps
      codec_simps)

lemma le_word_cong_high:
  assumes "\<And>k. 4 \<le> k \<Longrightarrow> k < 8 \<Longrightarrow> bit a k = bit (a' :: u8) k"
  shows "drop_bit 4 (le_word [a, b] 0) = drop_bit 4 (le_word [a', b] 0)"
proof (rule bit_word_eqI)
  fix k :: nat assume "k < LENGTH(32)"
  show "bit (drop_bit 4 (le_word [a, b] 0)) k = bit (drop_bit 4 (le_word [a', b] 0)) k"
    using assms [of "4 + k"] by (cases "k < 4") (auto simp: le_word_def bit_simps codec_simps)
qed

lemma le_word_cong_low:
  assumes "\<And>k. k < 4 \<Longrightarrow> bit b k = bit (b' :: u8) k"
  shows "le_word [a, b] 0 AND 0xfff = le_word [a, b'] 0 AND 0xfff"
proof (rule bit_word_eqI)
  fix k :: nat assume "k < LENGTH(32)"
  show "bit (le_word [a, b] 0 AND 0xfff) k = bit (le_word [a, b'] 0 AND 0xfff) k"
    using assms [of "k - 8"] by (cases "k < 8") (auto simp: low_bits le_word_def bit_simps codec_simps)
qed

lemma overlap12:
  fixes a b :: nat
  assumes "a + a div 2 < b + b div 2 + 2" "b + b div 2 < a + a div 2 + 2" "a \<noteq> b"
  shows "even b \<and> a = b + 1 \<or> odd b \<and> b = a + 1"
proof (cases "a < b")
  case True
  then have "a div 2 \<le> b div 2" by (intro div_le_mono) simp
  with True assms have b: "b = a + 1" by linarith
  then show ?thesis using assms by (cases "even a") (auto elim!: oddE)
next
  case False
  then have "b div 2 \<le> a div 2" by (intro div_le_mono) simp
  with False assms have a: "a = b + 1" by linarith
  then show ?thesis using assms by (cases "even b") (auto elim!: oddE)
qed

lemma clusEntryVal_set_other:
  assumes ok: "fat_ok fs" and set: "setClusEntryVal fs n v = Inr fs'"
    and m: "\<not> isEof fs m" "m \<noteq> n"
  shows "clusEntryVal fs' m = clusEntryVal fs m"
proof -
  have n: "\<not> isEof fs n" and fs': "fs' = fs\<lparr>fs_disk := fs_disk fs'\<rparr>"
    using setClusEntryVal_frame [OF set] by auto
  have fr: "fat_ok fs'" "\<not> isEof fs' m" "isFat12 fs' = isFat12 fs" "isFat16 fs' = isFat16 fs"
    "fat_rel fs' = fat_rel fs"
    using ok m by (subst fs', simp)+
  have ne: "unat m \<noteq> unat n" using m by (metis word_unat_eq_iff)
  note bytes = setClusEntryVal_bytes [OF ok set m(1)]
  show ?thesis
  proof (cases "fat_rel fs (unat m) + fat_width fs \<le> fat_rel fs (unat n)
      \<or> fat_rel fs (unat n) + fat_width fs \<le> fat_rel fs (unat m)")
    case True
    then have keep: "fat_byte fs' 0 (fat_rel fs (unat m) + i) = fat_byte fs 0 (fat_rel fs (unat m) + i)"
      if "i < fat_width fs" for i
      using bytes [OF that] that by auto
    have w: "0 < fat_width fs" "1 < fat_width fs"
      "\<not> isFat12 fs \<Longrightarrow> \<not> isFat16 fs \<Longrightarrow> 2 < fat_width fs \<and> 3 < fat_width fs"
      by (auto simp: fat_width_def isFat32_else)
    then show ?thesis
      using keep [of 0] keep [of 1] keep [of 2] keep [of 3]
      by (simp add: clusEntryVal_bytes [OF ok m(1)] clusEntryVal_bytes [OF fr(1,2)] fr)
  next
    case False
    have 12: "isFat12 fs"
    proof (rule ccontr)
      assume "\<not> isFat12 fs"
      then show False using False ne fat_types(4) [of fs]
          by (auto simp: fat_rel_def fat_width_def isFat32_else split: if_splits)
    qed
    then have w: "fat_width fs = 2" and r: "\<And>i. fat_rel fs i = i + i div 2"
      using fat_types by (auto simp: fat_width_def fat_rel_def)
    have near: "fat_rel fs (unat m) < fat_rel fs (unat n) + 2" "fat_rel fs (unat n) < fat_rel fs (unat m) + 2"
      using False w by auto
    then consider (up) "even (unat n)" "unat m = unat n + 1" | (down) "odd (unat n)" "unat n = unat m + 1"
      using ne overlap12 unfolding r by blast
    then show ?thesis
    proof cases
      case up
      have *: "fat_byte fs' 0 (fat_rel fs (unat m)) = fat_encode fs n v ! 1"
        "fat_byte fs' 0 (fat_rel fs (unat m) + 1) = fat_byte fs 0 (fat_rel fs (unat m) + 1)"
        using bytes [of 0] bytes [of 1] up unfolding r w by (auto elim!: evenE)
      have old: "fat_byte fs 0 (fat_rel fs (unat m)) = fs_disk fs (fatPosition fs n + 1)"
        using up ok n by (auto simp: fat_byte_def fatPosition_eq r add.assoc)
      have "drop_bit 4 (le_word [fat_encode fs n v ! 1, fat_byte fs 0 (fat_rel fs (unat m) + 1)] 0)
          = drop_bit 4 (le_word [fat_byte fs 0 (fat_rel fs (unat m)), fat_byte fs 0 (fat_rel fs (unat m) + 1)] 0)"
        unfolding old using fat12_high_kept [OF 12] up odd_word [of n] by (intro le_word_cong_high) blast
      moreover have "m AND 1 \<noteq> 0" using up odd_word [of m] by simp
      ultimately show ?thesis
        using 12 * by (simp add: clusEntryVal_bytes [OF ok m(1)] clusEntryVal_bytes [OF fr(1,2)] fr)
    next
      case down
      have *: "fat_byte fs' 0 (fat_rel fs (unat m) + 1) = fat_encode fs n v ! 0"
        "fat_byte fs' 0 (fat_rel fs (unat m)) = fat_byte fs 0 (fat_rel fs (unat m))"
        using bytes [of 0] bytes [of 1] down unfolding r w by (auto elim!: oddE)
      have old: "fat_byte fs 0 (fat_rel fs (unat m) + 1) = fs_disk fs (fatPosition fs n)"
        using down ok n by (auto simp: fat_byte_def fatPosition_eq r add.assoc elim!: evenE)
      have "le_word [fat_byte fs 0 (fat_rel fs (unat m)), fat_encode fs n v ! 0] 0 AND 0xfff
          = le_word [fat_byte fs 0 (fat_rel fs (unat m)), fat_byte fs 0 (fat_rel fs (unat m) + 1)] 0 AND 0xfff"
        unfolding old using fat12_low_kept [OF 12] down odd_word [of n] by (intro le_word_cong_low) blast
      moreover have "m AND 1 = 0" using down odd_word [of m] by auto
      ultimately show ?thesis
        using 12 * by (simp add: clusEntryVal_bytes [OF ok m(1)] clusEntryVal_bytes [OF fr(1,2)] fr)
    qed
  qed
qed

subsection \<open>The table as a map\<close>

text \<open>
  The table is a finite map on the cluster numbers that are not an end mark. The four high bits
  of a FAT32 entry are reserved and never written; \<open>fat_clear\<close> says that they are zero.
\<close>

definition fat_map :: "fatfs \<Rightarrow> u32 \<rightharpoonup> u32" where
  "fat_map fs = (\<lambda>n. if isEof fs n then None else Some (clusEntryVal fs n))"

definition fat_trunc :: "fatfs \<Rightarrow> u32 \<Rightarrow> u32" where
  "fat_trunc fs v =
    (if isFat12 fs then v AND 0xfff else if isFat16 fs then v AND 0xffff else v AND 0x0fffffff)"

definition fat_clear :: "fatfs \<Rightarrow> bool" where
  "fat_clear fs \<longleftrightarrow> (isFat32 fs \<longrightarrow> (\<forall>n. \<not> isEof fs n \<longrightarrow> clusEntryVal fs n AND 0xf0000000 = 0))"

definition fat_table_ok :: "fatfs \<Rightarrow> bool" where
  "fat_table_ok fs \<longleftrightarrow> fat_ok fs \<and> fat_clear fs"

lemma fat_map_apply [simp]: "\<not> isEof fs n \<Longrightarrow> fat_map fs n = Some (clusEntryVal fs n)"
  by (simp add: fat_map_def)

lemma fat_map_None [simp]: "fat_map fs n = None \<longleftrightarrow> isEof fs n"
  by (simp add: fat_map_def)

lemma fat_map_Some: "fat_map fs n = Some v \<longleftrightarrow> \<not> isEof fs n \<and> clusEntryVal fs n = v"
  by (auto simp: fat_map_def)

lemma dom_fat_map [simp]: "n \<in> dom (fat_map fs) \<longleftrightarrow> \<not> isEof fs n"
  by (simp add: dom_def)

lemma fat_norm_clear:
  "fat_clear fs \<Longrightarrow> \<not> isEof fs n \<Longrightarrow> fat_norm fs n v = fat_trunc fs v"
  by (simp add: fat_norm_def fat_trunc_def fat_clear_def isFat32_else)

lemma fat_trunc_disk [simp]: "fat_trunc (fs\<lparr>fs_disk := m\<rparr>) = fat_trunc fs"
  by (simp add: fat_trunc_def fun_eq_iff)

lemma fat_trunc_0 [simp]: "fat_trunc fs 0 = 0"
  by (simp add: fat_trunc_def)

lemma mask_high_clear: "(v AND 0x0fffffff) AND (0xf0000000 :: u32) = 0"
  unfolding low_bits high_bits by (rule bit_word_eqI) (auto simp: bit_simps)

lemma fat_clear_set:
  assumes "fat_ok fs" "fat_clear fs" "setClusEntryVal fs n v = Inr fs'"
  shows "fat_clear fs'"
proof -
  have n: "\<not> isEof fs n" and fs': "fs' = fs\<lparr>fs_disk := fs_disk fs'\<rparr>"
    using setClusEntryVal_frame [OF assms(3)] by auto
  have *: "isFat32 fs' = isFat32 fs" "isEof fs' = isEof fs" by (subst fs', simp)+
  have "clusEntryVal fs' k AND 0xf0000000 = 0" if "isFat32 fs" "\<not> isEof fs k" for k
  proof (cases "k = n")
    case True
    moreover have "\<not> isFat12 fs" "\<not> isFat16 fs" using that fat_types by auto
    ultimately show ?thesis
      using assms n by (simp add: clusEntryVal_set_same fat_norm_clear fat_trunc_def mask_high_clear)
  next
    case False
    then show ?thesis
      using assms that by (simp add: clusEntryVal_set_other fat_clear_def)
  qed
  then show ?thesis unfolding fat_clear_def * by blast
qed

lemma setClusEntryVal_map:
  assumes "fat_table_ok fs" "setClusEntryVal fs n v = Inr fs'"
  shows "fat_table_ok fs'" "fat_map fs' = (fat_map fs)(n \<mapsto> fat_trunc fs v)"
proof -
  have n: "\<not> isEof fs n" and fs': "fs' = fs\<lparr>fs_disk := fs_disk fs'\<rparr>"
    using setClusEntryVal_frame [OF assms(2)] by auto
  have *: "fat_ok fs' = fat_ok fs" "isEof fs' = isEof fs" by (subst fs', simp)+
  show "fat_table_ok fs'"
    using assms fat_clear_set by (auto simp: fat_table_ok_def *)
  show "fat_map fs' = (fat_map fs)(n \<mapsto> fat_trunc fs v)"
    using assms n
    by (auto simp: fat_map_def fun_eq_iff * clusEntryVal_set_same clusEntryVal_set_other fat_norm_clear
        fat_table_ok_def)
qed

subsection \<open>The contract of a table\<close>

fun put_seq :: "('s \<Rightarrow> u32 \<Rightarrow> u32 \<Rightarrow> 's result) \<Rightarrow> 's \<Rightarrow> (u32 \<times> u32) list \<Rightarrow> 's result" where
  "put_seq put s [] = Inr s"
| "put_seq put s ((n, v) # nvs) = andThen (put s n v) (\<lambda>s'. put_seq put s' nvs)"

locale fat_table =
  fixes wf :: "'s \<Rightarrow> bool"
    and tbl :: "'s \<Rightarrow> u32 \<rightharpoonup> u32"
    and trunc :: "'s \<Rightarrow> u32 \<Rightarrow> u32"
    and put :: "'s \<Rightarrow> u32 \<Rightarrow> u32 \<Rightarrow> 's result"
  assumes put_in: "wf s \<Longrightarrow> n \<in> dom (tbl s) \<Longrightarrow>
      \<exists>s'. put s n v = Inr s' \<and> wf s' \<and> tbl s' = (tbl s)(n \<mapsto> trunc s v) \<and> trunc s' = trunc s"
    and put_out: "n \<notin> dom (tbl s) \<Longrightarrow> put s n v = Inl AssertFailed"
begin

lemma put_seq_map:
  assumes "wf s" "fst ` set nvs \<subseteq> dom (tbl s)"
  shows "\<exists>s'. put_seq put s nvs = Inr s' \<and> wf s'
    \<and> tbl s' = tbl s ++ map_of (rev (map (\<lambda>(n, v). (n, trunc s v)) nvs)) \<and> trunc s' = trunc s"
  using assms
proof (induction nvs arbitrary: s)
  case Nil
  then show ?case by simp
next
  case (Cons p nvs)
  obtain n v where p: "p = (n, v)" by (cases p)
  obtain s1 where s1: "put s n v = Inr s1" "wf s1" "tbl s1 = (tbl s)(n \<mapsto> trunc s v)"
    "trunc s1 = trunc s"
    using put_in [OF Cons.prems(1), of n v] Cons.prems(2) p by auto
  have "fst ` set nvs \<subseteq> dom (tbl s1)" using Cons.prems(2) s1 p by auto
  from Cons.IH [OF s1(2) this] obtain s' where s': "put_seq put s1 nvs = Inr s'" "wf s'"
    "tbl s' = tbl s1 ++ map_of (rev (map (\<lambda>(n, v). (n, trunc s1 v)) nvs))" "trunc s' = trunc s1"
    by blast
  have "tbl s1 = tbl s ++ [n \<mapsto> trunc s v]" by (simp add: s1(3))
  then show ?case using s1 s' p by (simp add: map_add_assoc [symmetric])
qed

lemma put_get:
  assumes "wf s" "n \<in> dom (tbl s)"
  obtains s' where "put s n v = Inr s'" "wf s'" "tbl s' n = Some (trunc s v)"
    "\<And>m. m \<noteq> n \<Longrightarrow> tbl s' m = tbl s m"
  using put_in [OF assms, of v] by auto

end

interpretation fat: fat_table fat_table_ok fat_map fat_trunc setClusEntryVal
proof
  fix s n v
  assume s: "fat_table_ok s" "n \<in> dom (fat_map s)"
  then have n: "\<not> isEof s n" by simp
  from setClusEntryVal_Inr [OF this] obtain m where m: "setClusEntryVal s n v = Inr (s\<lparr>fs_disk := m\<rparr>)"
    by blast
  show "\<exists>s'. setClusEntryVal s n v = Inr s' \<and> fat_table_ok s'
      \<and> fat_map s' = (fat_map s)(n \<mapsto> fat_trunc s v) \<and> fat_trunc s' = fat_trunc s"
    using setClusEntryVal_map [OF s(1) m] m by simp
next
  fix s n v
  assume "n \<notin> dom (fat_map s)"
  then show "setClusEntryVal s n v = Inl AssertFailed" by (simp add: setClusEntryVal_def)
qed

subsection \<open>Copies and frame\<close>

definition fat_copies :: "fatfs \<Rightarrow> bool" where
  "fat_copies fs \<longleftrightarrow>
    (\<forall>k < unat (fs_bpb fs ! BPB_NumFATs). \<forall>q < fat_len fs. fat_byte fs k q = fat_byte fs 0 q)"

definition in_fat :: "fatfs \<Rightarrow> nat \<Rightarrow> bool" where
  "in_fat fs a \<longleftrightarrow>
    fat_base fs \<le> a \<and> a < fat_base fs + unat (fs_bpb fs ! BPB_NumFATs) * fat_len fs"

lemma setClusEntryVal_copies:
  assumes "fat_ok fs" "fat_copies fs" "setClusEntryVal fs n v = Inr fs'"
  shows "fat_copies fs'"
proof -
  have fs': "fs' = fs\<lparr>fs_disk := fs_disk fs'\<rparr>" using setClusEntryVal_frame [OF assms(3)] by auto
  have *: "fs_bpb fs' = fs_bpb fs" "fat_len fs' = fat_len fs" by (subst fs', simp)+
  have "fat_byte fs' k q = fat_byte fs' 0 q"
    if "k < unat (fs_bpb fs ! BPB_NumFATs)" "q < fat_len fs" for k q
  proof -
    have "fat_byte fs k q = fat_byte fs 0 q" using assms(2) that unfolding fat_copies_def by blast
    then show ?thesis
    using fat_byte_set [OF assms(1,3) that] fat_byte_set [OF assms(1,3) numFATs_pos [OF assms(1)] that(2)]
      by simp
  qed
  then show ?thesis unfolding fat_copies_def * by blast
qed

lemma fat_mirror_beyond:
  assumes "0 < len" "r + length buf \<le> len" "a < base \<or> base + n * len \<le> a"
  shows "fat_mirror m n (base + r) len buf a = m a"
proof -
  have "length buf \<le> len" using assms by simp
  note nth = fat_mirror_nth [OF assms(1) this]
  show ?thesis
  proof (cases "a < base + r \<or> base + r + n * len \<le> a")
  case True
  then have "\<not> (base + r \<le> a \<and> a < base + r + n * len)" by linarith
  then show ?thesis unfolding nth by metis
next
  case False
  then have b: "base + n * len \<le> a" "a < base + r + n * len" using assms by auto
  then obtain i where n: "n = Suc i" using False assms by (cases n) auto
  define d where "d = a - (base + n * len)"
  have d: "a = base + n * len + d" "d < r" using b by (auto simp: d_def)
  have "a - (base + r) = i * len + (len + d - r)" using d n assms by simp
  moreover have "len + d - r < len" using d assms by linarith
  ultimately have "(a - (base + r)) mod len = len + d - r" by simp
  moreover have "\<not> len + d - r < length buf" using assms d by linarith
  ultimately show ?thesis unfolding nth by simp
  qed
qed

lemma fat_len_pos: "fat_ok fs \<Longrightarrow> 0 < fat_len fs"
  by (auto simp: fat_ok_def fat_width_def split: if_splits)

lemma setClusEntryVal_outside:
  assumes ok: "fat_ok fs" and set: "setClusEntryVal fs n v = Inr fs'" and a: "\<not> in_fat fs a"
  shows "fs_disk fs' a = fs_disk fs a"
proof -
  have n: "\<not> isEof fs n" using setClusEntryVal_frame [OF set] by auto
  have "fat_rel fs (unat n) + length (fat_encode fs n v) \<le> fat_len fs"
    using fat_rel_in [OF ok n] by (simp add: length_fat_encode)
  from fat_mirror_beyond [OF fat_len_pos [OF ok] this] show ?thesis
    using set n ok a by (auto simp: setClusEntryVal_def fatPosition_eq fat_step_eq in_fat_def)
qed

text \<open>Small volumes for the witnesses: a FAT12 one and a FAT32 one.\<close>

definition ex_bpb :: "u8 list" where
  "ex_bpb = (replicate 512 0)[11 := 0, 12 := 2, 13 := 1, 14 := 1, 16 := 2, 17 := 16, 19 := 7, 22 := 1]"

definition ex12 :: fatfs where
  "ex12 = \<lparr>fs_mounted = True, fs_disk = (\<lambda>a. 0), fs_bpb = ex_bpb, fs_fsi = [], bytsPerSec = 512,
     bytsPerClus = 512, hiddSec = 0, firstRootDirSector = 3, rootDirSectors = 1, fatSz = 1, totSec = 7,
     firstDataSector = 4, dataSec = 3, countOfClusters = 3, nxtFree = 2, freeCount = 3\<rparr>"

definition ex32 :: fatfs where
  "ex32 = ex12\<lparr>fs_disk := (\<lambda>a. 0x10), fatSz := 512, countOfClusters := 65525\<rparr>"

lemma ex_bpb_nth:
  "ex_bpb ! 11 = 0" "ex_bpb ! 12 = 2" "ex_bpb ! 13 = 1" "ex_bpb ! 14 = 1" "ex_bpb ! 15 = 0"
  "ex_bpb ! 16 = 2" "ex_bpb ! 17 = 16" "ex_bpb ! 18 = 0" "length ex_bpb = 512"
  by (simp_all add: ex_bpb_def)

lemma ex12_ok: "fat_table_ok ex12"
proof -
  have "isFat12 ex12" "\<not> isFat32 ex12" by (simp_all add: isFat12_def isFat32_def ex12_def)
  then show ?thesis
    by (simp add: fat_table_ok_def fat_ok_def fat_clear_def fat_bps_def fat_base_def fat_len_def
        fat_rel_def fat_width_def le_word_def)
      (simp add: ex12_def ex_bpb_nth)
qed

lemma ex32_ok: "fat_ok ex32" "isFat32 ex32"
proof -
  have "\<not> isFat12 ex32" "\<not> isFat16 ex32" "isFat32 ex32"
    by (simp_all add: isFat12_def isFat16_def isFat32_def ex32_def ex12_def)
  then show "fat_ok ex32" "isFat32 ex32"
    by (simp_all add: fat_table_ok_def fat_ok_def fat_clear_def fat_bps_def fat_base_def fat_len_def
        fat_rel_def fat_width_def le_word_def)
      (simp add: ex32_def ex12_def ex_bpb_nth)
qed

lemma ex_eof: "isEof ex12 2 = False" "isEof ex12 3 = False" "isEof ex12 4 = False" "isEof ex32 2 = False"
  by (simp_all add: isEof_def ex12_def ex32_def)

text \<open>C15: Writing an entry of the FAT of a well-formed volume: \<^verbatim>\<open>setClusEntryVal\<close> returns, the
  table as a map from cluster numbers to entries is updated at that cluster and nowhere else (the
  two FAT12 entries that share a byte included), copies of the FAT that agreed still agree, and no
  byte outside the FATs is written.\<close>

theorem fat_entry_written:
  assumes "fat_table_ok fs" "\<not> isEof fs n"
  shows "\<exists>fs'. setClusEntryVal fs n v = Inr fs' \<and> fat_map fs' = (fat_map fs)(n \<mapsto> fat_trunc fs v)
    \<and> (fat_copies fs \<longrightarrow> fat_copies fs') \<and> (\<forall>a. \<not> in_fat fs a \<longrightarrow> fs_disk fs' a = fs_disk fs a)"
proof -
  obtain fs' where fs': "setClusEntryVal fs n v = Inr fs'" "fat_map fs' = (fat_map fs)(n \<mapsto> fat_trunc fs v)"
    using fat.put_in [of fs n v] assms by auto
  then show ?thesis
    using assms setClusEntryVal_copies setClusEntryVal_outside by (auto simp: fat_table_ok_def)
qed

theorem fat_entry_written_witness:
  "\<exists>fs'. setClusEntryVal ex12 3 0xABC = Inr fs' \<and> fat_map fs' = (fat_map ex12)(3 \<mapsto> fat_trunc ex12 0xABC)
    \<and> (fat_copies ex12 \<longrightarrow> fat_copies fs') \<and> (\<forall>a. \<not> in_fat ex12 a \<longrightarrow> fs_disk fs' a = fs_disk ex12 a)"
  by (rule fat_entry_written) (simp_all add: ex12_ok ex_eof)

text \<open>Any sequence of \<^verbatim>\<open>setClusEntryVal\<close> calls on clusters of the volume runs without a failed
  assertion and leaves in the FAT, for every cluster, the last value written to it, cut to the width
  of the table, or its old value if there was none.\<close>

theorem fat_writes_last_wins:
  assumes "fat_table_ok fs" "\<forall>(n, v) \<in> set nvs. \<not> isEof fs n"
  shows "\<exists>fs'. put_seq setClusEntryVal fs nvs = Inr fs'
    \<and> fat_map fs' = fat_map fs ++ map_of (rev (map (\<lambda>(n, v). (n, fat_trunc fs v)) nvs))"
  using fat.put_seq_map [of fs nvs] assms by fastforce

theorem fat_writes_last_wins_witness:
  "\<exists>fs'. put_seq setClusEntryVal ex12 [(2, 3), (3, 0xfff), (2, 0)] = Inr fs'
    \<and> fat_map fs' = fat_map ex12 ++ map_of (rev (map (\<lambda>(n, v). (n, fat_trunc ex12 v)) [(2, 3), (3, 0xfff), (2, 0)]))"
  by (rule fat_writes_last_wins) (simp_all add: ex12_ok ex_eof)

text \<open>On FAT32, \<^verbatim>\<open>clusEntryVal\<close> returns the four reserved bits of an entry that
  \<^verbatim>\<open>setClusEntryVal\<close> keeps: a cluster whose reserved bits are not zero never reads as free,
  even right after it was set to 0.\<close>

theorem fat32_reserved_never_free:
  assumes "fat_ok fs" "isFat32 fs" "clusEntryVal fs n AND 0xf0000000 \<noteq> 0"
    and "setClusEntryVal fs n 0 = Inr fs'"
  shows "clusEntryVal fs' n \<noteq> 0"
proof -
  have "\<not> isFat12 fs" "\<not> isFat16 fs" using assms(2) fat_types by auto
  then show ?thesis using assms by (simp add: clusEntryVal_set_same fat_norm_def)
qed

theorem fat32_reserved_never_free_witness:
  "\<exists>fs'. setClusEntryVal ex32 2 0 = Inr fs' \<and> clusEntryVal fs' 2 \<noteq> 0"
proof -
  obtain m where m: "setClusEntryVal ex32 2 0 = Inr (ex32\<lparr>fs_disk := m\<rparr>)"
    using setClusEntryVal_Inr [of ex32 2 0] by (auto simp: ex_eof)
  have "\<not> isFat12 ex32" "\<not> isFat16 ex32" using ex32_ok fat_types by auto
  then have "clusEntryVal ex32 2 AND 0xf0000000 \<noteq> 0"
    by (simp add: clusEntryVal_def ex32_def store_read_4 le_dword_def)
  then show ?thesis using fat32_reserved_never_free [OF ex32_ok _ m] m by blast
qed

end
