(* ===== verification/FatCluster.thy ===== *)
theory FatCluster
  imports FatVolume
begin

text \<open>
  Clusters (\<^verbatim>\<open>os/fs/fat/fatCluster.cpp\<close>): the length of a chain, reading and writing the
  sectors of a run of clusters, and the allocator. Loops over the FAT are partial functions,
  \<open>None\<close> when they do not return. A C buffer is a byte store addressed from the pointer.
  Chains of clusters are lists; the allocator is specified on the table as a map.
\<close>

subsection \<open>Operations\<close>

partial_function (option) calcSize_loop :: "fatfs \<Rightarrow> u32 \<Rightarrow> u32 \<Rightarrow> u32 option" where
  "calcSize_loop fs clus sz =
    (if isEof fs clus then Some sz
     else if clus < 2 \<or> isBadCluster fs clus \<or> countOfClusters fs + 2 \<le> clus then Some sz
     else let sz = sz + bytsPerClus fs;
              clus = clusEntryVal fs clus
          in if of_nat DIR_LIMIT < sz then Some sz else calcSize_loop fs clus sz)"

definition calcSize :: "fatfs \<Rightarrow> u32 \<Rightarrow> u32 option" where
  "calcSize fs clus =
    (if clus = 0
     then if \<not> isFat32 fs then Some (32 * le_word (fs_bpb fs) BPB_RootEntCnt)
          else calcSize_loop fs (le_dword (fs_bpb fs) BPB_RootClus) 0
     else calcSize_loop fs clus 0)"

text \<open>The number of bytes that can be read or written from \<open>clus\<close> on without a gap.\<close>

partial_function (option) cluster_run :: "fatfs \<Rightarrow> u32 \<Rightarrow> int \<Rightarrow> int \<Rightarrow> int option" where
  "cluster_run fs clus len count =
    (if len < count
     then let next = clusEntryVal fs clus;
              clus = clus + 1
          in if clus \<noteq> next then Some len
             else cluster_run fs clus (int32 (uint (word_of_int len + bytsPerClus fs))) count
     else Some len)"

text \<open>
  The common part of \<^verbatim>\<open>readCluster\<close> and \<^verbatim>\<open>writeCluster\<close>: the first sector and the number of
  bytes of the transfer. A count of 0 stands for the early returns.
\<close>

definition cluster_range :: "fatfs \<Rightarrow> int \<Rightarrow> u32 \<Rightarrow> int \<Rightarrow> (u32 \<times> int) run" where
  "cluster_range fs count clus offset =
    (let bps = uint (bytsPerSec fs)
     in if offset mod bps \<noteq> 0 then Some (Inl AssertFailed)
        else if count \<le> 0 then ok (0, 0)
        else let count = int32 (count + bps - 1) AND NOT (bps - 1)
             in if clus = 0
                then if isFat32 fs then Some (Inl AssertFailed)
                     else obind (map_option Inr (calcSize fs clus)) (\<lambda>sz.
                       if sz \<le> word_of_int offset then ok (0, 0)
                       else ok (firstRootDirSector fs + word_of_int (offset div bps),
                                if sz - word_of_int offset < word_of_int count
                                then int32 (uint (sz - word_of_int offset)) else count))
                else if bytsPerClus fs \<le> word_of_int offset then ok (0, 0)
                else let secNum = firstSectorOfCluster fs clus
                           + (word_of_int offset mod bytsPerClus fs) div ucast (bytsPerSec fs);
                         len = int32 (uint (bytsPerClus fs - word_of_int offset))
                     in obind (map_option Inr (cluster_run fs clus len count)) (\<lambda>len.
                          ok (secNum, if len < count then len else count)))"

definition sectorPosition :: "fatfs \<Rightarrow> u32 \<Rightarrow> nat" where
  "sectorPosition fs secNum = unat (secNum * ucast (bytsPerSec fs))"

definition readCluster :: "fatfs \<Rightarrow> int \<Rightarrow> u32 \<Rightarrow> int \<Rightarrow> u8 list run" where
  "readCluster fs count clus offset =
    obind (cluster_range fs count clus offset) (\<lambda>(secNum, n).
      ok (store_read (fs_disk fs) (sectorPosition fs secNum) (nat n)))"

definition writeCluster :: "fatfs \<Rightarrow> store \<Rightarrow> int \<Rightarrow> u32 \<Rightarrow> int \<Rightarrow> (fatfs \<times> int) run" where
  "writeCluster fs src count clus offset =
    obind (cluster_range fs count clus offset) (\<lambda>(secNum, n).
      ok (fs\<lparr>fs_disk := store_write (fs_disk fs) (sectorPosition fs secNum) (store_read src 0 (nat n))\<rparr>, n))"

partial_function (option) zero_loop :: "fatfs \<Rightarrow> u32 \<Rightarrow> int \<Rightarrow> (fatfs \<times> int) run" where
  "zero_loop fs clus len =
    (if word_of_int len < bytsPerClus fs
     then obind (writeCluster fs (\<lambda>a. 0) (int32 (uint (bytsPerClus fs - word_of_int len))) clus len)
       (\<lambda>(fs, n). if n \<le> 0 then ok (fs, len) else zero_loop fs clus (int32 (len + n)))
     else ok (fs, len))"

definition zeroCluster :: "fatfs \<Rightarrow> u32 \<Rightarrow> (fatfs \<times> int) run" where
  "zeroCluster fs clus = (if clus = 0 then Some (Inl AssertFailed) else zero_loop fs clus 0)"

partial_function (option) free_loop :: "fatfs \<Rightarrow> u32 \<Rightarrow> fatfs run" where
  "free_loop fs clus =
    (if isEof fs clus then ok fs
     else let next = clusEntryVal fs clus
          in obind (Some (setClusEntryVal fs clus 0)) (\<lambda>fs.
               free_loop (fs\<lparr>freeCount := freeCount fs + 1\<rparr>) next))"

definition freeCluster :: "fatfs \<Rightarrow> u32 \<Rightarrow> fatfs run" where
  "freeCluster fs clus = (if 2 \<le> clus then free_loop fs clus else ok fs)"

text \<open>Taking the cluster \<^verbatim>\<open>nxtFree\<close>: mark it, zero it if asked, link it behind \<open>prev\<close>.\<close>

definition alloc_take :: "fatfs \<Rightarrow> bool \<Rightarrow> u32 \<Rightarrow> u32 \<Rightarrow> (fatfs \<times> u32 \<times> u32) run" where
  "alloc_take fs zr clus prev =
    (let p = nxtFree fs
     in obind (Some (setClusEntryVal fs p 0xffffffff)) (\<lambda>fs.
        let fs = fs\<lparr>freeCount := freeCount fs - 1\<rparr>
        in obind (if zr then obind (zeroCluster fs p) (\<lambda>(fs, len). ok fs) else ok fs) (\<lambda>fs.
           if prev \<noteq> 0 then obind (Some (setClusEntryVal fs prev p)) (\<lambda>fs. ok (fs, clus, p))
           else ok (fs, p, p))))"

partial_function (option) alloc_loop ::
    "fatfs \<Rightarrow> bool \<Rightarrow> u32 \<Rightarrow> u32 \<Rightarrow> u32 \<Rightarrow> u32 \<Rightarrow> (fatfs \<times> u32) run" where
  "alloc_loop fs zr n clus prev count =
    (if n = 0 then ok (fs, clus)
     else let fs = (if isEof fs (nxtFree fs) then fs\<lparr>nxtFree := 2\<rparr> else fs)
          in obind
              (if clusEntryVal fs (nxtFree fs) = 0
               then obind (alloc_take fs zr clus prev) (\<lambda>(fs, clus, prev). ok (fs, n - 1, clus, prev))
               else ok (fs, n, clus, prev))
              (\<lambda>(fs, n, clus, prev).
                if countOfClusters fs < count + 1
                then obind (freeCluster fs clus) (\<lambda>fs. ok (fs, 0xffffffff))
                else alloc_loop (fs\<lparr>nxtFree := nxtFree fs + 1\<rparr>) zr n clus prev (count + 1)))"

declare calcSize_loop.simps [code] cluster_run.simps [code] zero_loop.simps [code] free_loop.simps [code] alloc_loop.simps [code]

definition allocCluster :: "fatfs \<Rightarrow> u32 \<Rightarrow> bool \<Rightarrow> (fatfs \<times> u32) run" where
  "allocCluster fs n zr =
    (if n = 0 \<or> freeCount fs < n then ok (fs, 0xffffffff) else alloc_loop fs zr n 0 0 0)"

subsection \<open>Geometry of the data region\<close>

definition fat_bpc :: "fatfs \<Rightarrow> nat" where
  "fat_bpc fs = unat (bytsPerClus fs)"

definition data_base :: "fatfs \<Rightarrow> nat" where
  "data_base fs = unat (firstDataSector fs) * fat_bps fs"

definition cluster_pos :: "fatfs \<Rightarrow> u32 \<Rightarrow> nat" where
  "cluster_pos fs c = data_base fs + (unat c - 2) * fat_bpc fs"

text \<open>
  A volume whose regions are laid out in order and lie below 4 GB: sectors are a power of two,
  clusters a power of two of sectors, and the data region starts behind the FATs.
\<close>

definition vol_geo :: "fatfs \<Rightarrow> bool" where
  "vol_geo fs \<longleftrightarrow> 0 < countOfClusters fs
     \<and> fat_bps fs \<in> set (map (\<lambda>k. 2 ^ k) [0..<16])
     \<and> fat_bpc fs = fat_bps fs * unat (fs_bpb fs ! BPB_SecPerClus) \<and> 0 < fat_bpc fs
     \<and> fat_bpc fs \<in> set (map (\<lambda>k. 2 ^ k) [0..<24])
     \<and> fat_base fs + unat (fs_bpb fs ! BPB_NumFATs) * fat_len fs \<le> data_base fs
     \<and> data_base fs + unat (countOfClusters fs) * fat_bpc fs < 2 ^ 32"

definition vol_ok :: "fatfs \<Rightarrow> bool" where
  "vol_ok fs \<longleftrightarrow> fat_table_ok fs \<and> vol_geo fs"

definition valid_cluster :: "fatfs \<Rightarrow> u32 \<Rightarrow> bool" where
  "valid_cluster fs c \<longleftrightarrow> 2 \<le> c \<and> \<not> isEof fs c"

lemma vol_ok_fat: "vol_ok fs \<Longrightarrow> fat_table_ok fs" "vol_ok fs \<Longrightarrow> fat_ok fs"
  by (auto simp: vol_ok_def vol_geo_def fat_table_ok_def)

lemma valid_cluster_nat:
  assumes "vol_ok fs"
  shows "valid_cluster fs c \<longleftrightarrow> 2 \<le> unat c \<and> unat c < unat (countOfClusters fs) + 2"
  using vol_ok_fat(2) [OF assms]
  by (auto simp: valid_cluster_def isEof_nat fat_ok_def word_le_nat_alt)

lemma bpc_bound:
  assumes "vol_ok fs"
  shows "fat_bpc fs < 2 ^ 24" "0 < fat_bps fs" "fat_bps fs dvd fat_bpc fs" "fat_bps fs \<le> fat_bpc fs"
    "fat_bps fs < 2 ^ 16"
proof -
  have 1: "fat_bps fs \<le> 2 ^ 15"
  proof -
    obtain x where x: "x < 16" "fat_bps fs = 2 ^ x" using assms by (auto simp: vol_ok_def vol_geo_def)
    then show ?thesis using power_increasing [of x 15 "2 :: nat"] by simp
  qed
  then show "fat_bps fs < 2 ^ 16" by simp
  have "unat (fs_bpb fs ! BPB_SecPerClus) \<le> 255"
    using unat_u8_less [of "fs_bpb fs ! BPB_SecPerClus"] by linarith
  then have "fat_bps fs * unat (fs_bpb fs ! BPB_SecPerClus) \<le> 2 ^ 15 * 255"
    using 1 by (intro mult_le_mono)
  then show "fat_bpc fs < 2 ^ 24" using assms by (simp add: vol_ok_def vol_geo_def)
  show "0 < fat_bps fs" "fat_bps fs dvd fat_bpc fs" "fat_bps fs \<le> fat_bpc fs"
    using assms by (auto simp: vol_ok_def vol_geo_def)
qed

text \<open>Rounding a count up to whole sectors.\<close>

definition round_up :: "nat \<Rightarrow> nat \<Rightarrow> nat" where
  "round_up b n = (n + b - 1) div b * b"

lemma round_mask:
  assumes "vol_ok fs" "0 < count" "count < 2 ^ 31 - 2 ^ 16"
  shows "int32 (count + uint (bytsPerSec fs) - 1) AND NOT (uint (bytsPerSec fs) - 1)
    = int (round_up (fat_bps fs) (nat count))"
proof -
  obtain k where k: "fat_bps fs = 2 ^ k" using assms by (auto simp: vol_ok_def vol_geo_def)
  have b: "uint (bytsPerSec fs) = 2 ^ k" using k by (simp add: fat_bps_def uint_nat)
  have lt: "(2::int) ^ k < 2 ^ 16"
    using bpc_bound(5) [OF assms(1)] k by (metis of_nat_less_iff of_nat_numeral of_nat_power)
  have "int32 (count + 2 ^ k - 1) = count + 2 ^ k - 1"
  proof -
    have "(0::int) < 2 ^ k" by simp
    then show ?thesis using assms lt by (intro int32_id) linarith+
  qed
  moreover have "(x :: int) AND NOT (2 ^ k - 1) = x div 2 ^ k * 2 ^ k" for x
  proof -
    have "x AND NOT (mask k) = push_bit k (drop_bit k x)"
      by (rule bit_eqI) (auto simp: bit_simps)
    then show ?thesis by (simp add: mask_eq_exp_minus_1 push_bit_eq_mult drop_bit_eq_div)
  qed
  moreover have "(count + 2 ^ k - 1) div 2 ^ k * 2 ^ k = int (round_up (2 ^ k) (nat count))"
  proof -
    have "count + 2 ^ k - 1 = int (nat count + 2 ^ k - 1)" using assms(2) by (simp add: of_nat_diff)
    then show ?thesis by (simp add: round_up_def zdiv_int)
  qed
  ultimately show ?thesis by (simp add: b k)
qed

lemma cluster_pos_end:
  assumes "vol_ok fs" "valid_cluster fs c"
  shows "cluster_pos fs c + fat_bpc fs \<le> data_base fs + unat (countOfClusters fs) * fat_bpc fs"
    "cluster_pos fs c + fat_bpc fs < 2 ^ 32"
proof -
  have "unat c - 2 + 1 \<le> unat (countOfClusters fs)"
    using assms by (auto simp: valid_cluster_nat)
  then have "(unat c - 2 + 1) * fat_bpc fs \<le> unat (countOfClusters fs) * fat_bpc fs"
    by (rule mult_le_mono1)
  then show "cluster_pos fs c + fat_bpc fs \<le> data_base fs + unat (countOfClusters fs) * fat_bpc fs"
    by (simp add: cluster_pos_def add_mult_distrib)
  moreover have "data_base fs + unat (countOfClusters fs) * fat_bpc fs < 2 ^ 32"
    using assms(1) unfolding vol_ok_def vol_geo_def by blast
  ultimately show "cluster_pos fs c + fat_bpc fs < 2 ^ 32" by linarith
qed

lemma sector_of_cluster:
  assumes ok: "vol_ok fs" and c: "valid_cluster fs c" and o: "o' < fat_bpc fs" "fat_bps fs dvd o'"
  shows "sectorPosition fs (firstSectorOfCluster fs c
      + (of_nat o' mod bytsPerClus fs) div ucast (bytsPerSec fs)) = cluster_pos fs c + o'"
proof -
  let ?spc = "unat (fs_bpb fs ! BPB_SecPerClus)" and ?b = "fat_bps fs"
  have c2: "2 \<le> unat c" and c0: "0 < c"
    using assms by (auto simp: valid_cluster_nat word_less_nat_alt)
  have bpc: "fat_bpc fs = ?b * ?spc" "0 < ?b" using ok bpc_bound(2) [OF ok] by (auto simp: vol_ok_def vol_geo_def)
  obtain j where j: "o' = j * ?b" using o(2) by (metis dvd_def mult.commute)
  have pos: "((unat c - 2) * ?spc + unat (firstDataSector fs) + j) * ?b = cluster_pos fs c + o'"
    by (simp add: cluster_pos_def data_base_def bpc j algebra_simps)
  have lim: "cluster_pos fs c + o' < 2 ^ 32"
    using cluster_pos_end(2) [OF ok c] o by simp
  have "(unat c - 2) * ?spc + unat (firstDataSector fs) + j \<le> ((unat c - 2) * ?spc + unat (firstDataSector fs) + j) * ?b"
    using bpc(2) by simp
  then have lim': "(unat c - 2) * ?spc + unat (firstDataSector fs) + j < 2 ^ 32"
    using lim pos by linarith
  have o32: "o' < 2 ^ 32" using lim by simp
  have uo: "unat (of_nat o' mod bytsPerClus fs) = o'"
    using o o32 by (simp add: unat_mod fat_bpc_def unat_of_nat_u32)
  have ub: "unat (ucast (bytsPerSec fs) :: u32) = ?b" by (simp add: fat_bps_def unat_ucast_up)
  have us: "unat (le_byte (fs_bpb fs) BPB_SecPerClus) = ?spc" by (simp add: le_byte_def unat_ucast_up)
  have uc: "unat (c - 2) = unat c - 2" using c2 by (simp add: unat_sub_if')
  have 1: "unat ((c - 2) * le_byte (fs_bpb fs) BPB_SecPerClus) = (unat c - 2) * ?spc"
    using lim' by (subst unat_mult_u32) (simp_all add: us uc)
  have 2: "unat (firstSectorOfCluster fs c) = (unat c - 2) * ?spc + unat (firstDataSector fs)"
    using lim' c0 1 by (simp add: firstSectorOfCluster_def unat_add_u32)
  have 3: "unat ((of_nat o' mod bytsPerClus fs) div ucast (bytsPerSec fs)) = j"
    unfolding unat_div uo ub using bpc(2) j by simp
  have 4: "unat (firstSectorOfCluster fs c + (of_nat o' mod bytsPerClus fs) div ucast (bytsPerSec fs))
      = (unat c - 2) * ?spc + unat (firstDataSector fs) + j"
    using lim' 2 3 by (simp add: unat_add_u32)
  then show ?thesis
    using lim pos by (simp add: sectorPosition_def unat_mult_u32 ub)
qed

subsection \<open>Chains\<close>

fun chain :: "(u32 \<rightharpoonup> u32) \<Rightarrow> u32 list \<Rightarrow> bool" where
  "chain T [] = True"
| "chain T [c] = (case T c of None \<Rightarrow> False | Some e \<Rightarrow> T e = None)"
| "chain T (c # d # cs) = (T c = Some d \<and> chain T (d # cs))"

text \<open>A chain of clusters of the volume, all different.\<close>

definition cluster_chain :: "fatfs \<Rightarrow> u32 list \<Rightarrow> bool" where
  "cluster_chain fs cs \<longleftrightarrow> chain (fat_map fs) cs \<and> list_all (valid_cluster fs) cs \<and> distinct cs"

lemma chain_cong:
  "(\<And>c. c \<in> set cs \<Longrightarrow> T c = T' c) \<Longrightarrow> (\<And>x. T x = None \<longleftrightarrow> T' x = None) \<Longrightarrow> chain T cs = chain T' cs"
  by (induction T cs rule: chain.induct) (simp_all split: option.splits)

lemma chain_Cons:
  "chain T (c # cs) \<longleftrightarrow>
    (\<exists>e. T c = Some e \<and> (if cs = [] then T e = None else e = hd cs)) \<and> chain T cs"
  by (cases cs) (auto split: option.splits)

lemma chain_append:
  "chain T (cs @ [p]) \<longleftrightarrow> (case T p of None \<Rightarrow> False | Some e \<Rightarrow> T e = None)
    \<and> (\<forall>i. Suc i < length cs \<longrightarrow> T (cs ! i) = Some (cs ! Suc i))
    \<and> (cs \<noteq> [] \<longrightarrow> T (last cs) = Some p)"
proof (induction cs)
  case (Cons c cs)
  then show ?case
    by (cases cs) (auto simp: nth_Cons split: nat.splits option.splits)
qed simp

lemma chain_nth: "chain T cs \<Longrightarrow> Suc i < length cs \<Longrightarrow> T (cs ! i) = Some (cs ! Suc i)"
proof (induction T cs arbitrary: i rule: chain.induct)
  case (3 T c d cs)
  then show ?case by (cases i) auto
qed auto

lemma chain_tl: "chain T cs \<Longrightarrow> chain T (tl cs)"
  by (cases cs) (auto simp: chain_Cons)

lemma chain_drop: "chain T cs \<Longrightarrow> chain T (drop k cs)"
  by (induction k) (auto simp: drop_Suc drop_tl chain_tl)

subsection \<open>Reading and writing clusters\<close>

lemma chain_hd_dom: "chain T (c # cs) \<Longrightarrow> T c \<noteq> None"
  by (cases cs) (auto split: option.splits)

lemma fat_map_Some_valid: "chain (fat_map fs) (c # cs) \<Longrightarrow> \<not> isEof fs c"
  by (drule chain_hd_dom) (simp only: fat_map_None not_False_eq_True)

lemma uint_add_u32:
  assumes "0 \<le> x" "x + int (unat (y :: u32)) < 2 ^ 32"
  shows "uint (word_of_int x + y) = x + int (unat y)"
proof -
  have x: "unat (word_of_int x :: u32) = nat x" using assms by (intro u32_of_int) linarith+
  have "int (nat x + unat y) < int (2 ^ 32)" using assms by simp
  then have *: "nat x + unat y < 2 ^ 32" by (simp only: of_nat_less_iff)
  have "unat (word_of_int x + y) = nat x + unat y"
    unfolding x [symmetric] by (rule unat_add_u32) (simp only: x *)
  then have "uint (word_of_int x + y) = int (nat x + unat y)" by (simp only: uint_nat)
  then show ?thesis using assms(1) by simp
qed

text \<open>A run follows the chain: it covers whole clusters of it that are numbered consecutively.\<close>

lemma cluster_run_chain:
  assumes "chain (fat_map fs) cs" "cs \<noteq> []" "vol_ok fs" "0 \<le> len"
    and "count \<le> len + int (length cs - 1) * int (fat_bpc fs)" "count < 2 ^ 31 - 2 ^ 24" "len < 2 ^ 31"
  shows "\<exists>k < length cs. cluster_run fs (hd cs) len count = Some (len + int k * int (fat_bpc fs))
    \<and> (\<forall>i \<le> k. unat (cs ! i) = unat (hd cs) + i)"
  using assms
proof (induction cs arbitrary: len)
  case (Cons c cs)
  have c: "\<not> isEof fs c" using Cons.prems fat_map_Some_valid by blast
  show ?case
  proof (cases "len < count")
    case False
    then show ?thesis by (subst cluster_run.simps) (auto intro!: exI [of _ 0])
  next
    case True
    then obtain d ds where cs: "cs = d # ds" using Cons.prems by (cases cs) auto
    have next': "clusEntryVal fs c = d" and ch: "chain (fat_map fs) cs"
      using Cons.prems cs by (auto simp: fat_map_Some)
    show ?thesis
    proof (cases "c + 1 = d")
      case False
      then show ?thesis using next' by (subst cluster_run.simps) (auto intro!: exI [of _ 0])
    next
      case d: True
      have bpc: "int (fat_bpc fs) < 2 ^ 24" using bpc_bound(1) [OF Cons.prems(3)] by simp
      let ?len = "len + int (fat_bpc fs)"
      have "uint (word_of_int len + bytsPerClus fs) = ?len"
        using Cons.prems(4,6) True bpc by (subst uint_add_u32) (auto simp: fat_bpc_def)
      moreover have "int32 ?len = ?len" using Cons.prems(4,6) True bpc by (intro int32_id) linarith+
      moreover have "count \<le> ?len + int (length cs - 1) * int (fat_bpc fs)"
        using Cons.prems(5) cs by (simp add: algebra_simps)
      ultimately obtain k where k: "k < length cs" "cluster_run fs d ?len count = Some (?len + int k * int (fat_bpc fs))"
        "\<forall>i \<le> k. unat (cs ! i) = unat d + i"
        using Cons.IH [OF ch _ Cons.prems(3), of ?len] Cons.prems(4,6) True bpc cs by auto
      have run: "cluster_run fs c len count = cluster_run fs d ?len count"
        using True d next' \<open>uint _ = _\<close> \<open>int32 _ = _\<close> by (subst cluster_run.simps) simp
      have "unat (c + 1) = unat c + 1"
      proof -
        have "unat c < 2 ^ 32 - 1"
          using c vol_ok_fat(2) [OF Cons.prems(3)] by (auto simp: isEof_nat fat_ok_def word_less_nat_alt)
        then show ?thesis by (simp add: unat_add_u32)
      qed
      then have "unat d = unat c + 1" using d by simp
      then show ?thesis
        using k run by (intro exI [of _ "Suc k"]) (auto simp: algebra_simps nth_Cons split: nat.splits)
    qed
  qed
qed simp

lemma round_up_props:
  assumes "0 < b"
  shows "n \<le> round_up b n" "b dvd round_up b n" "0 < n \<Longrightarrow> 0 < round_up b n" "round_up b n < n + b"
    "b dvd m \<Longrightarrow> n \<le> m \<Longrightarrow> round_up b n \<le> m"
proof -
  have eq: "round_up b n + (n + b - 1) mod b = n + b - 1" by (simp add: round_up_def)
  have lt: "(n + b - 1) mod b < b" using assms by simp
  show ge: "n \<le> round_up b n" using eq lt assms by linarith
  show "b dvd round_up b n" by (simp add: round_up_def)
  show "0 < n \<Longrightarrow> 0 < round_up b n" using ge by linarith
  show ub: "round_up b n < n + b" using eq assms by linarith
  show "round_up b n \<le> m" if m: "b dvd m" "n \<le> m"
  proof -
    obtain q where q: "m = b * q" using m(1) by (rule dvdE)
    have "(n + b - 1) div b < q + 1"
      using q m(2) assms by (simp add: div_less_iff_less_mult algebra_simps)
    then have "(n + b - 1) div b * b \<le> q * b" by (intro mult_le_mono1) simp
    then show ?thesis by (simp add: round_up_def q mult.commute)
  qed
qed

text \<open>Where byte \<open>i\<close> of a file with the clusters \<open>cs\<close> is on the disk.\<close>

definition file_pos :: "fatfs \<Rightarrow> u32 list \<Rightarrow> nat \<Rightarrow> nat" where
  "file_pos fs cs i = cluster_pos fs (cs ! (i div fat_bpc fs)) + i mod fat_bpc fs"

lemma file_pos_run:
  assumes "0 < fat_bpc fs" "\<forall>i \<le> k. unat (cs ! i) = unat (hd cs) + i" "i < (k + 1) * fat_bpc fs" "2 \<le> hd cs"
  shows "file_pos fs cs i = cluster_pos fs (hd cs) + i"
proof -
  have "i div fat_bpc fs \<le> k" using assms(1,3) by (simp add: div_less_iff_less_mult flip: less_Suc_eq_le)
  then have "unat (cs ! (i div fat_bpc fs)) = unat (hd cs) + i div fat_bpc fs" using assms(2) by blast
  moreover have "2 \<le> unat (hd cs)" using assms(4) by (simp add: word_le_nat_alt)
  then obtain d where "unat (hd cs) = d + 2" by (metis add.commute le_Suc_ex)
  ultimately show ?thesis
    by (simp add: file_pos_def cluster_pos_def add_mult_distrib)
qed

lemma cluster_range_data:
  assumes ok: "vol_ok fs" and cs: "cluster_chain fs cs" "cs \<noteq> []" and o': "o' < fat_bpc fs" "fat_bps fs dvd o'"
    and count: "0 < count" "count < 2 ^ 31 - 2 ^ 25" "int o' + count \<le> int (length cs * fat_bpc fs)"
  shows "\<exists>sec n. cluster_range fs count (hd cs) (int o') = ok (sec, int n)
    \<and> sectorPosition fs sec = cluster_pos fs (hd cs) + o' \<and> 0 < n \<and> n \<le> round_up (fat_bps fs) (nat count)
    \<and> o' + n \<le> length cs * fat_bpc fs \<and> fat_bps fs dvd n \<and> min (fat_bpc fs - o') (nat count) \<le> n
    \<and> (\<forall>i < n. file_pos fs cs (o' + i) = cluster_pos fs (hd cs) + o' + i)"
proof -
  let ?b = "fat_bps fs" and ?c = "fat_bpc fs" and ?R = "round_up (fat_bps fs) (nat count)"
  note bnd = bpc_bound [OF ok]
  have v: "valid_cluster fs (hd cs)" using cs by (cases cs) (auto simp: cluster_chain_def)
  then have hd: "2 \<le> hd cs" "hd cs \<noteq> 0" by (auto simp: valid_cluster_def)
  have al: "?b dvd length cs * ?c - o'" using bnd(3) o'(2) by (intro dvd_diff_nat dvd_mult)
  have R: "nat count \<le> ?R" "?b dvd ?R" "0 < ?R" "?R < nat count + ?b" "?R \<le> length cs * ?c - o'"
  proof -
    have "int o' + int (nat count) \<le> int (length cs * ?c)" using count by simp
    then have "o' + nat count \<le> length cs * ?c" by (simp only: of_nat_add [symmetric] of_nat_le_iff)
    then have "nat count \<le> length cs * ?c - o'" by simp
    then show "?R \<le> length cs * ?c - o'" by (rule round_up_props(5) [OF bnd(2) al])
  qed (use round_up_props [OF bnd(2), of "nat count"] count in auto)
  have Rlt: "int ?R < 2 ^ 31 - 2 ^ 24" using R(4) count(1,2) bnd(5) by simp
  have mask: "int32 (count + uint (bytsPerSec fs) - 1) AND NOT (uint (bytsPerSec fs) - 1) = int ?R"
    using count(1,2) by (intro round_mask [OF ok]) simp_all
  have omod: "int o' mod uint (bytsPerSec fs) = 0"
  proof -
    have "uint (bytsPerSec fs) = int (fat_bps fs)" by (simp add: fat_bps_def)
    then have "int o' mod uint (bytsPerSec fs) = int (o' mod fat_bps fs)" by (simp only: of_nat_mod)
    then show ?thesis using o'(2) by simp
  qed
  have ow: "unat (word_of_int (int o') :: u32) = o'" "(word_of_int (int o') :: u32) = of_nat o'"
    using o' bnd(1) by (simp_all add: unat_of_nat_u32)
  have nle: "\<not> bytsPerClus fs \<le> word_of_int (int o')"
    using o' ow by (simp add: word_le_nat_alt fat_bpc_def)
  define len where "len = int (?c - o')"
  have len: "int32 (uint (bytsPerClus fs - word_of_int (int o'))) = len"
  proof -
    have "unat (bytsPerClus fs - word_of_int (int o')) = ?c - o'"
      using o' ow nle by (simp add: unat_sub fat_bpc_def)
    then have "uint (bytsPerClus fs - word_of_int (int o')) = len" by (simp only: len_def uint_nat)
    moreover have "len < 2 ^ 31" "0 \<le> len" using bnd(1) by (simp_all add: len_def)
    ultimately show ?thesis by (simp only:) (simp add: int32_id)
  qed
  have lenp: "0 < len" "len < 2 ^ 31" using bnd(1) o' by (simp_all add: len_def)
  have "int ?R \<le> len + int (length cs - 1) * int ?c"
  proof -
    have "length cs * ?c = ?c + (length cs - 1) * ?c" using cs(2) by (cases cs) auto
    then have "?R \<le> ?c - o' + (length cs - 1) * ?c" using R(5) o'(1) by linarith
    then show ?thesis unfolding len_def by (metis of_nat_le_iff of_nat_add of_nat_mult)
  qed
  then obtain k where k: "k < length cs"
    "cluster_run fs (hd cs) len (int ?R) = Some (len + int k * int ?c)"
    "\<forall>i \<le> k. unat (cs ! i) = unat (hd cs) + i"
    using cluster_run_chain [of fs cs len "int ?R"] cs ok Rlt lenp by (auto simp: cluster_chain_def)
  define L where "L = ?c - o' + k * ?c"
  have L: "len + int k * int ?c = int L" by (simp add: L_def len_def)
  define n where "n = (if L < ?R then L else ?R)"
  define sec where "sec = firstSectorOfCluster fs (hd cs)
      + (of_nat o' mod bytsPerClus fs) div ucast (bytsPerSec fs)"
  have "cluster_range fs count (hd cs) (int o') = ok (sec, int n)"
    using omod count(1) hd nle k(2) unfolding cluster_range_def
    by (simp add: Let_def mask len [unfolded ow(2)] L sec_def n_def ow del: of_nat_add of_nat_mult)
  moreover have "sectorPosition fs sec = cluster_pos fs (hd cs) + o'"
    unfolding sec_def by (rule sector_of_cluster [OF ok v o'])
  moreover have "0 < n" using R(3) o'(1) by (simp add: n_def L_def)
  moreover have "n \<le> ?R" by (simp add: n_def)
  moreover have "o' + n \<le> length cs * ?c" using R(5) \<open>n \<le> ?R\<close> R(3) by linarith
  moreover have "?b dvd n"
    using R(2) bnd(3) o'(2) by (simp add: n_def L_def dvd_diff_nat)
  moreover have "min (?c - o') (nat count) \<le> n" using R(1) by (auto simp: n_def L_def)
  moreover have "file_pos fs cs (o' + i) = cluster_pos fs (hd cs) + o' + i" if "i < n" for i
  proof -
    have "o' + i < (k + 1) * ?c" using that o' by (auto simp: n_def L_def split: if_splits)
    then show ?thesis
      using file_pos_run [OF _ k(3) _ hd(1)] o'(1) by (simp add: add.assoc)
  qed
  ultimately show ?thesis by blast
qed

text \<open>A transfer that starts in the first cluster of \<open>cs\<close> at offset \<open>o'\<close> moves some \<open>n\<close> bytes,
  whole sectors, at most the rounded count and at least what the first cluster holds of it.\<close>

definition transfer_len :: "fatfs \<Rightarrow> u32 list \<Rightarrow> nat \<Rightarrow> int \<Rightarrow> nat \<Rightarrow> bool" where
  "transfer_len fs cs o' count n \<longleftrightarrow> 0 < n \<and> n \<le> round_up (fat_bps fs) (nat count)
    \<and> o' + n \<le> length cs * fat_bpc fs \<and> fat_bps fs dvd n \<and> min (fat_bpc fs - o') (nat count) \<le> n"

definition transfer_ok :: "fatfs \<Rightarrow> u32 list \<Rightarrow> nat \<Rightarrow> int \<Rightarrow> bool" where
  "transfer_ok fs cs o' count \<longleftrightarrow> vol_ok fs \<and> cluster_chain fs cs \<and> cs \<noteq> [] \<and> o' < fat_bpc fs
    \<and> fat_bps fs dvd o' \<and> 0 < count \<and> count < 2 ^ 31 - 2 ^ 25
    \<and> int o' + count \<le> int (length cs * fat_bpc fs)"

lemma cluster_range_transfer:
  assumes "transfer_ok fs cs o' count"
  obtains sec n where "cluster_range fs count (hd cs) (int o') = ok (sec, int n)"
    "sectorPosition fs sec = cluster_pos fs (hd cs) + o'" "transfer_len fs cs o' count n"
    "\<And>i. i < n \<Longrightarrow> file_pos fs cs (o' + i) = cluster_pos fs (hd cs) + o' + i"
  using assms cluster_range_data [of fs cs o' count] by (auto simp: transfer_ok_def transfer_len_def)

lemma readCluster_data:
  assumes "transfer_ok fs cs o' count"
  shows "\<exists>n. readCluster fs count (hd cs) (int o') = ok (map (\<lambda>i. fs_disk fs (file_pos fs cs (o' + i))) [0..<n])
    \<and> transfer_len fs cs o' count n"
proof -
  obtain sec n where n: "cluster_range fs count (hd cs) (int o') = ok (sec, int n)"
    "sectorPosition fs sec = cluster_pos fs (hd cs) + o'" "transfer_len fs cs o' count n"
    "\<And>i. i < n \<Longrightarrow> file_pos fs cs (o' + i) = cluster_pos fs (hd cs) + o' + i"
    using cluster_range_transfer [OF assms] by blast
  have "store_read (fs_disk fs) (cluster_pos fs (hd cs) + o') n
      = map (\<lambda>i. fs_disk fs (file_pos fs cs (o' + i))) [0..<n]"
    using n(4) by (intro nth_equalityI) auto
  then show ?thesis using n by (intro exI [of _ n]) (simp add: readCluster_def)
qed

lemma writeCluster_data:
  assumes "transfer_ok fs cs o' count"
  shows "\<exists>n m. writeCluster fs src count (hd cs) (int o') = ok (fs\<lparr>fs_disk := m\<rparr>, int n)
    \<and> transfer_len fs cs o' count n \<and> (\<forall>i < n. m (file_pos fs cs (o' + i)) = src i)
    \<and> (\<forall>a. (\<forall>i < n. a \<noteq> file_pos fs cs (o' + i)) \<longrightarrow> m a = fs_disk fs a)"
proof -
  obtain sec n where n: "cluster_range fs count (hd cs) (int o') = ok (sec, int n)"
    "sectorPosition fs sec = cluster_pos fs (hd cs) + o'" "transfer_len fs cs o' count n"
    "\<And>i. i < n \<Longrightarrow> file_pos fs cs (o' + i) = cluster_pos fs (hd cs) + o' + i"
    using cluster_range_transfer [OF assms] by blast
  let ?p = "cluster_pos fs (hd cs) + o'"
  let ?m = "store_write (fs_disk fs) ?p (store_read src 0 n)"
  have "?m a = fs_disk fs a" if "\<forall>i < n. a \<noteq> file_pos fs cs (o' + i)" for a
  proof -
    have "\<not> (?p \<le> a \<and> a < ?p + n)"
    proof
      assume "?p \<le> a \<and> a < ?p + n"
      then have "a - ?p < n" "?p + (a - ?p) = a" by auto
      then show False using that n(4) [of "a - ?p"] by auto
    qed
    then show ?thesis by (auto simp: store_write_def)
  qed
  moreover have "?m (file_pos fs cs (o' + i)) = src i" if "i < n" for i
    using that n(4) by (simp add: store_write_def)
  ultimately show ?thesis
    using n by (intro exI [of _ n] exI [of _ ?m]) (simp add: writeCluster_def)
qed

subsection \<open>What an operation may change\<close>

text \<open>
  \<open>fat_step W fs fs'\<close>: from \<open>fs\<close> to \<open>fs'\<close> only the disk and the two allocation hints change,
  the volume stays well formed, copies of the FAT stay equal, and no byte outside the FATs and
  \<open>W\<close> changes.
\<close>

definition fat_step :: "nat set \<Rightarrow> fatfs \<Rightarrow> fatfs \<Rightarrow> bool" where
  "fat_step W fs fs' \<longleftrightarrow>
     fs' = fs\<lparr>fs_disk := fs_disk fs', nxtFree := nxtFree fs', freeCount := freeCount fs'\<rparr>
     \<and> vol_ok fs \<and> vol_ok fs' \<and> (fat_copies fs \<longrightarrow> fat_copies fs')
     \<and> (\<forall>a. \<not> in_fat fs a \<longrightarrow> a \<notin> W \<longrightarrow> fs_disk fs' a = fs_disk fs a)"

lemma hint_frame [frame_simps, simp]:
  "isFat12 (fs\<lparr>nxtFree := x\<rparr>) = isFat12 fs" "isFat12 (fs\<lparr>freeCount := y\<rparr>) = isFat12 fs"
  "isFat16 (fs\<lparr>nxtFree := x\<rparr>) = isFat16 fs" "isFat16 (fs\<lparr>freeCount := y\<rparr>) = isFat16 fs"
  "isFat32 (fs\<lparr>nxtFree := x\<rparr>) = isFat32 fs" "isFat32 (fs\<lparr>freeCount := y\<rparr>) = isFat32 fs"
  "isEof (fs\<lparr>nxtFree := x\<rparr>) = isEof fs" "isEof (fs\<lparr>freeCount := y\<rparr>) = isEof fs"
  "fat_rel (fs\<lparr>nxtFree := x\<rparr>) = fat_rel fs" "fat_rel (fs\<lparr>freeCount := y\<rparr>) = fat_rel fs"
  "fat_base (fs\<lparr>nxtFree := x\<rparr>) = fat_base fs" "fat_base (fs\<lparr>freeCount := y\<rparr>) = fat_base fs"
  "fat_len (fs\<lparr>nxtFree := x\<rparr>) = fat_len fs" "fat_len (fs\<lparr>freeCount := y\<rparr>) = fat_len fs"
  "fat_width (fs\<lparr>nxtFree := x\<rparr>) = fat_width fs" "fat_width (fs\<lparr>freeCount := y\<rparr>) = fat_width fs"
  "fatPosition (fs\<lparr>nxtFree := x\<rparr>) = fatPosition fs" "fatPosition (fs\<lparr>freeCount := y\<rparr>) = fatPosition fs"
  "clusEntryVal (fs\<lparr>nxtFree := x\<rparr>) = clusEntryVal fs" "clusEntryVal (fs\<lparr>freeCount := y\<rparr>) = clusEntryVal fs"
  "fat_byte (fs\<lparr>nxtFree := x\<rparr>) = fat_byte fs" "fat_byte (fs\<lparr>freeCount := y\<rparr>) = fat_byte fs"
  "fat_map (fs\<lparr>nxtFree := x\<rparr>) = fat_map fs" "fat_map (fs\<lparr>freeCount := y\<rparr>) = fat_map fs"
  by (auto simp: isFat12_def isFat16_def isFat32_def isEof_def fat_rel_def fat_base_def fat_len_def
      fat_width_def fat_bps_def fatPosition_def fatOffset_def clusEntryVal_def fat_byte_def fat_map_def fun_eq_iff)

lemma data_frame [frame_simps, simp]:
  "fat_bps (fs\<lparr>nxtFree := x\<rparr>) = fat_bps fs" "fat_bps (fs\<lparr>freeCount := y\<rparr>) = fat_bps fs" "fat_bps (fs\<lparr>fs_disk := m\<rparr>) = fat_bps fs"
  "fat_bpc (fs\<lparr>nxtFree := x\<rparr>) = fat_bpc fs" "fat_bpc (fs\<lparr>freeCount := y\<rparr>) = fat_bpc fs" "fat_bpc (fs\<lparr>fs_disk := m\<rparr>) = fat_bpc fs"
  "data_base (fs\<lparr>nxtFree := x\<rparr>) = data_base fs" "data_base (fs\<lparr>freeCount := y\<rparr>) = data_base fs" "data_base (fs\<lparr>fs_disk := m\<rparr>) = data_base fs"
  "cluster_pos (fs\<lparr>nxtFree := x\<rparr>) = cluster_pos fs" "cluster_pos (fs\<lparr>freeCount := y\<rparr>) = cluster_pos fs" "cluster_pos (fs\<lparr>fs_disk := m\<rparr>) = cluster_pos fs"
  "in_fat (fs\<lparr>nxtFree := x\<rparr>) = in_fat fs" "in_fat (fs\<lparr>freeCount := y\<rparr>) = in_fat fs" "in_fat (fs\<lparr>fs_disk := m\<rparr>) = in_fat fs"
  "valid_cluster (fs\<lparr>nxtFree := x\<rparr>) = valid_cluster fs" "valid_cluster (fs\<lparr>freeCount := y\<rparr>) = valid_cluster fs" "valid_cluster (fs\<lparr>fs_disk := m\<rparr>) = valid_cluster fs"
  "fat_trunc (fs\<lparr>nxtFree := x\<rparr>) = fat_trunc fs" "fat_trunc (fs\<lparr>freeCount := y\<rparr>) = fat_trunc fs"
  "fat_ok (fs\<lparr>nxtFree := x\<rparr>) = fat_ok fs" "fat_ok (fs\<lparr>freeCount := y\<rparr>) = fat_ok fs"
  "fat_copies (fs\<lparr>nxtFree := x\<rparr>) = fat_copies fs" "fat_copies (fs\<lparr>freeCount := y\<rparr>) = fat_copies fs"
  "fat_clear (fs\<lparr>nxtFree := x\<rparr>) = fat_clear fs" "fat_clear (fs\<lparr>freeCount := y\<rparr>) = fat_clear fs"
  by (auto simp: fat_bps_def fat_bpc_def data_base_def cluster_pos_def in_fat_def valid_cluster_def fat_trunc_def
      fat_ok_def fat_copies_def fat_clear_def fun_eq_iff)

lemma vol_geo_frame [frame_simps, simp]:
  "vol_geo (fs\<lparr>fs_disk := m\<rparr>) = vol_geo fs" "vol_geo (fs\<lparr>nxtFree := x\<rparr>) = vol_geo fs"
  "vol_geo (fs\<lparr>freeCount := y\<rparr>) = vol_geo fs"
  by (simp_all add: vol_geo_def)

lemma vol_ok_hints [simp]: "vol_ok (fs\<lparr>nxtFree := x\<rparr>) = vol_ok fs" "vol_ok (fs\<lparr>freeCount := y\<rparr>) = vol_ok fs"
  by (simp_all add: vol_ok_def fat_table_ok_def)

lemma vol_ok_disk: "vol_ok fs \<Longrightarrow> fat_clear (fs\<lparr>fs_disk := m\<rparr>) \<Longrightarrow> vol_ok (fs\<lparr>fs_disk := m\<rparr>)"
  by (simp add: vol_ok_def fat_table_ok_def)

text \<open>Bytes outside the FATs do not matter to the table.\<close>

lemma fat_map_data:
  assumes ok: "fat_ok fs" and m: "\<And>a. in_fat fs a \<Longrightarrow> m a = fs_disk fs a"
  shows "fat_map (fs\<lparr>fs_disk := m\<rparr>) = fat_map fs" "fat_copies (fs\<lparr>fs_disk := m\<rparr>) = fat_copies fs"
    "fat_clear (fs\<lparr>fs_disk := m\<rparr>) = fat_clear fs"
proof -
  have byte: "fat_byte (fs\<lparr>fs_disk := m\<rparr>) k q = fat_byte fs k q"
    if "k < unat (fs_bpb fs ! BPB_NumFATs)" "q < fat_len fs" for k q
  proof -
    have "Suc k * fat_len fs \<le> unat (fs_bpb fs ! BPB_NumFATs) * fat_len fs"
      using that by (intro mult_le_mono1) simp
    then have "in_fat fs (fat_base fs + k * fat_len fs + q)"
      using that by (simp add: in_fat_def)
    from m [OF this] show ?thesis by (simp add: fat_byte_def)
  qed
  have val: "clusEntryVal (fs\<lparr>fs_disk := m\<rparr>) n = clusEntryVal fs n" if n: "\<not> isEof fs n" for n
  proof -
    let ?r = "fat_rel fs (unat n)"
    have b: "fat_byte (fs\<lparr>fs_disk := m\<rparr>) 0 (?r + i) = fat_byte fs 0 (?r + i)" if "i < fat_width fs" for i
      using fat_rel_in [OF ok n] that by (intro byte [OF numFATs_pos [OF ok]]) simp
    have w: "0 < fat_width fs" "1 < fat_width fs"
      "\<not> isFat12 fs \<Longrightarrow> \<not> isFat16 fs \<Longrightarrow> 2 < fat_width fs \<and> 3 < fat_width fs"
      by (auto simp: fat_width_def isFat32_else)
    show ?thesis
      using b [of 0] b [of 1] b [of 2] b [of 3] w ok n by (simp add: clusEntryVal_bytes)
  qed
  show "fat_map (fs\<lparr>fs_disk := m\<rparr>) = fat_map fs" by (auto simp: fat_map_def val fun_eq_iff)
  show "fat_copies (fs\<lparr>fs_disk := m\<rparr>) = fat_copies fs"
    using byte numFATs_pos [OF ok] by (auto simp: fat_copies_def)
  show "fat_clear (fs\<lparr>fs_disk := m\<rparr>) = fat_clear fs" by (auto simp: fat_clear_def val)
qed

lemma fat_step_refl: "vol_ok fs \<Longrightarrow> fat_step {} fs fs"
  by (simp add: fat_step_def)

lemma fat_step_frame:
  assumes "fat_step W fs fs'"
  shows "isEof fs' = isEof fs" "valid_cluster fs' = valid_cluster fs" "in_fat fs' = in_fat fs"
    "fat_trunc fs' = fat_trunc fs" "countOfClusters fs' = countOfClusters fs" "cluster_pos fs' = cluster_pos fs"
    "fat_bpc fs' = fat_bpc fs" "fat_bps fs' = fat_bps fs" "fs_bpb fs' = fs_bpb fs" "data_base fs' = data_base fs"
    "bytsPerClus fs' = bytsPerClus fs" "bytsPerSec fs' = bytsPerSec fs" "isFat32 fs' = isFat32 fs"
proof -
  obtain m x y where "fs' = fs\<lparr>fs_disk := m, nxtFree := x, freeCount := y\<rparr>"
    using assms unfolding fat_step_def by blast
  then show "isEof fs' = isEof fs" "valid_cluster fs' = valid_cluster fs" "in_fat fs' = in_fat fs"
    "fat_trunc fs' = fat_trunc fs" "countOfClusters fs' = countOfClusters fs" "cluster_pos fs' = cluster_pos fs"
    "fat_bpc fs' = fat_bpc fs" "fat_bps fs' = fat_bps fs" "fs_bpb fs' = fs_bpb fs" "data_base fs' = data_base fs"
    "bytsPerClus fs' = bytsPerClus fs" "bytsPerSec fs' = bytsPerSec fs" "isFat32 fs' = isFat32 fs"
    by simp_all
qed

lemma fat_step_ok: "fat_step W fs fs' \<Longrightarrow> vol_ok fs'" "fat_step W fs fs' \<Longrightarrow> vol_ok fs"
  by (simp_all add: fat_step_def)

lemma fat_step_trans:
  assumes "fat_step W fs fs1" "fat_step W' fs1 fs2"
  shows "fat_step (W \<union> W') fs fs2"
proof -
  have "fs2 = fs\<lparr>fs_disk := fs_disk fs2, nxtFree := nxtFree fs2, freeCount := freeCount fs2\<rparr>"
  proof -
    obtain m x y where 1: "fs1 = fs\<lparr>fs_disk := m, nxtFree := x, freeCount := y\<rparr>"
      using assms(1) unfolding fat_step_def by blast
    obtain m x y where "fs2 = fs1\<lparr>fs_disk := m, nxtFree := x, freeCount := y\<rparr>"
      using assms(2) unfolding fat_step_def by blast
    then show ?thesis unfolding 1 by simp
  qed
  then show ?thesis
    using assms fat_step_frame [OF assms(1)] by (auto simp: fat_step_def)
qed

lemma fat_step_trans0: "fat_step W fs fs1 \<Longrightarrow> fat_step {} fs1 fs2 \<Longrightarrow> fat_step W fs fs2"
  using fat_step_trans by fastforce

lemma fat_step_0trans: "fat_step {} fs fs1 \<Longrightarrow> fat_step W fs1 fs2 \<Longrightarrow> fat_step W fs fs2"
  using fat_step_trans by fastforce

lemma fat_step_mono: "fat_step W fs fs' \<Longrightarrow> W \<subseteq> W' \<Longrightarrow> fat_step W' fs fs'"
  by (auto simp: fat_step_def)

lemma fat_step_hints:
  "vol_ok fs \<Longrightarrow> fat_step {} fs (fs\<lparr>nxtFree := x\<rparr>)" "vol_ok fs \<Longrightarrow> fat_step {} fs (fs\<lparr>freeCount := y\<rparr>)"
  by (simp_all add: fat_step_def)

lemma fat_step_set:
  assumes "vol_ok fs" "setClusEntryVal fs n v = Inr fs'"
  shows "fat_step {} fs fs'"
proof -
  obtain m where m: "fs' = fs\<lparr>fs_disk := m\<rparr>" using setClusEntryVal_frame [OF assms(2)] by blast
  have "fat_clear fs'" 
    using setClusEntryVal_map(1) [OF vol_ok_fat(1) [OF assms(1)] assms(2)] by (simp add: fat_table_ok_def)
  then have "vol_ok fs'" using vol_ok_disk [OF assms(1), of m] m by simp
  moreover have "fs' = fs\<lparr>fs_disk := fs_disk fs', nxtFree := nxtFree fs', freeCount := freeCount fs'\<rparr>"
    using m by simp
  ultimately show ?thesis
    using assms(1) setClusEntryVal_copies [OF vol_ok_fat(2) [OF assms(1)] _ assms(2)]
      setClusEntryVal_outside [OF vol_ok_fat(2) [OF assms(1)] assms(2)] by (simp add: fat_step_def)
qed

lemma fat_step_write:
  assumes "vol_ok fs" "\<And>a. a \<in> W \<Longrightarrow> \<not> in_fat fs a" "\<And>a. a \<notin> W \<Longrightarrow> m a = fs_disk fs a"
  shows "fat_step W fs (fs\<lparr>fs_disk := m\<rparr>)" "fat_map (fs\<lparr>fs_disk := m\<rparr>) = fat_map fs"
proof -
  have "m a = fs_disk fs a" if "in_fat fs a" for a using assms that by blast
  note * = fat_map_data [OF vol_ok_fat(2) [OF assms(1)], of m, OF this]
  show "fat_map (fs\<lparr>fs_disk := m\<rparr>) = fat_map fs" by (rule *)
  show "fat_step W fs (fs\<lparr>fs_disk := m\<rparr>)"
    using assms * vol_ok_disk vol_ok_fat by (auto simp: fat_step_def fat_table_ok_def)
qed

subsection \<open>Zeroing a cluster\<close>

definition cluster_bytes :: "fatfs \<Rightarrow> u32 \<Rightarrow> nat set" where
  "cluster_bytes fs c = {cluster_pos fs c ..< cluster_pos fs c + fat_bpc fs}"

lemma cluster_bytes_outside:
  "vol_ok fs \<Longrightarrow> a \<in> cluster_bytes fs c \<Longrightarrow> \<not> in_fat fs a"
  by (auto simp: vol_ok_def vol_geo_def in_fat_def cluster_bytes_def cluster_pos_def)

lemma zeroCluster_data:
  assumes "vol_ok fs" "cluster_chain fs [c]"
  shows "\<exists>m. zeroCluster fs c = ok (fs\<lparr>fs_disk := m\<rparr>, int (fat_bpc fs))
    \<and> (\<forall>a. m a = (if a \<in> cluster_bytes fs c then 0 else fs_disk fs a))"
proof -
  let ?n = "fat_bpc fs"
  note bnd = bpc_bound [OF assms(1)]
  have pos: "0 < ?n" using bnd(2,4) by linarith
  then have t: "transfer_ok fs [c] 0 (int ?n)"
    using assms bnd(1) by (simp add: transfer_ok_def)
  obtain n m where w: "writeCluster fs (\<lambda>a. 0) (int ?n) c 0 = ok (fs\<lparr>fs_disk := m\<rparr>, int n)"
    "transfer_len fs [c] 0 (int ?n) n" "\<forall>i < n. m (file_pos fs [c] i) = 0"
    "\<forall>a. (\<forall>i < n. a \<noteq> file_pos fs [c] i) \<longrightarrow> m a = fs_disk fs a"
    using writeCluster_data [OF t, of "\<lambda>a. 0"] by auto
  have n: "n = ?n" using w(2) by (simp add: transfer_len_def)
  have fp: "file_pos fs [c] i = cluster_pos fs c + i" if "i < ?n" for i
    using that by (simp add: file_pos_def)
  have u: "uint (bytsPerClus fs) = int ?n" by (simp add: fat_bpc_def)
  have c0: "c \<noteq> 0" using assms by (auto simp: cluster_chain_def valid_cluster_def)
  have m: "m a = (if a \<in> cluster_bytes fs c then 0 else fs_disk fs a)" for a
  proof (cases "a \<in> cluster_bytes fs c")
    case True
    then have "a - cluster_pos fs c < n" "a = cluster_pos fs c + (a - cluster_pos fs c)"
      by (auto simp: cluster_bytes_def n)
    then show ?thesis using True w(3) fp n by metis
  next
    case False
    then have "\<forall>i < n. a \<noteq> file_pos fs [c] i" using fp n by (auto simp: cluster_bytes_def)
    then show ?thesis using False w(4) by simp
  qed
  have i32: "int32 (int ?n) = int ?n" using bnd(1) by (intro int32_id) simp_all
  have lt: "0 < bytsPerClus fs" using pos by (simp add: fat_bpc_def word_less_nat_alt)
  have ge: "\<not> word_of_int (int ?n) < bytsPerClus fs" by (simp add: fat_bpc_def)
  have "zero_loop fs c 0 = ok (fs\<lparr>fs_disk := m\<rparr>, int ?n)"
    using w(1) n pos lt i32 u
    by (subst zero_loop.simps, simp) (subst zero_loop.simps, simp add: ge [simplified])
  then show ?thesis using c0 m by (auto simp: zeroCluster_def)
qed

subsection \<open>Freeing a chain\<close>

lemma cluster_chain_Cons:
  "cluster_chain fs (c # cs) \<longleftrightarrow> valid_cluster fs c \<and> c \<notin> set cs \<and> cluster_chain fs cs
    \<and> (if cs = [] then isEof fs (clusEntryVal fs c) else clusEntryVal fs c = hd cs)"
proof (cases cs)
  case Nil
  then show ?thesis by (auto simp: cluster_chain_def valid_cluster_def)
next
  case (Cons d ds)
  then show ?thesis by (auto simp: cluster_chain_def valid_cluster_def fat_map_Some)
qed

lemma set_entry:
  assumes "vol_ok fs" "\<not> isEof fs n"
  obtains fs' where "setClusEntryVal fs n v = Inr fs'" "fat_step {} fs fs'"
    "fat_map fs' = (fat_map fs)(n \<mapsto> fat_trunc fs v)" "freeCount fs' = freeCount fs" "nxtFree fs' = nxtFree fs"
proof -
  obtain m where m: "setClusEntryVal fs n v = Inr (fs\<lparr>fs_disk := m\<rparr>)"
    using setClusEntryVal_Inr [OF assms(2)] by blast
  show ?thesis
    using that [OF m fat_step_set [OF assms(1) m] setClusEntryVal_map(2) [OF vol_ok_fat(1) [OF assms(1)] m]]
    by simp
qed

lemma cluster_chain_cong:
  assumes "fat_step W fs fs'" "\<And>c. c \<in> set cs \<Longrightarrow> fat_map fs' c = fat_map fs c"
  shows "cluster_chain fs' cs = cluster_chain fs cs"
proof -
  have "chain (fat_map fs') cs = chain (fat_map fs) cs"
    using assms(2) by (intro chain_cong) (simp_all add: fat_step_frame(1) [OF assms(1)])
  then show ?thesis by (simp add: cluster_chain_def fat_step_frame(2) [OF assms(1)])
qed

lemma free_loop_chain:
  assumes "vol_ok fs" "cluster_chain fs cs" "cs \<noteq> []"
  shows "\<exists>fs'. free_loop fs (hd cs) = ok fs' \<and> fat_step {} fs fs'
    \<and> fat_map fs' = (\<lambda>c. if c \<in> set cs then Some 0 else fat_map fs c)
    \<and> freeCount fs' = freeCount fs + of_nat (length cs) \<and> nxtFree fs' = nxtFree fs"
  using assms
proof (induction cs arbitrary: fs)
  case (Cons c cs)
  have c: "\<not> isEof fs c" "c \<notin> set cs" using Cons.prems by (auto simp: cluster_chain_Cons valid_cluster_def)
  obtain fs1 where fs1: "setClusEntryVal fs c 0 = Inr fs1" "fat_step {} fs fs1"
    "fat_map fs1 = (fat_map fs)(c \<mapsto> 0)" "freeCount fs1 = freeCount fs" "nxtFree fs1 = nxtFree fs"
    using set_entry [OF Cons.prems(1) c(1), of 0] by (metis fat_trunc_0)
  define fs2 where "fs2 = fs1\<lparr>freeCount := freeCount fs1 + 1\<rparr>"
  have st: "fat_step {} fs fs2"
    using fat_step_trans0 [OF fs1(2) fat_step_hints(2) [OF fat_step_ok(1) [OF fs1(2)]]] by (simp add: fs2_def)
  have fs2: "fat_map fs2 = (fat_map fs)(c \<mapsto> 0)" "freeCount fs2 = freeCount fs + 1" "nxtFree fs2 = nxtFree fs"
    using fs1 by (simp_all add: fs2_def)
  have run: "free_loop fs c = free_loop fs2 (clusEntryVal fs c)"
    using c fs1(1) by (subst free_loop.simps) (simp add: Let_def fs2_def)
  show ?case
  proof (cases "cs = []")
    case True
    then have "isEof fs2 (clusEntryVal fs c)"
      using Cons.prems by (simp add: cluster_chain_Cons fat_step_frame(1) [OF st])
    then have "free_loop fs c = ok fs2" using run by (simp add: free_loop.simps)
    then show ?thesis using True st fs2 by (auto simp: fun_eq_iff)
  next
    case False
    then have n: "clusEntryVal fs c = hd cs" "cluster_chain fs cs"
      using Cons.prems by (auto simp: cluster_chain_Cons)
    have "cluster_chain fs2 cs"
      using n(2) c(2) cluster_chain_cong [OF st] fs2(1) by fastforce
    from Cons.IH [OF fat_step_ok(1) [OF st] this False] obtain fs' where
      "free_loop fs2 (hd cs) = ok fs'" "fat_step {} fs2 fs'"
      "fat_map fs' = (\<lambda>c. if c \<in> set cs then Some 0 else fat_map fs2 c)"
      "freeCount fs' = freeCount fs2 + of_nat (length cs)" "nxtFree fs' = nxtFree fs2" by blast
    then show ?thesis
      using run n(1) fs2 fat_step_trans0 [OF st] by (intro exI [of _ fs']) (auto simp: fun_eq_iff)
  qed
qed simp

lemma freeCluster_chain:
  assumes "vol_ok fs" "cluster_chain fs cs" "cs \<noteq> []"
  shows "\<exists>fs'. freeCluster fs (hd cs) = ok fs' \<and> fat_step {} fs fs'
    \<and> fat_map fs' = (\<lambda>c. if c \<in> set cs then Some 0 else fat_map fs c)
    \<and> freeCount fs' = freeCount fs + of_nat (length cs) \<and> nxtFree fs' = nxtFree fs"
proof -
  have "2 \<le> hd cs" using assms by (cases cs) (auto simp: cluster_chain_def valid_cluster_def)
  then show ?thesis using free_loop_chain [OF assms] by (simp add: freeCluster_def)
qed

subsection \<open>Taking one cluster\<close>

definition fat_free :: "fatfs \<Rightarrow> u32 set" where
  "fat_free fs = {c. 2 \<le> c \<and> fat_map fs c = Some 0}"

definition eof_mark :: "fatfs \<Rightarrow> u32" where
  "eof_mark fs = fat_trunc fs 0xffffffff"

lemma eof_mark:
  assumes "fat_ok fs"
  shows "isEof fs (eof_mark fs)" "eof_mark fs \<noteq> 0"
proof -
  have "unat (countOfClusters fs) + 1 < unat (eof_mark fs)"
    using assms fat_types [of fs]
    by (auto simp: eof_mark_def fat_trunc_def fat_ok_def isFat12_def isFat16_def word_less_nat_alt)
  then show "isEof fs (eof_mark fs)" "eof_mark fs \<noteq> 0"
    using assms by (auto simp: isEof_nat fat_ok_def)
qed

lemma fat_trunc_valid:
  assumes "fat_ok fs" "\<not> isEof fs c"
  shows "fat_trunc fs c = c"
proof -
  have c: "unat c \<le> unat (countOfClusters fs) + 1" "countOfClusters fs < 0x0ffffff5"
    using assms by (auto simp: isEof_nat fat_ok_def)
  have "c AND 0xfff = c" if "isFat12 fs"
    unfolding low_bits using c that by (intro take_bit_word_small) (simp add: isFat12_def word_less_nat_alt)
  moreover have "c AND 0xffff = c" if "isFat16 fs"
    unfolding low_bits using c that by (intro take_bit_word_small) (simp add: isFat16_def word_less_nat_alt)
  moreover have "c AND 0x0fffffff = c"
    unfolding low_bits using c by (intro take_bit_word_small) (simp add: word_less_nat_alt)
  ultimately show ?thesis by (simp add: fat_trunc_def)
qed

lemma chain_snoc:
  assumes "chain T cs" "cs \<noteq> []" "distinct cs" "p \<notin> set cs" "T p \<noteq> None" "T e = None"
  shows "chain (T(p \<mapsto> e, last cs \<mapsto> p)) (cs @ [p])"
  using assms
proof (induction cs)
  case (Cons c cs)
  show ?case
  proof (cases cs)
    case Nil
    then show ?thesis using Cons.prems by (auto split: option.splits)
  next
    case (Cons d ds)
    then have "T c = Some d" "chain T cs" using Cons.prems by auto
    moreover have "c \<noteq> last cs" "c \<noteq> p" using Cons.prems Cons by auto
    ultimately show ?thesis using Cons.IH Cons.prems Cons by auto
  qed
qed simp

text \<open>
  The state of an allocation that has taken the clusters \<open>cs\<close> from the table \<open>T\<close>: they were
  free, form a chain in order, and nothing else of the table changed.
\<close>

definition taken :: "(u32 \<rightharpoonup> u32) \<Rightarrow> fatfs \<Rightarrow> u32 list \<Rightarrow> bool" where
  "taken T fs cs \<longleftrightarrow> cluster_chain fs cs \<and> (\<forall>c \<in> set cs. T c = Some 0)
     \<and> (\<forall>c. c \<notin> set cs \<longrightarrow> fat_map fs c = T c)"

definition first_of :: "u32 list \<Rightarrow> u32" where
  "first_of cs = (if cs = [] then 0 else hd cs)"

definition last_of :: "u32 list \<Rightarrow> u32" where
  "last_of cs = (if cs = [] then 0 else last cs)"

lemma taken_nonzero:
  assumes "taken T fs cs" "c \<in> set cs"
  shows "fat_map fs c \<noteq> Some 0"
proof -
  obtain i where i: "i < length cs" "cs ! i = c" using assms(2) by (auto simp: in_set_conv_nth)
  have ch: "chain (fat_map fs) cs" "\<forall>c \<in> set cs. 2 \<le> c"
    using assms(1) by (auto simp: taken_def cluster_chain_def list_all_iff valid_cluster_def)
  show ?thesis
  proof (cases "Suc i < length cs")
    case True
    then have "2 \<le> cs ! Suc i" using ch(2) by simp
    then show ?thesis using chain_nth [OF ch(1) True] i by auto
  next
    case False
    then have "c = last cs" using i by (metis last_conv_nth length_0_conv less_nat_zero_code Suc_lessI diff_Suc_1)
    then have "chain (fat_map fs) [c]"
      using chain_drop [OF ch(1), of i] i False
      by (metis Cons_nth_drop_Suc drop_eq_Nil linorder_not_less)
    then show ?thesis
      by (auto split: option.splits simp: isEof_def)
  qed
qed

lemma taken_snoc:
  assumes ok: "vol_ok fs" and t: "taken T fs cs" and p: "valid_cluster fs p" "fat_map fs p = Some 0"
    and st: "fat_step W fs fs'" and e: "isEof fs e" "e \<noteq> 0"
    and m: "fat_map fs' = (if cs = [] then (fat_map fs)(p \<mapsto> e) else (fat_map fs)(p \<mapsto> e, last cs \<mapsto> p))"
  shows "taken T fs' (cs @ [p])" "fat_map fs' c = Some 0 \<longleftrightarrow> c \<noteq> p \<and> fat_map fs c = Some 0"
proof -
  have pn: "p \<notin> set cs" using taken_nonzero [OF t] p(2) by blast
  have ch: "chain (fat_map fs) cs" "list_all (valid_cluster fs) cs" "distinct cs"
    using t by (auto simp: taken_def cluster_chain_def)
  have "chain (fat_map fs') (cs @ [p])"
  proof (cases "cs = []")
    case True
    moreover have "e \<noteq> p" using e(1) p(1) by (auto simp: valid_cluster_def)
    ultimately show ?thesis using e p by (simp add: m)
  next
    case False
    have "chain ((fat_map fs)(p \<mapsto> e, last cs \<mapsto> p)) (cs @ [p])"
      using e p by (intro chain_snoc ch False pn) simp_all
    then show ?thesis using False by (simp add: m)
  qed
  then have 1: "cluster_chain fs' (cs @ [p])"
    using ch pn p by (simp add: cluster_chain_def fat_step_frame(2) [OF st])
  have last: "cs \<noteq> [] \<Longrightarrow> last cs \<in> set cs" by simp
  show "taken T fs' (cs @ [p])"
    unfolding taken_def
  proof (intro conjI ballI allI impI)
    show "cluster_chain fs' (cs @ [p])" by (rule 1)
    show "T c = Some 0" if "c \<in> set (cs @ [p])" for c
      using that t p(2) pn by (auto simp: taken_def)
    show "fat_map fs' c = T c" if "c \<notin> set (cs @ [p])" for c
      using that t last by (auto simp: taken_def m)
  qed
  have "p \<noteq> 0" using p(1) by (auto simp: valid_cluster_def)
  then show "fat_map fs' c = Some 0 \<longleftrightarrow> c \<noteq> p \<and> fat_map fs c = Some 0"
    using e taken_nonzero [OF t last] pn by (auto simp: m)
qed

lemma alloc_take_ok:
  assumes ok: "vol_ok fs" and t: "taken T fs cs" and p: "valid_cluster fs (nxtFree fs)" "clusEntryVal fs (nxtFree fs) = 0"
  shows "\<exists>fs'. alloc_take fs zr (first_of cs) (last_of cs)
      = ok (fs', first_of (cs @ [nxtFree fs]), nxtFree fs)
    \<and> fat_step (if zr then cluster_bytes fs (nxtFree fs) else {}) fs fs' \<and> taken T fs' (cs @ [nxtFree fs])
    \<and> freeCount fs' = freeCount fs - 1 \<and> nxtFree fs' = nxtFree fs
    \<and> (\<forall>c. fat_map fs' c = Some 0 \<longleftrightarrow> c \<noteq> nxtFree fs \<and> fat_map fs c = Some 0)
    \<and> (\<forall>a. zr \<longrightarrow> a \<in> cluster_bytes fs (nxtFree fs) \<longrightarrow> fs_disk fs' a = 0)"
proof -
  let ?p = "nxtFree fs" and ?W = "if zr then cluster_bytes fs (nxtFree fs) else {}"
  let ?e = "eof_mark fs"
  have pv: "\<not> isEof fs ?p" "fat_map fs ?p = Some 0" "?p \<noteq> 0" using p by (auto simp: valid_cluster_def)
  have e: "isEof fs ?e" "?e \<noteq> 0" using eof_mark [OF vol_ok_fat(2) [OF ok]] by auto
  have ne: "?e \<noteq> ?p" using e(1) pv(1) by auto
  obtain fs1 where fs1: "setClusEntryVal fs ?p 0xffffffff = Inr fs1" "fat_step {} fs fs1"
    "fat_map fs1 = (fat_map fs)(?p \<mapsto> ?e)" "freeCount fs1 = freeCount fs" "nxtFree fs1 = ?p"
    using set_entry [OF ok pv(1), of "0xffffffff"] unfolding eof_mark_def by metis
  define fs2 where "fs2 = fs1\<lparr>freeCount := freeCount fs1 - 1\<rparr>"
  have st2: "fat_step {} fs fs2"
    using fat_step_trans0 [OF fs1(2) fat_step_hints(2) [OF fat_step_ok(1) [OF fs1(2)]]] by (simp add: fs2_def)
  have fs2: "fat_map fs2 = (fat_map fs)(?p \<mapsto> ?e)" "freeCount fs2 = freeCount fs - 1" "nxtFree fs2 = ?p"
    using fs1 by (simp_all add: fs2_def)
  have "cluster_chain fs2 [?p]"
    using p(1) e ne fs2 by (auto simp: cluster_chain_def fat_step_frame [OF st2])
  from zeroCluster_data [OF fat_step_ok(1) [OF st2] this] obtain m where
    m: "zeroCluster fs2 ?p = ok (fs2\<lparr>fs_disk := m\<rparr>, int (fat_bpc fs2))"
      "\<And>a. m a = (if a \<in> cluster_bytes fs2 ?p then 0 else fs_disk fs2 a)" by blast
  define fs3 where "fs3 = (if zr then fs2\<lparr>fs_disk := m\<rparr> else fs2)"
  have cb: "cluster_bytes fs2 = cluster_bytes fs"
    by (simp add: cluster_bytes_def fun_eq_iff fat_step_frame [OF st2])
  have wr: "fat_step (cluster_bytes fs ?p) fs2 (fs2\<lparr>fs_disk := m\<rparr>)" "fat_map (fs2\<lparr>fs_disk := m\<rparr>) = fat_map fs2"
    using fat_step_write [OF fat_step_ok(1) [OF st2], of "cluster_bytes fs2 ?p" m]
      cluster_bytes_outside [OF fat_step_ok(1) [OF st2]] m(2) by (auto simp: cb)
  have st3: "fat_step ?W fs fs3"
    using fat_step_0trans [OF st2 wr(1)] st2 by (simp add: fs3_def)
  have fs3: "fat_map fs3 = (fat_map fs)(?p \<mapsto> ?e)" "freeCount fs3 = freeCount fs - 1" "nxtFree fs3 = ?p"
    "zr \<Longrightarrow> a \<in> cluster_bytes fs ?p \<Longrightarrow> fs_disk fs3 a = 0" for a
    using fs2 wr(2) m(2) by (simp_all add: fs3_def cb)
  have run: "alloc_take fs zr (first_of cs) (last_of cs) =
      (if last_of cs \<noteq> 0 then obind (Some (setClusEntryVal fs3 (last_of cs) ?p)) (\<lambda>fs. ok (fs, first_of cs, ?p))
       else ok (fs3, ?p, ?p))"
    using fs1(1) m(1) by (simp add: alloc_take_def Let_def flip: fs2_def) (simp add: fs3_def)
  show ?thesis
  proof (cases "cs = []")
    case True
    have "taken T fs3 (cs @ [?p])" "\<forall>c. fat_map fs3 c = Some 0 \<longleftrightarrow> c \<noteq> ?p \<and> fat_map fs c = Some 0"
      using taken_snoc [OF ok t p(1) pv(2) st3 e] fs3(1) True by auto
    then show ?thesis
      using True run st3 fs3 by (intro exI [of _ fs3]) (auto simp: first_of_def last_of_def)
  next
    case False
    then have l: "valid_cluster fs (last cs)" using t by (auto simp: taken_def cluster_chain_def list_all_iff)
    then have l0: "last_of cs \<noteq> 0" "last_of cs = last cs" "\<not> isEof fs3 (last cs)"
      using False by (auto simp: last_of_def valid_cluster_def fat_step_frame [OF st3])
    obtain fs4 where fs4: "setClusEntryVal fs3 (last cs) ?p = Inr fs4" "fat_step {} fs3 fs4"
      "fat_map fs4 = (fat_map fs3)(last cs \<mapsto> fat_trunc fs3 ?p)" "freeCount fs4 = freeCount fs3" "nxtFree fs4 = nxtFree fs3"
      using set_entry [OF fat_step_ok(1) [OF st3] l0(3), of ?p] by metis
    have "fat_trunc fs3 ?p = ?p"
      using fat_trunc_valid [OF vol_ok_fat(2) [OF ok] pv(1)] by (simp add: fat_step_frame [OF st3])
    then have m4: "fat_map fs4 = (fat_map fs)(?p \<mapsto> ?e, last cs \<mapsto> ?p)" using fs4(3) fs3(1) by simp
    have st4: "fat_step ?W fs fs4" by (rule fat_step_trans0 [OF st3 fs4(2)])
    have "taken T fs4 (cs @ [?p])" "\<forall>c. fat_map fs4 c = Some 0 \<longleftrightarrow> c \<noteq> ?p \<and> fat_map fs c = Some 0"
      using taken_snoc [OF ok t p(1) pv(2) st4 e] m4 False by auto
    moreover have "fs_disk fs4 a = 0" if "zr" "a \<in> cluster_bytes fs ?p" for a
    proof -
      have "\<not> in_fat fs3 a" using cluster_bytes_outside [OF ok that(2)] by (simp add: fat_step_frame [OF st3])
      then have "fs_disk fs4 a = fs_disk fs3 a" using fs4(2) by (simp add: fat_step_def)
      then show ?thesis using fs3(4) that by simp
    qed
    ultimately show ?thesis
      using run st4 fs4(1,4,5) fs3 l0 False by (intro exI [of _ fs4]) (auto simp: first_of_def)
  qed
qed

subsection \<open>The allocation loop\<close>

text \<open>
  The loop probes the \<open>N\<close> clusters in a circle. After \<open>k\<close> probes from the \<open>s\<close>-th cluster the next
  one is \<open>2 + (s + k) mod N\<close>, and the ones behind it are in use.
\<close>

definition alloc_cur :: "fatfs \<Rightarrow> u32" where
  "alloc_cur fs = (if isEof fs (nxtFree fs) then 2 else nxtFree fs)"

definition scanned :: "fatfs \<Rightarrow> nat \<Rightarrow> nat \<Rightarrow> bool" where
  "scanned fs s k \<longleftrightarrow> unat (alloc_cur fs) = 2 + (s + k) mod unat (countOfClusters fs)
     \<and> (\<forall>c i. i < k \<longrightarrow> unat c = 2 + (s + i) mod unat (countOfClusters fs) \<longrightarrow> fat_map fs c \<noteq> Some 0)"

lemma alloc_cur_valid:
  assumes "vol_ok fs" "scanned fs s k"
  shows "valid_cluster fs (alloc_cur fs)"
proof -
  have "0 < unat (countOfClusters fs)" using assms(1) by (simp add: vol_ok_def vol_geo_def word_less_nat_alt)
  then show ?thesis using assms by (simp add: valid_cluster_nat scanned_def)
qed

lemma scanned_all:
  assumes "vol_ok fs" "scanned fs s (unat (countOfClusters fs))" "s < unat (countOfClusters fs)"
  shows "fat_free fs = {}"
proof (rule equals0I)
  fix c assume c: "c \<in> fat_free fs"
  let ?N = "unat (countOfClusters fs)"
  have v: "2 \<le> unat c" "unat c < ?N + 2"
    using c valid_cluster_nat [OF assms(1), of c] by (auto simp: fat_free_def valid_cluster_def fat_map_Some)
  define i where "i = (unat c - 2 + (?N - s)) mod ?N"
  have "(s + i) mod ?N = (s + (unat c - 2 + (?N - s))) mod ?N"
    by (simp add: i_def mod_add_right_eq)
  also have "s + (unat c - 2 + (?N - s)) = (unat c - 2) + ?N" using assms(3) by simp
  also have "(unat c - 2 + ?N) mod ?N = unat c - 2" using v by (simp del: diff_add_assoc2 add_diff_assoc2)
  finally have "unat c = 2 + (s + i) mod ?N" using v by simp
  moreover have "i < ?N" using assms(3) by (simp add: i_def)
  ultimately show False using assms(2) c by (auto simp: scanned_def fat_free_def)
qed

lemma scanned_next:
  assumes ok: "vol_ok fs" and sc: "scanned fs s k" and st: "fat_step W fs fs'"
    and nx: "nxtFree fs' = alloc_cur fs + 1"
    and keep: "\<And>c. fat_map fs' c = Some 0 \<Longrightarrow> fat_map fs c = Some 0 \<and> c \<noteq> alloc_cur fs"
  shows "scanned fs' s (Suc k)"
proof -
  let ?N = "unat (countOfClusters fs)" and ?p = "alloc_cur fs"
  have v: "2 \<le> unat ?p" "unat ?p < ?N + 2"
    using alloc_cur_valid [OF ok sc] by (simp_all add: valid_cluster_nat [OF ok])
  have N: "?N < 0x0ffffff5" using vol_ok_fat(2) [OF ok] by (simp add: fat_ok_def word_less_nat_alt)
  have p1: "unat (?p + 1) = unat ?p + 1" using v N by (subst unat_add_u32) simp_all
  have eof: "isEof fs (?p + 1) \<longleftrightarrow> unat ?p = ?N + 1"
    using v N p1 by (auto simp: isEof_nat word_less_nat_alt)
  have "unat (alloc_cur fs') = 2 + (s + Suc k) mod ?N"
  proof (cases "unat ?p = ?N + 1")
    case True
    then have "(s + k) mod ?N = ?N - 1" "0 < ?N" using sc v by (auto simp: scanned_def)
    then have "(s + Suc k) mod ?N = 0" by (simp add: mod_Suc)
    then show ?thesis using True eof by (simp add: alloc_cur_def nx fat_step_frame [OF st])
  next
    case False
    then have "(s + Suc k) mod ?N = Suc ((s + k) mod ?N)"
      using sc v by (auto simp: scanned_def mod_Suc)
    then show ?thesis using False eof sc p1 by (simp add: alloc_cur_def [of fs'] nx fat_step_frame [OF st] scanned_def)
  qed
  moreover have "fat_map fs' c \<noteq> Some 0" if "i < Suc k" "unat c = 2 + (s + i) mod ?N" for c i
  proof
    assume f: "fat_map fs' c = Some 0"
    show False
    proof (cases "i < k")
      case True
      then show False using sc keep [OF f] that by (auto simp: scanned_def)
    next
      case False
      then have "unat c = unat ?p" using that sc by (simp add: scanned_def less_Suc_eq)
      then show False using keep [OF f] by (metis word_unat_eq_iff)
    qed
  qed
  ultimately show ?thesis by (simp add: scanned_def fat_step_frame [OF st])
qed

text \<open>The outcome of a loop that still has to find \<open>n\<close> clusters.\<close>

definition zeroed :: "bool \<Rightarrow> fatfs \<Rightarrow> u32 set \<Rightarrow> nat set" where
  "zeroed zr fs C = (if zr then \<Union> (cluster_bytes fs ` C) else {})"

definition alloc_done ::
    "(u32 \<rightharpoonup> u32) \<Rightarrow> bool \<Rightarrow> fatfs \<Rightarrow> u32 list \<Rightarrow> u32 \<Rightarrow> fatfs \<Rightarrow> u32 \<Rightarrow> bool" where
  "alloc_done T zr fs cs n fs' r \<longleftrightarrow> (\<exists>cs'. taken T fs' (cs @ cs') \<and> length cs' = unat n
     \<and> r = first_of (cs @ cs') \<and> set cs' \<subseteq> fat_free fs \<and> freeCount fs' = freeCount fs - n
     \<and> fat_step (zeroed zr fs (set cs')) fs fs' \<and> (\<forall>a \<in> zeroed zr fs (set cs'). fs_disk fs' a = 0))"

definition alloc_failed ::
    "(u32 \<rightharpoonup> u32) \<Rightarrow> bool \<Rightarrow> fatfs \<Rightarrow> u32 list \<Rightarrow> fatfs \<Rightarrow> u32 \<Rightarrow> bool" where
  "alloc_failed T zr fs cs fs' r \<longleftrightarrow> r = 0xffffffff \<and> fat_map fs' = T
     \<and> freeCount fs' = freeCount fs + of_nat (length cs) \<and> fat_step (zeroed zr fs (fat_free fs)) fs fs'"

lemma zeroed_frame: "fat_step W fs fs' \<Longrightarrow> zeroed zr fs' = zeroed zr fs"
  by (simp add: zeroed_def cluster_bytes_def fun_eq_iff fat_step_frame)

lemma zeroed_mono: "C \<subseteq> D \<Longrightarrow> zeroed zr fs C \<subseteq> zeroed zr fs D"
  by (auto simp: zeroed_def)

lemma zeroed_Un: "zeroed zr fs C \<union> zeroed zr fs D = zeroed zr fs (C \<union> D)"
  by (auto simp: zeroed_def)

lemma alloc_unwind:
  assumes "vol_ok fs" "taken T fs cs"
  obtains fs' where "freeCluster fs (first_of cs) = ok fs'" "fat_step {} fs fs'" "fat_map fs' = T"
    "freeCount fs' = freeCount fs + of_nat (length cs)"
proof (cases "cs = []")
  case True
  then show ?thesis
    using that [of fs] assms fat_step_refl by (auto simp: freeCluster_def first_of_def taken_def fun_eq_iff)
next
  case False
  have "cluster_chain fs cs" using assms(2) by (simp add: taken_def)
  from freeCluster_chain [OF assms(1) this False] obtain fs' where
    "freeCluster fs (hd cs) = ok fs'" "fat_step {} fs fs'"
    "fat_map fs' = (\<lambda>c. if c \<in> set cs then Some 0 else fat_map fs c)"
    "freeCount fs' = freeCount fs + of_nat (length cs)" by blast
  then show ?thesis
    using that [of fs'] False assms(2) by (auto simp: first_of_def taken_def fun_eq_iff)
qed

lemma finite_free [simp]: "finite (fat_free fs)"
  by (rule finite_subset [OF subset_UNIV]) simp

lemma alloc_loop_spec:
  assumes "unat (countOfClusters fs) = N" "k \<le> N" "unat count = k" "s < N"
    and "vol_ok fs" "taken T fs cs" "scanned fs s k"
  shows "\<exists>fs' r. alloc_loop fs zr n (first_of cs) (last_of cs) count = ok (fs', r)
    \<and> (if unat n \<le> card (fat_free fs) then alloc_done T zr fs cs n fs' r else alloc_failed T zr fs cs fs' r)"
  using assms
proof (induction "N - k" arbitrary: fs k count n cs)
  case (0 k fs count n cs)
  then have k: "k = N" by simp
  show ?case
  proof (cases "n = 0")
    case True
    then show ?thesis
      using 0 fat_step_refl by (subst alloc_loop.simps) (auto simp: alloc_done_def zeroed_def intro!: exI [of _ "[]"])
  next
    case False
    have empty: "fat_free fs = {}" using scanned_all [of fs s] 0 k by simp
    define fs1 where "fs1 = (if isEof fs (nxtFree fs) then fs\<lparr>nxtFree := 2\<rparr> else fs)"
    have st: "fat_step {} fs fs1" using 0 fat_step_hints(1) fat_step_refl by (simp add: fs1_def)
    have fs1: "fat_map fs1 = fat_map fs" "freeCount fs1 = freeCount fs" "nxtFree fs1 = alloc_cur fs"
      "clusEntryVal fs1 = clusEntryVal fs" "countOfClusters fs1 = countOfClusters fs"
      by (simp_all add: fs1_def alloc_cur_def)
    have v: "valid_cluster fs (alloc_cur fs)" by (rule alloc_cur_valid) (use 0 in auto)
    then have nz: "clusEntryVal fs1 (alloc_cur fs) \<noteq> 0"
      using empty by (auto simp: fat_free_def valid_cluster_def fs1)
    have "N < 0x0ffffff5" using 0 vol_ok_fat(2) [of fs] by (auto simp: fat_ok_def word_less_nat_alt)
    then have lim: "countOfClusters fs1 < count + 1"
      using 0 k by (simp add: fs1 word_less_nat_alt unat_add_u32)
    have "taken T fs1 cs"
      using 0 cluster_chain_cong [OF st] fs1(1) by (simp add: taken_def)
    then obtain fs' where fs': "freeCluster fs1 (first_of cs) = ok fs'" "fat_step {} fs1 fs'" "fat_map fs' = T"
      "freeCount fs' = freeCount fs1 + of_nat (length cs)"
      using alloc_unwind [OF fat_step_ok(1) [OF st]] by blast
    have "alloc_loop fs zr n (first_of cs) (last_of cs) count = ok (fs', 0xffffffff)"
      using False nz lim fs'(1) fs1(3)
      by (subst alloc_loop.simps) (simp add: Let_def flip: fs1_def)
    moreover have "alloc_failed T zr fs cs fs' 0xffffffff"
      using fs' fs1 fat_step_mono [OF fat_step_trans0 [OF st fs'(2)]] by (simp add: alloc_failed_def)
    moreover have "\<not> unat n \<le> card (fat_free fs)" using False empty by (simp add: unat_eq_zero)
    ultimately show ?thesis by auto
  qed
next
  case (Suc d k fs count n cs)
  then have k: "k < N" "d = N - Suc k" by simp_all
  then have kN: "Suc k \<le> N" by simp
  have Nlim: "N < 0x0ffffff5" using Suc.prems vol_ok_fat(2) [of fs] by (auto simp: fat_ok_def word_less_nat_alt)
  have c1: "unat (count + 1) = Suc k" using Suc.prems k Nlim by (simp add: unat_add_u32)
  show ?case
  proof (cases "n = 0")
    case True
    then show ?thesis
      using Suc.prems fat_step_refl by (subst alloc_loop.simps) (auto simp: alloc_done_def zeroed_def intro!: exI [of _ "[]"])
  next
    case False
    define fs1 where "fs1 = (if isEof fs (nxtFree fs) then fs\<lparr>nxtFree := 2\<rparr> else fs)"
    let ?p = "alloc_cur fs"
    have st: "fat_step {} fs fs1" using Suc.prems fat_step_hints(1) fat_step_refl by (simp add: fs1_def)
    have fs1: "fat_map fs1 = fat_map fs" "freeCount fs1 = freeCount fs" "nxtFree fs1 = ?p"
      "clusEntryVal fs1 = clusEntryVal fs" "countOfClusters fs1 = countOfClusters fs"
      by (simp_all add: fs1_def alloc_cur_def)
    have v: "valid_cluster fs ?p" by (rule alloc_cur_valid) (use Suc.prems in auto)
    have t1: "taken T fs1 cs"
      using Suc.prems cluster_chain_cong [OF st] fs1(1) by (simp add: taken_def)
    have lim: "\<not> countOfClusters fs < count + 1" using Suc.prems k c1 by (simp add: word_less_nat_alt)
    show ?thesis
    proof (cases "clusEntryVal fs ?p = 0")
      case used: False
      define fs2 where "fs2 = fs1\<lparr>nxtFree := ?p + 1\<rparr>"
      have st2: "fat_step {} fs fs2"
        using fat_step_trans0 [OF st fat_step_hints(1) [OF fat_step_ok(1) [OF st]]] by (simp add: fs2_def)
      have fs2: "fat_map fs2 = fat_map fs" "freeCount fs2 = freeCount fs" "countOfClusters fs2 = countOfClusters fs"
        using fs1 by (simp_all add: fs2_def)
      have run: "alloc_loop fs zr n (first_of cs) (last_of cs) count = alloc_loop fs2 zr n (first_of cs) (last_of cs) (count + 1)"
        using False used lim fs1(3-5) by (subst alloc_loop.simps) (simp add: Let_def fs2_def flip: fs1_def)
      have sc: "scanned fs2 s (Suc k)"
      proof (rule scanned_next [OF _ _ st2])
        show "fat_map fs c = Some 0 \<and> c \<noteq> ?p" if "fat_map fs2 c = Some 0" for c
          using that used v fs2(1) by (auto simp: valid_cluster_def)
      qed (use Suc.prems in \<open>simp_all add: fs2_def\<close>)
      have t2: "taken T fs2 cs" using Suc.prems(6) cluster_chain_cong [OF st2] fs2(1) by (simp add: taken_def)
      have N2: "unat (countOfClusters fs2) = N" using Suc.prems(1) fs2(3) by simp
      obtain fs' r where r: "alloc_loop fs2 zr n (first_of cs) (last_of cs) (count + 1) = ok (fs', r)"
        "if unat n \<le> card (fat_free fs2) then alloc_done T zr fs2 cs n fs' r else alloc_failed T zr fs2 cs fs' r"
        using Suc.hyps(1) [OF k(2) N2 kN c1 Suc.prems(4) fat_step_ok(1) [OF st2] t2 sc] by blast
      have free: "fat_free fs2 = fat_free fs" by (simp add: fat_free_def fs2(1))
      show ?thesis
        using r run fat_step_0trans [OF st2] fs2
        unfolding alloc_done_def alloc_failed_def free zeroed_frame [OF st2] by fastforce
    next
      case fr: True
      have "clusEntryVal fs1 (nxtFree fs1) = 0" "valid_cluster fs1 (nxtFree fs1)"
        using fr v by (simp_all add: fs1 fat_step_frame [OF st])
      from alloc_take_ok [OF fat_step_ok(1) [OF st] t1 this(2,1), of zr] obtain fs2 where fs2:
        "alloc_take fs1 zr (first_of cs) (last_of cs) = ok (fs2, first_of (cs @ [?p]), ?p)"
        "fat_step (if zr then cluster_bytes fs1 ?p else {}) fs1 fs2" "taken T fs2 (cs @ [?p])"
        "freeCount fs2 = freeCount fs - 1" "nxtFree fs2 = ?p"
        "\<And>c. fat_map fs2 c = Some 0 \<longleftrightarrow> c \<noteq> ?p \<and> fat_map fs c = Some 0"
        "\<And>a. zr \<Longrightarrow> a \<in> cluster_bytes fs1 ?p \<Longrightarrow> fs_disk fs2 a = 0"
        unfolding fs1 by blast
      define fs3 where "fs3 = fs2\<lparr>nxtFree := ?p + 1\<rparr>"
      have cb: "cluster_bytes fs1 = cluster_bytes fs"
        by (simp add: cluster_bytes_def fun_eq_iff fat_step_frame [OF st])
      have st3: "fat_step (zeroed zr fs {?p}) fs fs3"
        using fat_step_trans0 [OF fat_step_0trans [OF st fs2(2)] fat_step_hints(1) [OF fat_step_ok(1) [OF fs2(2)]]]
        by (cases zr) (simp_all add: fs3_def zeroed_def cb)
      have fs3: "fat_map fs3 = fat_map fs2" "freeCount fs3 = freeCount fs - 1" "countOfClusters fs3 = countOfClusters fs"
        "nxtFree fs3 = ?p + 1" "fs_disk fs3 = fs_disk fs2"
        using fs2 fat_step_frame(5) [OF fs2(2)] fs1 by (simp_all add: fs3_def)
      have t3: "taken T fs3 (cs @ [?p])"
        using fs2(3) cluster_chain_cong [OF fat_step_hints(1) [OF fat_step_ok(1) [OF fs2(2)]]]
        by (simp add: taken_def fs3_def)
      have sc: "scanned fs3 s (Suc k)"
        using scanned_next [OF _ _ st3 fs3(4)] Suc.prems fs2(6) fs3(1) by auto
      have fe: "fat_free fs3 = fat_free fs - {?p}" by (auto simp: fat_free_def fs3(1) fs2(6))
      have pf: "?p \<in> fat_free fs" using v fr by (auto simp: fat_free_def valid_cluster_def)
      have card: "card (fat_free fs) = Suc (card (fat_free fs3))"
        unfolding fe by (rule card_Suc_Diff1 [OF finite_free pf, symmetric])
      have n1: "unat (n - 1) = unat n - 1" "0 < unat n"
        using False unat_minus_one [of n] by (simp_all add: unat_gt_0)
      have run: "alloc_loop fs zr n (first_of cs) (last_of cs) count
          = alloc_loop fs3 zr (n - 1) (first_of (cs @ [?p])) (last_of (cs @ [?p])) (count + 1)"
        using False fr lim fs1(3-5) fs2(1,5) fs3(3)
        by (subst alloc_loop.simps) (simp add: Let_def fs3_def last_of_def flip: fs1_def)
      have N3: "unat (countOfClusters fs3) = N" using Suc.prems(1) fs3(3) by simp
      obtain fs' r where r: "alloc_loop fs3 zr (n - 1) (first_of (cs @ [?p])) (last_of (cs @ [?p])) (count + 1) = ok (fs', r)"
        "if unat (n - 1) \<le> card (fat_free fs3) then alloc_done T zr fs3 (cs @ [?p]) (n - 1) fs' r
         else alloc_failed T zr fs3 (cs @ [?p]) fs' r"
        using Suc.hyps(1) [OF k(2) N3 kN c1 Suc.prems(4) fat_step_ok(1) [OF st3] t3 sc] by blast
      show ?thesis
      proof (cases "unat n \<le> card (fat_free fs)")
        case enough: True
        then have "alloc_done T zr fs3 (cs @ [?p]) (n - 1) fs' r" using r(2) n1 card by (simp split: if_splits)
        then obtain cs' where d: "taken T fs' (cs @ ?p # cs')" "length cs' = unat n - 1" "r = first_of (cs @ ?p # cs')"
          "set cs' \<subseteq> fat_free fs3" "freeCount fs' = freeCount fs3 - (n - 1)"
          "fat_step (zeroed zr fs3 (set cs')) fs3 fs'" "\<forall>a \<in> zeroed zr fs3 (set cs'). fs_disk fs' a = 0"
          by (auto simp: alloc_done_def n1)
        note zf = zeroed_frame [OF st3]
        have st': "fat_step (zeroed zr fs (set (?p # cs'))) fs fs'"
          using fat_step_trans [OF st3 d(6)] by (simp add: zf zeroed_Un)
        have "fs_disk fs' a = 0" if a: "a \<in> zeroed zr fs (set (?p # cs'))" for a
        proof (cases "a \<in> zeroed zr fs (set cs')")
          case True
          then show ?thesis using d(7) by (simp add: zf)
        next
          case False
          then have "zr" "a \<in> cluster_bytes fs ?p" using a by (auto simp: zeroed_def split: if_splits)
          moreover from this have "\<not> in_fat fs3 a"
            using cluster_bytes_outside [OF Suc.prems(5)] by (simp add: fat_step_frame [OF st3])
          ultimately show ?thesis using d(6) False fs2(7) by (simp add: fat_step_def zf cb fs3(5))
        qed
        then have "alloc_done T zr fs cs n fs' r"
          unfolding alloc_done_def using d(1-5) st' n1 fe pf fs3(2)
          by (intro exI [of _ "?p # cs'"]) (auto simp: algebra_simps)
        then show ?thesis using run r(1) enough by auto
      next
        case few: False
        then have f: "alloc_failed T zr fs3 (cs @ [?p]) fs' r" using r(2) n1 card by (simp split: if_splits)
        have "fat_step (zeroed zr fs {?p} \<union> zeroed zr fs (fat_free fs3)) fs fs'"
          using fat_step_trans [OF st3] f zeroed_frame [OF st3] by (auto simp: alloc_failed_def)
        then have "fat_step (zeroed zr fs (fat_free fs)) fs fs'"
          by (rule fat_step_mono) (use pf fe in \<open>auto simp: zeroed_def\<close>)
        then have "alloc_failed T zr fs cs fs' r"
          using f fs3(2) by (simp add: alloc_failed_def)
        then show ?thesis using run r(1) few by auto
      qed
    qed
  qed
qed

lemma alloc_start:
  assumes "vol_ok fs" "2 \<le> nxtFree fs"
  shows "\<exists>s < unat (countOfClusters fs). scanned fs s 0"
proof -
  have N: "0 < unat (countOfClusters fs)" using assms(1) by (simp add: vol_ok_def vol_geo_def word_less_nat_alt)
  have "valid_cluster fs (alloc_cur fs)"
  proof (cases "isEof fs (nxtFree fs)")
    case True
    then show ?thesis using N by (simp add: alloc_cur_def valid_cluster_nat [OF assms(1)])
  next
    case False
    then show ?thesis using assms by (simp add: alloc_cur_def valid_cluster_def)
  qed
  then show ?thesis
    by (intro exI [of _ "unat (alloc_cur fs) - 2"]) (auto simp: valid_cluster_nat [OF assms(1)] scanned_def)
qed

lemma allocCluster_outcome:
  assumes "vol_ok fs" "2 \<le> nxtFree fs" "n \<noteq> 0" "n \<le> freeCount fs"
  shows "\<exists>fs' r. allocCluster fs n zr = ok (fs', r)
    \<and> (if unat n \<le> card (fat_free fs) then alloc_done (fat_map fs) zr fs [] n fs' r
       else alloc_failed (fat_map fs) zr fs [] fs' r)"
proof -
  obtain s where s: "s < unat (countOfClusters fs)" "scanned fs s 0" using alloc_start [OF assms(1,2)] by blast
  have "taken (fat_map fs) fs []" by (simp add: taken_def cluster_chain_def)
  from alloc_loop_spec [OF refl _ _ s(1) assms(1) this s(2), where count = 0 and n = n and zr = zr]
  have "\<exists>fs' r. alloc_loop fs zr n 0 0 0 = ok (fs', r)
    \<and> (if unat n \<le> card (fat_free fs) then alloc_done (fat_map fs) zr fs [] n fs' r
       else alloc_failed (fat_map fs) zr fs [] fs' r)"
    by (simp add: first_of_def last_of_def)
  moreover have "\<not> (n = 0 \<or> freeCount fs < n)" using assms(3,4) by simp
  ultimately show ?thesis unfolding allocCluster_def by (simp only: if_False)
qed

lemma free_cluster_bytes: "zeroed zr fs C \<subseteq> \<Union> (cluster_bytes fs ` C)"
  by (auto simp: zeroed_def split: if_splits)

subsection \<open>The allocator\<close>

lemma ex12_vol: "vol_ok ex12"
proof -
  have "(512 :: nat) = 2 ^ 9" by simp
  then have "(512 :: nat) \<in> (\<lambda>k. 2 ^ k) ` {0..<16}" "(512 :: nat) \<in> (\<lambda>k. 2 ^ k) ` {0..<24}"
    by (auto intro: image_eqI [of _ _ 9])
  moreover have "fat_bps ex12 = 512" "fat_bpc ex12 = 512" "data_base ex12 = 2048" "fat_base ex12 = 512"
    "fat_len ex12 = 512"
    by (simp_all add: fat_bps_def fat_bpc_def data_base_def fat_base_def fat_len_def le_word_def)
      (simp_all add: ex12_def ex_bpb_nth)
  ultimately show ?thesis
    using ex12_ok by (simp add: vol_ok_def vol_geo_def) (simp add: ex12_def ex_bpb_nth)
qed

lemma ex12_entry: "clusEntryVal ex12 n = 0"
  by (simp add: clusEntryVal_def ex12_def Let_def le_word_def le_dword_def store_read_2 store_read_4)

text \<open>C7: \<^verbatim>\<open>allocCluster\<close> on a well-formed volume returns. When \<open>n\<close> clusters are asked for,
  promised by the free count and really free, it returns the head of a chain of exactly \<open>n\<close>
  clusters that were free, ends the chain, leaves every other entry of the FAT alone, takes \<open>n\<close> off
  the free count and, if asked, has zeroed the bytes of the new clusters; otherwise it returns
  0xffffffff with the FAT and the free count as they were. No byte outside the FATs and the clusters
  that were free changes, and the copies of the FAT stay equal.\<close>

theorem allocCluster_correct:
  assumes "vol_ok fs" "2 \<le> nxtFree fs"
  shows "\<exists>fs' r. allocCluster fs n zr = ok (fs', r)
    \<and> (if n \<noteq> 0 \<and> n \<le> freeCount fs \<and> unat n \<le> card (fat_free fs)
       then \<exists>cs. cluster_chain fs' cs \<and> length cs = unat n \<and> r = hd cs \<and> set cs \<subseteq> fat_free fs
          \<and> (\<forall>c. c \<notin> set cs \<longrightarrow> fat_map fs' c = fat_map fs c) \<and> freeCount fs' = freeCount fs - n
          \<and> (zr \<longrightarrow> (\<forall>c \<in> set cs. \<forall>a \<in> cluster_bytes fs c. fs_disk fs' a = 0))
       else r = 0xffffffff \<and> fat_map fs' = fat_map fs \<and> freeCount fs' = freeCount fs)
    \<and> vol_ok fs' \<and> (fat_copies fs \<longrightarrow> fat_copies fs')
    \<and> (\<forall>a. \<not> in_fat fs a \<longrightarrow> a \<notin> \<Union> (cluster_bytes fs ` fat_free fs) \<longrightarrow> fs_disk fs' a = fs_disk fs a)"
    (is "\<exists>fs' r. _ \<and> ?post fs' r \<and> ?frame fs'")
proof (cases "n = 0 \<or> freeCount fs < n")
  case True
  then show ?thesis using assms by (auto simp: allocCluster_def)
next
  case False
  then obtain fs' r where r: "allocCluster fs n zr = ok (fs', r)"
    "if unat n \<le> card (fat_free fs) then alloc_done (fat_map fs) zr fs [] n fs' r
     else alloc_failed (fat_map fs) zr fs [] fs' r"
    using allocCluster_outcome [OF assms] by (metis linorder_not_less)
  have "?post fs' r \<and> (\<exists>W \<subseteq> \<Union> (cluster_bytes fs ` fat_free fs). fat_step W fs fs')"
  proof (cases "unat n \<le> card (fat_free fs)")
    case True
    then obtain cs where cs: "taken (fat_map fs) fs' cs" "length cs = unat n" "r = first_of cs"
      "set cs \<subseteq> fat_free fs" "freeCount fs' = freeCount fs - n" "fat_step (zeroed zr fs (set cs)) fs fs'"
      "\<forall>a \<in> zeroed zr fs (set cs). fs_disk fs' a = 0"
      using r(2) by (auto simp: alloc_done_def)
    then have "cs \<noteq> []" using False by (auto simp: unat_eq_zero)
    moreover have "zeroed zr fs (set cs) \<subseteq> \<Union> (cluster_bytes fs ` fat_free fs)"
      by (rule subset_trans [OF zeroed_mono [OF cs(4)] free_cluster_bytes])
    ultimately show ?thesis
      using cs True False by (auto simp: taken_def first_of_def zeroed_def intro!: exI [of _ cs])
  next
    case few: False
    then have f: "alloc_failed (fat_map fs) zr fs [] fs' r" using r(2) by simp
    then have "?post fs' r" using few by (simp add: alloc_failed_def)
    moreover have "fat_step (zeroed zr fs (fat_free fs)) fs fs'" using f by (simp add: alloc_failed_def)
    ultimately show ?thesis by (intro conjI exI [of _ "zeroed zr fs (fat_free fs)"] free_cluster_bytes)
  qed
  then obtain W where W: "?post fs' r" "W \<subseteq> \<Union> (cluster_bytes fs ` fat_free fs)" "fat_step W fs fs'" by blast
  then have "?frame fs'" unfolding fat_step_def by blast
  then show ?thesis using r(1) W(1) by blast
qed

theorem allocCluster_correct_witness:
  "\<exists>fs' r. allocCluster ex12 2 True = ok (fs', r)
    \<and> (\<exists>cs. cluster_chain fs' cs \<and> length cs = 2 \<and> r = hd cs \<and> freeCount fs' = 1
        \<and> (\<forall>c \<in> set cs. \<forall>a \<in> cluster_bytes ex12 c. fs_disk fs' a = 0))"
proof -
  have nx: "2 \<le> nxtFree ex12" by (simp add: ex12_def)
  have "{2, 3 :: u32} \<subseteq> fat_free ex12"
    using ex_eof by (auto simp: fat_free_def ex12_entry)
  from card_mono [OF finite_free this] have "2 \<le> card (fat_free ex12)" by simp
  moreover have fc: "freeCount ex12 = 3" by (simp add: ex12_def)
  ultimately have "(2 :: u32) \<noteq> 0 \<and> 2 \<le> (3 :: u32) \<and> unat (2 :: u32) \<le> card (fat_free ex12)" by simp
  note allocCluster_correct [OF ex12_vol nx, of 2 True, unfolded fc if_P [OF this]]
  then obtain fs' r cs where "allocCluster ex12 2 True = ok (fs', r)" "cluster_chain fs' cs" "length cs = unat (2 :: u32)"
    "r = hd cs" "freeCount fs' = 3 - 2" "True \<longrightarrow> (\<forall>c \<in> set cs. \<forall>a \<in> cluster_bytes ex12 c. fs_disk fs' a = 0)" by blast
  then show ?thesis by (intro exI [of _ fs'] exI [of _ r] conjI exI [of _ cs]) simp_all
qed

text \<open>C12: What \<^verbatim>\<open>allocCluster\<close> took, \<^verbatim>\<open>freeCluster\<close> gives back: freeing a chain that was just
  allocated returns and restores every entry of the FAT and the free count.\<close>

theorem alloc_free_roundtrip:
  assumes "vol_ok fs" "2 \<le> nxtFree fs" "allocCluster fs n zr = ok (fs', r)" "r \<noteq> 0xffffffff"
  shows "\<exists>fs''. freeCluster fs' r = ok fs'' \<and> fat_map fs'' = fat_map fs \<and> freeCount fs'' = freeCount fs"
proof -
  have n: "n \<noteq> 0" "n \<le> freeCount fs" using assms(3,4) by (auto simp: allocCluster_def split: if_splits)
  obtain cs where "taken (fat_map fs) fs' cs" "length cs = unat n" "r = first_of cs"
    "freeCount fs' = freeCount fs - n" "vol_ok fs'"
    using allocCluster_outcome [OF assms(1,2) n, of zr] assms(3,4) fat_step_ok(1)
    by (fastforce simp: alloc_done_def alloc_failed_def split: if_splits)
  moreover from this obtain fs'' where "freeCluster fs' (first_of cs) = ok fs''" "fat_map fs'' = fat_map fs"
    "freeCount fs'' = freeCount fs' + of_nat (length cs)"
    using alloc_unwind [of fs' "fat_map fs" cs] by blast
  ultimately show ?thesis by simp
qed

theorem alloc_free_roundtrip_witness:
  "\<exists>fs' r fs''. allocCluster ex12 2 False = ok (fs', r) \<and> freeCluster fs' r = ok fs''
    \<and> fat_map fs'' = fat_map ex12 \<and> freeCount fs'' = freeCount ex12"
proof -
  have nx: "2 \<le> nxtFree ex12" by (simp add: ex12_def)
  have "{2, 3 :: u32} \<subseteq> fat_free ex12"
    using ex_eof by (auto simp: fat_free_def ex12_entry)
  from card_mono [OF finite_free this] have "2 \<le> card (fat_free ex12)" by simp
  then obtain fs' r where r: "allocCluster ex12 2 False = ok (fs', r)" "alloc_done (fat_map ex12) False ex12 [] 2 fs' r"
    using allocCluster_outcome [OF ex12_vol nx, of 2 False] by (auto simp: ex12_def)
  obtain cs where cs: "length cs = unat (2 :: u32)" "r = first_of ([] @ cs)" "set cs \<subseteq> fat_free ex12"
    using r(2) unfolding alloc_done_def by blast
  then have "cs \<noteq> []" "r = hd cs" by (auto simp: first_of_def)
  then have "r \<in> fat_free ex12" using cs(3) by (cases cs) auto
  moreover have "isEof ex12 0xffffffff" by (simp add: isEof_def ex12_def)
  ultimately have "r \<noteq> 0xffffffff" by (auto simp: fat_free_def fat_map_Some)
  then show ?thesis using alloc_free_roundtrip [OF ex12_vol nx r(1)] r(1) by blast
qed

text \<open>C13: \<^verbatim>\<open>freeCluster\<close> on a proper chain returns: exactly the clusters of the chain become
  free, each is counted once, and no byte outside the FATs changes.\<close>

theorem freeCluster_frees_chain:
  assumes "vol_ok fs" "cluster_chain fs cs" "cs \<noteq> []"
  shows "\<exists>fs'. freeCluster fs (hd cs) = ok fs' \<and> vol_ok fs'
    \<and> fat_map fs' = (\<lambda>c. if c \<in> set cs then Some 0 else fat_map fs c)
    \<and> freeCount fs' = freeCount fs + of_nat (length cs)
    \<and> (\<forall>a. \<not> in_fat fs a \<longrightarrow> fs_disk fs' a = fs_disk fs a)"
  using freeCluster_chain [OF assms] by (auto simp: fat_step_def)

text \<open>The FAT12 volume with the chain 2, 3.\<close>

definition ex12_file :: fatfs where
  "ex12_file = ex12\<lparr>fs_disk := (\<lambda>a. 0)(515 := 3, 516 := 0xf0, 517 := 0xff), freeCount := 1\<rparr>"

lemma ex12_file_entries:
  "clusEntryVal ex12_file 2 = 3" "clusEntryVal ex12_file 3 = 0xfff" "clusEntryVal ex12_file 4 = 0"
proof -
  have "isFat12 ex12_file" by (simp add: isFat12_def ex12_file_def ex12_def)
  moreover have "fatPosition ex12_file 2 = 515" "fatPosition ex12_file 3 = 516" "fatPosition ex12_file 4 = 518"
    using \<open>isFat12 ex12_file\<close>
    by (simp_all add: fatPosition_def fatOffset_def le_word_def) (simp_all add: ex12_file_def ex12_def ex_bpb_nth)
  ultimately show "clusEntryVal ex12_file 2 = 3" "clusEntryVal ex12_file 3 = 0xfff" "clusEntryVal ex12_file 4 = 0"
    by (simp_all add: clusEntryVal_def Let_def store_read_2 le_word_def) (simp_all add: ex12_file_def)
qed

lemma ex12_file_ok: "vol_ok ex12_file" "cluster_chain ex12_file [2, 3]"
proof -
  have "fat_clear (ex12\<lparr>fs_disk := m\<rparr>)" for m
    by (simp add: fat_clear_def) (simp add: isFat32_def ex12_def)
  then show ok: "vol_ok ex12_file" unfolding ex12_file_def using vol_ok_disk [OF ex12_vol] by simp
  have e: "isEof ex12_file c \<longleftrightarrow> 4 < c" for c by (simp add: isEof_def ex12_file_def ex12_def)
  show "cluster_chain ex12_file [2, 3]"
    by (simp add: cluster_chain_Cons e valid_cluster_def ex12_file_entries) (simp add: cluster_chain_def)
qed

theorem freeCluster_frees_chain_witness:
  "\<exists>fs'. freeCluster ex12_file 2 = ok fs' \<and> freeCount fs' = 3 \<and> fat_map fs' 3 = Some 0"
  using freeCluster_frees_chain [OF ex12_file_ok] by (force simp: ex12_file_def ex12_def)

text \<open>C38: \<^verbatim>\<open>freeCluster\<close> does not stop at a cluster that is already free: it follows the entry 0
  to the reserved entry FAT[0], which it clears, and counts two free clusters that are none.\<close>

theorem freeCluster_of_free_cluster:
  assumes "vol_ok fs" "valid_cluster fs c" "clusEntryVal fs c = 0" "isEof fs (clusEntryVal fs 0)"
  shows "\<exists>fs'. freeCluster fs c = ok fs' \<and> clusEntryVal fs' 0 = 0 \<and> freeCount fs' = freeCount fs + 2"
proof -
  have c: "\<not> isEof fs c" "2 \<le> c" "c \<noteq> 0" and z: "\<not> isEof fs 0"
    using assms(2) by (auto simp: valid_cluster_def isEof_def)
  obtain fs1 where fs1: "setClusEntryVal fs c 0 = Inr fs1" "fat_step {} fs fs1" "fat_map fs1 = (fat_map fs)(c \<mapsto> 0)"
    "freeCount fs1 = freeCount fs"
    using set_entry [OF assms(1) c(1), of 0] by (metis fat_trunc_0)
  define fs2 where "fs2 = fs1\<lparr>freeCount := freeCount fs1 + 1\<rparr>"
  have st: "fat_step {} fs fs2"
    using fat_step_trans0 [OF fs1(2) fat_step_hints(2) [OF fat_step_ok(1) [OF fs1(2)]]] by (simp add: fs2_def)
  have z2: "\<not> isEof fs2 0" using z by (simp add: fat_step_frame [OF st])
  obtain fs3 where fs3: "setClusEntryVal fs2 0 0 = Inr fs3" "fat_step {} fs2 fs3" "fat_map fs3 = (fat_map fs2)(0 \<mapsto> 0)"
    "freeCount fs3 = freeCount fs2"
    using set_entry [OF fat_step_ok(1) [OF st] z2, of 0] by (metis fat_trunc_0)
  have e2: "clusEntryVal fs2 0 = clusEntryVal fs 0"
  proof -
    have "fat_map fs2 0 = fat_map fs 0" using fs1(3) c(3) by (simp add: fs2_def)
    then show ?thesis using z z2 by simp
  qed
  define fs4 where "fs4 = fs3\<lparr>freeCount := freeCount fs3 + 1\<rparr>"
  have eof: "isEof fs4 (clusEntryVal fs 0)"
    using assms(4) by (simp add: fs4_def fat_step_frame [OF fs3(2)] fat_step_frame [OF st])
  have "freeCluster fs c = free_loop fs2 0"
    using c fs1(1) assms(3) by (simp add: freeCluster_def) (subst free_loop.simps, simp add: Let_def fs2_def)
  also have "\<dots> = free_loop fs4 (clusEntryVal fs 0)"
    using z2 fs3(1) e2 by (subst free_loop.simps) (simp add: Let_def fs4_def)
  also have "\<dots> = ok fs4" using eof by (simp add: free_loop.simps)
  finally have run: "freeCluster fs c = ok fs4" .
  have "fat_map fs4 0 = Some 0" using fs3(3) by (simp add: fs4_def)
  then have "clusEntryVal fs4 0 = 0" by (simp add: fat_map_Some)
  moreover have "freeCount fs4 = freeCount fs + 2" using fs1(4) fs3(4) by (simp add: fs4_def fs2_def)
  ultimately show ?thesis using run by blast
qed

text \<open>The FAT12 volume with the media entry in place and nothing allocated.\<close>

definition ex12_media :: fatfs where
  "ex12_media = ex12\<lparr>fs_disk := (\<lambda>a. 0)(512 := 0xf0, 513 := 0x0f)\<rparr>"

lemma ex12_media_entries: "clusEntryVal ex12_media 0 = 0xff0" "clusEntryVal ex12_media 2 = 0"
proof -
  have "isFat12 ex12_media" by (simp add: isFat12_def ex12_media_def ex12_def)
  moreover have "fatPosition ex12_media 0 = 512" "fatPosition ex12_media 2 = 515"
    using \<open>isFat12 ex12_media\<close>
    by (simp_all add: fatPosition_def fatOffset_def le_word_def) (simp_all add: ex12_media_def ex12_def ex_bpb_nth)
  ultimately show "clusEntryVal ex12_media 0 = 0xff0" "clusEntryVal ex12_media 2 = 0"
    by (simp_all add: clusEntryVal_def Let_def store_read_2 le_word_def) (simp_all add: ex12_media_def)
qed

theorem freeCluster_of_free_cluster_witness:
  "\<exists>fs'. freeCluster ex12_media 2 = ok fs' \<and> clusEntryVal fs' 0 = 0 \<and> freeCount fs' = freeCount ex12_media + 2"
proof (rule freeCluster_of_free_cluster)
  have "fat_clear (ex12\<lparr>fs_disk := m\<rparr>)" for m
    by (simp add: fat_clear_def) (simp add: isFat32_def ex12_def)
  then show "vol_ok ex12_media" unfolding ex12_media_def using vol_ok_disk [OF ex12_vol] by simp
qed (simp_all add: valid_cluster_def ex12_media_entries, simp_all add: isEof_def ex12_media_def ex12_def)

subsection \<open>Length of a chain\<close>

lemma not_bad:
  assumes "fat_ok fs" "\<not> isEof fs c"
  shows "\<not> isBadCluster fs c"
  using assms fat_types [of fs]
  by (auto simp: isBadCluster_def isEof_nat fat_ok_def isFat12_def isFat16_def word_less_nat_alt word_le_nat_alt)

lemma calcSize_step:
  assumes "vol_ok fs" "valid_cluster fs c" "unat sz \<le> DIR_LIMIT"
  shows "calcSize_loop fs c sz = (if DIR_LIMIT < unat sz + fat_bpc fs then Some (sz + bytsPerClus fs)
      else calcSize_loop fs (clusEntryVal fs c) (sz + bytsPerClus fs))"
    "unat (sz + bytsPerClus fs) = unat sz + fat_bpc fs"
proof -
  show *: "unat (sz + bytsPerClus fs) = unat sz + fat_bpc fs"
    using assms(3) bpc_bound(1) [OF assms(1)] by (subst unat_add_u32) (simp_all add: fat_bpc_def)
  have N: "unat (countOfClusters fs) < 0x0ffffff5"
    using vol_ok_fat(2) [OF assms(1)] by (auto simp: fat_ok_def word_less_nat_alt)
  have "\<not> countOfClusters fs + 2 \<le> c"
    using assms(2) N by (simp add: valid_cluster_nat [OF assms(1)] word_le_nat_alt unat_add_u32)
  moreover have "\<not> isBadCluster fs c" "\<not> isEof fs c" "\<not> c < 2"
    using assms(2) not_bad vol_ok_fat(2) [OF assms(1)] by (auto simp: valid_cluster_def)
  ultimately show "calcSize_loop fs c sz = (if DIR_LIMIT < unat sz + fat_bpc fs then Some (sz + bytsPerClus fs)
      else calcSize_loop fs (clusEntryVal fs c) (sz + bytsPerClus fs))"
    using * by (subst calcSize_loop.simps) (simp add: Let_def word_less_nat_alt)
qed

lemma calcSize_loop_total:
  assumes b: "0 < fat_bpc fs" "fat_bpc fs < 2 ^ 31" and "unat sz \<le> DIR_LIMIT"
  shows "\<exists>s. calcSize_loop fs c sz = Some s \<and> unat s \<le> DIR_LIMIT + fat_bpc fs"
  using assms(3)
proof (induction "DIR_LIMIT - unat sz" arbitrary: c sz rule: less_induct)
  case less
  show ?case
  proof (cases "isEof fs c \<or> c < 2 \<or> isBadCluster fs c \<or> countOfClusters fs + 2 \<le> c")
    case True
    then show ?thesis using less.prems by (subst calcSize_loop.simps) auto
  next
    case False
    have sz: "unat (sz + bytsPerClus fs) = unat sz + fat_bpc fs"
      using b(2) less.prems by (subst unat_add_u32) (simp_all add: fat_bpc_def)
    have step: "calcSize_loop fs c sz = (if DIR_LIMIT < unat sz + fat_bpc fs then Some (sz + bytsPerClus fs)
        else calcSize_loop fs (clusEntryVal fs c) (sz + bytsPerClus fs))"
      using False sz by (subst calcSize_loop.simps) (simp add: Let_def word_less_nat_alt)
    show ?thesis
    proof (cases "DIR_LIMIT < unat sz + fat_bpc fs")
      case True
      then show ?thesis using step less.prems sz by simp
    next
      case False
      then show ?thesis using less.hyps [of "sz + bytsPerClus fs" "clusEntryVal fs c"] step sz b(1) by simp
    qed
  qed
qed

lemma calcSize_loop_chain:
  assumes "vol_ok fs" "cluster_chain fs cs" "cs \<noteq> []" "unat sz \<le> DIR_LIMIT"
    and "unat sz + length cs * fat_bpc fs \<le> DIR_LIMIT"
  shows "calcSize_loop fs (hd cs) sz = Some (sz + of_nat (length cs) * bytsPerClus fs)"
  using assms(2-5)
proof (induction cs arbitrary: sz)
  case (Cons c cs)
  have v: "valid_cluster fs c" using Cons.prems by (simp add: cluster_chain_Cons)
  note step = calcSize_step [OF assms(1) v Cons.prems(3)]
  have le: "unat sz + fat_bpc fs \<le> DIR_LIMIT" using Cons.prems(4) by simp
  show ?case
  proof (cases "cs = []")
    case True
    then have "isEof fs (clusEntryVal fs c)" using Cons.prems by (simp add: cluster_chain_Cons)
    then show ?thesis using True step le by (simp add: calcSize_loop.simps)
  next
    case False
    then have "clusEntryVal fs c = hd cs" "cluster_chain fs cs" using Cons.prems by (auto simp: cluster_chain_Cons)
    then show ?thesis
      using step le False Cons.prems(4) Cons.IH [of "sz + bytsPerClus fs"] by (simp add: algebra_simps)
  qed
qed simp

text \<open>C14: \<^verbatim>\<open>calcSize\<close> returns from every cluster number, whatever the disk and the FAT hold, chains that run in a circle
  included, when the size of a cluster is not 0 and below \<open>2 ^ 31\<close>; the result is at most one cluster more than the limit of
  a directory.\<close>

theorem calcSize_returns:
  assumes "0 < fat_bpc fs" "fat_bpc fs < 2 ^ 31"
  shows "\<exists>s. calcSize fs clus = Some s \<and> unat s \<le> DIR_LIMIT + fat_bpc fs"
proof -
  have "unat (32 * le_word (fs_bpb fs) BPB_RootEntCnt) \<le> DIR_LIMIT"
  proof -
    have "unat (le_word (fs_bpb fs) BPB_RootEntCnt) < 65536" by (rule le_word_less)
    then show ?thesis by (simp add: unat_word_ariths)
  qed
  then show ?thesis using calcSize_loop_total [OF assms, of 0] by (auto simp: calcSize_def)
qed

text \<open>The FAT12 volume with a circle of the clusters 2 and 3.\<close>

definition ex12_circle :: fatfs where
  "ex12_circle = ex12\<lparr>fs_disk := (\<lambda>a. 0)(515 := 3, 516 := 0x20)\<rparr>"

theorem calcSize_returns_witness:
  "\<exists>s. calcSize ex12_circle 2 = Some s \<and> unat s \<le> DIR_LIMIT + fat_bpc ex12_circle"
  by (rule calcSize_returns) (simp_all add: ex12_circle_def ex12_def fat_bpc_def)

text \<open>On a proper chain that fits a directory \<^verbatim>\<open>calcSize\<close> is the number of its clusters
  times their size.\<close>

theorem calcSize_of_chain:
  assumes "vol_ok fs" "cluster_chain fs cs" "cs \<noteq> []" "length cs * fat_bpc fs \<le> DIR_LIMIT"
  shows "\<exists>s. calcSize fs (hd cs) = Some s \<and> unat s = length cs * fat_bpc fs"
proof -
  have "hd cs \<noteq> 0" using assms(2,3) by (cases cs) (auto simp: cluster_chain_Cons valid_cluster_def)
  then have "calcSize fs (hd cs) = Some (of_nat (length cs) * bytsPerClus fs)"
    using calcSize_loop_chain [OF assms(1-3), of 0] assms(4) by (simp add: calcSize_def)
  moreover have "unat (of_nat (length cs) * bytsPerClus fs) = length cs * fat_bpc fs"
  proof -
    have eq: "(of_nat (length cs) * bytsPerClus fs :: u32) = of_nat (length cs * fat_bpc fs)"
      by (simp add: fat_bpc_def)
    show ?thesis unfolding eq by (intro unat_of_nat_u32 le_less_trans [OF assms(4)]) simp
  qed
  ultimately show ?thesis by blast
qed

theorem calcSize_of_chain_witness:
  "\<exists>s. calcSize ex12_file 2 = Some s \<and> unat s = 1024"
proof -
  have "fat_bpc ex12_file = 512" by (simp add: fat_bpc_def ex12_file_def ex12_def)
  then show ?thesis using calcSize_of_chain [OF ex12_file_ok] by simp
qed

subsection \<open>Volumes beyond 4 GB\<close>

text \<open>The byte position that \<^verbatim>\<open>readCluster\<close> and \<^verbatim>\<open>writeCluster\<close> compute for the first sector
  of a cluster is the true one cut to 32 bits: a cluster that begins at or above 4 GB is read and
  written 4 GB (or a multiple) too low.\<close>

theorem cluster_position_wraps:
  assumes "2 \<le> c" "fat_bpc fs = fat_bps fs * unat (fs_bpb fs ! BPB_SecPerClus)"
    and "unat (firstDataSector fs) + (unat c - 2) * unat (fs_bpb fs ! BPB_SecPerClus) < 2 ^ 32"
  shows "sectorPosition fs (firstSectorOfCluster fs c) = cluster_pos fs c mod 2 ^ 32
    \<and> (2 ^ 32 \<le> cluster_pos fs c \<longrightarrow> sectorPosition fs (firstSectorOfCluster fs c) \<noteq> cluster_pos fs c)"
proof (intro conjI impI)
  let ?spc = "unat (fs_bpb fs ! BPB_SecPerClus)"
  have us: "unat (le_byte (fs_bpb fs) BPB_SecPerClus) = ?spc" by (simp add: le_byte_def unat_ucast_up)
  have uc: "unat (c - 2) = unat c - 2" "0 < c"
    using assms(1) by (simp_all add: unat_sub word_le_nat_alt word_less_nat_alt)
  have 1: "unat ((c - 2) * le_byte (fs_bpb fs) BPB_SecPerClus) = (unat c - 2) * ?spc"
    using assms(3) by (subst unat_mult_u32) (simp_all add: us uc)
  have "unat (firstSectorOfCluster fs c) = (unat c - 2) * ?spc + unat (firstDataSector fs)"
    using assms(3) uc 1 by (simp add: firstSectorOfCluster_def unat_add_u32)
  then have "sectorPosition fs (firstSectorOfCluster fs c)
      = ((unat c - 2) * ?spc + unat (firstDataSector fs)) * fat_bps fs mod 2 ^ 32"
    by (simp add: sectorPosition_def unat_word_ariths unat_ucast_up fat_bps_def)
  also have "((unat c - 2) * ?spc + unat (firstDataSector fs)) * fat_bps fs = cluster_pos fs c"
    using assms(2) by (simp add: cluster_pos_def data_base_def algebra_simps)
  finally show "sectorPosition fs (firstSectorOfCluster fs c) = cluster_pos fs c mod 2 ^ 32" .
  then show "sectorPosition fs (firstSectorOfCluster fs c) \<noteq> cluster_pos fs c" if "2 ^ 32 \<le> cluster_pos fs c"
    using that by (metis mod_less_divisor not_less zero_less_numeral zero_less_power)
qed

text \<open>A volume whose cluster 2 begins at 4 GB exactly.\<close>

definition ex_big :: fatfs where
  "ex_big = ex12\<lparr>firstDataSector := 8388608\<rparr>"

theorem cluster_position_wraps_witness:
  "cluster_pos ex_big 2 = 2 ^ 32 \<and> sectorPosition ex_big (firstSectorOfCluster ex_big 2) = 0"
proof -
  have h: "fat_bpc ex_big = fat_bps ex_big * unat (fs_bpb ex_big ! BPB_SecPerClus)"
    "unat (firstDataSector ex_big) + (unat (2 :: u32) - 2) * unat (fs_bpb ex_big ! BPB_SecPerClus) < 2 ^ 32"
    by (simp_all add: ex_big_def ex12_def fat_bpc_def fat_bps_def ex_bpb_nth)
  have p: "cluster_pos ex_big 2 = 2 ^ 32"
    by (simp add: cluster_pos_def data_base_def fat_bps_def) (simp add: ex_big_def ex12_def)
  then show ?thesis using cluster_position_wraps [OF _ h] by simp
qed

end
