(* ===== verification/DateTimes.thy ===== *)
theory DateTimes
  imports Prelude "HOL-Library.Signed_Division"
begin

text \<open>
  Dates and times (\<^verbatim>\<open>include/es/dateTime.h\<close>, \<^verbatim>\<open>os/libes++/src/dateTime.cpp\<close>): a
  \<^verbatim>\<open>DateTime\<close> is its number of 100 nanosecond ticks since 1 January of the year 1. The
  constructors throw \<^verbatim>\<open>out_of_range\<close>, here \<open>Thrown OutOfRange\<close>. Integers are unbounded: every
  intermediate value of the code stays far below its 32 or 64 bits.
\<close>

subsection \<open>Constants and calendar\<close>

abbreviation (input) TICKS_PER_MICROSECOND :: int where "TICKS_PER_MICROSECOND \<equiv> 10"
abbreviation (input) TICKS_PER_MILLISECOND :: int where "TICKS_PER_MILLISECOND \<equiv> 10000"
abbreviation (input) TICKS_PER_SECOND :: int where "TICKS_PER_SECOND \<equiv> 10000000"
abbreviation (input) TICKS_PER_MINUTE :: int where "TICKS_PER_MINUTE \<equiv> 600000000"
abbreviation (input) TICKS_PER_HOUR :: int where "TICKS_PER_HOUR \<equiv> 36000000000"
abbreviation (input) TICKS_PER_DAY :: int where "TICKS_PER_DAY \<equiv> 864000000000"
abbreviation (input) DAYS_PER_400YEARS :: int where "DAYS_PER_400YEARS \<equiv> 146097"
abbreviation (input) DAYS_PER_100YEARS :: int where "DAYS_PER_100YEARS \<equiv> 36524"
abbreviation (input) DAYS_PER_4YEARS :: int where "DAYS_PER_4YEARS \<equiv> 1461"
abbreviation (input) DAYS_PER_YEAR :: int where "DAYS_PER_YEAR \<equiv> 365"
abbreviation (input) MAX_TICKS :: int where "MAX_TICKS \<equiv> 3652059 * 864000000000 - 1"

definition yearDays :: "int list" where
  "yearDays = [0, 31, 59, 90, 120, 151, 181, 212, 243, 273, 304, 334, 365]"

definition leapYearDays :: "int list" where
  "leapYearDays = [0, 31, 60, 91, 121, 152, 182, 213, 244, 274, 305, 335, 366]"

definition isLeapYear :: "int \<Rightarrow> bool" where
  "isLeapYear year = (year mod 4 = 0 \<and> (year mod 100 \<noteq> 0 \<or> year mod 400 = 0))"

definition monthDays :: "int \<Rightarrow> int list" where
  "monthDays year = (if isLeapYear year then leapYearDays else yearDays)"

definition daysInMonth :: "int \<Rightarrow> int \<Rightarrow> int result" where
  "daysInMonth year month =
    (if month < 1 \<or> 12 < month then Inl (Thrown OutOfRange)
     else Inr (monthDays year ! nat month - monthDays year ! nat (month - 1)))"

definition dateToTicks :: "int \<Rightarrow> int \<Rightarrow> int \<Rightarrow> int result" where
  "dateToTicks year month day =
    (if year < 1 \<or> 9999 < year then Inl (Thrown OutOfRange)
     else if month < 1 \<or> 12 < month then Inl (Thrown OutOfRange)
     else let days = monthDays year
          in if day < 1 \<or> days ! nat month - days ! nat (month - 1) < day then Inl (Thrown OutOfRange)
             else let y = year - 1;
                      n = y * 365 + y div 4 - y div 100 + y div 400 + days ! nat (month - 1) + day - 1
                  in Inr (n * TICKS_PER_DAY))"

definition timeToTicks :: "int \<Rightarrow> int \<Rightarrow> int \<Rightarrow> int result" where
  "timeToTicks hour minute second =
    (if hour < 0 \<or> 24 \<le> hour then Inl (Thrown OutOfRange)
     else if minute < 0 \<or> 60 \<le> minute then Inl (Thrown OutOfRange)
     else if second < 0 \<or> 60 \<le> second then Inl (Thrown OutOfRange)
     else Inr ((hour * 3600 + minute * 60 + second) * TICKS_PER_SECOND))"

text \<open>The loop that looks for the month; the tables end above every day of a year.\<close>

fun find_month :: "nat \<Rightarrow> int list \<Rightarrow> int \<Rightarrow> int \<Rightarrow> int" where
  "find_month 0 days day month = month"
| "find_month (Suc n) days day month =
     (if days ! nat month \<le> day then find_month n days day (month + 1) else month)"

definition getDates :: "int \<Rightarrow> int \<times> int \<times> int \<times> int" where
  "getDates ticks =
    (let day = ticks div TICKS_PER_DAY;
         y400 = day div DAYS_PER_400YEARS;
         day = day mod DAYS_PER_400YEARS;
         y100 = (if day div DAYS_PER_100YEARS = 4 then 3 else day div DAYS_PER_100YEARS);
         day = day - y100 * DAYS_PER_100YEARS;
         y4 = day div DAYS_PER_4YEARS;
         day = day mod DAYS_PER_4YEARS;
         y1 = (if day div DAYS_PER_YEAR = 4 then 3 else day div DAYS_PER_YEAR);
         day = day - y1 * DAYS_PER_YEAR;
         year = y400 * 400 + y100 * 100 + y4 * 4 + y1 + 1;
         yday = day + 1;
         days = monthDays year;
         month = find_month 12 days day (drop_bit 5 day + 1)
     in (year, month, day - (days ! nat (month - 1) - 1), yday))"

definition DateTime_of_ticks :: "int \<Rightarrow> int result" where
  "DateTime_of_ticks ticks = (if ticks < 0 \<or> MAX_TICKS < ticks then Inl (Thrown OutOfRange) else Inr ticks)"

definition DateTime_of_date :: "int \<Rightarrow> int \<Rightarrow> int \<Rightarrow> int result" where
  "DateTime_of_date year month day = dateToTicks year month day"

definition DateTime_of_time ::
    "int \<Rightarrow> int \<Rightarrow> int \<Rightarrow> int \<Rightarrow> int \<Rightarrow> int \<Rightarrow> int \<Rightarrow> int \<Rightarrow> int result" where
  "DateTime_of_time year month day hour minute second millisecond microsecond =
    andThen (dateToTicks year month day) (\<lambda>d. andThen (timeToTicks hour minute second) (\<lambda>t.
      if millisecond < 0 \<or> 1000 \<le> millisecond then Inl (Thrown OutOfRange)
      else if microsecond < 0 \<or> 1000 \<le> microsecond then Inl (Thrown OutOfRange)
      else Inr (d + t + millisecond * TICKS_PER_MILLISECOND + microsecond * TICKS_PER_MICROSECOND)))"

definition getHour :: "int \<Rightarrow> int" where "getHour ticks = ticks div TICKS_PER_HOUR mod 24"
definition getMinute :: "int \<Rightarrow> int" where "getMinute ticks = ticks div TICKS_PER_MINUTE mod 60"
definition getSecond :: "int \<Rightarrow> int" where "getSecond ticks = ticks div TICKS_PER_SECOND mod 60"
definition getMillisecond :: "int \<Rightarrow> int" where "getMillisecond ticks = ticks div TICKS_PER_MILLISECOND mod 1000"
definition getMicrosecond :: "int \<Rightarrow> int" where "getMicrosecond ticks = ticks div TICKS_PER_MICROSECOND mod 1000"
definition getYear :: "int \<Rightarrow> int" where "getYear ticks = (case getDates ticks of (y, m, d, yd) \<Rightarrow> y)"
definition getMonth :: "int \<Rightarrow> int" where "getMonth ticks = (case getDates ticks of (y, m, d, yd) \<Rightarrow> m)"
definition getDay :: "int \<Rightarrow> int" where "getDay ticks = (case getDates ticks of (y, m, d, yd) \<Rightarrow> d)"
definition getDayOfYear :: "int \<Rightarrow> int" where "getDayOfYear ticks = (case getDates ticks of (y, m, d, yd) \<Rightarrow> yd)"
definition getDayOfWeek :: "int \<Rightarrow> int" where "getDayOfWeek ticks = (ticks div TICKS_PER_DAY + 1) mod 7"

text \<open>The numbers of the machine that \<^verbatim>\<open>s64\<close> and \<^verbatim>\<open>int\<close> hold; a sum or a product outside is undefined.\<close>

definition in_s64 :: "int \<Rightarrow> bool" where
  "in_s64 x \<longleftrightarrow> - (2 ^ 63) \<le> x \<and> x < 2 ^ 63"

definition in_s32 :: "int \<Rightarrow> bool" where
  "in_s32 x \<longleftrightarrow> - (2 ^ 31) \<le> x \<and> x < 2 ^ 31"

definition addTicks :: "int \<Rightarrow> int \<Rightarrow> int result" where
  "addTicks ticks value = (if in_s64 (ticks + value) then DateTime_of_ticks (ticks + value) else Inl Undefined)"

definition addMonths :: "int \<Rightarrow> int \<Rightarrow> int result" where
  "addMonths ticks months =
    (if months < - 120000 \<or> 120000 < months then Inl (Thrown OutOfRange)
     else case getDates ticks of (year, month, day, yday) \<Rightarrow>
       let month = month - 1 + months;
           year = year + month sdiv 12;
           month = month smod 12;
           (year, month) = (if 0 \<le> month then (year, month + 1) else (year - 1, month + 13))
       in andThen (daysInMonth year month) (\<lambda>days.
            andThen (DateTime_of_date year month (if days < day then days else day)) (\<lambda>d.
              addTicks d (ticks mod TICKS_PER_DAY))))"

definition addYears :: "int \<Rightarrow> int \<Rightarrow> int result" where
  "addYears ticks value = (if in_s32 (value * 12) then addMonths ticks (value * 12) else Inl Undefined)"

definition addDays :: "int \<Rightarrow> int \<Rightarrow> int result" where
  "addDays ticks value =
    (if in_s64 (value * TICKS_PER_DAY) then addTicks ticks (value * TICKS_PER_DAY) else Inl Undefined)"

subsection \<open>Days and dates\<close>

definition valid_date :: "int \<Rightarrow> int \<Rightarrow> int \<Rightarrow> bool" where
  "valid_date y m d \<longleftrightarrow> 1 \<le> y \<and> y \<le> 9999 \<and> 1 \<le> m \<and> m \<le> 12 \<and> 1 \<le> d
     \<and> d \<le> monthDays y ! nat m - monthDays y ! nat (m - 1)"

definition year_start :: "int \<Rightarrow> int" where
  "year_start y = (y - 1) * 365 + (y - 1) div 4 - (y - 1) div 100 + (y - 1) div 400"

definition year_len :: "int \<Rightarrow> int" where
  "year_len y = (if isLeapYear y then 366 else 365)"

definition day_number :: "int \<Rightarrow> int \<Rightarrow> int \<Rightarrow> int" where
  "day_number y m d = year_start y + monthDays y ! nat (m - 1) + d - 1"

lemma dateToTicks_valid: "dateToTicks y m d = (if valid_date y m d then Inr (day_number y m d * TICKS_PER_DAY) else Inl (Thrown OutOfRange))"
  by (auto simp: dateToTicks_def valid_date_def day_number_def year_start_def Let_def)

lemma year_start_1: "year_start 1 = 0"
  by (simp add: year_start_def)

lemma days_tables:
  "sorted (monthDays y)" "length (monthDays y) = 13" "monthDays y ! 0 = 0" "monthDays y ! 12 = year_len y"
  by (simp_all add: monthDays_def yearDays_def leapYearDays_def year_len_def)

text \<open>The search starts at or before the month of the day and ends on it.\<close>

lemma find_month_spec:
  assumes "1 \<le> m" "m \<le> 12" "12 - m \<le> int n" "days ! nat (m - 1) \<le> day" "day < days ! 12"
  shows "1 \<le> find_month n days day m \<and> find_month n days day m \<le> 12
    \<and> days ! nat (find_month n days day m - 1) \<le> day \<and> day < days ! nat (find_month n days day m)"
  using assms
proof (induction n arbitrary: m)
  case 0
  then have "m = 12" by simp
  then show ?case using 0 by simp
next
  case (Suc n)
  show ?case
  proof (cases "days ! nat m \<le> day")
    case True
    then have "m \<noteq> 12" using Suc.prems by auto
    then show ?thesis using True Suc.IH [of "m + 1"] Suc.prems by simp
  next
    case False
    then show ?thesis using Suc.prems by simp
  qed
qed

lemma days_table_start: "k < 12 \<Longrightarrow> monthDays y ! k \<le> 32 * int k"
proof -
  have "list_all (\<lambda>k. yearDays ! k \<le> 32 * int k) [0..<12]" "list_all (\<lambda>k. leapYearDays ! k \<le> 32 * int k) [0..<12]"
    by (simp_all add: upt_rec yearDays_def leapYearDays_def)
  then show "k < 12 \<Longrightarrow> monthDays y ! k \<le> 32 * int k" by (auto simp: list_all_iff monthDays_def)
qed

lemma find_month_day:
  assumes "0 \<le> day" "day < year_len y"
  defines "m \<equiv> find_month 12 (monthDays y) day (drop_bit 5 day + 1)"
  shows "1 \<le> m" "m \<le> 12" "monthDays y ! nat (m - 1) \<le> day" "day < monthDays y ! nat m"
proof -
  have d: "drop_bit 5 day = day div 32" by (simp add: drop_bit_eq_div)
  have k: "0 \<le> day div 32" "day div 32 < 12"
    using assms(1,2) by (auto simp: year_len_def pos_imp_zdiv_nonneg_iff split: if_splits)
  then have "monthDays y ! nat (day div 32) \<le> 32 * int (nat (day div 32))" by (intro days_table_start) auto
  then have "monthDays y ! nat (day div 32) \<le> day" using k by simp
  then show "1 \<le> m" "m \<le> 12" "monthDays y ! nat (m - 1) \<le> day" "day < monthDays y ! nat m"
    using find_month_spec [of "day div 32 + 1" 12 "monthDays y" day] k assms(2) days_tables(4) [of y]
    by (simp_all add: m_def d)
qed

lemma year_parts:
  fixes a b c e :: int
  assumes "0 \<le> b" "b \<le> 3" "0 \<le> c" "c \<le> 24" "0 \<le> e" "e \<le> 3"
  defines "y \<equiv> a * 400 + b * 100 + c * 4 + e + 1"
  shows "year_start y = 146097 * a + 36524 * b + 1461 * c + 365 * e"
    "isLeapYear y \<longleftrightarrow> e = 3 \<and> (c \<noteq> 24 \<or> b = 3)"
proof -
  have 4: "(y - 1) div 4 = 100 * a + 25 * b + c" using assms by simp
  have 100: "(y - 1) div 100 = 4 * a + b" using assms by simp
  have 400: "(y - 1) div 400 = a" using assms by simp
  show "year_start y = 146097 * a + 36524 * b + 1461 * c + 365 * e"
    unfolding year_start_def 4 100 400 by (simp add: y_def)
  have "y mod 4 = (e + 1) mod 4"
  proof -
    have "y = (e + 1) + (100 * a + 25 * b + c) * 4" by (simp add: y_def)
    then show ?thesis by (metis mod_mult_self1)
  qed
  moreover have "(e + 1) mod 4 = 0 \<longleftrightarrow> e = 3"
    using assms(5,6) by (cases "e = 3") (auto simp: mod_pos_pos_trivial)
  moreover have "y mod 100 = (4 * c + e + 1) mod 100"
  proof -
    have "y = (4 * c + e + 1) + (4 * a + b) * 100" by (simp add: y_def)
    then show ?thesis by (metis mod_mult_self1)
  qed
  moreover have "y mod 400 = (100 * b + 4 * c + e + 1) mod 400"
  proof -
    have "y = (100 * b + 4 * c + e + 1) + a * 400" by (simp add: y_def)
    then show ?thesis by (metis mod_mult_self1)
  qed
  moreover have "(4 * c + e + 1) mod 100 = 0 \<longleftrightarrow> c = 24 \<and> e = 3"
  proof (cases "4 * c + e + 1 = 100")
    case True
    then have "c = 24 \<and> e = 3" using assms(3-6) by presburger
    then show ?thesis by simp
  next
    case False
    then have "4 * c + e + 1 < 100" "0 < 4 * c + e + 1" using assms(3-6) by linarith+
    then show ?thesis using False by (auto simp: mod_pos_pos_trivial)
  qed
  moreover have "c = 24 \<Longrightarrow> e = 3 \<Longrightarrow> (100 * b + 4 * c + e + 1) mod 400 = 0 \<longleftrightarrow> b = 3"
    using assms by (cases "b = 3") (auto simp: mod_pos_pos_trivial)
  ultimately show "isLeapYear y \<longleftrightarrow> e = 3 \<and> (c \<noteq> 24 \<or> b = 3)"
    unfolding isLeapYear_def by auto
qed

text \<open>The date computed for a number of ticks is a date, and it is the day the ticks fall on.\<close>

lemma getDates_correct:
  assumes "0 \<le> ticks"
  obtains y m d where "getDates ticks = (y, m, d, day_number y m d - year_start y + 1)"
    "day_number y m d = ticks div TICKS_PER_DAY" "1 \<le> y" "1 \<le> m" "m \<le> 12" "1 \<le> d"
    "d \<le> monthDays y ! nat m - monthDays y ! nat (m - 1)"
proof -
  define n where "n = ticks div TICKS_PER_DAY"
  define a where "a = n div 146097"
  define r where "r = n mod 146097"
  define b where "b = (if r div 36524 = 4 then 3 else r div 36524)"
  define r1 where "r1 = r - b * 36524"
  define c where "c = r1 div 1461"
  define r2 where "r2 = r1 mod 1461"
  define e where "e = (if r2 div 365 = 4 then 3 else r2 div 365)"
  define r3 where "r3 = r2 - e * 365"
  define y where "y = a * 400 + b * 100 + c * 4 + e + 1"
  have n: "0 \<le> n" "n = 146097 * a + r" using assms by (simp_all add: n_def a_def r_def)
  have a: "0 \<le> a" using n(1) by (simp add: a_def pos_imp_zdiv_nonneg_iff)
  have r: "0 \<le> r" "r < 146097" by (simp_all add: r_def)
  have b: "0 \<le> b" "b \<le> 3" "0 \<le> r1" "r1 < 36524 \<or> b = 3 \<and> r1 = 36524"
    using r by (auto simp: b_def r1_def pos_imp_zdiv_nonneg_iff split: if_splits)
  have c: "0 \<le> c" "c \<le> 24" "r1 = 1461 * c + r2" "0 \<le> r2" "r2 < 1461"
    using b by (auto simp: c_def r2_def pos_imp_zdiv_nonneg_iff)
  have e: "0 \<le> e" "e \<le> 3" "0 \<le> r3" "r3 < 365 \<or> e = 3 \<and> r3 = 365"
    using c(4,5) by (auto simp: e_def r3_def pos_imp_zdiv_nonneg_iff split: if_splits)
  note yp = year_parts [OF b(1,2) c(1,2) e(1,2), of a, folded y_def]
  have leap: "r3 = 365 \<Longrightarrow> isLeapYear y"
    using yp(2) e(4) b(4) c(3) by (auto simp: r3_def)
  then have len: "r3 < year_len y" using e(4) by (auto simp: year_len_def)
  have start: "year_start y + r3 = n"
    using yp(1) n(2) c(3) by (simp add: r1_def r3_def)
  define m where "m = find_month 12 (monthDays y) r3 (drop_bit 5 r3 + 1)"
  define d where "d = r3 - (monthDays y ! nat (m - 1) - 1)"
  have mo: "1 \<le> m" "m \<le> 12" "monthDays y ! nat (m - 1) \<le> r3" "r3 < monthDays y ! nat m"
    unfolding m_def by (rule find_month_day [OF e(3) len])+
  have dn: "day_number y m d = n" using start by (simp add: day_number_def d_def)
  have "getDates ticks = (y, m, d, r3 + 1)"
    unfolding getDates_def Let_def n_def [symmetric] a_def [symmetric] r_def [symmetric] b_def [symmetric]
      r1_def [symmetric] c_def [symmetric] r2_def [symmetric] e_def [symmetric] r3_def [symmetric]
      y_def [symmetric] m_def [symmetric] d_def [symmetric] by (rule refl)
  then have "getDates ticks = (y, m, d, day_number y m d - year_start y + 1)" using start dn by simp
  moreover have "1 \<le> y" using a b c e by (simp add: y_def)
  ultimately show ?thesis
    using that dn mo by (simp add: d_def n_def)
qed

lemma year_start_Suc: "1 \<le> y \<Longrightarrow> year_start (y + 1) = year_start y + year_len y"
proof -
  assume "1 \<le> y"
  have "y div k = (y - 1) div k + (if y mod k = 0 then 1 else 0)" if "0 < k" for k :: int
  proof -
    have "y - 1 = k * ((y - 1) div k) + (y - 1) mod k" "0 \<le> (y - 1) mod k" "(y - 1) mod k < k" using that by simp_all
    moreover define q where "q = (y - 1) div k"
    moreover define r where "r = (y - 1) mod k"
    ultimately have qr: "y = k * q + (r + 1)" "0 \<le> r" "r < k" by simp_all
    show ?thesis
    proof (cases "r + 1 = k")
      case True
      then have y: "y = k * (q + 1)" using qr(1) by (simp add: algebra_simps)
      have "y div k = q + 1" "y mod k = 0" unfolding y using that by simp_all
      then show ?thesis by (simp add: q_def)
    next
      case False
      then have "y div k = q" "y mod k = r + 1"
        using qr by (simp_all add: div_pos_pos_trivial mod_pos_pos_trivial)
      then show ?thesis using qr(2) by (simp add: q_def)
    qed
  qed
  note step = this
  define A B C where "A = (y - 1) div 4" "B = (y - 1) div 100" "C = (y - 1) div 400"
  define P Q R where "P = (if y mod 4 = 0 then 1 else 0 :: int)" "Q = (if y mod 100 = 0 then 1 else 0 :: int)"
    "R = (if y mod 400 = 0 then 1 else 0 :: int)"
  define L where "L = (if isLeapYear y then 1 else 0 :: int)"
  have d: "y div 4 = A + P" "y div 100 = B + Q" "y div 400 = C + R"
    unfolding A_B_C_def P_Q_R_def by (rule step; simp)+
  have imp: "y mod 100 = 0 \<Longrightarrow> y mod 4 = 0" "y mod 400 = 0 \<Longrightarrow> y mod 100 = 0"
    using dvd_trans [of 4 100 y] dvd_trans [of 100 400 y] by (simp_all add: dvd_eq_mod_eq_0)
  have sum: "(if p then 1 else 0) - (if q then 1 else 0) + (if r then 1 else 0)
      = (if p \<and> (\<not> q \<or> r) then 1 else 0 :: int)" if "q \<Longrightarrow> p" "r \<Longrightarrow> q" for p q r
    using that by (cases p; cases q; cases r) simp_all
  have "P - Q + R = L" unfolding P_Q_R_def L_def isLeapYear_def by (rule sum) (rule imp, assumption)+
  moreover have "year_start (y + 1) = y * 365 + y div 4 - y div 100 + y div 400" by (simp add: year_start_def)
  moreover have "year_start y = (y - 1) * 365 + A - B + C" by (simp add: year_start_def A_B_C_def)
  moreover have "year_len y = 365 + L" by (simp add: year_len_def L_def)
  ultimately show ?thesis unfolding d by (simp add: algebra_simps)
qed

lemma year_start_mono: "1 \<le> y \<Longrightarrow> y \<le> z \<Longrightarrow> year_start y \<le> year_start z"
proof -
  have "1 \<le> y \<Longrightarrow> year_start y \<le> year_start (y + int k)" for k
  proof (induction k)
    case (Suc k)
    then show ?case
      using year_start_Suc [of "y + int k"] by (simp add: year_len_def algebra_simps split: if_splits)
  qed simp
  from this [of "nat (z - y)"] show "1 \<le> y \<Longrightarrow> y \<le> z \<Longrightarrow> year_start y \<le> year_start z" by simp
qed

lemma days_table_mono:
  "1 \<le> m \<Longrightarrow> m < m' \<Longrightarrow> m' \<le> 12 \<Longrightarrow> monthDays y ! nat m \<le> monthDays y ! nat (m' - 1)"
  using days_tables(1,2) [of y] by (intro sorted_nth_mono) auto

lemma days_table_bounds:
  assumes "1 \<le> m" "m \<le> 12"
  shows "0 \<le> monthDays y ! nat (m - 1)" "monthDays y ! nat m \<le> year_len y"
proof -
  have "monthDays y ! 0 \<le> monthDays y ! nat (m - 1)" "monthDays y ! nat m \<le> monthDays y ! 12"
    using assms days_tables(1,2) [of y] by (auto intro!: sorted_nth_mono)
  then show "0 \<le> monthDays y ! nat (m - 1)" "monthDays y ! nat m \<le> year_len y"
    by (simp_all only: days_tables)
qed

lemma day_of_year_bounds:
  assumes "1 \<le> y" "1 \<le> m" "m \<le> 12" "1 \<le> d" "d \<le> monthDays y ! nat m - monthDays y ! nat (m - 1)"
  shows "year_start y \<le> day_number y m d" "day_number y m d < year_start (y + 1)"
  using assms year_start_Suc [of y] days_table_bounds [of m y] by (simp_all add: day_number_def)

text \<open>A date is determined by its day number.\<close>

lemma day_number_inj:
  assumes "1 \<le> y" "1 \<le> m" "m \<le> 12" "1 \<le> d" "d \<le> monthDays y ! nat m - monthDays y ! nat (m - 1)"
    and "1 \<le> y'" "1 \<le> m'" "m' \<le> 12" "1 \<le> d'" "d' \<le> monthDays y' ! nat m' - monthDays y' ! nat (m' - 1)"
    and eq: "day_number y m d = day_number y' m' d'"
  shows "y = y' \<and> m = m' \<and> d = d'"
proof -
  have y: "y = y'"
  proof (rule ccontr)
    assume "y \<noteq> y'"
    then consider "y + 1 \<le> y'" | "y' + 1 \<le> y" by linarith
    then show False
    proof cases
      case 1
      then show False using year_start_mono [of "y + 1" y'] day_of_year_bounds(2) [OF assms(1-5)]
          day_of_year_bounds(1) [OF assms(6-10)] eq assms(1) by linarith
    next
      case 2
      then show False using year_start_mono [of "y' + 1" y] day_of_year_bounds(1) [OF assms(1-5)]
          day_of_year_bounds(2) [OF assms(6-10)] eq assms(6) by linarith
    qed
  qed
  moreover have "m = m'"
  proof (rule ccontr)
    assume "m \<noteq> m'"
    then consider "m < m'" | "m' < m" by linarith
    then show False
      using days_table_mono [of m m' y] days_table_mono [of m' m y] assms y eq
      by cases (auto simp: day_number_def)
  qed
  ultimately show ?thesis using eq by (simp add: day_number_def)
qed

text \<open>C34: \<^verbatim>\<open>DateTime\<close> takes a date apart again: for every date of the calendar from the year 1
  to 9999 and every time of day, \<^verbatim>\<open>getYear\<close>, \<^verbatim>\<open>getMonth\<close> and \<^verbatim>\<open>getDay\<close> of the ticks that
  \<^verbatim>\<open>dateToTicks\<close> computes are that date.\<close>

theorem date_roundtrip:
  assumes "dateToTicks y m d = Inr ticks" "0 \<le> t" "t < TICKS_PER_DAY"
  shows "getYear (ticks + t) = y \<and> getMonth (ticks + t) = m \<and> getDay (ticks + t) = d"
proof -
  have v: "valid_date y m d" "ticks = day_number y m d * TICKS_PER_DAY"
    using assms(1) by (auto simp: dateToTicks_valid split: if_splits)
  then have b: "1 \<le> y" "1 \<le> m" "m \<le> 12" "1 \<le> d" "d \<le> monthDays y ! nat m - monthDays y ! nat (m - 1)"
    by (simp_all add: valid_date_def)
  have "0 \<le> day_number y m d"
    using day_of_year_bounds(1) [OF b] year_start_mono [of 1 y] b(1) year_start_1 by simp
  then have nn: "0 \<le> ticks + t" using v(2) assms(2) by simp
  have dv: "(ticks + t) div TICKS_PER_DAY = day_number y m d" using v(2) assms(2,3) by simp
  obtain y' m' d' where g: "getDates (ticks + t) = (y', m', d', day_number y' m' d' - year_start y' + 1)"
    "day_number y' m' d' = (ticks + t) div TICKS_PER_DAY" "1 \<le> y'" "1 \<le> m'" "m' \<le> 12" "1 \<le> d'"
    "d' \<le> monthDays y' ! nat m' - monthDays y' ! nat (m' - 1)"
    using getDates_correct [OF nn] by blast
  have "day_number y m d = day_number y' m' d'" using g(2) dv by (simp only:)
  then have "y = y' \<and> m = m' \<and> d = d'" by (rule day_number_inj [OF b g(3-7)])
  then show ?thesis using g(1) by (simp add: getYear_def getMonth_def getDay_def)
qed

theorem date_roundtrip_witness:
  "getYear (630822816000000000 + 5) = 2000 \<and> getMonth (630822816000000000 + 5) = 1 \<and> getDay (630822816000000000 + 5) = 1"
proof (rule date_roundtrip)
  show "dateToTicks 2000 1 1 = Inr 630822816000000000" by code_simp
qed simp_all

end
