(* ===== verification/FatFile.thy ===== *)
theory FatFile
  imports FatCluster DateTimes
begin

text \<open>
  A stream of the FAT file system (\<^verbatim>\<open>os/fs/fat/fatStream.h\<close>, class \<^verbatim>\<open>FatStream\<close>) and the
  operations on its directory entry in \<^verbatim>\<open>os/fs/fat/fatFile.cpp\<close>: attributes and the three
  times. A time is its number of ticks; \<^verbatim>\<open>DateTime\<close> failures are caught as the code does.
\<close>

record fat_stream =
  fst_root :: bool
  dirClus :: u32
  entOffset :: u32
  fstClus :: u32
  fst_size :: u32
  fcb :: "u8 list"
  fst_flags :: u32
  lastPosition :: int
  lastClus :: u32

abbreviation (input) Removed :: u32 where "Removed \<equiv> 1"
abbreviation (input) Updated :: u32 where "Updated \<equiv> 2"

definition fat_epoch :: int where
  "fat_epoch = (case DateTime_of_date 1980 1 1 of Inr t \<Rightarrow> t | Inl e \<Rightarrow> 0)"

definition fat_wane :: int where
  "fat_wane = (case DateTime_of_time 2107 12 31 23 59 59 99 0 of Inr t \<Rightarrow> t | Inl e \<Rightarrow> 0)"

definition clampTime :: "int \<Rightarrow> int" where
  "clampTime d = (if d < fat_epoch then fat_epoch else if fat_wane < d then fat_wane else d)"

definition packDate :: "int \<Rightarrow> u16" where
  "packDate d = word_of_int (push_bit 9 (getYear d - 1980) OR push_bit 5 (getMonth d) OR getDay d)"

definition packTime :: "int \<Rightarrow> u16" where
  "packTime d = word_of_int (push_bit 11 (getHour d) OR push_bit 5 (getMinute d) OR getSecond d div 2)"

definition setCreationDate :: "fat_stream \<Rightarrow> int \<Rightarrow> fat_stream" where
  "setCreationDate st d =
    (let d = clampTime d;
         tenth = word_of_int (getSecond d mod 2 * 100 + getMillisecond d div 10) :: u16;
         f = le_xword (fcb st) DIR_CrtDate (ucast (packDate d));
         f = le_xword f DIR_CrtTime (ucast (packTime d));
         f = le_xbyte f DIR_CrtTimeTenth (ucast tenth)
     in st\<lparr>fcb := f, fst_flags := fst_flags st OR Updated\<rparr>)"

definition setLastAccessDate :: "fat_stream \<Rightarrow> int \<Rightarrow> fat_stream" where
  "setLastAccessDate st d =
    (let d = clampTime d
     in st\<lparr>fcb := le_xword (fcb st) DIR_LstAccDate (ucast (packDate d)), fst_flags := fst_flags st OR Updated\<rparr>)"

definition setLastWriteDate :: "fat_stream \<Rightarrow> int \<Rightarrow> fat_stream" where
  "setLastWriteDate st d =
    (let d = clampTime d;
         f = le_xword (fcb st) DIR_WrtDate (ucast (packDate d));
         f = le_xword f DIR_WrtTime (ucast (packTime d))
     in st\<lparr>fcb := f, fst_flags := fst_flags st OR Updated\<rparr>)"

definition setAttributes :: "fat_stream \<Rightarrow> u32 \<Rightarrow> fat_stream" where
  "setAttributes st attributes =
    (let mask = ATTR_READ_ONLY OR ATTR_HIDDEN OR ATTR_SYSTEM OR ATTR_ARCHIVE;
         attributes = attributes AND ucast mask
     in st\<lparr>fcb := (fcb st)[DIR_Attr := (fcb st ! DIR_Attr AND NOT mask) OR ucast attributes]\<rparr>)"

definition getAttributes :: "fat_stream \<Rightarrow> u32" where
  "getAttributes st = ucast (fcb st ! DIR_Attr
     AND (ATTR_READ_ONLY OR ATTR_HIDDEN OR ATTR_SYSTEM OR ATTR_DIRECTORY OR ATTR_ARCHIVE))"

definition setCreationTime :: "fat_stream \<Rightarrow> int \<Rightarrow> fat_stream" where
  "setCreationTime st time = (case DateTime_of_ticks time of Inl e \<Rightarrow> st | Inr d \<Rightarrow> setCreationDate st d)"

definition setLastAccessTime :: "fat_stream \<Rightarrow> int \<Rightarrow> fat_stream" where
  "setLastAccessTime st time = (case DateTime_of_ticks time of Inl e \<Rightarrow> st | Inr d \<Rightarrow> setLastAccessDate st d)"

definition setLastWriteTime :: "fat_stream \<Rightarrow> int \<Rightarrow> fat_stream" where
  "setLastWriteTime st time = (case DateTime_of_ticks time of Inl e \<Rightarrow> st | Inr d \<Rightarrow> setLastWriteDate st d)"

definition getCreationTime :: "fat_stream \<Rightarrow> int" where
  "getCreationTime st =
    (let date = uint (le_word (fcb st) DIR_CrtDate);
         time = uint (le_word (fcb st) DIR_CrtTime);
         tenth = uint (le_byte (fcb st) DIR_CrtTimeTenth)
     in case DateTime_of_time (1980 + drop_bit 9 date) (drop_bit 5 date AND 0x0f) (date AND 0x1f)
               (drop_bit 11 time) (drop_bit 5 time AND 0x3f) ((time AND 0x1f) * 2 + tenth div 100)
               (tenth mod 100 * 10) 0
        of Inl e \<Rightarrow> fat_epoch | Inr d \<Rightarrow> d)"

definition getLastAccessTime :: "fat_stream \<Rightarrow> int" where
  "getLastAccessTime st =
    (let date = uint (le_word (fcb st) DIR_LstAccDate)
     in case DateTime_of_date (1980 + drop_bit 9 date) (drop_bit 5 date AND 0x0f) (date AND 0x1f)
        of Inl e \<Rightarrow> fat_epoch | Inr d \<Rightarrow> d)"

definition getLastWriteTime :: "fat_stream \<Rightarrow> int" where
  "getLastWriteTime st =
    (let date = uint (le_word (fcb st) DIR_WrtDate);
         time = uint (le_word (fcb st) DIR_WrtTime)
     in case DateTime_of_time (1980 + drop_bit 9 date) (drop_bit 5 date AND 0x0f) (date AND 0x1f)
               (drop_bit 11 time) (drop_bit 5 time AND 0x3f) ((time AND 0x1f) * 2) 0 0
        of Inl e \<Rightarrow> fat_epoch | Inr d \<Rightarrow> d)"

definition st_canRead :: "fat_stream \<Rightarrow> bool" where "st_canRead st = fcb_canRead (fcb st)"
definition st_canWrite :: "fat_stream \<Rightarrow> bool" where "st_canWrite st = fcb_canWrite (fcb st)"
definition st_isDirectory :: "fat_stream \<Rightarrow> bool" where "st_isDirectory st = fcb_isDirectory (fcb st)"
definition st_isFile :: "fat_stream \<Rightarrow> bool" where "st_isFile st = fcb_isFile (fcb st)"
definition st_isHidden :: "fat_stream \<Rightarrow> bool" where "st_isHidden st = fcb_isHidden (fcb st)"

text \<open>What a caller of \<^verbatim>\<open>getStream\<close> is given: the cached stream, for reading only when the
  entry is read only.\<close>

datatype stream_handle = CacheStream | CacheInputStream

definition getStream :: "fat_stream \<Rightarrow> stream_handle result" where
  "getStream st =
    (if st_isDirectory st then Inl (Thrown EPERM)
     else if st_canWrite st then Inr CacheStream else Inr CacheInputStream)"

definition getPageable :: "fat_stream \<Rightarrow> unit result" where
  "getPageable st = (if st_isDirectory st then Inl (Thrown EPERM) else Inr ())"

subsection \<open>Packed dates and times\<close>

lemma pack_bits:
  fixes a b c :: int
  assumes "0 \<le> b" "b < 2 ^ (n - k)" "0 \<le> c" "c < 2 ^ k" "k \<le> n"
  shows "push_bit n a OR push_bit k b OR c = a * 2 ^ n + b * 2 ^ k + c"
proof -
  have c: "c = take_bit k c" and b: "b = take_bit (n - k) b"
    using assms by (simp_all add: take_bit_int_eq_self)
  have "push_bit k b OR c = push_bit k b + c"
    by (subst c, subst (2) c, rule disjunctive_add_eq_or [symmetric])
      (use assms(5) in \<open>auto simp: bit_eq_iff bit_simps\<close>)
  moreover have "push_bit n a OR (push_bit k b OR c) = push_bit n a + (push_bit k b OR c)"
    by (subst c, subst (2) c, subst b, subst (2) b, rule disjunctive_add_eq_or [symmetric])
      (use assms(5) in \<open>auto simp: bit_eq_iff bit_simps\<close>)
  ultimately show ?thesis by (simp add: or.assoc push_bit_eq_mult)
qed

lemma unpack_bits:
  fixes a b c :: int
  assumes "0 \<le> b" "b < 2 ^ (n - k)" "0 \<le> c" "c < 2 ^ k" "k \<le> n"
  defines "x \<equiv> a * 2 ^ n + b * 2 ^ k + c"
  shows "drop_bit n x = a" "take_bit (n - k) (drop_bit k x) = b" "take_bit k x = c"
proof -
  have n: "(2 :: int) ^ n = 2 ^ (n - k) * 2 ^ k" using assms(5) by (simp flip: power_add)
  have x: "x = (a * 2 ^ (n - k) + b) * 2 ^ k + c" by (simp add: x_def n algebra_simps)
  have q: "x div 2 ^ k = a * 2 ^ (n - k) + b" unfolding x using assms(3,4) by simp
  show "take_bit k x = c" unfolding x using assms(3,4) by (simp add: take_bit_eq_mod)
  show "take_bit (n - k) (drop_bit k x) = b" unfolding drop_bit_eq_div q using assms(1,2) by (simp add: take_bit_eq_mod)
  have "x div 2 ^ n = x div 2 ^ k div 2 ^ (n - k)" unfolding n by (simp add: zdiv_zmult2_eq mult.commute)
  then show "drop_bit n x = a" unfolding drop_bit_eq_div q using assms(1,2) by simp
qed

lemma int_masks:
  "(x :: int) AND 0x0f = take_bit 4 x" "x AND 0x1f = take_bit 5 x" "x AND 0x3f = take_bit 6 x"
  by (simp_all add: take_bit_eq_mask mask_eq_exp_minus_1)

lemma mod_split: "n = b * c \<Longrightarrow> 0 \<le> c \<Longrightarrow> d mod n = d div b mod c * b + d mod (b :: int)"
  using zmod_zmult2_eq [of c d b] by (simp only: mult.commute add.commute)

lemma time_split:
  fixes d :: int
  shows "d = d div TICKS_PER_DAY * TICKS_PER_DAY + getHour d * TICKS_PER_HOUR + getMinute d * TICKS_PER_MINUTE
    + getSecond d * TICKS_PER_SECOND + getMillisecond d * TICKS_PER_MILLISECOND + d mod TICKS_PER_MILLISECOND"
proof -
  have "d mod TICKS_PER_DAY = getHour d * TICKS_PER_HOUR + d mod TICKS_PER_HOUR"
    "d mod TICKS_PER_HOUR = getMinute d * TICKS_PER_MINUTE + d mod TICKS_PER_MINUTE"
    "d mod TICKS_PER_MINUTE = getSecond d * TICKS_PER_SECOND + d mod TICKS_PER_SECOND"
    "d mod TICKS_PER_SECOND = getMillisecond d * TICKS_PER_MILLISECOND + d mod TICKS_PER_MILLISECOND"
    unfolding getHour_def getMinute_def getSecond_def getMillisecond_def
    by (rule mod_split; simp)+
  then show ?thesis using div_mult_mod_eq [of d TICKS_PER_DAY] by linarith
qed

lemma time_ranges:
  "0 \<le> getHour d" "getHour d < 24" "0 \<le> getMinute d" "getMinute d < 60" "0 \<le> getSecond d" "getSecond d < 60"
  "0 \<le> getMillisecond d" "getMillisecond d < 1000"
  by (simp_all add: getHour_def getMinute_def getSecond_def getMillisecond_def)

lemma fat_epoch_value: "fat_epoch = 722814 * TICKS_PER_DAY"
  by code_simp

lemma fat_wane_value: "fat_wane = 769565 * TICKS_PER_DAY - 9010000"
  by code_simp

lemma year_starts: "year_start 1980 = 722814" "year_start 2108 = 769565"
  by (simp_all add: year_start_def)

text \<open>A time within the range of the file system, taken apart.\<close>

lemma fat_date:
  assumes "fat_epoch \<le> d" "d \<le> fat_wane"
  shows "dateToTicks (getYear d) (getMonth d) (getDay d) = Inr (d div TICKS_PER_DAY * TICKS_PER_DAY)"
    "1980 \<le> getYear d" "getYear d < 2108" "1 \<le> getMonth d" "getMonth d \<le> 12" "1 \<le> getDay d" "getDay d < 32"
proof -
  have nn: "0 \<le> d" using assms(1) by (simp add: fat_epoch_value)
  obtain y m dd where g: "getDates d = (y, m, dd, day_number y m dd - year_start y + 1)"
    "day_number y m dd = d div TICKS_PER_DAY" "1 \<le> y" "1 \<le> m" "m \<le> 12" "1 \<le> dd"
    "dd \<le> monthDays y ! nat m - monthDays y ! nat (m - 1)"
    using getDates_correct [OF nn] by blast
  have e: "getYear d = y" "getMonth d = m" "getDay d = dd" using g(1) by (simp_all add: getYear_def getMonth_def getDay_def)
  have lo: "722814 \<le> day_number y m dd" and hi: "day_number y m dd < 769565"
    using assms unfolding g(2) by (simp_all add: fat_epoch_value fat_wane_value)
  have ys: "year_start y \<le> day_number y m dd" "day_number y m dd < year_start (y + 1)"
    using day_of_year_bounds [OF g(3-7)] by auto
  show y1: "1980 \<le> getYear d"
    unfolding e using year_start_mono [of "y + 1" 1980] ys(2) lo year_starts(1) g(3) by linarith
  show y2: "getYear d < 2108"
    unfolding e using year_start_mono [of 2108 y] ys(1) hi year_starts(2) by linarith
  have "valid_date y m dd" using g y1 y2 e by (simp add: valid_date_def)
  then show "dateToTicks (getYear d) (getMonth d) (getDay d) = Inr (d div TICKS_PER_DAY * TICKS_PER_DAY)"
    unfolding e dateToTicks_valid by (simp add: g(2))
  show "1 \<le> getMonth d" "getMonth d \<le> 12" "1 \<le> getDay d" using g e by simp_all
  have "list_all (\<lambda>m. yearDays ! Suc m - yearDays ! m \<le> 31 \<and> leapYearDays ! Suc m - leapYearDays ! m \<le> 31) [0..<12]"
    by (simp add: upt_rec yearDays_def leapYearDays_def)
  then have "monthDays y ! Suc (nat (m - 1)) - monthDays y ! nat (m - 1) \<le> 31"
    using g(4,5) by (auto simp: list_all_iff monthDays_def)
  moreover have "Suc (nat (m - 1)) = nat m" using g(4) by simp
  ultimately show "getDay d < 32" unfolding e using g(7) by simp
qed

lemma word_of_two_bytes:
  "ucast (ucast v :: u8) OR push_bit 8 (ucast (ucast (drop_bit 8 v) :: u8)) = take_bit 16 (v :: u32)"
  by (rule bit_word_eqI) (auto simp: bit_simps)

lemma take_bit_ucast16 [simp]: "take_bit 16 (ucast (w :: u16) :: u32) = ucast w"
  by (rule take_bit_word_small) (simp add: unat_ucast_up)

lemma uint_ucast_up: "LENGTH('a) \<le> LENGTH('b) \<Longrightarrow> uint (ucast (w :: 'a::len word) :: 'b::len word) = uint w"
  by (simp only: uint_nat unat_ucast_up)

lemma le_word_stored:
  "Suc i < length f \<Longrightarrow> j = i \<or> Suc j < i \<or> Suc i < j \<Longrightarrow>
   le_word (le_xword f i (ucast (w :: u16))) j = (if j = i then ucast w else le_word f j)"
  "i < length f \<Longrightarrow> i < j \<or> Suc j < i \<Longrightarrow> le_word (le_xbyte f i v) j = le_word f j"
  "i < length f \<Longrightarrow> le_byte (le_xbyte f i v) i = take_bit 8 v"
  by (auto simp: le_word_def le_xword_def le_xbyte_def le_byte_def word_of_two_bytes nth_list_update)
    (auto simp: bit_simps intro!: bit_word_eqI)

lemma length_stored [simp]: "length (le_xword f i v) = length f" "length (le_xbyte f i v) = length f"
  by (simp_all add: le_xword_def le_xbyte_def)

lemma uint_packDate:
  assumes "fat_epoch \<le> d" "d \<le> fat_wane"
  defines "x \<equiv> (getYear d - 1980) * 2 ^ 9 + getMonth d * 2 ^ 5 + getDay d"
  shows "uint (packDate d) = x" "drop_bit 9 x = getYear d - 1980" "drop_bit 5 x AND 0x0f = getMonth d"
    "x AND 0x1f = getDay d"
proof -
  note fd = fat_date [OF assms(1,2)]
  have "push_bit 9 (getYear d - 1980) OR push_bit 5 (getMonth d) OR getDay d = x"
    unfolding x_def using fd by (intro pack_bits) simp_all
  moreover have "0 \<le> x" "x < 2 ^ 16" using fd by (simp_all add: x_def)
  ultimately show "uint (packDate d) = x" by (simp add: packDate_def uint_word_of_int)
  have "drop_bit 9 x = getYear d - 1980 \<and> take_bit (9 - 5) (drop_bit 5 x) = getMonth d \<and> take_bit 5 x = getDay d"
    unfolding x_def using fd by (intro conjI unpack_bits) simp_all
  then show "drop_bit 9 x = getYear d - 1980" "drop_bit 5 x AND 0x0f = getMonth d" "x AND 0x1f = getDay d"
    by (simp_all add: int_masks)
qed

lemma uint_packTime:
  fixes d :: int
  defines "x \<equiv> getHour d * 2 ^ 11 + getMinute d * 2 ^ 5 + getSecond d div 2"
  shows "uint (packTime d) = x" "drop_bit 11 x = getHour d" "drop_bit 5 x AND 0x3f = getMinute d"
    "x AND 0x1f = getSecond d div 2"
proof -
  note tr = time_ranges [of d]
  have "push_bit 11 (getHour d) OR push_bit 5 (getMinute d) OR getSecond d div 2 = x"
    unfolding x_def using tr by (intro pack_bits) simp_all
  moreover have "0 \<le> x" "x < 2 ^ 16" using tr by (simp_all add: x_def)
  ultimately show "uint (packTime d) = x" by (simp add: packTime_def uint_word_of_int)
  have "drop_bit 11 x = getHour d \<and> take_bit (11 - 5) (drop_bit 5 x) = getMinute d \<and> take_bit 5 x = getSecond d div 2"
    unfolding x_def using tr by (intro conjI unpack_bits) simp_all
  then show "drop_bit 11 x = getHour d" "drop_bit 5 x AND 0x3f = getMinute d" "x AND 0x1f = getSecond d div 2"
    by (simp_all add: int_masks)
qed

lemma stored_date:
  assumes "fat_epoch \<le> d" "d \<le> fat_wane"
  shows "DateTime_of_date (1980 + drop_bit 9 (uint (packDate d))) (drop_bit 5 (uint (packDate d)) AND 0x0f)
      (uint (packDate d) AND 0x1f) = Inr (d div TICKS_PER_DAY * TICKS_PER_DAY)"
  unfolding uint_packDate(1) [OF assms] uint_packDate(2-4) [OF assms] DateTime_of_date_def
  using fat_date(1) [OF assms] by simp

lemma stored_time:
  assumes "fat_epoch \<le> d" "d \<le> fat_wane" "0 \<le> t" "t \<le> 1" "0 \<le> ms" "ms < 1000"
  shows "DateTime_of_time (1980 + drop_bit 9 (uint (packDate d))) (drop_bit 5 (uint (packDate d)) AND 0x0f)
      (uint (packDate d) AND 0x1f) (drop_bit 11 (uint (packTime d))) (drop_bit 5 (uint (packTime d)) AND 0x3f)
      ((uint (packTime d) AND 0x1f) * 2 + t) ms 0
    = Inr (d div TICKS_PER_DAY * TICKS_PER_DAY + getHour d * TICKS_PER_HOUR + getMinute d * TICKS_PER_MINUTE
        + (getSecond d div 2 * 2 + t) * TICKS_PER_SECOND + ms * TICKS_PER_MILLISECOND)"
proof -
  have "timeToTicks (getHour d) (getMinute d) (getSecond d div 2 * 2 + t)
      = Inr ((getHour d * 3600 + getMinute d * 60 + (getSecond d div 2 * 2 + t)) * TICKS_PER_SECOND)"
  proof -
    have "0 \<le> getSecond d div 2" "getSecond d div 2 \<le> 29" using time_ranges(5,6) [of d] by linarith+
    then have "0 \<le> getSecond d div 2 * 2 + t" "getSecond d div 2 * 2 + t < 60" using assms(3,4) by linarith+
    then show ?thesis using time_ranges [of d] by (simp add: timeToTicks_def)
  qed
  then show ?thesis
    unfolding uint_packDate(1) [OF assms(1,2)] uint_packDate(2-4) [OF assms(1,2)] uint_packTime(1)
      uint_packTime(2-4) DateTime_of_time_def
    using fat_date(1) [OF assms(1,2)] assms(5,6) by (simp add: algebra_simps)
qed

text \<open>C35: The times of a directory entry: a time from 1980 to 2107 that is stored with
  \<^verbatim>\<open>setCreationTime\<close>, \<^verbatim>\<open>setLastWriteTime\<close> or \<^verbatim>\<open>setLastAccessTime\<close> reads back rounded down to
  10 milliseconds, to two seconds and to the day, and the entry is marked as updated.\<close>

theorem entry_times_roundtrip:
  assumes "length (fcb st) = 32" "fat_epoch \<le> d" "d \<le> fat_wane"
  shows "getCreationTime (setCreationTime st d) = d - d mod (10 * TICKS_PER_MILLISECOND)
    \<and> getLastWriteTime (setLastWriteTime st d) = d - d mod (2 * TICKS_PER_SECOND)
    \<and> getLastAccessTime (setLastAccessTime st d) = d - d mod TICKS_PER_DAY
    \<and> fst_flags (setLastWriteTime st d) = fst_flags st OR Updated"
proof -
  have T: "DateTime_of_ticks d = Inr d" "clampTime d = d"
    using assms by (auto simp: DateTime_of_ticks_def clampTime_def fat_epoch_value fat_wane_value)
  note tr = time_ranges [of d] and split = time_split [of d]
  define x where "x = getSecond d mod 2 * 100 + getMillisecond d div 10"
  have x: "0 \<le> x" "x < 200" using tr by (simp_all add: x_def)
  have ten: "uint (take_bit 8 (ucast (word_of_int x :: u16) :: u32)) = x"
  proof -
    have "uint (word_of_int x :: u16) = x" using x by (simp add: uint_word_of_int)
    then have u: "uint (ucast (word_of_int x :: u16) :: u32) = x" by (simp add: uint_ucast_up)
    then have "unat (ucast (word_of_int x :: u16) :: u32) < 2 ^ 8" using x by (simp add: unat_eq_nat_uint nat_less_iff)
    then show ?thesis using u by (simp add: take_bit_word_small)
  qed
  have xd: "x div 100 = getSecond d mod 2" "x mod 100 = getMillisecond d div 10" using tr by (simp_all add: x_def)
  have lim: "0 \<le> getSecond d mod 2" "getSecond d mod 2 \<le> 1" "0 \<le> getMillisecond d div 10 * 10"
    "getMillisecond d div 10 * 10 < 1000" using tr by simp_all
  have sec: "getSecond d div 2 * 2 + getSecond d mod 2 = getSecond d" by simp
  have c1: "getCreationTime (setCreationTime st d) = d div TICKS_PER_DAY * TICKS_PER_DAY + getHour d * TICKS_PER_HOUR
      + getMinute d * TICKS_PER_MINUTE + (getSecond d div 2 * 2 + getSecond d mod 2) * TICKS_PER_SECOND
      + (getMillisecond d div 10 * 10) * TICKS_PER_MILLISECOND"
    using assms(1) stored_time [OF assms(2,3) lim]
    unfolding getCreationTime_def setCreationTime_def setCreationDate_def T sum.case Let_def x_def [symmetric]
    by (simp add: T le_word_stored uint_ucast_up ten xd)
  have "getMillisecond d mod 10 = d div TICKS_PER_MILLISECOND mod 10"
    by (simp add: getMillisecond_def mod_mod_cancel)
  then have c2: "d mod (10 * TICKS_PER_MILLISECOND) = getMillisecond d mod 10 * TICKS_PER_MILLISECOND + d mod TICKS_PER_MILLISECOND"
    using mod_split [of "10 * TICKS_PER_MILLISECOND" TICKS_PER_MILLISECOND 10 d] by simp
  have 1: "getCreationTime (setCreationTime st d) = d - d mod (10 * TICKS_PER_MILLISECOND)"
  proof -
    have "g = d - e" if "g = D + H + M + (s2 + s1) * 10000000 + m1 * 10000" "e = m0 * 10000 + r"
      "d = D + H + M + s * 10000000 + m * 10000 + r" "s2 + s1 = s" "m1 + m0 = m"
      for g d e D H M s s1 s2 m m0 m1 r :: int
      using that by (simp add: algebra_simps flip: that(4,5))
    from this [OF c1 c2 split sec div_mult_mod_eq [of "getMillisecond d" 10]] show ?thesis .
  qed
  have w1: "getLastWriteTime (setLastWriteTime st d) = d div TICKS_PER_DAY * TICKS_PER_DAY + getHour d * TICKS_PER_HOUR
      + getMinute d * TICKS_PER_MINUTE + (getSecond d div 2 * 2 + 0) * TICKS_PER_SECOND + 0 * TICKS_PER_MILLISECOND"
    using assms stored_time [OF assms(2,3), of 0 0]
    unfolding getLastWriteTime_def setLastWriteTime_def setLastWriteDate_def T sum.case Let_def
    by (simp add: T le_word_stored uint_ucast_up)
  have "getSecond d mod 2 = d div TICKS_PER_SECOND mod 2"
    by (simp add: getSecond_def mod_mod_cancel)
  then have w2: "d mod (2 * TICKS_PER_SECOND) = getSecond d mod 2 * TICKS_PER_SECOND + d mod TICKS_PER_SECOND"
    using mod_split [of "2 * TICKS_PER_SECOND" TICKS_PER_SECOND 2 d] by simp
  have w3: "d mod TICKS_PER_SECOND = getMillisecond d * TICKS_PER_MILLISECOND + d mod TICKS_PER_MILLISECOND"
    unfolding getMillisecond_def by (rule mod_split; simp)
  have 2: "getLastWriteTime (setLastWriteTime st d) = d - d mod (2 * TICKS_PER_SECOND)"
  proof -
    have "g = d - e" if "g = D + H + M + (s2 + 0) * 10000000 + 0 * 10000" "e = s1 * 10000000 + q"
      "q = m * 10000 + r" "d = D + H + M + s * 10000000 + m * 10000 + r" "s2 + s1 = s"
      for g d e D H M s s1 s2 m q r :: int
      using that by (simp add: algebra_simps flip: that(5))
    from this [OF w1 w2 w3 split sec] show ?thesis .
  qed
  have "getLastAccessTime (setLastAccessTime st d) = d div TICKS_PER_DAY * TICKS_PER_DAY"
    using assms stored_date [OF assms(2,3)]
    unfolding getLastAccessTime_def setLastAccessTime_def setLastAccessDate_def T sum.case Let_def
    by (simp add: T le_word_stored uint_ucast_up)
  then have 3: "getLastAccessTime (setLastAccessTime st d) = d - d mod TICKS_PER_DAY"
    using div_mult_mod_eq [of d TICKS_PER_DAY] by linarith
  have "fst_flags (setLastWriteTime st d) = fst_flags st OR Updated"
    by (simp add: setLastWriteTime_def setLastWriteDate_def T Let_def)
  then show ?thesis using 1 2 3 by blast
qed

definition ex_stream :: fat_stream where
  "ex_stream = \<lparr>fst_root = False, dirClus = 0, entOffset = 64, fstClus = 2, fst_size = 600,
     fcb = (replicate 32 0)[11 := ATTR_ARCHIVE, 26 := 2, 28 := 88, 29 := 2], fst_flags = 0, lastPosition = 0, lastClus = 2\<rparr>"

theorem entry_times_roundtrip_witness:
  "getCreationTime (setCreationTime ex_stream 630822816123456789) = 630822816123400000
    \<and> getLastWriteTime (setLastWriteTime ex_stream 630822816123456789) = 630822816120000000"
  using entry_times_roundtrip [of ex_stream 630822816123456789]
  by (simp add: fat_epoch_value fat_wane_value) (simp add: ex_stream_def)

text \<open>\<^verbatim>\<open>setAttributes\<close> sets exactly the attributes a caller may set: read only, hidden, system
  and archive read back as given, the directory and volume bits of the entry stay.\<close>

theorem attributes_set:
  assumes "length (fcb st) = 32"
  shows "getAttributes (setAttributes st a) = (a AND 0x27) OR (getAttributes st AND 0x10)
    \<and> st_isDirectory (setAttributes st a) = st_isDirectory st
    \<and> isVolumeID (fcb (setAttributes st a)) = isVolumeID (fcb st)"
proof -
  let ?b = "fcb st ! DIR_Attr"
  have m: "- 40 = (0xd8 :: u8)" by simp
  have f: "fcb (setAttributes st a) ! DIR_Attr = (?b AND 0xd8) OR (ucast a AND 0x27)"
    using assms by (simp add: setAttributes_def Let_def unsigned_and_eq m)
  have 1: "((?b AND 0xd8) OR (ucast a AND 0x27)) AND 0x37 = (ucast a AND 0x27) OR (?b AND 0x10)"
    by (simp add: bit.conj_disj_distrib2 and.assoc or.commute)
  have 2: "((?b AND 0xd8) OR (ucast a AND 0x27)) AND 0x10 = ?b AND 0x10"
    by (simp add: bit.conj_disj_distrib2 and.assoc)
  have 3: "((?b AND 0xd8) OR (ucast a AND 0x27)) AND 0x08 = ?b AND 0x08"
    by (simp add: bit.conj_disj_distrib2 and.assoc)
  have 4: "ucast (((ucast a :: u8) AND 0x27) OR (?b AND 0x10)) = (a AND 0x27) OR (ucast (?b AND 0x37) AND 0x10 :: u32)"
  proof -
    have "(ucast (ucast a :: u8) :: u32) = a AND mask 8" by (rule bit_word_eqI) (auto simp: bit_simps)
    then have "(ucast (ucast a :: u8) :: u32) = a AND 0xff" by (simp add: mask_eq_exp_minus_1)
    then show ?thesis by (simp add: unsigned_or_eq unsigned_and_eq and.assoc)
  qed
  show ?thesis
    by (simp add: getAttributes_def st_isDirectory_def fcb_isDirectory_def isVolumeID_def f 1 2 3 4)
qed

theorem attributes_set_witness:
  "getAttributes (setAttributes ex_stream 0x13) = 0x03 \<and> st_isDirectory (setAttributes ex_stream 0x13) = False"
  using attributes_set [of ex_stream "0x13"]
  by (simp add: ex_stream_def getAttributes_def st_isDirectory_def fcb_isDirectory_def)

end
