(* ===== verification/FatStreams.thy ===== *)
theory FatStreams
  imports FatFile
begin

text \<open>
  The contents of a FAT stream (\<^verbatim>\<open>os/fs/fat/fatStream.cpp\<close>): the walk along the cluster chain
  with its cached position, reading, writing, resizing and flushing. The stream is threaded
  through as a record; the entry that \<^verbatim>\<open>flush\<close> writes into the parent directory is an output,
  a pair of its offset and its 32 bytes. The clock is the parameter \<open>now\<close>.
\<close>

subsection \<open>Operations\<close>

text \<open>\<^verbatim>\<open>position & ~(bytsPerClus - 1)\<close> on a 64 bit position.\<close>

definition clusterAlign :: "fatfs \<Rightarrow> int \<Rightarrow> int" where
  "clusterAlign fs position = position AND uint (NOT (bytsPerClus fs - 1))"

fun clus_walk :: "fatfs \<Rightarrow> nat \<Rightarrow> u32 \<Rightarrow> u32" where
  "clus_walk fs 0 clus = clus"
| "clus_walk fs (Suc i) clus =
     (let clus = clusEntryVal fs clus
      in if isEof fs clus then clus else clus_walk fs i clus)"

definition getClusNum :: "fatfs \<Rightarrow> fat_stream \<Rightarrow> int \<Rightarrow> (fat_stream \<times> u32) result" where
  "getClusNum fs st position =
    ensuring (0 \<le> position)
     (if fstClus st = 0 then ensuring (\<not> isFat32 fs) (Inr (st, fstClus st))
      else ensuring (position < 0x100000000)
       (let position = clusterAlign fs position;
            bpc = uint (bytsPerClus fs);
            (clus, i) =
              (if position < lastPosition st \<or> lastClus st = 0 \<or> isEof fs (lastClus st)
               then (fstClus st, word_of_int (position div bpc) :: u32)
               else (lastClus st, word_of_int ((position - lastPosition st) div bpc)));
            clus = clus_walk fs (unat i) clus
        in Inr (st\<lparr>lastPosition := position, lastClus := clus\<rparr>, clus)))"

definition st_isRemoved :: "fat_stream \<Rightarrow> bool" where
  "st_isRemoved st = (fst_flags st AND Removed \<noteq> 0)"

definition st_flush :: "fat_stream \<Rightarrow> fat_stream \<times> (u32 \<times> u8 list) list" where
  "st_flush st =
    (if fst_flags st AND Updated \<noteq> 0
     then let st = st\<lparr>fst_flags := fst_flags st AND NOT Updated\<rparr>
          in if \<not> st_isRemoved st
             then let st = st\<lparr>fcb := (fcb st)[DIR_Attr := fcb st ! DIR_Attr OR ATTR_ARCHIVE]\<rparr>
                  in (st, if fst_root st then [] else [(entOffset st, fcb st)])
             else (st, [])
     else (st, []))"

text \<open>The blocks of bytes read one after the other end up in the caller's buffer; the last one
  may be longer than what was asked for, up to a whole sector.\<close>

partial_function (option) read_loop ::
    "fatfs \<Rightarrow> fat_stream \<Rightarrow> int \<Rightarrow> int \<Rightarrow> int \<Rightarrow> u8 list \<Rightarrow> (fat_stream \<times> u8 list \<times> int) run" where
  "read_loop fs st count len offset dst =
    (if len < count
     then obind (Some (getClusNum fs st offset)) (\<lambda>(st, clus).
          obind (readCluster fs (count - len) clus
                  (if clus \<noteq> 0 then offset mod uint (bytsPerClus fs) else offset)) (\<lambda>bs.
          if int (length bs) \<le> 0 then ok (st, dst, len)
          else read_loop fs st count (len + int (length bs)) (offset + int (length bs)) (dst @ bs)))
     else ok (st, dst, len))"

definition st_read :: "fatfs \<Rightarrow> fat_stream \<Rightarrow> int \<Rightarrow> int \<Rightarrow> int \<Rightarrow> (fat_stream \<times> u8 list \<times> int) run" where
  "st_read fs st count offset now =
    (let sz = uint (fst_size st)
     in if sz < offset \<or> count < 0 then Some (Inl (Thrown EINVAL))
        else let count = (if sz - offset < count then sz - offset else count)
             in if count = 0 then ok (st, [], 0)
                else obind (read_loop fs st count 0 offset []) (\<lambda>(st, dst, len).
                  let len = (if count < len then count else len)
                  in ok (if 0 < len \<and> \<not> st_isDirectory st then setLastAccessDate st now else st, dst, len)))"

partial_function (option) write_loop ::
    "fatfs \<Rightarrow> fat_stream \<Rightarrow> store \<Rightarrow> int \<Rightarrow> int \<Rightarrow> int \<Rightarrow> (fatfs \<times> fat_stream \<times> int) run" where
  "write_loop fs st src count len offset =
    (if len < count
     then obind (Some (getClusNum fs st offset)) (\<lambda>(st, clus).
          obind (writeCluster fs (\<lambda>a. src (nat len + a)) (count - len) clus
                  (if clus \<noteq> 0 then offset mod uint (bytsPerClus fs) else offset)) (\<lambda>(fs, n).
          if n \<le> 0 then ok (fs, st, len)
          else write_loop fs st src count (len + n) (offset + n)))
     else ok (fs, st, len))"

declare read_loop.simps [code] write_loop.simps [code]

definition st_write ::
    "fatfs \<Rightarrow> fat_stream \<Rightarrow> store \<Rightarrow> int \<Rightarrow> int \<Rightarrow> int \<Rightarrow> (fatfs \<times> fat_stream \<times> int) run" where
  "st_write fs st src count offset now =
    (let sz = uint (fst_size st)
     in if sz < offset \<or> count < 0 then Some (Inl (Thrown EINVAL))
        else let count = (if sz - offset < count then sz - offset else count)
             in if count = 0 then ok (fs, st, 0)
                else obind (write_loop fs st src count 0 offset) (\<lambda>(fs, st, len).
                  let len = (if count < len then count else len)
                  in ok (fs, if 0 < len \<and> \<not> st_isDirectory st
                             then setLastAccessDate (setLastWriteDate st now) now else st, len)))"

text \<open>The number of clusters to add when the size grows; the old size is rounded in 32 bits.\<close>

definition grow_clusters :: "fatfs \<Rightarrow> fat_stream \<Rightarrow> int \<Rightarrow> u32" where
  "grow_clusters fs st newSize =
    word_of_int ((newSize + uint (bytsPerClus fs) - 1) div uint (bytsPerClus fs))
      - (fst_size st + bytsPerClus fs - 1) div bytsPerClus fs"

definition setSize_grow ::
    "fatfs \<Rightarrow> fat_stream \<Rightarrow> int \<Rightarrow> int \<Rightarrow> (fatfs \<times> fat_stream \<times> (u32 \<times> u8 list) list) run" where
  "setSize_grow fs st newSize now =
    (let n = grow_clusters fs st newSize
     in obind
         (if 0 < n
          then obind (allocCluster fs n (st_isDirectory st)) (\<lambda>(fs, clus).
               if isEof fs clus then Some (Inl (Thrown ENOSPC))
               else if fst_size st \<noteq> 0
               then obind (Some (getClusNum fs st (uint (fst_size st - 1)))) (\<lambda>(st, last).
                    if isEof fs last then Some (Inl AssertFailed)
                    else obind (Some (setClusEntryVal fs last clus)) (\<lambda>fs. ok (fs, st)))
               else if fstClus st \<noteq> 0 then Some (Inl AssertFailed)
               else let f = le_xword (fcb st) DIR_FstClusLO clus;
                        f = le_xword f DIR_FstClusHI (drop_bit 16 clus)
                    in ok (fs, st\<lparr>fstClus := clus, fcb := f\<rparr>))
          else ok (fs, st))
         (\<lambda>(fs, st).
           let st = st\<lparr>fcb := le_xdword (fcb st) DIR_FileSize (word_of_int newSize)\<rparr>;
               st = setLastAccessDate (setLastWriteDate st now) now;
               (st, ents) = st_flush st
           in ok (fs, st, ents)))"

definition setSize_shrink ::
    "fatfs \<Rightarrow> fat_stream \<Rightarrow> int \<Rightarrow> int \<Rightarrow> (fatfs \<times> fat_stream \<times> (u32 \<times> u8 list) list) run" where
  "setSize_shrink fs st newSize now =
    (let st = st\<lparr>fcb := le_xdword (fcb st) DIR_FileSize (word_of_int newSize)\<rparr>;
         st = setLastAccessDate (setLastWriteDate st now) now
     in obind
         (if newSize = 0
          then let clus = fstClus st;
                   f = le_xword (fcb st) DIR_FstClusLO 0;
                   f = le_xword f DIR_FstClusHI 0;
                   (st, ents) = st_flush (st\<lparr>fstClus := 0, fcb := f\<rparr>)
               in obind (freeCluster fs clus) (\<lambda>fs. ok (fs, st, ents))
          else let (st, ents) = st_flush st
               in obind (Some (getClusNum fs st (newSize - 1))) (\<lambda>(st, clus).
                  let next = clusEntryVal fs clus
                  in obind (Some (setClusEntryVal fs clus 0x0fffffff)) (\<lambda>fs.
                     obind (freeCluster fs next) (\<lambda>fs. ok (fs, st, ents)))))
         (\<lambda>(fs, st, ents). ok (fs, st\<lparr>lastPosition := 0, lastClus := fstClus st\<rparr>, ents)))"

definition st_setSize ::
    "fatfs \<Rightarrow> fat_stream \<Rightarrow> int \<Rightarrow> int \<Rightarrow> (fatfs \<times> fat_stream \<times> (u32 \<times> u8 list) list) run" where
  "st_setSize fs st newSize now =
    (if newSize < 0 \<or> 0xffffffff < newSize then Some (Inl (Thrown EINVAL))
     else let newSize' = (if st_isDirectory st then clusterAlign fs (newSize + uint (bytsPerClus fs) - 1) else newSize)
          in if st_isDirectory st \<and> (int DIR_LIMIT < newSize' \<or> \<not> isFat32 fs \<and> fst_root st)
             then Some (Inl (Thrown EINVAL))
             else if uint (fst_size st) = newSize' then ok (fs, st, [])
             else obind
                   (if uint (fst_size st) < newSize' then setSize_grow fs st newSize' now
                    else setSize_shrink fs st newSize' now)
                   (\<lambda>(fs, st, ents). ok (fs, st\<lparr>fst_size := word_of_int newSize'\<rparr>, ents)))"

definition nameDot :: "u8 list" where
  "nameDot = 0x2e # replicate 10 0x20"

definition nameDotdot :: "u8 list" where
  "nameDotdot = 0x2e # 0x2e # replicate 9 0x20"

definition newFatStream ::
    "fatfs \<Rightarrow> fat_stream option \<Rightarrow> u32 \<Rightarrow> u8 list \<Rightarrow> fat_stream run" where
  "newFatStream fs parent offset f =
    (let clus = le_word f DIR_FstClusLO OR push_bit 16 (le_word f DIR_FstClusHI)
     in if take 11 f = nameDot \<or> take 11 f = nameDotdot then Some (Inl AssertFailed)
        else obind (if \<not> fcb_isDirectory f then ok (le_dword f DIR_FileSize)
               else map_option Inr (calcSize fs clus)) (\<lambda>sz.
        ok \<lparr>fst_root = (parent = None), dirClus = (case parent of None \<Rightarrow> 0 | Some p \<Rightarrow> fstClus p),
            entOffset = offset, fstClus = clus, fst_size = sz, fcb = f, fst_flags = 0,
            lastPosition = 0, lastClus = clus\<rparr>))"

subsection \<open>Following the chain\<close>

lemma bpc_power: "vol_ok fs \<Longrightarrow> \<exists>k < 24. fat_bpc fs = 2 ^ k"
  by (auto simp: vol_ok_def vol_geo_def)

lemma uint_bpc: "uint (bytsPerClus fs) = int (fat_bpc fs)"
  by (simp add: fat_bpc_def)

lemma bpc_pos: "vol_ok fs \<Longrightarrow> 0 < fat_bpc fs"
  using bpc_bound(2,4) by fastforce

lemma clusterAlign_int:
  assumes "vol_ok fs" "0 \<le> x"
  shows "clusterAlign fs x = x mod 2 ^ 32 div int (fat_bpc fs) * int (fat_bpc fs)"
proof -
  obtain k where k: "k < 24" "fat_bpc fs = 2 ^ k" using bpc_power [OF assms(1)] by blast
  have b: "bytsPerClus fs = 2 ^ k"
  proof -
    have "bytsPerClus fs = of_nat (fat_bpc fs)" by (simp add: fat_bpc_def)
    then show ?thesis by (simp add: k)
  qed
  have "x AND uint (NOT (2 ^ k - 1 :: u32)) = push_bit k (drop_bit k (take_bit 32 x))"
  proof (rule bit_eqI)
    fix n
    have m: "(2 ^ k - 1 :: u32) = mask k" by (simp add: mask_eq_exp_minus_1)
    show "bit (x AND uint (NOT (2 ^ k - 1 :: u32))) n = bit (push_bit k (drop_bit k (take_bit 32 x))) n"
      unfolding m by (auto simp: bit_simps)
  qed
  then show ?thesis by (simp add: clusterAlign_def b k push_bit_eq_mult drop_bit_eq_div take_bit_eq_mod)
qed

lemma clusterAlign_nat:
  assumes "vol_ok fs" "p < 2 ^ 32"
  shows "clusterAlign fs (int p) = int (p div fat_bpc fs * fat_bpc fs)"
  using clusterAlign_int [OF assms(1), of "int p"] assms(2) by (simp add: zdiv_int)

lemma clus_walk_chain:
  assumes "vol_ok fs" "cluster_chain fs cs" "q + i < length cs"
  shows "clus_walk fs i (cs ! q) = cs ! (q + i)"
  using assms(3)
proof (induction i arbitrary: q)
  case (Suc i)
  have "fat_map fs (cs ! q) = Some (cs ! Suc q)"
    using chain_nth [of "fat_map fs" cs q] assms(2) Suc.prems by (simp add: cluster_chain_def)
  then have "clusEntryVal fs (cs ! q) = cs ! Suc q" by (simp add: fat_map_Some)
  moreover have "\<not> isEof fs (cs ! Suc q)"
    using assms(2) Suc.prems by (simp add: cluster_chain_def list_all_length valid_cluster_def)
  ultimately show ?case using Suc.IH [of "Suc q"] Suc.prems by (simp add: Let_def)
qed simp

text \<open>The cached position of a stream whose clusters are \<open>cs\<close>.\<close>

definition cache_ok :: "fatfs \<Rightarrow> u32 list \<Rightarrow> fat_stream \<Rightarrow> bool" where
  "cache_ok fs cs st \<longleftrightarrow> lastClus st = 0 \<or> isEof fs (lastClus st)
     \<or> (\<exists>q < length cs. lastPosition st = int (q * fat_bpc fs) \<and> lastClus st = cs ! q)"

text \<open>A stream on its volume: its clusters are a chain and cover its size.\<close>

definition stream_ok :: "fatfs \<Rightarrow> u32 list \<Rightarrow> fat_stream \<Rightarrow> bool" where
  "stream_ok fs cs st \<longleftrightarrow> vol_ok fs \<and> cluster_chain fs cs \<and> fstClus st = first_of cs
     \<and> unat (fst_size st) \<le> length cs * fat_bpc fs \<and> cache_ok fs cs st \<and> length (fcb st) = 32"

lemma chain_hd_nz: "cluster_chain fs cs \<Longrightarrow> cs \<noteq> [] \<Longrightarrow> hd cs \<noteq> 0"
  by (cases cs) (auto simp: cluster_chain_def valid_cluster_def)

lemma getClusNum_ok:
  assumes "stream_ok fs cs st" "p div fat_bpc fs < length cs" "p < 2 ^ 32"
  obtains st' where "getClusNum fs st (int p) = Inr (st', cs ! (p div fat_bpc fs))"
    "st' = st\<lparr>lastPosition := lastPosition st', lastClus := lastClus st'\<rparr>" "cache_ok fs cs st'"
proof -
  let ?b = "fat_bpc fs" and ?q = "p div fat_bpc fs"
  have ok: "vol_ok fs" and ch: "cluster_chain fs cs" and ne: "cs \<noteq> []" and f: "fstClus st = hd cs"
    using assms(1,2) by (auto simp: stream_ok_def first_of_def)
  have b: "0 < ?b" by (rule bpc_pos [OF ok])
  have f0: "fstClus st \<noteq> 0" using chain_hd_nz [OF ch ne] f by simp
  let ?st = "st\<lparr>lastPosition := int (?q * ?b), lastClus := cs ! ?q\<rparr>"
  have al: "clusterAlign fs (int p) = int (?q * ?b)" by (rule clusterAlign_nat [OF ok assms(3)])
  have q32: "?q < 2 ^ 32" using assms(3) by (metis div_le_dividend le_less_trans)
  have "getClusNum fs st (int p) = Inr (?st, cs ! ?q)"
  proof (cases "int (?q * ?b) < lastPosition st \<or> lastClus st = 0 \<or> isEof fs (lastClus st)")
    case True
    have "unat (word_of_int (int (?q * ?b) div int ?b) :: u32) = ?q"
      using b q32 by (simp add: unat_of_nat_u32)
    moreover have "clus_walk fs ?q (hd cs) = cs ! ?q"
      using clus_walk_chain [OF ok ch, of 0 ?q] assms(2) ne by (simp add: hd_conv_nth)
    ultimately show ?thesis
      using True f0 f assms(3) unfolding getClusNum_def al uint_bpc Let_def by (simp del: of_nat_mult)
  next
    case False
    then obtain r where r: "r < length cs" "lastPosition st = int (r * ?b)" "lastClus st = cs ! r"
      using assms(1) by (auto simp: stream_ok_def cache_ok_def)
    then have rq: "r \<le> ?q" using False b by (simp del: of_nat_mult)
    have "int (?q * ?b) - int (r * ?b) = int (?q - r) * int ?b"
      using rq by (simp add: algebra_simps of_nat_diff)
    then have "unat (word_of_int ((int (?q * ?b) - int (r * ?b)) div int ?b) :: u32) = ?q - r"
      using b q32 by (simp add: unat_of_nat_u32)
    moreover have "clus_walk fs (?q - r) (cs ! r) = cs ! ?q"
      using clus_walk_chain [OF ok ch, of r "?q - r"] assms(2) rq by simp
    ultimately show ?thesis
      using False f0 r(2,3) rq assms(3) unfolding getClusNum_def al uint_bpc Let_def by (simp del: of_nat_mult)
  qed
  moreover have "cache_ok fs cs ?st" using assms(2) unfolding cache_ok_def by auto
  ultimately show ?thesis using that by simp
qed

text \<open>The rest of a chain, and positions in it.\<close>

lemma cluster_chain_drop:
  "cluster_chain fs cs \<Longrightarrow> cluster_chain fs (drop q cs)"
  by (auto simp: cluster_chain_def chain_drop list_all_iff dest: in_set_dropD)

lemma file_pos_drop:
  assumes "0 < fat_bpc fs" "q * fat_bpc fs + i < length cs * fat_bpc fs"
  shows "file_pos fs (drop q cs) i = file_pos fs cs (q * fat_bpc fs + i)"
proof -
  have "i div fat_bpc fs + q < length cs"
    using assms by (metis add.commute div_mult_self3 less_mult_imp_div_less not_less0)
  then show ?thesis using assms(1) by (simp add: file_pos_def add.commute)
qed

lemma file_pos_inj:
  assumes "vol_ok fs" "cluster_chain fs cs" "i < length cs * fat_bpc fs" "j < length cs * fat_bpc fs"
    and "file_pos fs cs i = file_pos fs cs j"
  shows "i = j"
proof -
  let ?b = "fat_bpc fs"
  have b: "0 < ?b" by (rule bpc_pos [OF assms(1)])
  have l: "i div ?b < length cs" "j div ?b < length cs" using assms(3,4) by (simp_all add: less_mult_imp_div_less)
  have v: "2 \<le> unat (cs ! (i div ?b))" "2 \<le> unat (cs ! (j div ?b))"
    using assms(2) l valid_cluster_nat [OF assms(1)] by (auto simp: cluster_chain_def list_all_length)
  have eq: "(unat (cs ! (i div ?b)) - 2) * ?b + i mod ?b = (unat (cs ! (j div ?b)) - 2) * ?b + j mod ?b"
    using assms(5) by (simp add: file_pos_def cluster_pos_def)
  have m: "i mod ?b = j mod ?b" using arg_cong [OF eq, of "\<lambda>x. x mod ?b"] by simp
  have "unat (cs ! (i div ?b)) - 2 = unat (cs ! (j div ?b)) - 2" using eq m b by simp
  then have "unat (cs ! (i div ?b)) = unat (cs ! (j div ?b))" using v by linarith
  then have "cs ! (i div ?b) = cs ! (j div ?b)" by (simp add: word_unat_eq_iff)
  then have "i div ?b = j div ?b" using assms(2) l by (simp add: cluster_chain_def nth_eq_iff_index_eq)
  then show ?thesis using m by (metis div_mult_mod_eq)
qed

lemma file_pos_outside:
  assumes "vol_ok fs"
  shows "\<not> in_fat fs (file_pos fs cs i)"
  using assms by (auto simp: vol_ok_def vol_geo_def in_fat_def file_pos_def cluster_pos_def)

subsection \<open>Reading\<close>

definition file_byte :: "fatfs \<Rightarrow> u32 list \<Rightarrow> nat \<Rightarrow> u8" where
  "file_byte fs cs i = fs_disk fs (file_pos fs cs i)"

text \<open>One round of the loops: the transfer at position \<open>off\<close> of the file.\<close>

lemma transfer_at:
  assumes ok: "stream_ok fs cs st" and off: "fat_bps fs dvd off" "0 < count" "int off + count \<le> int (length cs * fat_bpc fs)"
    and lim: "count < 2 ^ 31 - 2 ^ 25" "off < 2 ^ 32"
  shows "off div fat_bpc fs < length cs"
    "transfer_ok fs (drop (off div fat_bpc fs) cs) (off mod fat_bpc fs) count"
    "hd (drop (off div fat_bpc fs) cs) = cs ! (off div fat_bpc fs)" "cs ! (off div fat_bpc fs) \<noteq> 0"
    "transfer_len fs (drop (off div fat_bpc fs) cs) (off mod fat_bpc fs) count n
      \<Longrightarrow> 0 < n \<and> off + n \<le> length cs * fat_bpc fs \<and> fat_bps fs dvd (off + n) \<and> n < nat count + fat_bps fs"
    "i + off < length cs * fat_bpc fs
      \<Longrightarrow> file_pos fs (drop (off div fat_bpc fs) cs) (off mod fat_bpc fs + i) = file_pos fs cs (off + i)"
proof -
  let ?b = "fat_bpc fs" and ?q = "off div fat_bpc fs" and ?r = "off mod fat_bpc fs"
  have v: "vol_ok fs" and ch: "cluster_chain fs cs" using ok by (auto simp: stream_ok_def)
  have b: "0 < ?b" by (rule bpc_pos [OF v])
  have "int off < int (length cs * ?b)" using off(2,3) by linarith
  then have lt: "off < length cs * ?b" by (simp only: of_nat_less_iff)
  show q: "?q < length cs" using lt by (simp add: less_mult_imp_div_less)
  have split: "off = ?q * ?b + ?r" by simp
  have len: "length (drop ?q cs) * ?b = length cs * ?b - ?q * ?b" by (simp add: diff_mult_distrib)
  have le: "?q * ?b \<le> length cs * ?b" using q by (intro mult_le_mono1) simp
  have "fat_bps fs dvd ?r"
    using off(1) bpc_bound(3) [OF v] by (simp add: dvd_mod)
  moreover have "int ?r + count \<le> int (length (drop ?q cs) * ?b)"
  proof -
    have "int (length cs * ?b) = int (length (drop ?q cs) * ?b) + int (?q * ?b)" using len le by linarith
    moreover have "int off = int (?q * ?b) + int ?r" using split by (metis of_nat_add)
    ultimately show ?thesis using off(3) by linarith
  qed
  moreover have "?r < ?b" using b by simp
  ultimately show "transfer_ok fs (drop ?q cs) ?r count"
    using v ch q off(2) lim(1) cluster_chain_drop [OF ch] by (simp add: transfer_ok_def)
  show "hd (drop ?q cs) = cs ! ?q" using q by (simp add: hd_drop_conv_nth)
  show "cs ! ?q \<noteq> 0" using ch q by (auto simp: cluster_chain_def list_all_length valid_cluster_def)
  show "0 < n \<and> off + n \<le> length cs * ?b \<and> fat_bps fs dvd (off + n) \<and> n < nat count + fat_bps fs"
    if "transfer_len fs (drop ?q cs) ?r count n"
  proof -
    have n: "0 < n" "n \<le> round_up (fat_bps fs) (nat count)" "?r + n \<le> length (drop ?q cs) * ?b" "fat_bps fs dvd n"
      using that by (auto simp: transfer_len_def)
    have "off + n \<le> length cs * ?b" using n(3) len le split by linarith
    moreover have "n < nat count + fat_bps fs"
      using n(2) round_up_props(4) [OF bpc_bound(2) [OF v], of "nat count"] by linarith
    ultimately show ?thesis using n off(1) by (simp add: dvd_add)
  qed
  show "file_pos fs (drop ?q cs) (?r + i) = file_pos fs cs (off + i)" if "i + off < length cs * ?b"
  proof -
    have "?q * ?b + (?r + i) = off + i" using split by linarith
    then show ?thesis using file_pos_drop [OF b, of ?q "?r + i" cs] that by simp
  qed
qed

text \<open>Only the cached position of the stream changes.\<close>

definition moved :: "fat_stream \<Rightarrow> fat_stream \<Rightarrow> bool" where
  "moved st st' \<longleftrightarrow> st' = st\<lparr>lastPosition := lastPosition st', lastClus := lastClus st'\<rparr>"

lemma moved_fields:
  assumes "moved st st'"
  shows "fstClus st' = fstClus st" "fst_size st' = fst_size st" "fcb st' = fcb st" "fst_flags st' = fst_flags st"
    "fst_root st' = fst_root st" "entOffset st' = entOffset st" "dirClus st' = dirClus st"
    "st_isDirectory st' = st_isDirectory st"
proof -
  obtain x y where "st' = st\<lparr>lastPosition := x, lastClus := y\<rparr>" using assms unfolding moved_def by blast
  then show "fstClus st' = fstClus st" "fst_size st' = fst_size st" "fcb st' = fcb st" "fst_flags st' = fst_flags st"
    "fst_root st' = fst_root st" "entOffset st' = entOffset st" "dirClus st' = dirClus st"
    "st_isDirectory st' = st_isDirectory st"
    by (simp_all add: st_isDirectory_def)
qed

lemma moved_refl: "moved st st"
  by (simp add: moved_def)

lemma moved_trans: "moved st st1 \<Longrightarrow> moved st1 st2 \<Longrightarrow> moved st st2"
  unfolding moved_def by (metis fat_stream.surjective fat_stream.update_convs(8,9))

lemma stream_ok_moved: "stream_ok fs cs st \<Longrightarrow> moved st st' \<Longrightarrow> cache_ok fs cs st' \<Longrightarrow> stream_ok fs cs st'"
  by (simp add: stream_ok_def moved_fields)

lemma read_loop_ok:
  assumes "stream_ok fs cs st" "fat_bps fs dvd off" "count < 2 ^ 31 - 2 ^ 25" "0 \<le> len"
    and "len < count \<Longrightarrow> int off + (count - len) \<le> int (unat (fst_size st))"
  shows "\<exists>st' k. read_loop fs st count len (int off) dst
      = ok (st', dst @ map (\<lambda>i. file_byte fs cs (off + i)) [0..<k], len + int k)
    \<and> count \<le> len + int k \<and> moved st st' \<and> stream_ok fs cs st'"
  using assms
proof (induction "nat (count - len)" arbitrary: st off len dst rule: less_induct)
  case less
  show ?case
  proof (cases "len < count")
    case False
    then show ?thesis using less.prems moved_refl
      by (intro exI [of _ st] exI [of _ 0]) (simp add: read_loop.simps)
  next
    case True
    let ?b = "fat_bpc fs" and ?q = "off div fat_bpc fs" and ?r = "off mod fat_bpc fs" and ?c = "count - len"
    have sz: "unat (fst_size st) \<le> length cs * ?b" using less.prems(1) by (simp add: stream_ok_def)
    then have cap: "int off + ?c \<le> int (length cs * ?b)" using less.prems(5) [OF True] by linarith
    have off32: "off < 2 ^ 32"
    proof -
      have "int off < int (unat (fst_size st))" using less.prems(5) [OF True] True by linarith
      then have "off < unat (fst_size st)" by (simp only: of_nat_less_iff)
      then show ?thesis using less_trans [OF _ unat_u32_less [of "fst_size st"]] by simp
    qed
    have c: "0 < ?c" "?c < 2 ^ 31 - 2 ^ 25" using True less.prems(3,4) by linarith+
    note t = transfer_at [OF less.prems(1,2) c(1) cap c(2) off32]
    obtain st1 where st1: "getClusNum fs st (int off) = Inr (st1, cs ! ?q)"
      "st1 = st\<lparr>lastPosition := lastPosition st1, lastClus := lastClus st1\<rparr>" "cache_ok fs cs st1"
      using getClusNum_ok [OF less.prems(1) t(1) off32] by blast
    have mv: "moved st st1" using st1(2) by (simp add: moved_def)
    have ok1: "stream_ok fs cs st1" by (rule stream_ok_moved [OF less.prems(1) mv st1(3)])
    obtain n where n: "readCluster fs ?c (hd (drop ?q cs)) (int ?r)
        = ok (map (\<lambda>i. fs_disk fs (file_pos fs (drop ?q cs) (?r + i))) [0..<n])"
      "transfer_len fs (drop ?q cs) ?r ?c n"
      using readCluster_data [OF t(2)] by blast
    note tn = t(5) [OF n(2)]
    have bytes: "map (\<lambda>i. fs_disk fs (file_pos fs (drop ?q cs) (?r + i))) [0..<n] = map (\<lambda>i. file_byte fs cs (off + i)) [0..<n]"
      using tn t(6) by (auto simp: file_byte_def)
    have rd: "readCluster fs ?c (cs ! ?q) (int ?r) = ok (map (\<lambda>i. file_byte fs cs (off + i)) [0..<n])"
      using n(1) unfolding t(3) bytes .
    have run: "read_loop fs st count len (int off) dst
        = read_loop fs st1 count (len + int n) (int (off + n)) (dst @ map (\<lambda>i. file_byte fs cs (off + i)) [0..<n])"
      using True st1(1) t(4) rd tn
      by (subst read_loop.simps) (simp add: uint_bpc of_nat_mod [symmetric] del: of_nat_mod)
    have "\<exists>st' k. read_loop fs st1 count (len + int n) (int (off + n)) (dst @ map (\<lambda>i. file_byte fs cs (off + i)) [0..<n])
        = ok (st', (dst @ map (\<lambda>i. file_byte fs cs (off + i)) [0..<n])
            @ map (\<lambda>i. file_byte fs cs (off + n + i)) [0..<k], len + int n + int k)
      \<and> count \<le> len + int n + int k \<and> moved st1 st' \<and> stream_ok fs cs st'"
    proof (rule less.hyps)
      show "nat (count - (len + int n)) < nat (count - len)" using tn True by linarith
      show "fat_bps fs dvd off + n" using tn by simp
      show "int (off + n) + (count - (len + int n)) \<le> int (unat (fst_size st1))" if "len + int n < count"
        using less.prems(5) [OF True] by (simp add: moved_fields [OF mv])
    qed (use ok1 less.prems in simp_all)
    then obtain st' k where k: "read_loop fs st1 count (len + int n) (int (off + n)) (dst @ map (\<lambda>i. file_byte fs cs (off + i)) [0..<n])
        = ok (st', (dst @ map (\<lambda>i. file_byte fs cs (off + i)) [0..<n])
            @ map (\<lambda>i. file_byte fs cs (off + n + i)) [0..<k], len + int n + int k)"
      "count \<le> len + int n + int k" "moved st1 st'" "stream_ok fs cs st'" by blast
    have "map f [0..<n] @ map (\<lambda>i. f (n + i)) [0..<k] = map f [0..<n + k]" for f :: "nat \<Rightarrow> u8"
      by (intro nth_equalityI) (auto simp: nth_append)
    from this [of "\<lambda>i. file_byte fs cs (off + i)"]
    have cat: "map (\<lambda>i. file_byte fs cs (off + i)) [0..<n] @ map (\<lambda>i. file_byte fs cs (off + n + i)) [0..<k]
        = map (\<lambda>i. file_byte fs cs (off + i)) [0..<n + k]" by (simp add: add.assoc)
    show ?thesis
      using k moved_trans [OF mv k(3)] unfolding run
      by (intro exI [of _ st'] exI [of _ "n + k"]) (simp add: cat [unfolded add.assoc] add.assoc)
  qed
qed

lemma length_entry_times [simp]:
  "length (fcb (setLastAccessDate st d)) = length (fcb st)" "length (fcb (setLastWriteDate st d)) = length (fcb st)"
  by (simp_all add: setLastAccessDate_def setLastWriteDate_def Let_def)

lemma entry_times_fields [simp]:
  "fstClus (setLastAccessDate st d) = fstClus st" "fstClus (setLastWriteDate st d) = fstClus st"
  "fst_size (setLastAccessDate st d) = fst_size st" "fst_size (setLastWriteDate st d) = fst_size st"
  "lastClus (setLastAccessDate st d) = lastClus st" "lastClus (setLastWriteDate st d) = lastClus st"
  "lastPosition (setLastAccessDate st d) = lastPosition st" "lastPosition (setLastWriteDate st d) = lastPosition st"
  by (simp_all add: setLastAccessDate_def setLastWriteDate_def Let_def)

lemma stream_ok_times [simp]:
  "stream_ok fs cs (setLastAccessDate st d) = stream_ok fs cs st"
  "stream_ok fs cs (setLastWriteDate st d) = stream_ok fs cs st"
  by (simp_all add: stream_ok_def cache_ok_def)

text \<open>The clamping of the count to the end of the file.\<close>

lemma transfer_count:
  assumes "off \<le> s" "len = min (nat count) (s - off)" "0 \<le> count"
  shows "\<not> (int s < int off \<or> count < 0)"
    "(if int s - int off < count then int s - int off else count) = int len"
    "int len \<le> count" "int off + (int len - 0) \<le> int s"
proof -
  show "\<not> (int s < int off \<or> count < 0)" using assms by linarith
  show "(if int s - int off < count then int s - int off else count) = int len"
  proof (cases "int s - int off < count")
    case True
    then have "len = s - off" using assms by linarith
    then show ?thesis using True assms(1) by simp
  next
    case False
    then have "len = nat count" using assms by linarith
    then show ?thesis using False assms(3) by simp
  qed
  show "int len \<le> count" "int off + (int len - 0) \<le> int s" using assms by linarith+
qed

lemma st_read_ok:
  assumes "stream_ok fs cs st" "fat_bps fs dvd off" "off \<le> unat (fst_size st)" "0 \<le> count" "count < 2 ^ 31 - 2 ^ 25"
  defines "len \<equiv> min (nat count) (unat (fst_size st) - off)"
  shows "\<exists>st' dst. st_read fs st count (int off) now = ok (st', dst, int len)
    \<and> take len dst = map (\<lambda>i. file_byte fs cs (off + i)) [0..<len] \<and> stream_ok fs cs st'"
proof -
  define s where "s = unat (fst_size st)"
  have us: "uint (fst_size st) = int s" by (simp add: s_def)
  have so: "off \<le> s" "len = min (nat count) (s - off)" using assms(3) by (simp_all add: len_def s_def)
  note bound = transfer_count [OF so assms(4)]
  have lim: "int len < 2 ^ 31 - 2 ^ 25" using bound(3) assms(5) by (rule le_less_trans)
  have room: "int off + (int len - 0) \<le> int (unat (fst_size st))" using bound(4) by (simp add: s_def)
  obtain st' k where k: "read_loop fs st (int len) 0 (int off) []
      = ok (st', [] @ map (\<lambda>i. file_byte fs cs (off + i)) [0..<k], 0 + int k)"
    "int len \<le> 0 + int k" "moved st st'" "stream_ok fs cs st'"
    using read_loop_ok [OF assms(1,2) lim order_refl room] by blast
  have "take len (map (\<lambda>i. file_byte fs cs (off + i)) [0..<k]) = map (\<lambda>i. file_byte fs cs (off + i)) [0..<len]"
    using k(2) by (simp add: take_map)
  moreover have "st_read fs st count (int off) now = (if len = 0 then ok (st, [], 0)
      else ok (if 0 < int len \<and> \<not> st_isDirectory st' then setLastAccessDate st' now else st',
            map (\<lambda>i. file_byte fs cs (off + i)) [0..<k], int len))"
    using bound(1,2) k(1,2) unfolding st_read_def Let_def us by simp
  ultimately show ?thesis using k(4) assms(1) by auto
qed

text \<open>C6: \<^verbatim>\<open>FatStream::read\<close> at a sector aligned position of a file returns: the number of bytes is
  what is left of the file, at most the count asked for, and the buffer begins with exactly the
  bytes of the file from the position on, wherever its clusters are; the stream stays well formed.\<close>

theorem read_returns_file:
  assumes "stream_ok fs cs st" "fat_bps fs dvd off" "off \<le> unat (fst_size st)" "0 \<le> count" "count < 2 ^ 31 - 2 ^ 25"
  defines "len \<equiv> min (nat count) (unat (fst_size st) - off)"
  shows "\<exists>st' dst. st_read fs st count (int off) now = ok (st', dst, int len)
    \<and> take len dst = map (\<lambda>i. file_byte fs cs (off + i)) [0..<len] \<and> stream_ok fs cs st'"
  unfolding len_def using assms(1-5) by (rule st_read_ok)

text \<open>Reading inside \<open>ex12_file\<close>: a file of 600 bytes in the clusters 2 and 3, from its second
  sector on.\<close>

definition ex_file :: fat_stream where
  "ex_file = ex_stream\<lparr>fstClus := 2, fst_size := 600, lastClus := 0\<rparr>"

lemma ex_file_ok: "stream_ok ex12_file [2, 3] ex_file"
  using ex12_file_ok by (simp add: stream_ok_def ex_file_def first_of_def cache_ok_def ex_stream_def
      fat_bpc_def ex12_file_def ex12_def)

lemma read_returns_file_witness:
  "\<exists>st' dst. st_read ex12_file ex_file 1000 512 0 = ok (st', dst, 88)
    \<and> take 88 dst = map (\<lambda>i. file_byte ex12_file [2, 3] (512 + i)) [0..<88] \<and> stream_ok ex12_file [2, 3] st'"
  using read_returns_file [OF ex_file_ok, of 512 1000 0]
  by (simp add: ex_file_def fat_bps_def ex12_file_def ex12_def)

subsection \<open>Writing\<close>

lemma file_pos_frame:
  assumes "fat_step W fs fs'"
  shows "file_pos fs' = file_pos fs"
  by (simp add: fun_eq_iff file_pos_def fat_step_frame [OF assms])

lemma stream_ok_step:
  assumes "stream_ok fs cs st" "fat_step W fs fs'" "fat_map fs' = fat_map fs"
  shows "stream_ok fs' cs st"
  using assms cluster_chain_cong [OF assms(2)] fat_step_ok [OF assms(2)] fat_step_frame [OF assms(2)]
  by (simp add: stream_ok_def cache_ok_def)

definition span :: "fatfs \<Rightarrow> u32 list \<Rightarrow> nat \<Rightarrow> nat \<Rightarrow> nat set" where
  "span fs cs off k = {file_pos fs cs (off + i) | i. i < k}"

text \<open>What a run of the write loop leaves: \<open>k\<close> bytes of the source at \<open>off\<close>, nothing else changed on the disk.\<close>

definition written :: "fatfs \<Rightarrow> u32 list \<Rightarrow> nat \<Rightarrow> store \<Rightarrow> nat \<Rightarrow> fatfs \<Rightarrow> bool" where
  "written fs cs off src k fs' \<longleftrightarrow> fat_step (span fs cs off k) fs fs' \<and> fat_map fs' = fat_map fs
     \<and> (\<exists>m. fs' = fs\<lparr>fs_disk := m\<rparr> \<and> (\<forall>a. a \<notin> span fs cs off k \<longrightarrow> m a = fs_disk fs a))
     \<and> (\<forall>i < k. file_byte fs' cs (off + i) = src i)"

lemma written_none: "vol_ok fs \<Longrightarrow> written fs cs off src 0 fs"
  by (simp add: written_def span_def fat_step_refl, intro exI [of _ "fs_disk fs"], simp)

lemma written_append:
  assumes "written fs cs off src n fs1" "written fs1 cs (off + n) (\<lambda>a. src (n + a)) k fs2"
    and "cluster_chain fs cs" "off + n + k \<le> length cs * fat_bpc fs"
  shows "written fs cs off src (n + k) fs2"
proof -
  have s1: "fat_step (span fs cs off n) fs fs1" and s2: "fat_step (span fs1 cs (off + n) k) fs1 fs2"
    using assms by (auto simp: written_def)
  note fp = file_pos_frame [OF s1] file_pos_frame [OF s2]
  have sub: "span fs cs off n \<union> span fs1 cs (off + n) k \<subseteq> span fs cs off (n + k)"
  proof
    fix a
    assume "a \<in> span fs cs off n \<union> span fs1 cs (off + n) k"
    then obtain i where "i < n + k" "a = file_pos fs cs (off + i)"
    proof
      assume "a \<in> span fs1 cs (off + n) k"
      then obtain i where "i < k" "a = file_pos fs cs (off + (n + i))" by (auto simp: span_def fp add.assoc)
      then show ?thesis using that [of "n + i"] by simp
    next
      assume "a \<in> span fs cs off n"
      then obtain i where "i < n" "a = file_pos fs cs (off + i)" by (auto simp: span_def)
      then show ?thesis using that [of i] by simp
    qed
    then show "a \<in> span fs cs off (n + k)" by (auto simp: span_def)
  qed
  have old: "file_byte fs2 cs (off + i) = src i" if i: "i < n" for i
  proof -
    have "file_pos fs cs (off + i) \<noteq> file_pos fs cs (off + n + j)" if "j < k" for j
      using file_pos_inj [OF fat_step_ok(2) [OF s1] assms(3), of "off + i" "off + n + j"] that i assms(4) by force
    then have "file_pos fs cs (off + i) \<notin> span fs1 cs (off + n) k" by (auto simp: span_def fp)
    moreover have "\<not> in_fat fs1 (file_pos fs1 cs (off + i))" by (rule file_pos_outside [OF fat_step_ok(1) [OF s1]])
    ultimately have "fs_disk fs2 (file_pos fs cs (off + i)) = fs_disk fs1 (file_pos fs cs (off + i))"
      using s2 unfolding fat_step_def fp by blast
    then show ?thesis using assms(1) i by (simp add: written_def file_byte_def fp)
  qed
  have new: "file_byte fs2 cs (off + i) = src i" if "n \<le> i" "i < n + k" for i
  proof -
    have "i - n < k" using that by simp
    then have "file_byte fs2 cs (off + n + (i - n)) = src (n + (i - n))" using assms(2) unfolding written_def by blast
    then show ?thesis using that by simp
  qed
  show ?thesis
    unfolding written_def
  proof (intro conjI allI impI)
    show "fat_step (span fs cs off (n + k)) fs fs2" by (rule fat_step_mono [OF fat_step_trans [OF s1 s2] sub])
    show "fat_map fs2 = fat_map fs" using assms by (simp add: written_def)
    obtain m1 m2 where m: "fs1 = fs\<lparr>fs_disk := m1\<rparr>" "\<forall>a. a \<notin> span fs cs off n \<longrightarrow> m1 a = fs_disk fs a"
        "fs2 = fs1\<lparr>fs_disk := m2\<rparr>" "\<forall>a. a \<notin> span fs1 cs (off + n) k \<longrightarrow> m2 a = fs_disk fs1 a"
      using assms(1,2) unfolding written_def by blast
    have "m2 a = fs_disk fs a" if "a \<notin> span fs cs off (n + k)" for a
    proof -
      have "a \<notin> span fs cs off n" "a \<notin> span fs1 cs (off + n) k" using sub that by auto
      then show ?thesis using m(1,2,4) by simp
    qed
    then show "\<exists>m. fs2 = fs\<lparr>fs_disk := m\<rparr> \<and> (\<forall>a. a \<notin> span fs cs off (n + k) \<longrightarrow> m a = fs_disk fs a)"
      using m(1,3) by auto
    show "file_byte fs2 cs (off + i) = src i" if "i < n + k" for i using old new that by (cases "i < n") auto
  qed
qed

lemma span_outside: "vol_ok fs \<Longrightarrow> a \<in> span fs cs off k \<Longrightarrow> \<not> in_fat fs a"
  using file_pos_outside by (auto simp: span_def)

lemma write_once:
  assumes ok: "stream_ok fs cs st" and off: "fat_bps fs dvd off" "0 < count" "int off + count \<le> int (length cs * fat_bpc fs)"
    and lim: "count < 2 ^ 31 - 2 ^ 25" "off < 2 ^ 32"
  obtains fs' n where "writeCluster fs src count (cs ! (off div fat_bpc fs)) (int (off mod fat_bpc fs)) = ok (fs', int n)"
    "written fs cs off src n fs'" "0 < n" "off + n \<le> length cs * fat_bpc fs" "fat_bps fs dvd (off + n)"
    "n < nat count + fat_bps fs"
proof -
  let ?q = "off div fat_bpc fs" and ?r = "off mod fat_bpc fs"
  note t = transfer_at [OF ok off lim]
  obtain n m where w: "writeCluster fs src count (hd (drop ?q cs)) (int ?r) = ok (fs\<lparr>fs_disk := m\<rparr>, int n)"
    "transfer_len fs (drop ?q cs) ?r count n"
    "\<forall>i < n. m (file_pos fs (drop ?q cs) (?r + i)) = src i"
    "\<forall>a. (\<forall>i < n. a \<noteq> file_pos fs (drop ?q cs) (?r + i)) \<longrightarrow> m a = fs_disk fs a"
    using writeCluster_data [OF t(2)] by blast
  note tn = t(5) [OF w(2)]
  have pos: "file_pos fs (drop ?q cs) (?r + i) = file_pos fs cs (off + i)" if "i < n" for i
    using t(6) [of i] that tn by simp
  have v: "vol_ok fs" using ok by (simp add: stream_ok_def)
  have out: "m a = fs_disk fs a" if "a \<notin> span fs cs off n" for a
    using w(4) that by (auto simp: span_def pos)
  have "fat_step (span fs cs off n) fs (fs\<lparr>fs_disk := m\<rparr>)" "fat_map (fs\<lparr>fs_disk := m\<rparr>) = fat_map fs"
    by (rule fat_step_write [OF v span_outside [OF v] out], assumption+)+
  moreover from this(1) have "\<forall>i < n. file_byte (fs\<lparr>fs_disk := m\<rparr>) cs (off + i) = src i"
    using w(3) pos by (simp add: file_byte_def file_pos_frame)
  ultimately have "written fs cs off src n (fs\<lparr>fs_disk := m\<rparr>)" using out unfolding written_def by blast
  then show ?thesis using that w(1) t(3) tn by simp
qed

lemma write_loop_ok:
  assumes "stream_ok fs cs st" "fat_bps fs dvd off" "count < 2 ^ 31 - 2 ^ 25" "0 \<le> len"
    and "len < count \<Longrightarrow> int off + (count - len) \<le> int (unat (fst_size st))"
  shows "\<exists>fs' st' k. write_loop fs st src count len (int off) = ok (fs', st', len + int k)
    \<and> count \<le> len + int k \<and> (0 < k \<longrightarrow> len + int k < count + int (fat_bps fs) \<and> off + k \<le> length cs * fat_bpc fs)
    \<and> fat_bps fs dvd off + k \<and> moved st st' \<and> stream_ok fs' cs st' \<and> written fs cs off (\<lambda>a. src (nat len + a)) k fs'"
  using assms
proof (induction "nat (count - len)" arbitrary: fs st off len rule: less_induct)
  case less
  have v: "vol_ok fs" and ch: "cluster_chain fs cs" using less.prems(1) by (auto simp: stream_ok_def)
  show ?case
  proof (cases "len < count")
    case False
    then show ?thesis using less.prems moved_refl written_none [OF v]
      by (intro exI [of _ fs] exI [of _ st] exI [of _ 0]) (simp add: write_loop.simps)
  next
    case True
    let ?b = "fat_bpc fs" and ?q = "off div fat_bpc fs" and ?r = "off mod fat_bpc fs" and ?c = "count - len"
    let ?src = "\<lambda>a. src (nat len + a)"
    have sz: "unat (fst_size st) \<le> length cs * ?b" using less.prems(1) by (simp add: stream_ok_def)
    then have cap: "int off + ?c \<le> int (length cs * ?b)" using less.prems(5) [OF True] by linarith
    have off32: "off < 2 ^ 32"
    proof -
      have "int off < int (unat (fst_size st))" using less.prems(5) [OF True] True by linarith
      then have "off < unat (fst_size st)" by (simp only: of_nat_less_iff)
      then show ?thesis using less_trans [OF _ unat_u32_less [of "fst_size st"]] by simp
    qed
    have c: "0 < ?c" "?c < 2 ^ 31 - 2 ^ 25" using True less.prems(3,4) by linarith+
    note t = transfer_at [OF less.prems(1,2) c(1) cap c(2) off32]
    obtain st1 where st1: "getClusNum fs st (int off) = Inr (st1, cs ! ?q)"
      "st1 = st\<lparr>lastPosition := lastPosition st1, lastClus := lastClus st1\<rparr>" "cache_ok fs cs st1"
      using getClusNum_ok [OF less.prems(1) t(1) off32] by blast
    have mv: "moved st st1" using st1(2) by (simp add: moved_def)
    have ok1: "stream_ok fs cs st1" by (rule stream_ok_moved [OF less.prems(1) mv st1(3)])
    obtain fs1 n where w: "writeCluster fs ?src ?c (cs ! ?q) (int ?r) = ok (fs1, int n)"
      "written fs cs off ?src n fs1" "0 < n" "off + n \<le> length cs * ?b" "fat_bps fs dvd (off + n)" "n < nat ?c + fat_bps fs"
      using write_once [OF less.prems(1,2) c(1) cap c(2) off32] by blast
    have s1: "fat_step (span fs cs off n) fs fs1" "fat_map fs1 = fat_map fs" using w(2) by (auto simp: written_def)
    have ok1': "stream_ok fs1 cs st1" by (rule stream_ok_step [OF ok1 s1])
    have run: "write_loop fs st src count len (int off) = write_loop fs1 st1 src count (len + int n) (int (off + n))"
      using True st1(1) t(4) w(1,3)
      by (subst write_loop.simps) (simp add: uint_bpc of_nat_mod [symmetric] del: of_nat_mod)
    have "\<exists>fs' st' k. write_loop fs1 st1 src count (len + int n) (int (off + n)) = ok (fs', st', len + int n + int k)
      \<and> count \<le> len + int n + int k
      \<and> (0 < k \<longrightarrow> len + int n + int k < count + int (fat_bps fs1) \<and> off + n + k \<le> length cs * fat_bpc fs1)
      \<and> fat_bps fs1 dvd off + n + k \<and> moved st1 st' \<and> stream_ok fs' cs st' \<and> written fs1 cs (off + n) (\<lambda>a. src (nat (len + int n) + a)) k fs'"
    proof (rule less.hyps)
      show "nat (count - (len + int n)) < nat (count - len)" using w(3) True by linarith
      show "fat_bps fs1 dvd off + n" using w(5) by (simp add: fat_step_frame [OF s1(1)])
      show "int (off + n) + (count - (len + int n)) \<le> int (unat (fst_size st1))" if "len + int n < count"
        using less.prems(5) [OF True] by (simp add: moved_fields [OF mv])
    qed (use ok1' less.prems in simp_all)
    then obtain fs' st' k where k: "write_loop fs1 st1 src count (len + int n) (int (off + n)) = ok (fs', st', len + int n + int k)"
      "count \<le> len + int n + int k"
      "0 < k \<longrightarrow> len + int n + int k < count + int (fat_bps fs) \<and> off + n + k \<le> length cs * ?b" "fat_bps fs dvd off + n + k"
      "moved st1 st'" "stream_ok fs' cs st'" "written fs1 cs (off + n) (\<lambda>a. src (nat (len + int n) + a)) k fs'"
      unfolding fat_step_frame [OF s1(1)] by blast
    have "written fs1 cs (off + n) (\<lambda>a. ?src (n + a)) k fs'"
      using k(7) less.prems(4) by (simp add: nat_add_distrib add.assoc)
    then have "written fs cs off ?src (n + k) fs'"
      using written_append [OF w(2) _ ch, of k fs'] k(3) w(4) by (cases "k = 0") auto
    moreover have "len + int (n + k) < count + int (fat_bps fs)"
      using k(3) w(6) True by (cases "k = 0") auto
    ultimately show ?thesis
      using k moved_trans [OF mv k(5)] w(4) unfolding run
      by (intro exI [of _ fs'] exI [of _ st'] exI [of _ "n + k"]) (auto simp: add.assoc)
  qed
qed

lemma st_write_ok:
  assumes "stream_ok fs cs st" "fat_bps fs dvd off" "off \<le> unat (fst_size st)" "0 \<le> count" "count < 2 ^ 31 - 2 ^ 25"
  defines "len \<equiv> min (nat count) (unat (fst_size st) - off)"
  shows "\<exists>m st' k. st_write fs st src count (int off) now = ok (fs\<lparr>fs_disk := m\<rparr>, st', int len)
    \<and> stream_ok (fs\<lparr>fs_disk := m\<rparr>) cs st' \<and> fst_size st' = fst_size st \<and> fat_map (fs\<lparr>fs_disk := m\<rparr>) = fat_map fs
    \<and> len \<le> k \<and> k < len + fat_bps fs \<and> fat_bps fs dvd off + k
    \<and> (\<forall>a. a \<notin> span fs cs off k \<longrightarrow> m a = fs_disk fs a) \<and> (\<forall>i < k. file_byte (fs\<lparr>fs_disk := m\<rparr>) cs (off + i) = src i)"
proof -
  define s where "s = unat (fst_size st)"
  have us: "uint (fst_size st) = int s" by (simp add: s_def)
  have so: "off \<le> s" "len = min (nat count) (s - off)" using assms(3) by (simp_all add: len_def s_def)
  note bound = transfer_count [OF so assms(4)]
  have pos: "0 < fat_bps fs" using assms(1) bpc_bound(2) by (auto simp: stream_ok_def)
  show ?thesis
  proof (cases "len = 0")
    case True
    have "fs\<lparr>fs_disk := fs_disk fs\<rparr> = fs" by simp
    moreover have "st_write fs st src count (int off) now = ok (fs, st, 0)"
      using bound(1,2) True unfolding st_write_def Let_def us by simp
    ultimately show ?thesis using True assms(1,2) pos
      by (intro exI [of _ "fs_disk fs"] exI [of _ st] exI [of _ 0]) simp
  next
    case False
    have lim: "int len < 2 ^ 31 - 2 ^ 25" using bound(3) assms(5) by (rule le_less_trans)
    have room: "int off + (int len - 0) \<le> int (unat (fst_size st))" using bound(4) by (simp add: s_def)
    obtain fs' st' k where w: "write_loop fs st src (int len) 0 (int off) = ok (fs', st', 0 + int k)"
      "int len \<le> 0 + int k" "0 < k \<longrightarrow> 0 + int k < int len + int (fat_bps fs) \<and> off + k \<le> length cs * fat_bpc fs"
      "fat_bps fs dvd off + k" "moved st st'" "stream_ok fs' cs st'" "written fs cs off (\<lambda>a. src (nat 0 + a)) k fs'"
      using write_loop_ok [OF assms(1,2) lim order_refl room] by blast
    obtain m where m: "fs' = fs\<lparr>fs_disk := m\<rparr>" "\<forall>a. a \<notin> span fs cs off k \<longrightarrow> m a = fs_disk fs a" "fat_map fs' = fat_map fs"
        "\<forall>i < k. file_byte fs' cs (off + i) = src i"
      using w(7) by (auto simp: written_def)
    define st1 where "st1 = (if 0 < len \<and> \<not> st_isDirectory st' then setLastAccessDate (setLastWriteDate st' now) now else st')"
    have st1: "stream_ok fs' cs st1" "fst_size st1 = fst_size st" using w(6) by (simp_all add: st1_def moved_fields [OF w(5)])
    have "st_write fs st src count (int off) now = ok (fs', st1, int len)"
      using bound(1,2) w(1,2) False unfolding st_write_def Let_def us by (simp add: st1_def)
    moreover have "len \<le> k" "k < len + fat_bps fs" using w(2,3) False by linarith+
    ultimately show ?thesis using st1 m w(4) unfolding m(1) by blast
  qed
qed



end
