(* ===== verification/FatResize.thy ===== *)
theory FatResize
  imports FatStreams
begin

text \<open>
  Correctness of \<^verbatim>\<open>FatStream::setSize\<close>, \<^verbatim>\<open>flush\<close> and the constructor
  (\<^verbatim>\<open>os/fs/fat/fatStream.cpp\<close>): growing appends a chain of free clusters and keeps the
  contents, shrinking frees the tail, and the entry written to the parent directory opens to the
  same file.
\<close>

subsection \<open>Joining and cutting chains\<close>

lemma chain_concat:
  assumes "chain T cs" "cs \<noteq> []" "chain T ds" "ds \<noteq> []" "distinct (cs @ ds)"
  shows "chain (T(last cs \<mapsto> hd ds)) (cs @ ds)"
  using assms
proof (induction cs)
  case (Cons c cs)
  show ?case
  proof (cases cs)
    case Nil
    have "T (hd ds) \<noteq> None" using chain_hd_dom [of T "hd ds" "tl ds"] Cons.prems by simp
    then have "chain (T(c \<mapsto> hd ds)) ds = chain T ds"
      using Cons.prems Nil by (intro chain_cong) (auto split: option.splits)
    then have "chain (T(c \<mapsto> hd ds)) (hd ds # tl ds)" using Cons.prems by simp
    moreover have "(T(c \<mapsto> hd ds)) c = Some (hd ds)" by simp
    ultimately have *: "chain (T(c \<mapsto> hd ds)) (c # hd ds # tl ds)" by (simp only: chain.simps simp_thms)
    have "last (c # cs) = c" "(c # cs) @ ds = c # hd ds # tl ds" using Nil Cons.prems by simp_all
    with * show ?thesis by (simp only:)
  next
    case (Cons d es)
    then have "T c = Some d" "chain T cs" "c \<noteq> last cs" using Cons.prems by auto
    moreover have "chain (T(last cs \<mapsto> hd ds)) (cs @ ds)"
      by (rule Cons.IH) (use Cons.prems Cons calculation in auto)
    ultimately have "(T(last cs \<mapsto> hd ds)) c = Some d" "chain (T(last cs \<mapsto> hd ds)) (cs @ ds)"
      by (simp, blast)
    moreover have "cs @ ds = d # es @ ds" using Cons by simp
    ultimately have "(T(last cs \<mapsto> hd ds)) c = Some d" "chain (T(last cs \<mapsto> hd ds)) (d # es @ ds)"
      by simp_all
    moreover have "last (c # cs) = last cs" "(c # cs) @ ds = c # d # es @ ds" using Cons by simp_all
    ultimately show ?thesis by (simp only: chain.simps simp_thms)
  qed
qed simp

lemma chain_take:
  assumes "chain T cs" "0 < k" "k \<le> length cs" "distinct cs" "T e = None"
  shows "chain (T(cs ! (k - 1) \<mapsto> e)) (take k cs)"
  using assms
proof (induction cs arbitrary: k)
  case (Cons c cs)
  show ?case
  proof (cases "k = 1")
    case True
    have "T c \<noteq> None" by (rule chain_hd_dom) (rule Cons.prems)
    then show ?thesis using True Cons.prems by auto
  next
    case False
    then obtain d es where ds: "cs = d # es" using Cons.prems by (cases cs) auto
    have k: "k = Suc (k - 1)" "k - 1 = Suc (k - 2)" using False Cons.prems by auto
    have "cs ! (k - 2) \<in> set cs" using Cons.prems False by (intro nth_mem) auto
    then have "c \<noteq> cs ! (k - 2)" using Cons.prems by auto
    moreover have "chain (T(cs ! (k - 1 - 1) \<mapsto> e)) (take (k - 1) cs)"
      using Cons.prems False ds by (intro Cons.IH) auto
    moreover have "take k (c # cs) = c # d # take (k - 2) es" "take (k - 1) cs = d # take (k - 2) es"
      "(c # cs) ! (k - 1) = cs ! (k - 2)"
      using k ds by (metis take_Suc_Cons, metis take_Suc_Cons, metis nth_Cons_Suc)
    moreover have "T c = Some d" using Cons.prems ds by simp
    ultimately show ?thesis using k by (simp add: fun_upd_def)
  qed
qed simp

lemma cluster_chain_link:
  assumes "vol_ok fs" "cluster_chain fs cs" "cs \<noteq> []" "cluster_chain fs ds" "ds \<noteq> []" "set cs \<inter> set ds = {}"
  obtains fs' where "setClusEntryVal fs (last cs) (hd ds) = Inr fs'" "fat_step {} fs fs'"
    "fat_map fs' = (fat_map fs)(last cs \<mapsto> hd ds)" "cluster_chain fs' (cs @ ds)" "freeCount fs' = freeCount fs"
proof -
  have v: "valid_cluster fs (last cs)" "valid_cluster fs (hd ds)"
    using assms by (auto simp: cluster_chain_def list_all_iff)
  then obtain fs' where fs': "setClusEntryVal fs (last cs) (hd ds) = Inr fs'" "fat_step {} fs fs'"
    "fat_map fs' = (fat_map fs)(last cs \<mapsto> fat_trunc fs (hd ds))" "freeCount fs' = freeCount fs"
    using set_entry [OF assms(1)] by (metis valid_cluster_def)
  have t: "fat_trunc fs (hd ds) = hd ds"
    using fat_trunc_valid [OF vol_ok_fat(2) [OF assms(1)]] v(2) by (simp add: valid_cluster_def)
  have "cluster_chain fs' (cs @ ds)"
    using assms chain_concat [of "fat_map fs" cs ds]
    by (simp add: cluster_chain_def fs'(3) t fat_step_frame [OF fs'(2)])
  then show ?thesis using that fs' t by simp
qed

lemma chain_nonfree:
  assumes "cluster_chain fs cs" "c \<in> set cs"
  shows "fat_map fs c \<noteq> Some 0"
proof -
  obtain i where i: "i < length cs" "cs ! i = c" using assms(2) by (auto simp: in_set_conv_nth)
  have ch: "chain (fat_map fs) cs" "\<forall>c \<in> set cs. 2 \<le> c"
    using assms(1) by (auto simp: cluster_chain_def list_all_iff valid_cluster_def)
  show ?thesis
  proof (cases "Suc i < length cs")
    case True
    then have "2 \<le> cs ! Suc i" using ch(2) by simp
    then show ?thesis using chain_nth [OF ch(1) True] i by auto
  next
    case False
    then have "drop i cs = [c]" using i by (metis Cons_nth_drop_Suc drop_all leI)
    then have "chain (fat_map fs) [c]" using chain_drop [OF ch(1), of i] by simp
    then show ?thesis by (auto split: option.splits simp: isEof_def)
  qed
qed

lemma chain_disjoint_free: "cluster_chain fs cs \<Longrightarrow> set ds \<subseteq> fat_free fs \<Longrightarrow> set cs \<inter> set ds = {}"
  using chain_nonfree by (auto simp: fat_free_def)

subsection \<open>The directory entry of a stream\<close>

definition entry_clus :: "u8 list \<Rightarrow> u32" where
  "entry_clus f = le_word f DIR_FstClusLO OR push_bit 16 (le_word f DIR_FstClusHI)"

text \<open>The entry of a file agrees with the stream.\<close>

definition entry_ok :: "fat_stream \<Rightarrow> bool" where
  "entry_ok st \<longleftrightarrow> length (fcb st) = 32 \<and> le_dword (fcb st) DIR_FileSize = fst_size st
     \<and> entry_clus (fcb st) = fstClus st"

lemma word_halves: "take_bit 16 v OR push_bit 16 (take_bit 16 (drop_bit 16 v)) = (v :: u32)"
  by (rule bit_word_eqI) (auto simp: bit_simps)

lemma entry_set_clus:
  fixes v :: u32
  assumes "length f = 32"
  defines "f' \<equiv> le_xword (le_xword f DIR_FstClusLO v) DIR_FstClusHI (drop_bit 16 v)"
  shows "entry_clus f' = v" "length f' = 32" "i + 4 \<le> 20 \<or> 28 \<le> i \<Longrightarrow> le_dword f' i = le_dword f i"
    "i \<noteq> 20 \<Longrightarrow> i \<noteq> 21 \<Longrightarrow> i \<noteq> 26 \<Longrightarrow> i \<noteq> 27 \<Longrightarrow> f' ! i = f ! i"
  using assms word_halves [of v]
  by (auto simp: entry_clus_def codec_simps) (auto simp: le_xword_def le_dword_def)

lemma entry_set_size:
  fixes v :: u32
  assumes "length f = 32"
  defines "f' \<equiv> le_xdword f DIR_FileSize v"
  shows "le_dword f' DIR_FileSize = v" "length f' = 32" "entry_clus f' = entry_clus f" "i < 28 \<Longrightarrow> f' ! i = f ! i"
  using assms by (simp_all add: entry_clus_def codec_simps) (simp_all add: le_xdword_def le_word_def)

text \<open>The name and the attributes lie before the fields that \<^verbatim>\<open>setSize\<close> stores into.\<close>

lemma name_kept:
  fixes v w :: u32
  shows "take 11 (le_xdword f DIR_FileSize v) = take 11 f"
    "take 11 (le_xword (le_xword f DIR_FstClusLO v) DIR_FstClusHI w) = take 11 f"
    "le_xdword f DIR_FileSize v ! 11 = f ! 11"
    "le_xword (le_xword f DIR_FstClusLO v) DIR_FstClusHI w ! 11 = f ! 11"
  by (simp_all add: le_xdword_def le_xword_def)

text \<open>Stamping the times and flushing: the fields that change.\<close>

definition stamped :: "fat_stream \<Rightarrow> fat_stream \<Rightarrow> bool" where
  "stamped st st' \<longleftrightarrow> st' = st\<lparr>fcb := fcb st', fst_flags := fst_flags st'\<rparr> \<and> length (fcb st') = length (fcb st)
     \<and> (\<forall>i. i \<notin> {11, 18, 19, 22, 23, 24, 25} \<longrightarrow> fcb st' ! i = fcb st ! i)
     \<and> fcb st' ! DIR_Attr = (if st_isRemoved st then fcb st ! DIR_Attr else fcb st ! DIR_Attr OR ATTR_ARCHIVE)"

lemma flush_stamped:
  assumes "length (fcb st) = 32"
  obtains st' where "st_flush (setLastAccessDate (setLastWriteDate st now) now)
      = (st', if fst_root st \<or> st_isRemoved st then [] else [(entOffset st, fcb st')])" "stamped st st'"
proof -
  let ?s = "setLastAccessDate (setLastWriteDate st now) now"
  define d where "d = clampTime now"
  define f where "f = le_xword (le_xword (le_xword (fcb st) DIR_WrtDate (ucast (packDate d)))
      DIR_WrtTime (ucast (packTime d))) DIR_LstAccDate (ucast (packDate d))"
  have s: "?s = st\<lparr>fcb := f, fst_flags := fst_flags st OR 2\<rparr>"
    by (simp add: setLastAccessDate_def setLastWriteDate_def Let_def f_def d_def)
  have upd: "(fst_flags st OR 2) AND 2 = (2 :: u32)" by (rule bit_word_eqI) (auto simp: bit_simps)
  have "((fst_flags st OR 2) AND NOT 2) AND 1 = fst_flags st AND (1 :: u32)"
    by (rule bit_word_eqI) (auto simp: bit_simps bit_1_iff)
  then have rem: "((fst_flags st OR 2) AND - 3) AND 1 = fst_flags st AND (1 :: u32)" by simp
  have f: "length f = 32" "\<And>i. i \<notin> {18, 19, 22, 23, 24, 25} \<Longrightarrow> f ! i = fcb st ! i"
    using assms by (simp_all add: f_def le_xword_def)
  define st' where "st' = st\<lparr>fcb := (if st_isRemoved st then f else f[DIR_Attr := f ! DIR_Attr OR ATTR_ARCHIVE]),
      fst_flags := (fst_flags st OR 2) AND NOT 2\<rparr>"
  have "st_flush ?s = (st', if fst_root st \<or> st_isRemoved st then [] else [(entOffset st, fcb st')])"
    unfolding s st_flush_def by (simp add: upd rem Let_def st_isRemoved_def st'_def)
  moreover have "stamped st st'" using f assms by (simp add: stamped_def st'_def)
  ultimately show ?thesis using that by blast
qed

lemma stamped_fields:
  assumes "stamped st st'"
  shows "fstClus st' = fstClus st" "fst_size st' = fst_size st" "lastPosition st' = lastPosition st"
    "lastClus st' = lastClus st" "length (fcb st') = length (fcb st)" "fst_root st' = fst_root st"
    "entOffset st' = entOffset st" "dirClus st' = dirClus st"
    "entry_clus (fcb st') = entry_clus (fcb st)" "le_dword (fcb st') DIR_FileSize = le_dword (fcb st) DIR_FileSize"
    "st_isDirectory st' = st_isDirectory st" "take 11 (fcb st') = take 11 (fcb st)"
proof -
  obtain f g where st': "st' = st\<lparr>fcb := f, fst_flags := g\<rparr>" using assms unfolding stamped_def by blast
  then show "fstClus st' = fstClus st" "fst_size st' = fst_size st" "lastPosition st' = lastPosition st"
    "lastClus st' = lastClus st" "fst_root st' = fst_root st" "entOffset st' = entOffset st" "dirClus st' = dirClus st"
    by simp_all
  have b: "\<And>i. i \<notin> {11, 18, 19, 22, 23, 24, 25} \<Longrightarrow> fcb st' ! i = fcb st ! i" and l: "length (fcb st') = length (fcb st)"
    using assms by (auto simp: stamped_def)
  show "length (fcb st') = length (fcb st)" by (rule l)
  show "entry_clus (fcb st') = entry_clus (fcb st)" "le_dword (fcb st') DIR_FileSize = le_dword (fcb st) DIR_FileSize"
    by (simp_all add: entry_clus_def le_word_def le_dword_def b)
  show "take 11 (fcb st') = take 11 (fcb st)" using l b by (intro nth_equalityI) auto
  have "fcb st' ! 11 AND 0x10 = fcb st ! 11 AND 0x10"
    using assms by (simp add: stamped_def bit.conj_disj_distrib2)
  then show "st_isDirectory st' = st_isDirectory st" by (simp add: st_isDirectory_def fcb_isDirectory_def)
qed

subsection \<open>Growing\<close>

definition clus_count :: "fatfs \<Rightarrow> nat \<Rightarrow> nat" where
  "clus_count fs s = (s + fat_bpc fs - 1) div fat_bpc fs"

lemma clus_count_props:
  assumes "vol_ok fs"
  shows "s \<le> clus_count fs s * fat_bpc fs" "s \<le> k * fat_bpc fs \<Longrightarrow> clus_count fs s \<le> k"
    "0 < s \<Longrightarrow> (s - 1) div fat_bpc fs = clus_count fs s - 1" "0 < s \<Longrightarrow> 0 < clus_count fs s"
    "s \<le> s' \<Longrightarrow> clus_count fs s \<le> clus_count fs s'" "clus_count fs 0 = 0"
proof -
  let ?b = "fat_bpc fs"
  have b: "0 < ?b" by (rule bpc_pos [OF assms])
  define q r where "q = (s + ?b - 1) div ?b" and "r = (s + ?b - 1) mod ?b"
  have qr: "s + ?b - 1 = q * ?b + r" "r < ?b" using b by (simp_all add: q_def r_def)
  show "s \<le> clus_count fs s * ?b" using qr b by (simp add: clus_count_def q_def [symmetric])
  show "clus_count fs s \<le> k" if "s \<le> k * ?b"
  proof -
    have "s + ?b - 1 < Suc k * ?b" using that b by simp
    then show ?thesis unfolding clus_count_def by (simp add: less_mult_imp_div_less flip: less_Suc_eq_le)
  qed
  have e: "clus_count fs s = Suc ((s - 1) div ?b)" if "0 < s"
  proof -
    have *: "s + ?b - 1 = (s - 1) + ?b" using that by simp
    show ?thesis unfolding clus_count_def * using div_add_self2 [of ?b "s - 1"] b by simp
  qed
  show "(s - 1) div ?b = clus_count fs s - 1" "0 < clus_count fs s" if "0 < s" using e [OF that] by simp_all
  show "clus_count fs s \<le> clus_count fs s'" if "s \<le> s'" using that by (simp add: clus_count_def div_le_mono)
  show "clus_count fs 0 = 0" using b by (simp add: clus_count_def)
qed

lemma grow_clusters_unat:
  assumes "vol_ok fs" "unat (fst_size st) + fat_bpc fs \<le> 2 ^ 32" "int (unat (fst_size st)) \<le> newSize" "newSize \<le> 0xffffffff"
  shows "grow_clusters fs st newSize = of_nat (clus_count fs (nat newSize) - clus_count fs (unat (fst_size st)))"
    "unat (grow_clusters fs st newSize) = clus_count fs (nat newSize) - clus_count fs (unat (fst_size st))"
proof -
  let ?b = "fat_bpc fs" and ?s = "unat (fst_size st)"
  have b: "0 < ?b" by (rule bpc_pos [OF assms(1)])
  define m where "m = nat newSize"
  have "0 \<le> newSize" using assms(3) by (rule order_trans [OF of_nat_0_le_iff])
  then have nm: "newSize = int m" by (simp add: m_def)
  have m: "newSize = int m" "?s \<le> m" "m < 2 ^ 32"
    using nm assms(3,4) unfolding nm by (simp_all only: of_nat_le_iff) simp
  have le: "clus_count fs ?s \<le> clus_count fs m" by (rule clus_count_props(5) [OF assms(1) m(2)])
  have "unat ((fst_size st + bytsPerClus fs - 1) div bytsPerClus fs) = clus_count fs ?s"
  proof -
    have bw: "bytsPerClus fs = of_nat ?b" by (simp add: fat_bpc_def)
    have *: "fst_size st + bytsPerClus fs - 1 = of_nat (?s + ?b - 1)"
      using b by (simp add: bw of_nat_diff)
    have "unat (fst_size st + bytsPerClus fs - 1) = ?s + ?b - 1"
      unfolding * by (rule unat_of_nat_u32) (use assms(2) b in simp)
    then show ?thesis by (simp add: unat_div clus_count_def fat_bpc_def)
  qed
  from arg_cong [OF this, of "of_nat :: nat \<Rightarrow> u32"]
  have old: "(fst_size st + bytsPerClus fs - 1) div bytsPerClus fs = of_nat (clus_count fs ?s)" by simp
  have "(newSize + uint (bytsPerClus fs) - 1) div uint (bytsPerClus fs) = int (clus_count fs m)"
    using b by (simp add: uint_bpc m(1) clus_count_def zdiv_int of_nat_diff)
  then have g: "grow_clusters fs st newSize = of_nat (clus_count fs m) - of_nat (clus_count fs ?s)"
    by (simp add: grow_clusters_def old)
  then show r: "grow_clusters fs st newSize = of_nat (clus_count fs (nat newSize) - clus_count fs ?s)"
    using le by (simp add: of_nat_diff m_def)
  have "clus_count fs m \<le> m" using clus_count_props(2) [OF assms(1), of m m] b by simp
  then show "unat (grow_clusters fs st newSize) = clus_count fs (nat newSize) - clus_count fs ?s"
    using m(3) by (simp add: r unat_of_nat_u32 flip: m_def)
qed

lemma eof_ones: "vol_ok fs \<Longrightarrow> isEof fs 0xffffffff"
  using vol_ok_fat(2) [of fs] by (auto simp: isEof_nat fat_ok_def word_less_nat_alt)

text \<open>The two outcomes of an allocation for a stream.\<close>

lemma alloc_outcomes:
  assumes "vol_ok fs" "2 \<le> nxtFree fs" "n \<noteq> 0"
  obtains (got) fs' ds where "allocCluster fs n zr = ok (fs', hd ds)" "ds \<noteq> []" "length ds = unat n"
      "set ds \<subseteq> fat_free fs" "cluster_chain fs' ds" "\<And>c. c \<notin> set ds \<Longrightarrow> fat_map fs' c = fat_map fs c"
      "fat_step (zeroed zr fs (set ds)) fs fs'" "\<forall>a \<in> zeroed zr fs (set ds). fs_disk fs' a = 0"
      "freeCount fs' = freeCount fs - n" "n \<le> freeCount fs" "unat n \<le> card (fat_free fs)"
    | (full) fs' where "allocCluster fs n zr = ok (fs', 0xffffffff)" "isEof fs' 0xffffffff"
      "\<not> (n \<le> freeCount fs \<and> unat n \<le> card (fat_free fs))"
proof (cases "freeCount fs < n")
  case True
  then have "allocCluster fs n zr = ok (fs, 0xffffffff)" by (simp add: allocCluster_def)
  moreover have "isEof fs 0xffffffff" by (rule eof_ones [OF assms(1)])
  ultimately show ?thesis using True by (intro full [of fs]) auto
next
  case False
  then have le: "n \<le> freeCount fs" by simp
  obtain fs' r where r: "allocCluster fs n zr = ok (fs', r)"
    "if unat n \<le> card (fat_free fs) then alloc_done (fat_map fs) zr fs [] n fs' r
     else alloc_failed (fat_map fs) zr fs [] fs' r"
    using allocCluster_outcome [OF assms le] by blast
  show ?thesis
  proof (cases "unat n \<le> card (fat_free fs)")
    case True
    then obtain ds where ds: "taken (fat_map fs) fs' ds" "length ds = unat n" "r = first_of ds"
      "set ds \<subseteq> fat_free fs" "freeCount fs' = freeCount fs - n" "fat_step (zeroed zr fs (set ds)) fs fs'"
      "\<forall>a \<in> zeroed zr fs (set ds). fs_disk fs' a = 0"
      using r(2) by (auto simp: alloc_done_def)
    then have "ds \<noteq> []" using assms(3) by (auto simp: unat_eq_zero)
    then show ?thesis using got [of fs' ds] ds r(1) le True by (simp add: taken_def first_of_def)
  next
    case few: False
    then have f: "alloc_failed (fat_map fs) zr fs [] fs' r" using r(2) by simp
    then have "vol_ok fs'" using fat_step_ok(1) by (auto simp: alloc_failed_def)
    then have "isEof fs' 0xffffffff" by (rule eof_ones)
    then show ?thesis using full [of fs'] f r(1) few by (simp add: alloc_failed_def)
  qed
qed

text \<open>A stream whose clusters \<open>cs\<close> have been continued by \<open>ds\<close>, all free before.\<close>

definition extended :: "fatfs \<Rightarrow> u32 list \<Rightarrow> fat_stream \<Rightarrow> bool \<Rightarrow> u32 list \<Rightarrow> fatfs \<Rightarrow> fat_stream \<Rightarrow> bool" where
  "extended fs cs st zr ds fs' st' \<longleftrightarrow> set ds \<subseteq> fat_free fs \<and> fat_step (zeroed zr fs (set ds)) fs fs'
     \<and> (\<forall>a \<in> zeroed zr fs (set ds). fs_disk fs' a = 0)
     \<and> cluster_chain fs' (cs @ ds) \<and> freeCount fs' = freeCount fs - of_nat (length ds)
     \<and> (\<forall>c. c \<notin> set ds \<longrightarrow> (cs = [] \<or> c \<noteq> last cs) \<longrightarrow> fat_map fs' c = fat_map fs c)
     \<and> st' = st\<lparr>fstClus := first_of (cs @ ds), fcb := fcb st', lastPosition := lastPosition st', lastClus := lastClus st'\<rparr>
     \<and> length (fcb st') = 32 \<and> entry_clus (fcb st') = first_of (cs @ ds) \<and> cache_ok fs' (cs @ ds) st'
     \<and> (\<forall>i. i \<notin> {20, 21, 26, 27} \<longrightarrow> fcb st' ! i = fcb st ! i)"

lemma extended_none:
  assumes "stream_ok fs cs st" "entry_clus (fcb st) = fstClus st"
  shows "extended fs cs st zr [] fs st"
  using assms by (auto simp: extended_def stream_ok_def zeroed_def intro: fat_step_refl)

lemma cache_ok_append: "cache_ok fs cs st \<Longrightarrow> fat_step W fs fs' \<Longrightarrow> cache_ok fs' (cs @ ds) st"
  by (force simp: cache_ok_def fat_step_frame nth_append)

lemma disk_kept:
  assumes "fat_step W fs fs'" "\<not> in_fat fs a" "a \<notin> W"
  shows "fs_disk fs' a = fs_disk fs a"
  using assms unfolding fat_step_def by blast

text \<open>Linking the new clusters behind the last one.\<close>

lemma grow_link:
  assumes ok: "stream_ok fs cs st" "entry_clus (fcb st) = fstClus st"
    and tight: "length cs = clus_count fs (unat (fst_size st))"
    and ds: "ds \<noteq> []" "set ds \<subseteq> fat_free fs" "cluster_chain fs1 ds" "\<And>c. c \<notin> set ds \<Longrightarrow> fat_map fs1 c = fat_map fs c"
      "fat_step (zeroed zr fs (set ds)) fs fs1" "\<forall>a \<in> zeroed zr fs (set ds). fs_disk fs1 a = 0"
      "freeCount fs1 = freeCount fs - of_nat (length ds)"
  shows "\<exists>fs' st'. (if fst_size st \<noteq> 0
      then obind (Some (getClusNum fs1 st (uint (fst_size st - 1)))) (\<lambda>(st, last).
           if isEof fs1 last then Some (Inl AssertFailed)
           else obind (Some (setClusEntryVal fs1 last (hd ds))) (\<lambda>fs. ok (fs, st)))
      else if fstClus st \<noteq> 0 then Some (Inl AssertFailed)
      else let f = le_xword (fcb st) DIR_FstClusLO (hd ds);
               f = le_xword f DIR_FstClusHI (drop_bit 16 (hd ds))
           in ok (fs1, st\<lparr>fstClus := hd ds, fcb := f\<rparr>)) = ok (fs', st')
    \<and> extended fs cs st zr ds fs' st'"
proof -
  have v: "vol_ok fs" and ch: "cluster_chain fs cs" and f: "fstClus st = first_of cs" and c: "cache_ok fs cs st"
    and l: "length (fcb st) = 32" using ok(1) by (auto simp: stream_ok_def)
  have v1: "vol_ok fs1" by (rule fat_step_ok(1) [OF ds(5)])
  have dj: "set cs \<inter> set ds = {}" by (rule chain_disjoint_free [OF ch ds(2)])
  have ch1: "cluster_chain fs1 cs" using ch dj ds(4) by (subst cluster_chain_cong [OF ds(5)]) auto
  show ?thesis
  proof (cases "cs = []")
    case True
    then have "unat (fst_size st) = 0" using clus_count_props(4) [OF v] tight by fastforce
    then have s0: "fst_size st = 0" by (simp add: unat_eq_zero)
    have f0: "fstClus st = 0" using f True by (simp add: first_of_def)
    let ?f = "le_xword (le_xword (fcb st) DIR_FstClusLO (hd ds)) DIR_FstClusHI (drop_bit 16 (hd ds))"
    let ?st = "st\<lparr>fstClus := hd ds, fcb := ?f\<rparr>"
    have "lastClus st = 0 \<or> isEof fs (lastClus st)" using c True by (simp add: cache_ok_def)
    then have "cache_ok fs1 ds ?st" by (auto simp: cache_ok_def fat_step_frame [OF ds(5)])
    then have "extended fs cs st zr ds fs1 ?st"
      using ds True l entry_set_clus [OF l, where v = "hd ds"] by (simp add: extended_def first_of_def)
    then show ?thesis using s0 f0 by (intro exI [of _ fs1] exI [of _ ?st]) (simp add: Let_def)
  next
    case False
    have pos: "0 < unat (fst_size st)" using False tight clus_count_props(6) [OF v] by (metis length_0_conv neq0_conv)
    then have nz: "fst_size st \<noteq> 0" by auto
    have u: "uint (fst_size st - 1) = int (unat (fst_size st) - 1)"
      using nz by (simp add: uint_nat unat_minus_one)
    have q: "(unat (fst_size st) - 1) div fat_bpc fs1 = length cs - 1"
      using clus_count_props(3) [OF v pos] tight by (simp add: fat_step_frame [OF ds(5)])
    have ok1: "stream_ok fs1 cs st"
      using ok(1) ch1 v1 by (simp add: stream_ok_def cache_ok_def fat_step_frame [OF ds(5)])
    obtain st1 where st1: "getClusNum fs1 st (int (unat (fst_size st) - 1)) = Inr (st1, last cs)"
      "st1 = st\<lparr>lastPosition := lastPosition st1, lastClus := lastClus st1\<rparr>" "cache_ok fs1 cs st1"
    proof -
      have "unat (fst_size st) - 1 < 2 ^ 32" using less_imp_diff_less [OF unat_u32_less [of "fst_size st"]] by simp
      moreover have "(unat (fst_size st) - 1) div fat_bpc fs1 < length cs" using q False by simp
      ultimately obtain st1 where "getClusNum fs1 st (int (unat (fst_size st) - 1)) = Inr (st1, cs ! (length cs - 1))"
        "st1 = st\<lparr>lastPosition := lastPosition st1, lastClus := lastClus st1\<rparr>" "cache_ok fs1 cs st1"
        using getClusNum_ok [OF ok1] unfolding q [symmetric] by blast
      then show ?thesis using that False by (simp add: last_conv_nth)
    qed
    obtain fs2 where fs2: "setClusEntryVal fs1 (last cs) (hd ds) = Inr fs2" "fat_step {} fs1 fs2"
      "fat_map fs2 = (fat_map fs1)(last cs \<mapsto> hd ds)" "cluster_chain fs2 (cs @ ds)" "freeCount fs2 = freeCount fs1"
      using cluster_chain_link [OF v1 ch1 False ds(3,1) dj] by blast
    have ne: "\<not> isEof fs1 (last cs)"
      using ch1 False by (auto simp: cluster_chain_def list_all_iff valid_cluster_def)
    have fo: "first_of (cs @ ds) = fstClus st" using f False by (simp add: first_of_def)
    have st1': "fcb st1 = fcb st" "st1 = st\<lparr>fstClus := fstClus st, fcb := fcb st1, lastPosition := lastPosition st1, lastClus := lastClus st1\<rparr>"
    proof -
      obtain x y where "st1 = st\<lparr>lastPosition := x, lastClus := y\<rparr>" using st1(2) by blast
      then show "fcb st1 = fcb st" "st1 = st\<lparr>fstClus := fstClus st, fcb := fcb st1, lastPosition := lastPosition st1, lastClus := lastClus st1\<rparr>"
        by simp_all
    qed
    have dk: "fs_disk fs2 a = 0" if "a \<in> zeroed zr fs (set ds)" for a
    proof -
      have "\<not> in_fat fs1 a"
        using that cluster_bytes_outside [OF v] by (auto simp: zeroed_def fat_step_frame [OF ds(5)] split: if_splits)
      then show ?thesis using disk_kept [OF fs2(2)] ds(6) that by simp
    qed
    have "extended fs cs st zr ds fs2 st1"
      unfolding extended_def fo
      using ds(2,4,7) fat_step_trans0 [OF ds(5) fs2(2)] dk fs2(3-5) st1' l ok(2) cache_ok_append [OF st1(3) fs2(2)] False
      by simp
    then show ?thesis using nz st1(1) ne fs2(1) by (intro exI [of _ fs2] exI [of _ st1]) (simp add: u)
  qed
qed

text \<open>The whole of the growing branch.\<close>

lemma setSize_grow_ok:
  assumes ok: "stream_ok fs cs st" "entry_clus (fcb st) = fstClus st" "2 \<le> nxtFree fs"
    and tight: "length cs = clus_count fs (unat (fst_size st))"
    and size: "unat (fst_size st) + fat_bpc fs \<le> 2 ^ 32" "int (unat (fst_size st)) < newSize" "newSize \<le> 0xffffffff"
  defines "n \<equiv> clus_count fs (nat newSize) - length cs"
  shows "if n = 0 \<or> of_nat n \<le> freeCount fs \<and> n \<le> card (fat_free fs)
    then \<exists>fs' st1 st2 ds. setSize_grow fs st newSize now
        = ok (fs', st2, if fst_root st \<or> st_isRemoved st then [] else [(entOffset st, fcb st2)])
      \<and> length ds = n \<and> extended fs cs st (st_isDirectory st) ds fs' st1
      \<and> stamped (st1\<lparr>fcb := le_xdword (fcb st1) DIR_FileSize (word_of_int newSize)\<rparr>) st2
    else setSize_grow fs st newSize now = Some (Inl (Thrown ENOSPC))"
proof -
  have v: "vol_ok fs" and l: "length (fcb st) = 32" using ok(1) by (auto simp: stream_ok_def)
  let ?g = "grow_clusters fs st newSize"
  note g = grow_clusters_unat [OF v size(1) less_imp_le [OF size(2)] size(3)]
  have gn: "?g = of_nat n" "unat ?g = n" using g tight by (simp_all add: n_def)
  have fin: "\<exists>st2. (let st = st1\<lparr>fcb := le_xdword (fcb st1) DIR_FileSize (word_of_int newSize)\<rparr>;
               st = setLastAccessDate (setLastWriteDate st now) now;
               (st, ents) = st_flush st
           in ok (fs', st, ents)) = ok (fs', st2, if fst_root st \<or> st_isRemoved st then [] else [(entOffset st, fcb st2)])
      \<and> stamped (st1\<lparr>fcb := le_xdword (fcb st1) DIR_FileSize (word_of_int newSize)\<rparr>) st2"
    if e: "extended fs cs st zr ds fs' st1" for fs' :: fatfs and st1 ds zr
  proof -
    let ?s = "st1\<lparr>fcb := le_xdword (fcb st1) DIR_FileSize (word_of_int newSize)\<rparr>"
    have l1: "length (fcb st1) = 32" using e by (simp add: extended_def)
    then have "length (fcb ?s) = 32" by simp
    then obtain st2 where st2: "st_flush (setLastAccessDate (setLastWriteDate ?s now) now)
        = (st2, if fst_root ?s \<or> st_isRemoved ?s then [] else [(entOffset ?s, fcb st2)])" "stamped ?s st2"
      using flush_stamped by blast
    obtain c f x y where "st1 = st\<lparr>fstClus := c, fcb := f, lastPosition := x, lastClus := y\<rparr>"
      using e unfolding extended_def by blast
    then have "fst_root ?s = fst_root st" "st_isRemoved ?s = st_isRemoved st" "entOffset ?s = entOffset st"
      by (simp_all add: st_isRemoved_def)
    then show ?thesis using st2 by (intro exI [of _ st2]) (simp add: Let_def)
  qed
  show ?thesis
  proof (cases "n = 0")
    case True
    obtain st2 where "setSize_grow fs st newSize now
        = ok (fs, st2, if fst_root st \<or> st_isRemoved st then [] else [(entOffset st, fcb st2)])"
      "stamped (st\<lparr>fcb := le_xdword (fcb st) DIR_FileSize (word_of_int newSize)\<rparr>) st2"
      using fin [OF extended_none [OF ok(1,2)]] True gn(1) unfolding setSize_grow_def by (auto simp: Let_def)
    then show ?thesis using True extended_none [OF ok(1,2)] by auto
  next
    case False
    have gz: "?g \<noteq> 0" "0 < ?g" using False gn(2) by (auto simp: unat_eq_zero [symmetric] word_gt_0)
    show ?thesis
    proof (rule alloc_outcomes [OF v ok(3) gz(1), where zr = "st_isDirectory st"], goal_cases)
      case (1 fs1 ds)
      have ld: "length ds = n" "?g = of_nat (length ds)" using 1(3) gn by simp_all
      have fc: "freeCount fs1 = freeCount fs - of_nat (length ds)" using 1(9) ld(2) by simp
      obtain fs' st1 where st1: "(if fst_size st \<noteq> 0
          then obind (Some (getClusNum fs1 st (uint (fst_size st - 1)))) (\<lambda>(st, last).
               if isEof fs1 last then Some (Inl AssertFailed)
               else obind (Some (setClusEntryVal fs1 last (hd ds))) (\<lambda>fs. ok (fs, st)))
          else if fstClus st \<noteq> 0 then Some (Inl AssertFailed)
          else let f = le_xword (fcb st) DIR_FstClusLO (hd ds);
                   f = le_xword f DIR_FstClusHI (drop_bit 16 (hd ds))
               in ok (fs1, st\<lparr>fstClus := hd ds, fcb := f\<rparr>)) = ok (fs', st1)"
        "extended fs cs st (st_isDirectory st) ds fs' st1"
        using grow_link [OF ok(1,2) tight 1(2,4,5,6,7,8) fc] by blast
      have ne: "\<not> isEof fs1 (hd ds)"
        using 1(2,5) by (auto simp: cluster_chain_def list_all_iff valid_cluster_def)
      obtain st2 where "setSize_grow fs st newSize now
          = ok (fs', st2, if fst_root st \<or> st_isRemoved st then [] else [(entOffset st, fcb st2)])"
        "stamped (st1\<lparr>fcb := le_xdword (fcb st1) DIR_FileSize (word_of_int newSize)\<rparr>) st2"
        using fin [OF st1(2)] gz(2) 1(1) ne st1(1) unfolding setSize_grow_def by (auto simp: Let_def)
      then show ?thesis using 1(10,11) gn ld(1) st1(2) by auto
    next
      case (2 fs1)
      then show ?thesis using False gn gz(2) by (simp add: setSize_grow_def Let_def)
    qed
  qed
qed

lemma stream_ok_stamped: "stream_ok fs cs st \<Longrightarrow> stamped st st' \<Longrightarrow> stream_ok fs cs st'"
  by (simp add: stream_ok_def cache_ok_def stamped_fields)

lemma cluster_bytes_disjoint:
  assumes "vol_ok fs" "2 \<le> c" "2 \<le> d" "c \<noteq> d" "a \<in> cluster_bytes fs c"
  shows "a \<notin> cluster_bytes fs d"
proof
  assume "a \<in> cluster_bytes fs d"
  let ?b = "fat_bpc fs"
  have b: "0 < ?b" by (rule bpc_pos [OF assms(1)])
  have *: "(a - data_base fs) div ?b = unat e - 2" if "a \<in> cluster_bytes fs e" for e
  proof -
    from that have "(unat e - 2) * ?b \<le> a - data_base fs" "a - data_base fs < Suc (unat e - 2) * ?b"
      using b by (auto simp: cluster_bytes_def cluster_pos_def)
    then show ?thesis by (metis div_nat_eqI mult.commute)
  qed
  have "unat c - 2 = unat d - 2" using * [OF assms(5)] * [OF \<open>a \<in> cluster_bytes fs d\<close>] by simp
  moreover have "2 \<le> unat c" "2 \<le> unat d" using assms(2,3) by (simp_all add: word_le_nat_alt)
  ultimately show False using assms(4) by (simp add: word_unat_eq_iff)
qed

lemma file_pos_bytes:
  assumes "vol_ok fs" "i < length cs * fat_bpc fs"
  shows "file_pos fs cs i \<in> cluster_bytes fs (cs ! (i div fat_bpc fs))" "cs ! (i div fat_bpc fs) \<in> set cs"
  using assms bpc_pos [OF assms(1)] by (simp_all add: file_pos_def cluster_bytes_def less_mult_imp_div_less)

lemma extended_content:
  assumes "stream_ok fs cs st" "extended fs cs st zr ds fs' st'" "i < length cs * fat_bpc fs"
  shows "file_byte fs' (cs @ ds) i = file_byte fs cs i"
proof -
  have v: "vol_ok fs" and ch: "cluster_chain fs cs" using assms(1) by (auto simp: stream_ok_def)
  have s: "fat_step (zeroed zr fs (set ds)) fs fs'" and sub: "set ds \<subseteq> fat_free fs" using assms(2) by (auto simp: extended_def)
  have fp: "file_pos fs' (cs @ ds) i = file_pos fs cs i"
    using assms(3) by (simp add: file_pos_def fat_step_frame [OF s] nth_append less_mult_imp_div_less)
  let ?c = "cs ! (i div fat_bpc fs)"
  note p = file_pos_bytes [OF v assms(3)]
  have "2 \<le> ?c" using ch p(2) by (auto simp: cluster_chain_def list_all_iff valid_cluster_def)
  moreover have "?c \<noteq> d" if "d \<in> set ds" for d using chain_disjoint_free [OF ch sub] p(2) that by auto
  moreover have "2 \<le> d" if "d \<in> set ds" for d using sub that by (auto simp: fat_free_def)
  ultimately have "file_pos fs cs i \<notin> zeroed zr fs (set ds)"
    using cluster_bytes_disjoint [OF v _ _ _ p(1)] by (auto simp: zeroed_def)
  then show ?thesis
    using disk_kept [OF s file_pos_outside [OF v]] by (simp add: file_byte_def fp)
qed

lemma setSize_grows_base:
  assumes "stream_ok fs cs st" "entry_clus (fcb st) = fstClus st" "\<not> st_isDirectory st" "2 \<le> nxtFree fs"
    and "length cs = clus_count fs (unat (fst_size st))" "unat (fst_size st) + fat_bpc fs \<le> 2 ^ 32"
    and "uint (fst_size st) < newSize" "newSize \<le> 0xffffffff"
  defines "n \<equiv> clus_count fs (nat newSize) - length cs"
  shows "if n = 0 \<or> of_nat n \<le> freeCount fs \<and> n \<le> card (fat_free fs)
    then \<exists>fs' st' ds. st_setSize fs st newSize now
        = ok (fs', st', if fst_root st \<or> st_isRemoved st then [] else [(entOffset st, fcb st')])
      \<and> length ds = n \<and> set ds \<subseteq> fat_free fs \<and> stream_ok fs' (cs @ ds) st' \<and> entry_ok st'
      \<and> uint (fst_size st') = newSize
      \<and> (\<forall>i < length cs * fat_bpc fs. file_byte fs' (cs @ ds) i = file_byte fs cs i)
      \<and> (\<forall>c. c \<notin> set ds \<longrightarrow> (cs = [] \<or> c \<noteq> last cs) \<longrightarrow> fat_map fs' c = fat_map fs c)
      \<and> length (cs @ ds) = clus_count fs' (nat newSize) \<and> take 11 (fcb st') = take 11 (fcb st) \<and> \<not> st_isDirectory st'
    else st_setSize fs st newSize now = Some (Inl (Thrown ENOSPC))"
proof -
  have v: "vol_ok fs" using assms(1) by (simp add: stream_ok_def)
  have lt: "int (unat (fst_size st)) < newSize" using assms(7) by simp
  have nn: "0 \<le> newSize" using lt by (rule order_trans [OF of_nat_0_le_iff less_imp_le])
  have un: "uint (word_of_int newSize :: u32) = newSize" using nn assms(8) by (simp add: uint_word_of_int)
  have run: "st_setSize fs st newSize now
      = obind (setSize_grow fs st newSize now) (\<lambda>(fs, st, ents). ok (fs, st\<lparr>fst_size := word_of_int newSize\<rparr>, ents))"
    using assms(3,7,8) nn by (simp add: st_setSize_def)
  note grow = setSize_grow_ok [OF assms(1,2) assms(4,5,6) lt assms(8), of now, folded n_def]
  show ?thesis
  proof (cases "n = 0 \<or> of_nat n \<le> freeCount fs \<and> n \<le> card (fat_free fs)")
    case True
    then obtain fs' st1 st2 ds where g: "setSize_grow fs st newSize now
        = ok (fs', st2, if fst_root st \<or> st_isRemoved st then [] else [(entOffset st, fcb st2)])"
      "length ds = n" "extended fs cs st (st_isDirectory st) ds fs' st1"
      "stamped (st1\<lparr>fcb := le_xdword (fcb st1) DIR_FileSize (word_of_int newSize)\<rparr>) st2"
      using grow unfolding if_P [OF True] by blast
    let ?s = "st1\<lparr>fcb := le_xdword (fcb st1) DIR_FileSize (word_of_int newSize)\<rparr>"
    let ?st' = "st2\<lparr>fst_size := word_of_int newSize\<rparr>"
    have x: "fat_step (zeroed (st_isDirectory st) fs (set ds)) fs fs'" "cluster_chain fs' (cs @ ds)"
      "length (fcb st1) = 32" "entry_clus (fcb st1) = first_of (cs @ ds)" "cache_ok fs' (cs @ ds) st1"
      using g(3) by (auto simp: extended_def)
    have f1: "fstClus st1 = first_of (cs @ ds)"
    proof -
      obtain f y z where "st1 = st\<lparr>fstClus := first_of (cs @ ds), fcb := f, lastPosition := y, lastClus := z\<rparr>"
        using g(3) unfolding extended_def by blast
      then show ?thesis by simp
    qed
    note sf = stamped_fields [OF g(4)]
    have lc: "length (cs @ ds) = clus_count fs (nat newSize)"
    proof -
      have "clus_count fs (unat (fst_size st)) \<le> clus_count fs (nat newSize)"
        using lt by (intro clus_count_props(5) [OF v]) linarith
      then show ?thesis using g(2) assms(5) by (simp add: n_def)
    qed
    then have len: "nat newSize \<le> length (cs @ ds) * fat_bpc fs'"
      using clus_count_props(1) [OF v] by (simp add: fat_step_frame [OF x(1)])
    have kept: "take 11 (fcb st2) = take 11 (fcb st)" "\<not> st_isDirectory st2"
    proof -
      have b: "\<forall>i. i \<notin> {20, 21, 26, 27} \<longrightarrow> fcb st1 ! i = fcb st ! i" using g(3) by (simp add: extended_def)
      then have "take 11 (fcb st1) = take 11 (fcb st)"
        using x(3) assms(1) by (intro nth_equalityI) (auto simp: stream_ok_def)
      then show "take 11 (fcb st2) = take 11 (fcb st)" unfolding sf(12) by (simp add: name_kept)
      have "fcb ?s ! 11 = fcb st ! 11" using b by (simp add: name_kept)
      then show "\<not> st_isDirectory st2" unfolding sf(11) using assms(3) by (simp add: st_isDirectory_def fcb_isDirectory_def)
    qed
    have "stream_ok fs' (cs @ ds) ?st'"
      using x f1 sf len un nn fat_step_ok(1) [OF x(1)] entry_set_size [OF x(3)]
      by (simp add: stream_ok_def cache_ok_def unat_eq_nat_uint)
    moreover have "entry_ok ?st'"
      using x f1 sf entry_set_size [OF x(3)] by (simp add: entry_ok_def)
    moreover have "\<forall>i < length cs * fat_bpc fs. file_byte fs' (cs @ ds) i = file_byte fs cs i"
      using extended_content [OF assms(1) g(3)] by blast
    moreover have "\<forall>c. c \<notin> set ds \<longrightarrow> (cs = [] \<or> c \<noteq> last cs) \<longrightarrow> fat_map fs' c = fat_map fs c" "set ds \<subseteq> fat_free fs"
      using g(3) by (simp_all add: extended_def)
    ultimately show ?thesis
      unfolding if_P [OF True] run g(1) using g(2) un lc kept
      by (intro exI [of _ fs'] exI [of _ ?st'] exI [of _ ds])
        (simp add: clus_count_def fat_step_frame [OF x(1)] st_isDirectory_def)
  next
    case False
    then show ?thesis using grow unfolding if_not_P [OF False] run by simp
  qed
qed

text \<open>C3: \<^verbatim>\<open>FatStream::setSize\<close> making a file longer: if the free clusters suffice it appends
  exactly the missing clusters, all of them free before, keeps every byte of the file, changes no
  other entry of the FAT than the new ones and the one that was last, and gives the parent
  directory an entry that agrees with the stream; otherwise it fails with \<^verbatim>\<open>ENOSPC\<close>.\<close>

theorem setSize_grows_file:
  assumes "stream_ok fs cs st" "entry_ok st" "\<not> st_isDirectory st" "2 \<le> nxtFree fs"
    and "length cs = clus_count fs (unat (fst_size st))" "unat (fst_size st) + fat_bpc fs \<le> 2 ^ 32"
    and "uint (fst_size st) < newSize" "newSize \<le> 0xffffffff"
  defines "n \<equiv> clus_count fs (nat newSize) - length cs"
  shows "if n = 0 \<or> of_nat n \<le> freeCount fs \<and> n \<le> card (fat_free fs)
    then \<exists>fs' st' ds. st_setSize fs st newSize now
        = ok (fs', st', if fst_root st \<or> st_isRemoved st then [] else [(entOffset st, fcb st')])
      \<and> length ds = n \<and> set ds \<subseteq> fat_free fs \<and> stream_ok fs' (cs @ ds) st' \<and> entry_ok st'
      \<and> uint (fst_size st') = newSize
      \<and> (\<forall>i < length cs * fat_bpc fs. file_byte fs' (cs @ ds) i = file_byte fs cs i)
      \<and> (\<forall>c. c \<notin> set ds \<longrightarrow> (cs = [] \<or> c \<noteq> last cs) \<longrightarrow> fat_map fs' c = fat_map fs c)
    else st_setSize fs st newSize now = Some (Inl (Thrown ENOSPC))"
proof (cases "n = 0 \<or> of_nat n \<le> freeCount fs \<and> n \<le> card (fat_free fs)")
  case True
  have "entry_clus (fcb st) = fstClus st" using assms(2) by (simp add: entry_ok_def)
  then show ?thesis
    using setSize_grows_base [OF assms(1) _ assms(3-8), of now, folded n_def] unfolding if_P [OF True] by blast
next
  case False
  have "entry_clus (fcb st) = fstClus st" using assms(2) by (simp add: entry_ok_def)
  then show ?thesis
    using setSize_grows_base [OF assms(1) _ assms(3-8), of now, folded n_def] unfolding if_not_P [OF False] by blast
qed

lemma setSize_grows_file_witness:
  "\<exists>fs' st' ds. st_setSize ex12_file ex_file 1200 0 = ok (fs', st', [(64, fcb st')]) \<and> length ds = 1
    \<and> stream_ok fs' ([2, 3] @ ds) st' \<and> entry_ok st' \<and> uint (fst_size st') = 1200
    \<and> (\<forall>i < 1024. file_byte fs' ([2, 3] @ ds) i = file_byte ex12_file [2, 3] i)"
proof -
  have b: "fat_bpc ex12_file = 512" "freeCount ex12_file = 1" "nxtFree ex12_file = 2"
    by (simp_all add: fat_bpc_def ex12_file_def ex12_def)
  have "4 \<in> fat_free ex12_file"
    using ex12_file_entries by (simp add: fat_free_def fat_map_def isEof_def) (simp add: ex12_file_def ex12_def)
  then have "1 \<le> card (fat_free ex12_file)" by (metis card_0_eq empty_iff finite_free less_one linorder_not_le)
  moreover have "entry_ok ex_file" "\<not> st_isDirectory ex_file" "fst_size ex_file = 600" "\<not> fst_root ex_file"
    "\<not> st_isRemoved ex_file" "entOffset ex_file = 64"
    by (simp_all add: entry_ok_def ex_file_def ex_stream_def entry_clus_def le_word_def le_dword_def
        st_isDirectory_def fcb_isDirectory_def st_isRemoved_def)
  ultimately show ?thesis
    using setSize_grows_file [OF ex_file_ok, of 1200 0] unfolding clus_count_def b by simp blast
qed

subsection \<open>Shrinking\<close>

lemma eof_mark_28: "fat_trunc fs 0x0fffffff = eof_mark fs"
  by (simp add: eof_mark_def fat_trunc_def)

lemma freeCluster_eof: "isEof fs c \<Longrightarrow> freeCluster fs c = ok fs"
  by (simp add: freeCluster_def free_loop.simps)

text \<open>Ending a chain after its first \<open>k\<close> clusters and freeing the rest.\<close>

lemma cut_chain:
  assumes "vol_ok fs" "cluster_chain fs cs" "0 < k" "k \<le> length cs"
  obtains fs1 fs' where "setClusEntryVal fs (cs ! (k - 1)) 0x0fffffff = Inr fs1"
    "freeCluster fs1 (clusEntryVal fs (cs ! (k - 1))) = ok fs'" "fat_step {} fs fs'"
    "cluster_chain fs' (take k cs)" "freeCount fs' = freeCount fs + of_nat (length cs - k)"
    "fat_map fs' = (\<lambda>c. if c \<in> set (drop k cs) then Some 0 else if c = cs ! (k - 1) then Some (eof_mark fs) else fat_map fs c)"
proof -
  let ?l = "cs ! (k - 1)"
  have l: "?l \<in> set cs" using assms by simp
  have d: "distinct cs" and v: "valid_cluster fs ?l"
    using assms(2) l by (auto simp: cluster_chain_def list_all_iff)
  obtain fs1 where fs1: "setClusEntryVal fs ?l 0x0fffffff = Inr fs1" "fat_step {} fs fs1"
    "fat_map fs1 = (fat_map fs)(?l \<mapsto> eof_mark fs)" "freeCount fs1 = freeCount fs"
    using set_entry [OF assms(1), of ?l "0x0fffffff"] v by (auto simp: valid_cluster_def eof_mark_28)
  note fr1 = fat_step_frame [OF fs1(2)]
  have none: "fat_map fs (eof_mark fs) = None"
    using eof_mark(1) [OF vol_ok_fat(2) [OF assms(1)]] by (simp add: fat_map_def)
  have tk: "cluster_chain fs1 (take k cs)"
    using assms chain_take [where T = "fat_map fs" and e = "eof_mark fs", OF _ assms(3,4) d none] set_take_subset [of k cs]
    by (auto simp: cluster_chain_def fs1(3) fr1 list_all_iff)
  have nl: "?l \<notin> set (drop k cs)"
    using d assms(3,4) by (auto simp: in_set_conv_nth nth_eq_iff_index_eq)
  have disj: "set (take k cs) \<inter> set (drop k cs) = {}" by (rule set_take_disj_set_drop_if_distinct [OF d order_refl])
  show ?thesis
  proof (cases "k = length cs")
    case True
    have "drop (k - 1) cs = [?l]" using True assms(3) by (metis Cons_nth_drop_Suc One_nat_def Suc_pred diff_less drop_all order_refl zero_less_one)
    then have "chain (fat_map fs) [?l]" using chain_drop [of "fat_map fs" cs "k - 1"] assms(2) by (simp add: cluster_chain_def)
    then obtain e where "fat_map fs ?l = Some e" "fat_map fs e = None" by (auto split: option.splits)
    then have "isEof fs1 (clusEntryVal fs ?l)" by (auto simp: fat_map_def fr1 split: if_splits)
    then show ?thesis
      using that [OF fs1(1) freeCluster_eof fs1(2) tk] fs1(3,4) True by (simp add: fun_eq_iff)
  next
    case False
    then have k: "k < length cs" using assms(4) by simp
    have "fat_map fs ?l = Some (cs ! k)"
      using chain_nth [of "fat_map fs" cs "k - 1"] assms(2,3) k by (simp add: cluster_chain_def)
    then have nx: "clusEntryVal fs ?l = hd (drop k cs)" using k by (simp add: fat_map_Some hd_drop_conv_nth)
    have "cluster_chain fs1 (drop k cs)"
      using cluster_chain_drop [OF assms(2)] nl by (subst cluster_chain_cong [OF fs1(2)]) (auto simp: fs1(3))
    then obtain fs' where fs': "freeCluster fs1 (hd (drop k cs)) = ok fs'" "fat_step {} fs1 fs'"
      "fat_map fs' = (\<lambda>c. if c \<in> set (drop k cs) then Some 0 else fat_map fs1 c)"
      "freeCount fs' = freeCount fs1 + of_nat (length (drop k cs))"
      using freeCluster_chain [OF fat_step_ok(1) [OF fs1(2)], of "drop k cs"] k by auto
    have "cluster_chain fs' (take k cs)"
      using tk disj by (subst cluster_chain_cong [OF fs'(2)]) (auto simp: fs'(3))
    then show ?thesis
      using that [OF fs1(1) _ fat_step_trans0 [OF fs1(2) fs'(2)]] fs' fs1(3,4) nx nl by (simp add: fun_eq_iff)
  qed
qed

lemma setSize_shrink_ok:
  assumes ok: "stream_ok fs cs st" "entry_clus (fcb st) = fstClus st"
    and tight: "length cs = clus_count fs (unat (fst_size st))" and size: "m < unat (fst_size st)"
  defines "k \<equiv> clus_count fs m"
  obtains fs' st' where "setSize_shrink fs st (int m) now
      = ok (fs', st', if fst_root st \<or> st_isRemoved st then [] else [(entOffset st, fcb st')])"
    "stream_ok fs' (take k cs) (st'\<lparr>fst_size := word_of_int (int m)\<rparr>)"
    "entry_ok (st'\<lparr>fst_size := word_of_int (int m)\<rparr>)"
    "freeCount fs' = freeCount fs + of_nat (length cs - k)" "fat_step {} fs fs'"
    "fat_map fs' = (\<lambda>c. if c \<in> set (drop k cs) then Some 0
       else if 0 < k \<and> c = cs ! (k - 1) then Some (eof_mark fs) else fat_map fs c)"
    "take 11 (fcb st') = take 11 (fcb st)" "st_isDirectory st' = st_isDirectory st"
proof -
  have v: "vol_ok fs" and ch: "cluster_chain fs cs" and f: "fstClus st = first_of cs"
    and l: "length (fcb st) = 32" using ok(1) by (auto simp: stream_ok_def)
  have kl: "k \<le> length cs" using clus_count_props(5) [OF v less_imp_le [OF size]] tight by (simp add: k_def)
  have um: "unat (word_of_int (int m) :: u32) = m"
    using unat_of_nat_u32 [of m] less_trans [OF size unat_u32_less] by simp
  let ?s1 = "st\<lparr>fcb := le_xdword (fcb st) DIR_FileSize (word_of_int (int m))\<rparr>"
  have l1: "length (fcb ?s1) = 32" using l by simp
  have e1: "entry_clus (fcb ?s1) = first_of cs" using entry_set_size(3) [OF l] ok(2) f by simp
  have z1: "le_dword (fcb ?s1) DIR_FileSize = word_of_int (int m)" using entry_set_size(1) [OF l] by simp
  show ?thesis
  proof (cases "m = 0")
    case True
    have k0: "k = 0" using True clus_count_props(6) [OF v] by (simp add: k_def)
    have ne: "cs \<noteq> []" using clus_count_props(4) [OF v, of "unat (fst_size st)"] size tight by auto
    let ?t = "setLastAccessDate (setLastWriteDate ?s1 now) now"
    let ?f = "\<lambda>f. le_xword (le_xword f DIR_FstClusLO 0) DIR_FstClusHI 0"
    let ?s2 = "?s1\<lparr>fstClus := 0, fcb := ?f (fcb ?s1)\<rparr>"
    have f2: "entry_clus (fcb ?s2) = 0" "length (fcb ?s2) = 32" "le_dword (fcb ?s2) DIR_FileSize = word_of_int (int m)"
      using entry_set_clus(1,2) [OF l1, where v = 0] entry_set_clus(3) [OF l1, where v = 0 and i = 28] z1 by simp_all
    have comm: "?t\<lparr>fstClus := 0, fcb := ?f (fcb ?t)\<rparr> = setLastAccessDate (setLastWriteDate ?s2 now) now"
      by (simp add: setLastAccessDate_def setLastWriteDate_def Let_def le_xword_def list_update_swap)
    obtain st2 where st2: "st_flush (setLastAccessDate (setLastWriteDate ?s2 now) now)
        = (st2, if fst_root ?s2 \<or> st_isRemoved ?s2 then [] else [(entOffset ?s2, fcb st2)])" "stamped ?s2 st2"
      using flush_stamped [OF f2(2)] by blast
    note sf = stamped_fields [OF st2(2)]
    have rm: "st_isRemoved ?s2 = st_isRemoved st" by (simp add: st_isRemoved_def)
    obtain fs' where fs': "freeCluster fs (hd cs) = ok fs'" "fat_step {} fs fs'"
      "fat_map fs' = (\<lambda>c. if c \<in> set cs then Some 0 else fat_map fs c)" "freeCount fs' = freeCount fs + of_nat (length cs)"
      using freeCluster_chain [OF v ch ne] by blast
    let ?st' = "st2\<lparr>lastPosition := 0, lastClus := fstClus st2\<rparr>"
    have "setSize_shrink fs st (int m) now
      = obind (let (st, ents) = st_flush (?t\<lparr>fstClus := 0, fcb := ?f (fcb ?t)\<rparr>)
            in obind (freeCluster fs (fstClus ?t)) (\<lambda>fs. ok (fs, st, ents)))
          (\<lambda>(fs, st, ents). ok (fs, st\<lparr>lastPosition := 0, lastClus := fstClus st\<rparr>, ents))"
      using True by (simp add: setSize_shrink_def Let_def)
    also have "\<dots> = ok (fs', ?st', if fst_root st \<or> st_isRemoved st then [] else [(entOffset st, fcb ?st')])"
      unfolding comm st2(1) rm using fs'(1) f ne by (simp add: first_of_def)
    finally have "setSize_shrink fs st (int m) now
      = ok (fs', ?st', if fst_root st \<or> st_isRemoved st then [] else [(entOffset st, fcb ?st')])" .
    moreover have "stream_ok fs' (take k cs) (?st'\<lparr>fst_size := word_of_int (int m)\<rparr>)"
      using True k0 sf f2 fat_step_ok(1) [OF fs'(2)] by (simp add: stream_ok_def cluster_chain_def first_of_def cache_ok_def)
    moreover have "entry_ok (?st'\<lparr>fst_size := word_of_int (int m)\<rparr>)"
      using sf f2 by (simp add: entry_ok_def)
    moreover have "take 11 (fcb ?st') = take 11 (fcb st)" "st_isDirectory ?st' = st_isDirectory st"
      using sf(11,12) by (simp_all add: name_kept st_isDirectory_def fcb_isDirectory_def)
    ultimately show ?thesis using that [of fs' ?st'] fs' k0 by (simp add: fun_eq_iff)
  next
    case False
    have k: "0 < k" using False clus_count_props(4) [OF v, of m] by (simp add: k_def)
    obtain st2 where st2: "st_flush (setLastAccessDate (setLastWriteDate ?s1 now) now)
        = (st2, if fst_root ?s1 \<or> st_isRemoved ?s1 then [] else [(entOffset ?s1, fcb st2)])" "stamped ?s1 st2"
      using flush_stamped [OF l1] by blast
    note sf = stamped_fields [OF st2(2)]
    have rm: "st_isRemoved ?s1 = st_isRemoved st" by (simp add: st_isRemoved_def)
    have ok1: "stream_ok fs cs ?s1" using ok(1) l1 by (simp add: stream_ok_def cache_ok_def)
    have ok2: "stream_ok fs cs st2" by (rule stream_ok_stamped [OF ok1 st2(2)])
    have q: "(m - 1) div fat_bpc fs = k - 1" using clus_count_props(3) [OF v, of m] False by (simp add: k_def)
    have q': "(m - 1) div fat_bpc fs < length cs" using q k kl by simp
    have m32: "m - 1 < 2 ^ 32" using less_trans [OF size unat_u32_less] by simp
    obtain st3 where st3: "getClusNum fs st2 (int (m - 1)) = Inr (st3, cs ! (k - 1))"
      "st3 = st2\<lparr>lastPosition := lastPosition st3, lastClus := lastClus st3\<rparr>"
      using getClusNum_ok [OF ok2 q' m32] unfolding q by metis
    obtain fs1 fs' where cut: "setClusEntryVal fs (cs ! (k - 1)) 0x0fffffff = Inr fs1"
      "freeCluster fs1 (clusEntryVal fs (cs ! (k - 1))) = ok fs'" "fat_step {} fs fs'"
      "cluster_chain fs' (take k cs)" "freeCount fs' = freeCount fs + of_nat (length cs - k)"
      "fat_map fs' = (\<lambda>c. if c \<in> set (drop k cs) then Some 0 else if c = cs ! (k - 1) then Some (eof_mark fs) else fat_map fs c)"
      using cut_chain [OF v ch k kl] by blast
    let ?st' = "st3\<lparr>lastPosition := 0, lastClus := fstClus st3\<rparr>"
    obtain x y where st3e: "st3 = st2\<lparr>lastPosition := x, lastClus := y\<rparr>" using st3(2) by blast
    have im: "int m - 1 = int (m - 1)" using False by simp
    have "setSize_shrink fs st (int m) now
      = ok (fs', ?st', if fst_root st \<or> st_isRemoved st then [] else [(entOffset st, fcb ?st')])"
      using False st2(1) rm st3(1) cut(1,2) unfolding setSize_shrink_def Let_def im
      by (simp add: st3e)
    moreover have fo: "first_of (take k cs) = first_of cs" using k kl by (cases cs; cases k) (auto simp: first_of_def)
    moreover have "m \<le> length (take k cs) * fat_bpc fs" using clus_count_props(1) [OF v, of m] kl by (simp add: k_def)
    then have "stream_ok fs' (take k cs) (?st'\<lparr>fst_size := word_of_int (int m)\<rparr>)"
      using sf f k kl fo l1 cut(4) fat_step_ok(1) [OF cut(3)] um fat_step_frame [OF cut(3)]
      by (auto simp: stream_ok_def cache_ok_def st3e first_of_def hd_conv_nth intro!: exI [of _ 0])
    moreover have "entry_ok (?st'\<lparr>fst_size := word_of_int (int m)\<rparr>)"
      using sf l1 e1 z1 f by (simp add: entry_ok_def st3e)
    moreover have "take 11 (fcb ?st') = take 11 (fcb st)" "st_isDirectory ?st' = st_isDirectory st"
      using sf(11,12) by (simp_all add: st3e name_kept st_isDirectory_def fcb_isDirectory_def)
    ultimately show ?thesis using that [of fs' ?st'] cut k by (simp add: fun_eq_iff)
  qed
qed

lemma setSize_shrinks_base:
  assumes "stream_ok fs cs st" "entry_clus (fcb st) = fstClus st" "\<not> st_isDirectory st"
    and "length cs = clus_count fs (unat (fst_size st))" "0 \<le> newSize" "newSize < uint (fst_size st)"
  defines "k \<equiv> clus_count fs (nat newSize)"
  shows "\<exists>fs' st'. st_setSize fs st newSize now
      = ok (fs', st', if fst_root st \<or> st_isRemoved st then [] else [(entOffset st, fcb st')])
    \<and> stream_ok fs' (take k cs) st' \<and> entry_ok st' \<and> uint (fst_size st') = newSize
    \<and> freeCount fs' = freeCount fs + of_nat (length cs - k)
    \<and> fat_map fs' = (\<lambda>c. if c \<in> set (drop k cs) then Some 0
         else if 0 < k \<and> c = cs ! (k - 1) then Some (eof_mark fs) else fat_map fs c)
    \<and> fat_step {} fs fs' \<and> take 11 (fcb st') = take 11 (fcb st) \<and> \<not> st_isDirectory st'"
proof -
  define m where "m = nat newSize"
  have m: "newSize = int m" using assms(5) by (simp add: m_def)
  have "int m < int (unat (fst_size st))" using assms(6) m by simp
  then have lt: "m < unat (fst_size st)" by (simp only: of_nat_less_iff)
  obtain fs' st' where r: "setSize_shrink fs st (int m) now
      = ok (fs', st', if fst_root st \<or> st_isRemoved st then [] else [(entOffset st, fcb st')])"
    "stream_ok fs' (take k cs) (st'\<lparr>fst_size := word_of_int (int m)\<rparr>)"
    "entry_ok (st'\<lparr>fst_size := word_of_int (int m)\<rparr>)"
    "freeCount fs' = freeCount fs + of_nat (length cs - k)" "fat_step {} fs fs'"
    "fat_map fs' = (\<lambda>c. if c \<in> set (drop k cs) then Some 0
       else if 0 < k \<and> c = cs ! (k - 1) then Some (eof_mark fs) else fat_map fs c)"
    "take 11 (fcb st') = take 11 (fcb st)" "st_isDirectory st' = st_isDirectory st"
    using setSize_shrink_ok [OF assms(1,2,4) lt] unfolding k_def m nat_int by blast
  let ?st' = "st'\<lparr>fst_size := word_of_int (int m)\<rparr>"
  have um: "uint (word_of_int (int m) :: u32) = int m"
    using less_trans [OF lt unat_u32_less] by (subst uint_word_of_int) simp
  have m32: "int m \<le> 0xffffffff" using less_trans [OF lt unat_u32_less] by simp
  have "st_setSize fs st newSize now = obind (setSize_shrink fs st (int m) now)
      (\<lambda>(fs, st, ents). ok (fs, st\<lparr>fst_size := word_of_int (int m)\<rparr>, ents))"
    using assms(3,6) m32 unfolding m by (simp add: st_setSize_def)
  also have "\<dots> = ok (fs', ?st', if fst_root st \<or> st_isRemoved st then [] else [(entOffset st, fcb ?st')])"
    unfolding r(1) by simp
  finally have run: "st_setSize fs st newSize now
    = ok (fs', ?st', if fst_root st \<or> st_isRemoved st then [] else [(entOffset st, fcb ?st')])" .
  have "\<not> st_isDirectory ?st'" using r(8) assms(3) by (simp add: st_isDirectory_def)
  then show ?thesis
    using run r(2-7) um by (intro exI [of _ fs'] exI [of _ ?st'] conjI) (simp_all only: m, simp_all)
qed

text \<open>C4: \<^verbatim>\<open>FatStream::setSize\<close> making a file shorter never fails: the first clusters stay the
  file's chain, now ended, the clusters behind them are free again and counted as such, no other
  entry of the FAT and no byte outside the FAT changes, and the entry agrees with the stream.\<close>

theorem setSize_shrinks_file:
  assumes "stream_ok fs cs st" "entry_ok st" "\<not> st_isDirectory st"
    and "length cs = clus_count fs (unat (fst_size st))" "0 \<le> newSize" "newSize < uint (fst_size st)"
  defines "k \<equiv> clus_count fs (nat newSize)"
  shows "\<exists>fs' st'. st_setSize fs st newSize now
      = ok (fs', st', if fst_root st \<or> st_isRemoved st then [] else [(entOffset st, fcb st')])
    \<and> stream_ok fs' (take k cs) st' \<and> entry_ok st' \<and> uint (fst_size st') = newSize
    \<and> freeCount fs' = freeCount fs + of_nat (length cs - k)
    \<and> fat_map fs' = (\<lambda>c. if c \<in> set (drop k cs) then Some 0
         else if 0 < k \<and> c = cs ! (k - 1) then Some (eof_mark fs) else fat_map fs c)
    \<and> (\<forall>a. \<not> in_fat fs a \<longrightarrow> fs_disk fs' a = fs_disk fs a)"
proof -
  have "entry_clus (fcb st) = fstClus st" using assms(2) by (simp add: entry_ok_def)
  note b = setSize_shrinks_base [OF assms(1) this assms(3-6), of now, folded k_def]
  have "\<forall>a. \<not> in_fat fs a \<longrightarrow> fs_disk fs' a = fs_disk fs a" if "fat_step {} fs fs'" for fs'
    using disk_kept [OF that] by simp
  then show ?thesis using b by blast
qed

lemma ex_file_entry:
  "entry_ok ex_file" "\<not> st_isDirectory ex_file" "fst_size ex_file = 600" "\<not> fst_root ex_file"
  "\<not> st_isRemoved ex_file" "entOffset ex_file = 64" "fat_bpc ex12_file = 512"
  by (simp_all add: entry_ok_def ex_file_def ex_stream_def entry_clus_def le_word_def le_dword_def
      st_isDirectory_def fcb_isDirectory_def st_isRemoved_def fat_bpc_def ex12_file_def ex12_def)

lemma setSize_shrinks_file_witness:
  "\<exists>fs' st'. st_setSize ex12_file ex_file 100 0 = ok (fs', st', [(64, fcb st')])
    \<and> stream_ok fs' [2] st' \<and> entry_ok st' \<and> uint (fst_size st') = 100
    \<and> freeCount fs' = 2 \<and> fat_map fs' 3 = Some 0"
proof -
  have b: "freeCount ex12_file = 1" "clus_count ex12_file 600 = 2" "clus_count ex12_file 100 = 1"
    by (simp_all add: clus_count_def ex_file_entry(7)) (simp add: ex12_file_def ex12_def)
  obtain fs' st' where r: "st_setSize ex12_file ex_file 100 0
      = ok (fs', st', if fst_root ex_file \<or> st_isRemoved ex_file then [] else [(entOffset ex_file, fcb st')])"
    "stream_ok fs' (take 1 [2, 3]) st'" "entry_ok st'" "uint (fst_size st') = 100"
    "freeCount fs' = 1 + of_nat (length [2 :: u32, 3] - 1)"
    "fat_map fs' = (\<lambda>c. if c \<in> set (drop 1 [2, 3]) then Some 0
       else if 0 < (1 :: nat) \<and> c = [2, 3] ! (1 - 1) then Some (eof_mark ex12_file) else fat_map ex12_file c)"
    using setSize_shrinks_file [OF ex_file_ok ex_file_entry(1,2), of 100 0] unfolding ex_file_entry(3) nat_numeral b
    by (auto simp: b)
  then show ?thesis using ex_file_entry(4-6) by (intro exI [of _ fs'] exI [of _ st']) simp
qed

subsection \<open>Opening the flushed entry\<close>

text \<open>The constructor \<^verbatim>\<open>FatStream\<close> on an entry that agrees with a stream.\<close>

lemma entry_opens:
  assumes "stream_ok fs cs st" "entry_ok st" "\<not> st_isDirectory st"
    and "take 11 (fcb st) \<noteq> nameDot" "take 11 (fcb st) \<noteq> nameDotdot"
  shows "\<exists>st'. newFatStream fs parent off (fcb st) = ok st' \<and> stream_ok fs cs st' \<and> entry_ok st'
    \<and> fst_size st' = fst_size st \<and> \<not> st_isRemoved st'"
proof -
  have e: "le_word (fcb st) DIR_FstClusLO OR push_bit 16 (le_word (fcb st) DIR_FstClusHI) = fstClus st"
    "le_dword (fcb st) DIR_FileSize = fst_size st"
    using assms(2) by (auto simp: entry_ok_def entry_clus_def)
  let ?st = "\<lparr>fst_root = (parent = None), dirClus = (case parent of None \<Rightarrow> 0 | Some p \<Rightarrow> fstClus p),
      entOffset = off, fstClus = fstClus st, fst_size = fst_size st, fcb = fcb st, fst_flags = 0,
      lastPosition = 0, lastClus = fstClus st\<rparr>"
  have "newFatStream fs parent off (fcb st) = ok ?st"
    using assms(3-5) e by (simp add: newFatStream_def Let_def st_isDirectory_def)
  moreover have "cache_ok fs cs ?st"
    using assms(1) by (cases cs) (auto simp: cache_ok_def stream_ok_def first_of_def)
  then have "stream_ok fs cs ?st" using assms(1) by (simp add: stream_ok_def)
  moreover have "entry_ok ?st" using assms(2) by (simp add: entry_ok_def)
  ultimately show ?thesis by (intro exI [of _ ?st]) (simp add: st_isRemoved_def)
qed

lemma file_byte_take:
  assumes "vol_ok fs" "fat_step W fs fs'" "W = {}" "i < length (take k cs) * fat_bpc fs"
  shows "file_byte fs' (take k cs) i = file_byte fs cs i"
proof -
  have "i div fat_bpc fs < length (take k cs)" by (rule less_mult_imp_div_less [OF assms(4)])
  then have "file_pos fs (take k cs) i = file_pos fs cs i" by (simp add: file_pos_def)
  moreover have "file_pos fs' = file_pos fs" by (simp add: fun_eq_iff file_pos_frame [OF assms(2)])
  ultimately show ?thesis
    using disk_kept [OF assms(2) file_pos_outside [OF assms(1)]] assms(3) by (simp add: file_byte_def)
qed

text \<open>C16: What a \<^verbatim>\<open>setSize\<close> that succeeds leaves on the volume is the resized file, also for whoever opens
  it again: it writes one entry to the parent directory, and the constructor \<^verbatim>\<open>FatStream\<close> on that entry
  gives a stream of the new size on a chain of exactly the clusters the size needs, with every byte of
  the old file up to the smaller of the two sizes.\<close>

theorem resized_file_reopens:
  assumes "stream_ok fs cs st" "entry_clus (fcb st) = fstClus st" "\<not> st_isDirectory st" "\<not> fst_root st" "\<not> st_isRemoved st"
    and "2 \<le> nxtFree fs" "length cs = clus_count fs (unat (fst_size st))" "unat (fst_size st) + fat_bpc fs \<le> 2 ^ 32"
    and "take 11 (fcb st) \<noteq> nameDot" "take 11 (fcb st) \<noteq> nameDotdot"
    and "newSize \<noteq> uint (fst_size st)" "st_setSize fs st newSize now = ok (fs', st', ents)"
  shows "\<exists>e st2 cs'. ents = [(entOffset st, e)] \<and> newFatStream fs' parent (entOffset st) e = ok st2
    \<and> stream_ok fs' cs' st2 \<and> uint (fst_size st2) = newSize \<and> length cs' = clus_count fs' (nat newSize)
    \<and> (\<forall>i < min (nat newSize) (unat (fst_size st)). file_byte fs' cs' i = file_byte fs cs i)"
proof -
  have v: "vol_ok fs" and len: "unat (fst_size st) \<le> length cs * fat_bpc fs" using assms(1) by (auto simp: stream_ok_def)
  have range: "0 \<le> newSize" "newSize \<le> 0xffffffff"
    using assms(12) by (auto simp: st_setSize_def split: if_splits)
  obtain cs' where c: "stream_ok fs' cs' st'" "entry_ok st'" "uint (fst_size st') = newSize" "take 11 (fcb st') = take 11 (fcb st)"
    "\<not> st_isDirectory st'" "ents = [(entOffset st, fcb st')]" "length cs' = clus_count fs' (nat newSize)"
    "\<forall>i < min (nat newSize) (unat (fst_size st)). file_byte fs' cs' i = file_byte fs cs i"
  proof (cases "uint (fst_size st) < newSize")
    case True
    let ?n = "clus_count fs (nat newSize) - length cs"
    note base = setSize_grows_base [OF assms(1-3,6-8) True range(2), of now]
    have "?n = 0 \<or> of_nat ?n \<le> freeCount fs \<and> ?n \<le> card (fat_free fs)"
    proof (rule ccontr)
      assume "\<not> ?thesis"
      from base [unfolded if_not_P [OF this]] show False using assms(12) by simp
    qed
    from base [unfolded if_P [OF this]] obtain fs2 st2 ds where b: "st_setSize fs st newSize now
        = ok (fs2, st2, if fst_root st \<or> st_isRemoved st then [] else [(entOffset st, fcb st2)])"
      "stream_ok fs2 (cs @ ds) st2" "entry_ok st2" "uint (fst_size st2) = newSize"
      "\<forall>i < length cs * fat_bpc fs. file_byte fs2 (cs @ ds) i = file_byte fs cs i"
      "length (cs @ ds) = clus_count fs2 (nat newSize)" "take 11 (fcb st2) = take 11 (fcb st)" "\<not> st_isDirectory st2"
      by (elim exE conjE) (rule that, assumption+)
    have e: "fs2 = fs'" "st2 = st'" "ents = [(entOffset st, fcb st2)]" using b(1) assms(4,5,12) by simp_all
    show ?thesis using that [of "cs @ ds"] b(2-8) len unfolding e by simp
  next
    case False
    then have lt: "newSize < uint (fst_size st)" using assms(11) by simp
    have kl: "clus_count fs (nat newSize) \<le> length cs"
    proof -
      have "newSize < int (unat (fst_size st))" using lt by simp
      then have "nat newSize \<le> unat (fst_size st)" by linarith
      then show ?thesis unfolding assms(7) by (rule clus_count_props(5) [OF v])
    qed
    have st: "fat_step {} fs fs'" and cl: "stream_ok fs' (take (clus_count fs (nat newSize)) cs) st'" "entry_ok st'"
      "uint (fst_size st') = newSize" "take 11 (fcb st') = take 11 (fcb st)" "\<not> st_isDirectory st'"
      "ents = [(entOffset st, fcb st')]"
      using setSize_shrinks_base [OF assms(1-3,7) range(1) lt, of now] assms(4,5,12) by auto
    have "nat newSize \<le> length (take (clus_count fs (nat newSize)) cs) * fat_bpc fs"
      using clus_count_props(1) [OF v, of "nat newSize"] kl by simp
    then have "file_byte fs' (take (clus_count fs (nat newSize)) cs) i = file_byte fs cs i" if "i < nat newSize" for i
      using that by (intro file_byte_take [OF v st refl]) linarith
    then show ?thesis
      using that [OF cl] kl by (simp add: clus_count_def fat_step_frame [OF st])
  qed
  then show ?thesis using entry_opens [OF c(1,2,5), of parent "entOffset st"] assms(9,10) by auto
qed

lemma resized_file_reopens_witness:
  "\<exists>fs' st' e st2 cs'. st_setSize ex12_file ex_file 100 0 = ok (fs', st', [(64, e)]) \<and> newFatStream fs' None 64 e = ok st2
    \<and> stream_ok fs' cs' st2 \<and> uint (fst_size st2) = 100 \<and> length cs' = clus_count fs' 100
    \<and> (\<forall>i < 100. file_byte fs' cs' i = file_byte ex12_file [2, 3] i)"
proof -
  have b: "clus_count ex12_file 600 = 2" "nxtFree ex12_file = 2" "unat (fst_size ex_file) = 600" "uint (fst_size ex_file) = 600"
    by (simp_all add: clus_count_def ex_file_entry) (simp add: ex12_file_def ex12_def)
  have c: "entry_clus (fcb ex_file) = fstClus ex_file" using ex_file_entry(1) by (simp add: entry_ok_def)
  have "hd (take 11 (fcb ex_file)) = 0" "hd nameDot = 0x2e" "hd nameDotdot = 0x2e"
    by (simp_all add: ex_file_def ex_stream_def nameDot_def nameDotdot_def)
  moreover have "(0 :: u8) \<noteq> 0x2e" by simp
  ultimately have n: "take 11 (fcb ex_file) \<noteq> nameDot" "take 11 (fcb ex_file) \<noteq> nameDotdot" by metis+
  obtain fs' st' where r: "st_setSize ex12_file ex_file 100 0 = ok (fs', st', [(64, fcb st')])"
    using setSize_shrinks_base [OF ex_file_ok c ex_file_entry(2), of 100 0] b ex_file_entry by auto
  show ?thesis
    using resized_file_reopens [OF ex_file_ok c ex_file_entry(2,4,5) _ _ _ n _ r, of None] r b ex_file_entry(6,7) by auto
qed

subsection \<open>The cached position\<close>

text \<open>C17: The cache of \<^verbatim>\<open>getClusNum\<close> does not change what it finds: for every position of a well
  formed stream the walk from the cached cluster gives the same cluster as the walk from the first
  cluster, namely the one in the chain that holds the position; the cache stays valid.\<close>

theorem getClusNum_cache_equivalent:
  assumes "stream_ok fs cs st" "p div fat_bpc fs < length cs" "p < 2 ^ 32"
  shows "\<exists>st1 st2. getClusNum fs st (int p) = Inr (st1, cs ! (p div fat_bpc fs))
    \<and> getClusNum fs (st\<lparr>lastPosition := 0, lastClus := 0\<rparr>) (int p) = Inr (st2, cs ! (p div fat_bpc fs))
    \<and> stream_ok fs cs st1 \<and> stream_ok fs cs st2"
proof -
  let ?st0 = "st\<lparr>lastPosition := 0, lastClus := 0\<rparr>"
  have ok0: "stream_ok fs cs ?st0" using assms(1) by (simp add: stream_ok_def cache_ok_def)
  obtain st1 where st1: "getClusNum fs st (int p) = Inr (st1, cs ! (p div fat_bpc fs))"
    "st1 = st\<lparr>lastPosition := lastPosition st1, lastClus := lastClus st1\<rparr>" "cache_ok fs cs st1"
    using getClusNum_ok [OF assms] by blast
  obtain st2 where st2: "getClusNum fs ?st0 (int p) = Inr (st2, cs ! (p div fat_bpc fs))"
    "st2 = ?st0\<lparr>lastPosition := lastPosition st2, lastClus := lastClus st2\<rparr>" "cache_ok fs cs st2"
    using getClusNum_ok [OF ok0 assms(2,3)] by blast
  have "stream_ok fs cs st1" using stream_ok_moved [OF assms(1) _ st1(3)] st1(2) by (simp add: moved_def)
  moreover have "stream_ok fs cs st2" using stream_ok_moved [OF ok0 _ st2(3)] st2(2) by (simp add: moved_def)
  ultimately show ?thesis using st1(1) st2(1) by blast
qed

lemma getClusNum_cache_equivalent_witness:
  "\<exists>st1 st2. getClusNum ex12_file (ex_file\<lparr>lastClus := 2\<rparr>) 700 = Inr (st1, 3)
    \<and> getClusNum ex12_file (ex_file\<lparr>lastPosition := 0, lastClus := 0\<rparr>) 700 = Inr (st2, 3)"
proof -
  have "stream_ok ex12_file [2, 3] (ex_file\<lparr>lastClus := 2\<rparr>)"
    using ex_file_ok by (auto simp: stream_ok_def cache_ok_def ex_file_def ex_stream_def intro!: exI [of _ 0])
  from getClusNum_cache_equivalent [OF this, of 700] show ?thesis
    unfolding ex_file_entry(7) by auto
qed

end
