(* ===== verification/Utf.thy ===== *)
theory Utf
  imports CaseFolding
begin

text \<open>
  The Unicode conversions of \<^verbatim>\<open>os/libes++/src/utf.c\<close>. A pointer to a string is the list of the
  code units from it on; a string ends where its list ends or at a unit 0, and reading there gives
  0. A null pointer that a conversion returns is \<open>None\<close>; a converted character is the pair of its
  code and the rest of the string, or the list of the units written.
\<close>

definition at0 :: "'a::zero list \<Rightarrow> 'a" where
  "at0 s = (case s of [] \<Rightarrow> 0 | c # _ \<Rightarrow> c)"

lemma at0_simps [simp]: "at0 [] = 0" "at0 (c # s) = c"
  by (simp_all add: at0_def)

lemma at0_nonempty: "at0 s \<noteq> 0 \<Longrightarrow> s \<noteq> []"
  by auto

subsection \<open>UTF-8 and UTF-32\<close>

fun utf8_more :: "nat \<Rightarrow> u32 \<Rightarrow> u8 list \<Rightarrow> (u32 \<times> u8 list) option" where
  "utf8_more 0 u s = Some (u, s)"
| "utf8_more (Suc n) u s =
    (let u = push_bit 6 u; c = at0 s; s = tl s
     in if c AND 0xc0 \<noteq> 0x80 then None else utf8_more n (u OR ucast (c AND 0x3f)) s)"

definition isSurrogate :: "u32 \<Rightarrow> bool" where
  "isSurrogate u = (0xD800 \<le> u \<and> u \<le> 0xDFFF)"

definition utf8_lead :: "u8 \<Rightarrow> (u32 \<times> nat) option" where
  "utf8_lead c =
    (if c AND 0x80 = 0x00 then Some (ucast c, 0)
     else if c AND 0xe0 = 0xc0 then Some (ucast (c AND 0x1f), 1)
     else if c AND 0xf0 = 0xe0 then Some (ucast (c AND 0x0f), 2)
     else if c AND 0xf8 = 0xf0 then Some (ucast (c AND 0x07), 3)
     else None)"

definition utf8to32 :: "u8 list \<Rightarrow> (u32 \<times> u8 list) option" where
  "utf8to32 utf8 =
    (let c = at0 utf8; utf8 = (if c \<noteq> 0 then tl utf8 else utf8)
     in case utf8_lead c of
          None \<Rightarrow> None
        | Some (u, len) \<Rightarrow>
            (case utf8_more len u utf8 of
               None \<Rightarrow> None
             | Some (u, utf8) \<Rightarrow>
                 if (if u \<le> 0x7f then len \<noteq> 0
                     else if u \<le> 0x7ff then len \<noteq> 1
                     else if u \<le> 0xffff then len \<noteq> 2 else False) then None
                 else if isSurrogate u then None
                 else Some (u, utf8)))"

fun utf32_tail :: "nat \<Rightarrow> u32 \<Rightarrow> u8 list" where
  "utf32_tail 0 u = []"
| "utf32_tail (Suc len) u = ucast (0x80 OR (drop_bit (6 * len) u AND 0x3f)) # utf32_tail len u"

definition utf32to8 :: "u32 \<Rightarrow> u8 list option" where
  "utf32to8 utf32 =
    (if isSurrogate utf32 then None
     else if utf32 < 0x80 then Some (ucast utf32 # utf32_tail 0 utf32)
     else if utf32 < 0x800 then Some (ucast (0xc0 OR drop_bit 6 utf32) # utf32_tail 1 utf32)
     else if utf32 < 0x10000 then Some (ucast (0xe0 OR drop_bit 12 utf32) # utf32_tail 2 utf32)
     else if utf32 < 0x110000 then Some (ucast (0xf0 OR drop_bit 18 utf32) # utf32_tail 3 utf32)
     else None)"

definition utf32to8len :: "u32 \<Rightarrow> nat" where
  "utf32to8len utf32 =
    (if isSurrogate utf32 then 0
     else if utf32 < 0x80 then 1
     else if utf32 < 0x800 then 2
     else if utf32 < 0x10000 then 3
     else if utf32 < 0x110000 then 4
     else 0)"

subsection \<open>UTF-16 and UTF-32\<close>

definition utf16to32 :: "u16 list \<Rightarrow> (u32 \<times> u16 list) option" where
  "utf16to32 utf16 =
    (let w1 = at0 utf16; utf16 = (if w1 \<noteq> 0 then tl utf16 else utf16)
     in if w1 < 0xD800 \<or> 0xDFFF < w1 then Some (ucast w1, utf16)
        else if w1 \<le> 0xDBFF
        then let w2 = at0 utf16
             in if 0xDC00 \<le> w2 \<and> w2 \<le> 0xDFFF
                then Some ((push_bit 10 (ucast (w1 AND 0x03ff)) OR ucast (w2 AND 0x03ff)) + 0x10000, tl utf16)
                else None
        else None)"

definition utf32to16 :: "u32 \<Rightarrow> u16 list option" where
  "utf32to16 utf32 =
    (if isSurrogate utf32 then None
     else if utf32 < 0x10000 then Some [ucast utf32]
     else if utf32 \<le> 0x10FFFF
     then let u = utf32 - 0x10000
          in Some [0xD800 OR ucast (drop_bit 10 u), 0xDC00 OR ucast (u AND 0x3ff)]
     else None)"

subsection \<open>Strings\<close>

function utf16cmp :: "u16 list \<Rightarrow> u16 list \<Rightarrow> int" where
  "utf16cmp a b =
    (if at0 a = at0 b then (if at0 a = 0 then 0 else utf16cmp (tl a) (tl b))
     else if at0 a < at0 b then - 1 else 1)"
  by auto
termination by (relation "measure (\<lambda>(a, _). length a)") (auto simp: at0_def split: list.splits)

function utf16icmp :: "u16 list \<Rightarrow> u16 list \<Rightarrow> int" where
  "utf16icmp a b =
    (let ia = ucast (utftolower (ucast (at0 a))) :: u16;
         ib = ucast (utftolower (ucast (at0 b))) :: u16
     in if ia \<noteq> ib then (if ia < ib then - 1 else 1)
        else if at0 a = 0 then 0
        else utf16icmp (tl a) (tl b))"
  by auto
termination by (relation "measure (\<lambda>(a, _). length a)") (auto simp: at0_def split: list.splits)

fun utf16ncmp :: "u16 list \<Rightarrow> u16 list \<Rightarrow> nat \<Rightarrow> int" where
  "utf16ncmp a b 0 = 0"
| "utf16ncmp a b (Suc len) =
    (if at0 a \<noteq> at0 b then (if at0 a < at0 b then - 1 else 1)
     else if at0 a = 0 then 0
     else utf16ncmp (tl a) (tl b) len)"

fun utf16nicmp :: "u16 list \<Rightarrow> u16 list \<Rightarrow> nat \<Rightarrow> int" where
  "utf16nicmp a b 0 = 0"
| "utf16nicmp a b (Suc len) =
    (let ia = ucast (utftolower (ucast (at0 a))) :: u16;
         ib = ucast (utftolower (ucast (at0 b))) :: u16
     in if ia \<noteq> ib then (if ia < ib then - 1 else 1)
        else if at0 a = 0 then 0
        else utf16nicmp (tl a) (tl b) len)"

text \<open>The units that \<^verbatim>\<open>utf16cpy\<close> and \<^verbatim>\<open>utf16ncpy\<close> write to their destination.\<close>

fun utf16cpy :: "u16 list \<Rightarrow> u16 list" where
  "utf16cpy [] = [0]"
| "utf16cpy (c # b) = (if c = 0 then [0] else c # utf16cpy b)"

fun utf16ncpy :: "u16 list \<Rightarrow> nat \<Rightarrow> u16 list" where
  "utf16ncpy b 0 = []"
| "utf16ncpy b (Suc len) = (if at0 b \<noteq> 0 then at0 b # utf16ncpy (tl b) len else replicate (Suc len) 0)"

fun utf16len :: "u16 list \<Rightarrow> nat" where
  "utf16len [] = 0"
| "utf16len (c # s) = (if c \<noteq> 0 then Suc (utf16len s) else 0)"

lemma utf16to32_shorter: "utf16to32 s = Some (u, s') \<Longrightarrow> at0 s' \<noteq> 0 \<Longrightarrow> length s' < length s"
  by (cases s) (auto simp: utf16to32_def Let_def split: if_splits)

text \<open>The bytes \<^verbatim>\<open>utf16cpy8\<close> writes before the final 0.\<close>

function utf16cpy8 :: "u16 list \<Rightarrow> u8 list result" where
  "utf16cpy8 b =
    (case utf16to32 b of
       None \<Rightarrow> Inl Undefined
     | Some (u, b') \<Rightarrow>
         (case utf32to8 u of
            None \<Rightarrow> Inl Undefined
          | Some bs \<Rightarrow> if at0 b' \<noteq> 0 then andThen (utf16cpy8 b') (\<lambda>r. Inr (bs @ r)) else Inr bs))"
  by auto
termination by (relation "measure length") (auto dest: utf16to32_shorter)

function utf16ncpy8 :: "u16 list \<Rightarrow> nat \<Rightarrow> u8 list result" where
  "utf16ncpy8 b len =
    (if 0 < len \<and> at0 b \<noteq> 0
     then case utf16to32 b of
            None \<Rightarrow> Inl Undefined
          | Some (u, b') \<Rightarrow>
              let n = utf32to8len u
              in if len < n then Inr (replicate len 0)
                 else case utf32to8 u of
                        None \<Rightarrow> Inl Undefined
                      | Some bs \<Rightarrow> andThen (utf16ncpy8 b' (len - n)) (\<lambda>r. Inr (bs @ r))
     else Inr (replicate len 0))"
  by auto
termination
proof (relation "measure (\<lambda>(b, _). length b)", goal_cases)
  case (2 b len x u b' n bs)
  then show ?case by (cases b) (auto simp: utf16to32_def Let_def split: if_splits)
qed simp

declare utf16cmp.simps [simp del] utf16icmp.simps [simp del] utf16cpy8.simps [simp del] utf16ncpy8.simps [simp del]

subsection \<open>UTF-8 there and back\<close>

lemma unat_lt_bit: "unat (u :: 'a::len word) < 2 ^ n \<Longrightarrow> bit u i \<Longrightarrow> i < n"
proof (rule ccontr)
  assume u: "unat u < 2 ^ n" and b: "bit u i" and i: "\<not> i < n"
  have "take_bit n u = u" using u by (rule take_bit_word_small)
  then have "bit (take_bit n u) i" using b by simp
  then show False using i by (simp add: bit_take_bit_iff)
qed

lemma unat_less_bits:
  assumes "\<And>i. bit (u :: 'a::len word) i \<Longrightarrow> i < n"
  shows "unat u < 2 ^ n"
proof -
  have "take_bit n u = u" using assms by (intro bit_word_eqI) (auto simp: bit_take_bit_iff)
  then have "unat u = take_bit n (unat u)" by (metis unsigned_take_bit_eq)
  then show ?thesis by (metis take_bit_nat_less_exp)
qed

lemma and_low6: "unat (ucast (c AND 0x3f :: u8) :: u32) < 2 ^ 6"
proof -
  have m: "(0x3f :: u8) = mask 6" by (simp add: mask_eq_exp_minus_1)
  show ?thesis unfolding m by (rule unat_less_bits) (auto simp: bit_simps)
qed

text \<open>Equality of bytes bit by bit, and of codes below 2 ^ 21.\<close>

lemma all_bits8: "(\<forall>i < 8. P i) \<longleftrightarrow> P 0 \<and> P 1 \<and> P 2 \<and> P 3 \<and> P 4 \<and> P 5 \<and> P 6 \<and> P (7 :: nat)"
proof -
  have "[0..<8] = [0, 1, 2, 3, 4, 5, 6, 7 :: nat]" by (simp add: upt_rec)
  then have "{..<8} = {0, 1, 2, 3, 4, 5, 6, 7 :: nat}" by (metis list.set atLeast_upt list.simps(15) empty_set)
  moreover have "(\<forall>i < 8. P i) \<longleftrightarrow> (\<forall>i \<in> {..<8}. P i)" by auto
  ultimately show ?thesis by simp
qed

lemma u8_eq_bits:
  "x = (y :: u8) \<longleftrightarrow> (bit x 0 = bit y 0) \<and> (bit x 1 = bit y 1) \<and> (bit x 2 = bit y 2) \<and> (bit x 3 = bit y 3)
     \<and> (bit x 4 = bit y 4) \<and> (bit x 5 = bit y 5) \<and> (bit x 6 = bit y 6) \<and> (bit x 7 = bit y 7)"
proof -
  have "x = y \<longleftrightarrow> (\<forall>i < 8. bit x i = bit y i)" by (auto intro: bit_word_eqI)
  then show ?thesis unfolding all_bits8 .
qed

text \<open>A continuation byte carries six bits.\<close>

lemma cont_byte:
  "ucast (0x80 OR (x AND 0x3f :: u32)) AND (0xc0 :: u8) = 0x80"
  "(0x80 :: u8) OR (c AND 0x3f) = c \<longleftrightarrow> c AND 0xc0 = 0x80"
  by (auto simp: u8_eq_bits bit_simps)

lemma cont_value: "ucast (ucast (0x80 OR (x AND 0x3f :: u32)) AND (0x3f :: u8)) = (x AND 0x3f :: u32)"
proof -
  have m: "(0x3f :: u32) = mask 6" "(0x3f :: u8) = mask 6" by (simp_all add: mask_eq_exp_minus_1)
  have "ucast (0x80 OR (x AND 0x3f :: u32)) AND (0x3f :: u8) = ucast (x AND mask 6)"
    unfolding m(1) [symmetric] by (auto simp: u8_eq_bits bit_simps)
  then show ?thesis unfolding m(1) by (intro bit_word_eqI) (auto simp: bit_simps)
qed

lemma word_and_low: "unat (x :: u32) < 2 ^ n \<Longrightarrow> x AND mask n = x"
  by (metis take_bit_eq_mask take_bit_word_small)

lemma join6:
  "push_bit 6 (drop_bit 6 x) OR (x AND 0x3f) = (x :: u32)"
proof -
  have m: "(0x3f :: u32) = mask 6" by (simp add: mask_eq_exp_minus_1)
  show ?thesis unfolding m by (rule bit_word_eqI) (auto simp: bit_simps)
qed

lemma split6:
  assumes "unat v < 2 ^ 26"
  shows "drop_bit 6 (push_bit 6 v OR (c AND 0x3f)) = (v :: u32)" "(push_bit 6 v OR (c AND 0x3f)) AND 0x3f = c AND 0x3f"
proof -
  have m: "(0x3f :: u32) = mask 6" by (simp add: mask_eq_exp_minus_1)
  show "drop_bit 6 (push_bit 6 v OR (c AND 0x3f)) = v"
    unfolding m by (rule bit_word_eqI) (use unat_lt_bit [OF assms] in \<open>auto simp: bit_simps\<close>)
  show "(push_bit 6 v OR (c AND 0x3f)) AND 0x3f = c AND 0x3f"
    unfolding m by (rule bit_word_eqI) (auto simp: bit_simps)
qed

lemma utf8_more_tail: "utf8_more n (drop_bit (6 * n) u) (utf32_tail n u @ rest) = Some (u, rest)"
proof (induction n)
  case (Suc n)
  have "push_bit 6 (drop_bit (6 + 6 * n) u) OR (drop_bit (6 * n) u AND 0x3f) = drop_bit (6 * n) u"
    using join6 [of "drop_bit (6 * n) u"] by (simp add: drop_bit_drop_bit add.commute)
  then show ?case using Suc by (simp add: Let_def cont_byte cont_value)
qed simp

lemma length_utf32_tail [simp]: "length (utf32_tail n u) = n"
  by (induction n) auto

lemma ucast_and_low6: "ucast (c AND 0x3f :: u8) = (ucast (c AND 0x3f) AND 0x3f :: u32)"
proof -
  have m: "(0x3f :: u32) = mask 6" "(0x3f :: u8) = mask 6" by (simp_all add: mask_eq_exp_minus_1)
  show ?thesis unfolding m by (rule bit_word_eqI) (auto simp: bit_simps)
qed

lemma cont_of_value: "c AND 0xc0 = 0x80 \<Longrightarrow> ucast (0x80 OR (ucast (c AND 0x3f :: u8) AND 0x3f :: u32)) = c"
proof -
  assume c: "c AND 0xc0 = 0x80"
  have "ucast (0x80 OR (ucast (c AND 0x3f :: u8) AND 0x3f :: u32)) = (0x80 :: u8) OR (c AND 0x3f)"
    by (auto simp: u8_eq_bits bit_simps)
  then show ?thesis using c cont_byte(2) by simp
qed

lemma utf8_more_inv:
  assumes "utf8_more n v s = Some (u, rest)" "n \<le> 3" "unat v < 2 ^ (26 - 6 * n)"
  shows "drop_bit (6 * n) u = v \<and> s = utf32_tail n u @ rest"
  using assms
proof (induction n arbitrary: v s)
  case (Suc n)
  let ?c = "at0 s"
  let ?v = "push_bit 6 v OR ucast (?c AND 0x3f)"
  have c: "?c AND 0xc0 = 0x80" and more: "utf8_more n ?v (tl s) = Some (u, rest)"
    using Suc.prems(1) by (auto simp: Let_def split: if_splits)
  have v26: "unat v < 2 ^ 26" using Suc.prems(3) by (rule less_le_trans) (rule power_increasing; simp)
  have "unat ?v < 2 ^ (26 - 6 * n)"
  proof (rule unat_less_bits)
    fix i
    assume i: "bit ?v i"
    have "bit (ucast (?c AND 0x3f) :: u32) j \<Longrightarrow> j < 6" for j
      by (rule unat_lt_bit [OF and_low6])
    moreover have "bit v j \<Longrightarrow> j < 26 - 6 * Suc n" for j using unat_lt_bit [OF Suc.prems(3)] .
    ultimately show "i < 26 - 6 * n" using i Suc.prems(2) by (force simp: bit_or_iff bit_push_bit_iff)
  qed
  with Suc.IH [OF more] Suc.prems(2) have ih: "drop_bit (6 * n) u = ?v" "tl s = utf32_tail n u @ rest" by auto
  have d: "drop_bit (6 * Suc n) u = v"
  proof -
    have "drop_bit (6 * Suc n) u = drop_bit 6 (drop_bit (6 * n) u)" by (simp add: drop_bit_drop_bit)
    also have "\<dots> = v" unfolding ih by (subst ucast_and_low6) (rule split6(1) [OF v26])
    finally show ?thesis .
  qed
  have "ucast (0x80 OR (?v AND 0x3f)) = ?c"
  proof -
    have "?v AND 0x3f = ucast (?c AND 0x3f) AND 0x3f"
      by (subst ucast_and_low6) (rule split6(2) [OF v26])
    then show ?thesis using cont_of_value [OF c] by simp
  qed
  moreover have "s = ?c # tl s" using c by (cases s) auto
  ultimately show ?case using d ih by simp
qed simp

lemma lead_bits:
  "(ucast (0xc0 OR x :: u32) :: u8) AND 0x80 \<noteq> 0" "(ucast (0xe0 OR x :: u32) :: u8) AND 0x80 \<noteq> 0"
  "(ucast (0xf0 OR x :: u32) :: u8) AND 0x80 \<noteq> 0"
  "(ucast (0xe0 OR x :: u32) :: u8) AND 0xe0 \<noteq> 0xc0" "(ucast (0xf0 OR x :: u32) :: u8) AND 0xe0 \<noteq> 0xc0"
  "(ucast (0xf0 OR x :: u32) :: u8) AND 0xf0 \<noteq> 0xe0"
  by (auto simp: u8_eq_bits bit_simps)

lemma lead_shape:
  "ucast (0xc0 OR (x AND 0x1f :: u32)) AND (0xe0 :: u8) = 0xc0"
  "ucast (0xe0 OR (x AND 0x0f :: u32)) AND (0xf0 :: u8) = 0xe0"
  "ucast (0xf0 OR (x AND 0x07 :: u32)) AND (0xf8 :: u8) = 0xf0"
  "ucast (0xc0 OR (x AND 0x1f :: u32)) AND (0x1f :: u8) = ucast (x AND 0x1f)"
  "ucast (0xe0 OR (x AND 0x0f :: u32)) AND (0x0f :: u8) = ucast (x AND 0x0f)"
  "ucast (0xf0 OR (x AND 0x07 :: u32)) AND (0x07 :: u8) = ucast (x AND 0x07)"
  by (auto simp: u8_eq_bits bit_simps)

lemma lead_of_value:
  "c AND 0xe0 = 0xc0 \<Longrightarrow> ucast (0xc0 OR ucast (c AND 0x1f) :: u32) = (c :: u8)"
  "c AND 0xf0 = 0xe0 \<Longrightarrow> ucast (0xe0 OR ucast (c AND 0x0f) :: u32) = (c :: u8)"
  "c AND 0xf8 = 0xf0 \<Longrightarrow> ucast (0xf0 OR ucast (c AND 0x07) :: u32) = (c :: u8)"
  by (auto simp: u8_eq_bits bit_simps)

lemma ucast_low_back:
  "ucast (ucast (x AND 0x1f :: u32) :: u8) = (x AND 0x1f)" "ucast (ucast (x AND 0x0f :: u32) :: u8) = (x AND 0x0f)"
  "ucast (ucast (x AND 0x07 :: u32) :: u8) = (x AND 0x07)"
proof -
  have "ucast (ucast (x AND mask n :: u32) :: u8) = (x AND mask n)" if "n \<le> 8" for n
    using that by (intro bit_word_eqI) (auto simp: bit_simps)
  from this [of 5] this [of 4] this [of 3]
  show "ucast (ucast (x AND 0x1f :: u32) :: u8) = (x AND 0x1f)" "ucast (ucast (x AND 0x0f :: u32) :: u8) = (x AND 0x0f)"
    "ucast (ucast (x AND 0x07 :: u32) :: u8) = (x AND 0x07)" by (simp_all add: mask_eq_exp_minus_1)
qed

lemma drop_bit_small:
  assumes "u < 2 ^ (k + n)" "k + n < 32"
  shows "drop_bit k (u :: u32) AND mask n = drop_bit k u"
proof -
  have "unat u < 2 ^ (k + n)"
  proof -
    have "(2 :: nat) ^ (k + n) < 2 ^ 32" by (rule power_strict_increasing) (use assms(2) in simp_all)
    then have "unat (of_nat (2 ^ (k + n)) :: u32) = 2 ^ (k + n)" by (rule unat_of_nat_u32)
    then have "unat ((2 :: u32) ^ (k + n)) = 2 ^ (k + n)" by simp
    then show ?thesis using assms(1) by (simp add: word_less_nat_alt)
  qed
  then have "bit u (k + i) \<Longrightarrow> i < n" for i using unat_lt_bit [of u "k + n" "k + i"] by simp
  then show ?thesis by (intro bit_word_eqI) (auto simp: bit_simps)
qed

lemma utf8_lead_enc:
  "x AND 0x7f = x \<Longrightarrow> utf8_lead (ucast x) = Some (x, 0)"
  "x AND 0x1f = x \<Longrightarrow> utf8_lead (ucast (0xc0 OR x)) = Some (x, 1)"
  "x AND 0x0f = x \<Longrightarrow> utf8_lead (ucast (0xe0 OR x)) = Some (x, 2)"
  "x AND 0x07 = x \<Longrightarrow> utf8_lead (ucast (0xf0 OR x)) = Some (x, 3)"
proof -
  show "utf8_lead (ucast x) = Some (x, 0)" if x: "x AND 0x7f = x"
  proof -
    have m: "(0x7f :: u32) = mask 7" by (simp add: mask_eq_exp_minus_1)
    have "ucast (ucast (x AND 0x7f) :: u8) = x AND 0x7f"
      unfolding m by (rule bit_word_eqI) (auto simp: bit_simps)
    moreover have "(ucast (x AND 0x7f) :: u8) AND 0x80 = 0" by (auto simp: u8_eq_bits bit_simps)
    ultimately show ?thesis unfolding x by (simp add: utf8_lead_def)
  qed
  show "utf8_lead (ucast (0xc0 OR x)) = Some (x, 1)" if x: "x AND 0x1f = x"
    using lead_bits(1) lead_shape(1,4) [of x] ucast_low_back(1) [of x] unfolding x by (simp add: utf8_lead_def)
  show "utf8_lead (ucast (0xe0 OR x)) = Some (x, 2)" if x: "x AND 0x0f = x"
    using lead_bits(2,4) lead_shape(2,5) [of x] ucast_low_back(2) [of x] unfolding x by (simp add: utf8_lead_def)
  show "utf8_lead (ucast (0xf0 OR x)) = Some (x, 3)" if x: "x AND 0x07 = x"
    using lead_bits(3,5,6) lead_shape(3,6) [of x] ucast_low_back(3) [of x] unfolding x by (simp add: utf8_lead_def)
qed

lemma utf8_lead_nz: "utf8_lead c = Some (u, n) \<Longrightarrow> 0 < n \<Longrightarrow> c \<noteq> 0"
  by (auto simp: utf8_lead_def)

lemma utf8_encode_decode:
  assumes "utf32to8 u = Some bs" "u \<noteq> 0"
  shows "utf8to32 (bs @ rest) = Some (u, rest)" "length bs = utf32to8len u" "hd bs \<noteq> 0" "bs \<noteq> []" "u < 0x110000"
proof -
  have sg: "\<not> isSurrogate u" using assms(1) by (auto simp: utf32to8_def)
  have dec: "utf8to32 ((b # utf32_tail n u) @ rest) = Some (u, rest)"
    if "utf8_lead b = Some (drop_bit (6 * n) u, n)" "b \<noteq> 0"
      "\<not> (if u \<le> 0x7f then n \<noteq> 0 else if u \<le> 0x7ff then n \<noteq> 1 else if u \<le> 0xffff then n \<noteq> 2 else False)" for b n
    using that sg utf8_more_tail [of n u rest] by (simp add: utf8to32_def Let_def)
  consider (1) "u < 0x80" | (2) "\<not> u < 0x80" "u < 0x800" | (3) "\<not> u < 0x80" "\<not> u < 0x800" "u < 0x10000"
    | (4) "\<not> u < 0x80" "\<not> u < 0x800" "\<not> u < 0x10000" "u < 0x110000"
    using assms(1) by (auto simp: utf32to8_def split: if_splits)
  then have "utf8to32 (bs @ rest) = Some (u, rest) \<and> length bs = utf32to8len u \<and> hd bs \<noteq> 0 \<and> bs \<noteq> [] \<and> u < 0x110000"
  proof cases
    case 1
    then have m: "u AND 0x7f = u" using drop_bit_small [of u 0 7] by (simp add: mask_eq_exp_minus_1)
    have bs: "bs = ucast u # utf32_tail 0 u" using assms(1) 1 sg by (simp add: utf32to8_def)
    have l: "utf8_lead (ucast u) = Some (drop_bit (6 * 0) u, 0)" using utf8_lead_enc(1) [OF m] by simp
    have nz: "(ucast u :: u8) \<noteq> 0"
    proof
      assume "(ucast u :: u8) = 0"
      then have "utf8_lead 0 = Some (u, 0)" using utf8_lead_enc(1) [OF m] by simp
      then show False using assms(2) by (simp add: utf8_lead_def)
    qed
    have "u \<le> 0x7f" "u < 0x110000" using 1 by (simp_all add: word_less_nat_alt word_le_nat_alt)
    then show ?thesis using dec [OF l nz] bs nz 1 sg by (simp add: utf32to8len_def)
  next
    case 2
    then have m: "drop_bit 6 u AND 0x1f = drop_bit 6 u" using drop_bit_small [of u 6 5] by (simp add: mask_eq_exp_minus_1)
    have bs: "bs = ucast (0xc0 OR drop_bit 6 u) # utf32_tail 1 u" using assms(1) 2 sg by (simp add: utf32to8_def)
    have l: "utf8_lead (ucast (0xc0 OR drop_bit 6 u)) = Some (drop_bit (6 * 1) u, 1)" using utf8_lead_enc(2) [OF m] by simp
    note nz = utf8_lead_nz [OF l zero_less_one]
    have "\<not> u \<le> 0x7f" "u \<le> 0x7ff" "u < 0x110000" using 2 by (simp_all add: word_less_nat_alt word_le_nat_alt)
    then show ?thesis using dec [OF l nz] bs nz 2 sg by (simp add: utf32to8len_def)
  next
    case 3
    then have m: "drop_bit 12 u AND 0x0f = drop_bit 12 u" using drop_bit_small [of u 12 4] by (simp add: mask_eq_exp_minus_1)
    have bs: "bs = ucast (0xe0 OR drop_bit 12 u) # utf32_tail 2 u" using assms(1) 3 sg by (simp add: utf32to8_def)
    have l: "utf8_lead (ucast (0xe0 OR drop_bit 12 u)) = Some (drop_bit (6 * 2) u, 2)" using utf8_lead_enc(3) [OF m] by simp
    note nz = utf8_lead_nz [OF l zero_less_numeral]
    have "\<not> u \<le> 0x7f" "\<not> u \<le> 0x7ff" "u \<le> 0xffff" "u < 0x110000" using 3 by (simp_all add: word_less_nat_alt word_le_nat_alt)
    then show ?thesis using dec [OF l nz] bs nz 3 sg by (simp add: utf32to8len_def)
  next
    case 4
    have "u < 2 ^ (18 + 3)" using 4(4) by (rule less_trans) (simp add: word_less_nat_alt)
    then have m: "drop_bit 18 u AND 0x07 = drop_bit 18 u" using drop_bit_small [of u 18 3] by (simp add: mask_eq_exp_minus_1)
    have bs: "bs = ucast (0xf0 OR drop_bit 18 u) # utf32_tail 3 u" using assms(1) 4 sg by (simp add: utf32to8_def)
    have l: "utf8_lead (ucast (0xf0 OR drop_bit 18 u)) = Some (drop_bit (6 * 3) u, 3)" using utf8_lead_enc(4) [OF m] by simp
    note nz = utf8_lead_nz [OF l zero_less_numeral]
    have "\<not> u \<le> 0x7f" "\<not> u \<le> 0x7ff" "\<not> u \<le> 0xffff" using 4 by (simp_all add: word_less_nat_alt word_le_nat_alt)
    then show ?thesis using dec [OF l nz] bs nz 4 sg by (simp add: utf32to8len_def)
  qed
  then show "utf8to32 (bs @ rest) = Some (u, rest)" "length bs = utf32to8len u" "hd bs \<noteq> 0" "bs \<noteq> []" "u < 0x110000" by blast+
qed

text \<open>What the decoder accepts, one unit at a time.\<close>

lemma utf8_decode_encode:
  assumes "utf8to32 s = Some (u, rest)" "at0 s \<noteq> 0" "u < 0x110000"
  shows "\<exists>bs. utf32to8 u = Some bs \<and> s = bs @ rest \<and> u \<noteq> 0"
proof -
  obtain c t where s: "s = c # t" "c \<noteq> 0" using assms(2) by (cases s) auto
  obtain v n where l: "utf8_lead c = Some (v, n)" using assms(1) s by (auto simp: utf8to32_def Let_def split: option.splits)
  have more: "utf8_more n v t = Some (u, rest)" and sg: "\<not> isSurrogate u"
    and n: "\<not> (if u \<le> 0x7f then n \<noteq> 0 else if u \<le> 0x7ff then n \<noteq> 1 else if u \<le> 0xffff then n \<noteq> 2 else False)"
    using assms(1) s l by (auto simp: utf8to32_def Let_def split: option.splits if_splits)
  have n3: "n \<le> 3" using l by (auto simp: utf8_lead_def split: if_splits)
  have v: "unat v < 2 ^ (6 - n)" if "0 < n"
  proof (rule unat_less_bits)
    fix i
    assume i: "bit v i"
    have m: "(0x1f :: u8) = mask 5" "(0x0f :: u8) = mask 4" "(0x07 :: u8) = mask 3" by (simp_all add: mask_eq_exp_minus_1)
    have "\<exists>k \<le> 6 - n. v = ucast (c AND mask k)"
      using l that by (auto simp: utf8_lead_def m split: if_splits intro: exI [of _ 5] exI [of _ 4] exI [of _ 3])
    then show "i < 6 - n" using i by (auto simp: bit_simps)
  qed
  have tail: "drop_bit (6 * n) u = v \<and> t = utf32_tail n u @ rest"
  proof (cases "n = 0")
    case True
    then show ?thesis using more by simp
  next
    case False
    then have "(2 :: nat) ^ (6 - n) \<le> 2 ^ (26 - 6 * n)" using n3 by (intro power_increasing) auto
    then have "unat v < 2 ^ (26 - 6 * n)" using v False by (metis less_le_trans neq0_conv)
    then show ?thesis by (rule utf8_more_inv [OF more n3])
  qed
  have enc: "s = c # utf32_tail n u @ rest" using s tail by simp
  have ub: "unat u < 2 ^ (6 + 5 * n)" if n0: "0 < n"
  proof (rule unat_less_bits)
    fix i
    assume i: "bit u i"
    show "i < 6 + 5 * n"
    proof (cases "6 * n \<le> i")
      case True
      then have "bit v (i - 6 * n)" using i tail by (auto simp: bit_drop_bit_eq)
      then have "i - 6 * n < 6 - n" by (rule unat_lt_bit [OF v [OF n0]])
      then show ?thesis using True n3 by linarith
    qed (use n3 in linarith)
  qed
  consider "n = 0" | "n = 1" | "n = 2" | "n = 3" using n3 by linarith
  then have "utf32to8 u = Some (c # utf32_tail n u) \<and> u \<noteq> 0"
  proof cases
    case 1
    then have c: "c AND 0x80 = 0" "u = ucast c" using l tail by (auto simp: utf8_lead_def split: if_splits)
    have m: "(0x80 :: u8) = push_bit 7 1" by simp
    have "c = take_bit 7 c" using c(1) by (auto simp: u8_eq_bits bit_simps)
    then have "unat c < 2 ^ 7" by (metis unat_less_bits bit_take_bit_iff)
    then have "u < 0x80" unfolding c(2) by (simp add: word_less_nat_alt unat_ucast_up)
    moreover have uc: "ucast u = c" unfolding c(2) by (rule bit_word_eqI) (auto simp: bit_simps)
    moreover have "u \<noteq> 0" using uc s(2) by auto
    ultimately show ?thesis using sg 1 by (simp add: utf32to8_def)
  next
    case 2
    then have c: "c AND 0xe0 = 0xc0" "v = ucast (c AND 0x1f)" using l by (auto simp: utf8_lead_def split: if_splits)
    have "\<not> u < 0x80" "u < 0x800" using n 2 ub by (auto simp: word_less_nat_alt word_le_nat_alt split: if_splits)
    then show ?thesis using sg 2 tail lead_of_value(1) [OF c(1)] c(2) by (auto simp: utf32to8_def)
  next
    case 3
    then have c: "c AND 0xf0 = 0xe0" "v = ucast (c AND 0x0f)" using l by (auto simp: utf8_lead_def split: if_splits)
    have "\<not> u < 0x80" "\<not> u < 0x800" "u < 0x10000" using n 3 ub by (auto simp: word_less_nat_alt word_le_nat_alt split: if_splits)
    then show ?thesis using sg 3 tail lead_of_value(2) [OF c(1)] c(2) by (auto simp: utf32to8_def)
  next
    case 4
    then have c: "c AND 0xf8 = 0xf0" "v = ucast (c AND 0x07)" using l by (auto simp: utf8_lead_def split: if_splits)
    have "\<not> u < 0x80" "\<not> u < 0x800" "\<not> u < 0x10000" using n 4 by (auto simp: word_less_nat_alt word_le_nat_alt split: if_splits)
    then show ?thesis using sg 4 assms(3) tail lead_of_value(3) [OF c(1)] c(2) by (auto simp: utf32to8_def)
  qed
  then show ?thesis using enc by auto
qed

text \<open>C32: The UTF-8 decoder \<^verbatim>\<open>utf8to32\<close> and encoder \<^verbatim>\<open>utf32to8\<close> are inverse: within the range of
  Unicode the decoder accepts at the head of a string exactly the bytes the encoder writes for a
  code, the shortest form, and no surrogate, and leaves the rest of the string.\<close>

theorem utf8_decodes_encodings:
  "utf8to32 s = Some (u, rest) \<and> at0 s \<noteq> 0 \<and> u < 0x110000
    \<longleftrightarrow> (\<exists>bs. utf32to8 u = Some bs \<and> s = bs @ rest \<and> u \<noteq> 0)"
proof
  show "\<exists>bs. utf32to8 u = Some bs \<and> s = bs @ rest \<and> u \<noteq> 0"
    if "utf8to32 s = Some (u, rest) \<and> at0 s \<noteq> 0 \<and> u < 0x110000"
    using utf8_decode_encode that by blast
  show "utf8to32 s = Some (u, rest) \<and> at0 s \<noteq> 0 \<and> u < 0x110000"
    if a: "\<exists>bs. utf32to8 u = Some bs \<and> s = bs @ rest \<and> u \<noteq> 0"
  proof -
    obtain bs where bs: "utf32to8 u = Some bs" "s = bs @ rest" "u \<noteq> 0" using a by blast
    note e = utf8_encode_decode [OF bs(1,3)]
    have "at0 s \<noteq> 0" using e(3,4) bs(2) by (cases bs) auto
    then show ?thesis using e(1,5) bs(2) by simp
  qed
qed

text \<open>The decoder also accepts four byte sequences above U+10FFFF, which have no UTF-16 form:
  here the bytes f5 80 80 80.\<close>

theorem utf8_beyond_unicode:
  "utf8to32 [0xf5, 0x80, 0x80, 0x80] = Some (0x140000, []) \<and> utf32to16 0x140000 = None \<and> utf32to8 0x140000 = None"
  by code_simp

subsection \<open>UTF-16 there and back\<close>

lemma surrogate_or:
  assumes "unat (x :: u16) < 0x400"
  shows "unat (0xD800 OR x) = 0xD800 + unat x" "unat (0xDC00 OR x) = 0xDC00 + unat x"
    "(0xD800 OR x) AND 0x3ff = x" "(0xDC00 OR x) AND 0x3ff = x"
proof -
  have x: "x = take_bit 10 x" using assms by (simp add: take_bit_word_small)
  have d: "(0xD800 :: u16) = push_bit 10 0x36" "(0xDC00 :: u16) = push_bit 10 0x37" by simp_all
  have oradd: "push_bit 10 y OR take_bit 10 x = push_bit 10 y + take_bit 10 x" for y :: u16
    by (rule disjunctive_add_eq_or [symmetric]) (auto simp: bit_eq_iff bit_simps)
  have p: "0xD800 OR x = 0xD800 + x" "0xDC00 OR x = 0xDC00 + x"
    using oradd [of "0x36"] oradd [of "0x37"] unfolding x [symmetric] d by simp_all
  show "unat (0xD800 OR x) = 0xD800 + unat x" "unat (0xDC00 OR x) = 0xDC00 + unat x"
    unfolding p using assms by (simp_all add: unat_word_ariths)
  have m: "(0x3ff :: u16) = mask 10" by (simp add: mask_eq_exp_minus_1)
  have and10: "(push_bit 10 y OR take_bit 10 x) AND mask 10 = take_bit 10 x" for y :: u16
    by (rule bit_word_eqI) (auto simp: bit_simps)
  show "(0xD800 OR x) AND 0x3ff = x" "(0xDC00 OR x) AND 0x3ff = x"
    using and10 [of "0x36"] and10 [of "0x37"] unfolding x [symmetric] d m by simp_all
qed

lemma and_3ff: "unat (x AND 0x3ff :: u16) < 0x400" "unat (y AND 0x3ff :: u32) < 0x400"
proof -
  have m: "(0x3ff :: u16) = mask 10" "(0x3ff :: u32) = mask 10" "(0x400 :: nat) = 2 ^ 10" by (simp_all add: mask_eq_exp_minus_1)
  show "unat (x AND 0x3ff :: u16) < 0x400" unfolding m by (rule unat_less_bits) (auto simp: bit_simps)
  show "unat (y AND 0x3ff :: u32) < 0x400" unfolding m by (rule unat_less_bits) (auto simp: bit_simps)
qed

lemma join10: "push_bit 10 (drop_bit 10 v) OR (v AND 0x3ff) = (v :: u32)"
proof -
  have m: "(0x3ff :: u32) = mask 10" by (simp add: mask_eq_exp_minus_1)
  show ?thesis unfolding m by (rule bit_word_eqI) (auto simp: bit_simps)
qed

lemma unat_ucast_16: "unat (x :: u32) < 65536 \<Longrightarrow> unat (ucast x :: u16) = unat x"
  by (simp add: unsigned_ucast_eq take_bit_nat_eq_self)

lemma ucast_16_back: "unat (x :: u32) < 65536 \<Longrightarrow> ucast (ucast x :: u16) = x"
  by (simp add: word_unat_eq_iff unat_ucast_up unat_ucast_16)

lemma utf16_encode_decode:
  assumes "utf32to16 u = Some ws" "u \<noteq> 0"
  shows "utf16to32 (ws @ rest) = Some (u, rest)" "at0 (ws @ rest) \<noteq> 0" "ws \<noteq> []" "length ws \<le> 2" "0 \<notin> set ws"
proof -
  have sg: "\<not> isSurrogate u" using assms(1) by (auto simp: utf32to16_def split: if_splits)
  have "utf16to32 (ws @ rest) = Some (u, rest) \<and> at0 (ws @ rest) \<noteq> 0 \<and> ws \<noteq> [] \<and> length ws \<le> 2 \<and> 0 \<notin> set ws"
  proof (cases "u < 0x10000")
    case True
    then have lt: "unat u < 65536" by (simp add: word_less_nat_alt)
    have ws: "ws = [ucast u]" using assms(1) sg True by (simp add: utf32to16_def)
    have b: "ucast (ucast u :: u16) = u" by (rule ucast_16_back [OF lt])
    have nz: "(ucast u :: u16) \<noteq> 0" using b assms(2) by (metis unsigned_0)
    have "\<not> (0xD800 \<le> (ucast u :: u16) \<and> (ucast u :: u16) \<le> 0xDFFF)"
      using sg lt by (simp add: isSurrogate_def word_le_nat_alt unat_ucast_16)
    then show ?thesis using ws b nz by (auto simp: utf16to32_def Let_def not_le)
  next
    case False
    then have le: "u \<le> 0x10FFFF" using assms(1) sg by (auto simp: utf32to16_def split: if_splits)
    define v where "v = u - 0x10000"
    have "unat v = unat u - 0x10000" using False by (simp add: v_def unat_sub word_le_nat_alt not_less)
    then have v: "unat v < 2 ^ 20" using le by (simp add: word_le_nat_alt)
    have hi: "unat (drop_bit 10 v) < 0x400" using v by (simp add: unat_drop_bit_eq drop_bit_eq_div unat_div less_mult_imp_div_less)
    have lo: "unat (v AND 0x3ff) < 0x400" by (rule and_3ff)
    define a b where "a = (ucast (drop_bit 10 v) :: u16)" and "b = (ucast (v AND 0x3ff) :: u16)"
    have ab: "unat a < 0x400" "unat b < 0x400" "ucast a = drop_bit 10 v" "ucast b = v AND 0x3ff"
      using hi lo by (simp_all add: a_def b_def unat_ucast_16 ucast_16_back)
    have ws: "ws = [0xD800 OR a, 0xDC00 OR b]"
      using assms(1) sg False le by (simp add: utf32to16_def a_def b_def v_def Let_def)
    note sa = surrogate_or(1,3) [OF ab(1)] and sb = surrogate_or(2,4) [OF ab(2)]
    have r: "\<not> 0xD800 OR a < 0xD800" "\<not> 0xDFFF < 0xD800 OR a" "0xD800 OR a \<le> 0xDBFF" "0xD800 OR a \<noteq> 0"
      "0xDC00 \<le> 0xDC00 OR b" "0xDC00 OR b \<le> 0xDFFF" "0xDC00 OR b \<noteq> 0"
      using sa(1) sb(1) ab(1,2) by (auto simp: word_less_nat_alt word_le_nat_alt)
    have "(push_bit 10 (drop_bit 10 v) OR (v AND 0x3ff)) + 0x10000 = u" unfolding join10 by (simp add: v_def)
    then have "utf16to32 (ws @ rest) = Some (u, rest)"
      using r unfolding ws by (simp add: utf16to32_def Let_def sa(2) sb(2) ab(3,4))
    then show ?thesis using r ws by auto
  qed
  then show "utf16to32 (ws @ rest) = Some (u, rest)" "at0 (ws @ rest) \<noteq> 0" "ws \<noteq> []" "length ws \<le> 2" "0 \<notin> set ws" by blast+
qed

subsection \<open>Comparing without case\<close>

text \<open>The string a list stands for: its units up to the first 0.\<close>

abbreviation cstr :: "'a::zero list \<Rightarrow> 'a list" where
  "cstr s \<equiv> takeWhile (\<lambda>c. c \<noteq> 0) s"

lemma cstr_at0: "cstr s = (if at0 s = 0 then [] else at0 s # cstr (tl s))"
  by (cases s) auto

lemma utf16icmp_iff:
  "utf16icmp a b = 0 \<longleftrightarrow> map fold16 (cstr a) = map fold16 (cstr b)"
proof (induction a b rule: utf16icmp.induct)
  case (1 a b)
  have f: "ucast (utftolower (ucast c)) = fold16 c" for c by (simp add: fold16_def)
  show ?case
  proof (cases "fold16 (at0 a) = fold16 (at0 b)")
    case True
    then have z: "at0 a = 0 \<longleftrightarrow> at0 b = 0" using fold16_zero by metis
    show ?thesis
    proof (cases "at0 a = 0")
      case True
      then show ?thesis using z by (subst utf16icmp.simps, subst (1 2) cstr_at0) simp
    next
      case False
      have "utf16icmp (tl a) (tl b) = 0 \<longleftrightarrow> map fold16 (cstr (tl a)) = map fold16 (cstr (tl b))"
        using 1 [OF refl refl] True False unfolding f by simp
      then show ?thesis using True False z
        by (subst utf16icmp.simps, subst (1 2) cstr_at0) (simp add: f Let_def)
    qed
  next
    case False
    have "map fold16 (cstr a) \<noteq> map fold16 (cstr b)"
    proof
      assume "map fold16 (cstr a) = map fold16 (cstr b)"
      then have "fold16 (at0 a) = fold16 (at0 b)"
        by (subst (asm) (1 2) cstr_at0) (auto split: if_splits)
      then show False using False by simp
    qed
    then show ?thesis using False by (subst utf16icmp.simps) (simp add: f Let_def)
  qed
qed

text \<open>C33: \<^verbatim>\<open>utf16icmp\<close>, which decides whether two names are the same, returns 0 exactly for strings
  that fold to the same units.\<close>

theorem utf16icmp_equal:
  "utf16icmp a b = 0 \<longleftrightarrow> map fold16 (cstr a) = map fold16 (cstr b)"
  by (rule utf16icmp_iff)

end
