(* ===== verification/FatNames.thy ===== *)
theory FatNames
  imports Utf FatVolume
begin

text \<open>
  The names of the FAT file system (\<^verbatim>\<open>os/fs/fat/fatUtf.cpp\<close>): short names in the OEM
  character set, long names in UTF-16 spread over directory entries, numeric tails, and the
  conversion of path names. Pointers into strings are the rest of the string, as in theory Utf.
\<close>

subsection \<open>Character set\<close>

definition isDelimitor :: "u8 \<Rightarrow> bool" where
  "isDelimitor c = (c = 0x2f \<or> c = 0x5c)"

definition validShortMap :: "u32 list" where
  "validShortMap = [0x00000000, 0xdfc6ffc0, 0xffffffe3, 0x80000016, 0x00000000, 0x00000000, 0x00000000, 0x00000000]"

definition isValidShortChar :: "u8 \<Rightarrow> bool" where
  "isValidShortChar ch = (validShortMap ! (unat ch div 32) AND drop_bit (unat ch mod 32) 0x80000000 \<noteq> 0)"

definition validLongMap :: "u32 list" where
  "validLongMap = [0x00000000, 0xdfdeffd4, 0xfffffff7, 0x80000016, 0x00000000, 0x00000000, 0x00000000, 0x00000000]"

definition isValidLongChar :: "u8 \<Rightarrow> bool" where
  "isValidLongChar ch = (validLongMap ! (unat ch div 32) AND drop_bit (unat ch mod 32) 0x80000000 \<noteq> 0)"

text \<open>The character functions of the C library in the C locale.\<close>

definition c_isupper :: "u16 \<Rightarrow> bool" where "c_isupper c = (0x41 \<le> c \<and> c \<le> 0x5a)"
definition c_islower :: "u16 \<Rightarrow> bool" where "c_islower c = (0x61 \<le> c \<and> c \<le> 0x7a)"
definition c_isdigit :: "u8 \<Rightarrow> bool" where "c_isdigit c = (0x30 \<le> c \<and> c \<le> 0x39)"
definition c_tolower :: "u16 \<Rightarrow> u16" where "c_tolower c = (if c_isupper c then c + 0x20 else c)"
definition c_toupper :: "u16 \<Rightarrow> u16" where "c_toupper c = (if c_islower c then c - 0x20 else c)"

subsection \<open>Short names\<close>

definition strip_spaces :: "u8 list \<Rightarrow> u8 list" where
  "strip_spaces xs = rev (dropWhile (\<lambda>c. c = 0x20) (rev xs))"

definition oem_case :: "bool \<Rightarrow> u8 \<Rightarrow> u16" where
  "oem_case lower c = (if lower then c_tolower (ucast c) else ucast c)"

definition oemtoutf16 :: "u8 list \<Rightarrow> u16 list option" where
  "oemtoutf16 fcb =
    (let main = strip_spaces (take 8 fcb); ext = strip_spaces (take 3 (drop 8 fcb))
     in if main = [] \<or> \<not> list_all isValidShortChar main then None
        else let m = map (oem_case (fcb ! DIR_NTRes AND NTRes_LOWER8 \<noteq> 0)) main
             in if ext = [] then Some m
                else if \<not> list_all isValidShortChar ext then None
                else Some (m @ 0x2e # map (oem_case (fcb ! DIR_NTRes AND NTRes_LOWER3 \<noteq> 0)) ext))"

definition oemCode :: "u16 \<Rightarrow> bool \<Rightarrow> (u8 \<times> bool) result" where
  "oemCode utf16 lossy =
    (if utf16 = 0 then Inr (0, lossy)
     else if utf16 < 0x7f
     then let ch = ucast (c_toupper utf16)
          in if \<not> isValidLongChar ch then Inl (Thrown EACCES)
             else if \<not> isValidShortChar ch then Inr (0x5f, True)
             else Inr (ch, lossy)
     else Inr (0x5f, True))"

text \<open>Whether a part of the name has upper or lower case letters so far: -1, 1, or 0 for neither.\<close>

definition case_step :: "u16 \<Rightarrow> int \<Rightarrow> bool \<Rightarrow> int \<times> bool" where
  "case_step c k lossy =
    (if c_isupper c then (if k \<le> 0 then (- 1, lossy) else (k, True))
     else if c_islower c then (if 0 \<le> k then (1, lossy) else (k, True))
     else (k, lossy))"

lemma andThen_cong [fundef_cong]:
  "m = m' \<Longrightarrow> (\<And>x. m' = Inr x \<Longrightarrow> f x = f' x) \<Longrightarrow> andThen m f = andThen m' f'"
  by (auto simp: andThen_def split: sum.splits)

lemma andThen_Inr: "andThen m f = Inr y \<longleftrightarrow> (\<exists>x. m = Inr x \<and> f x = Inr y)"
  by (cases m) auto

lemma oemCode_0 [simp]: "oemCode 0 lossy = Inr (0, lossy)"
  by (simp add: oemCode_def)

function oem_main :: "u16 list \<Rightarrow> bool \<Rightarrow> int \<Rightarrow> u8 list \<Rightarrow> (u8 \<times> u16 list \<times> bool \<times> int \<times> u8 list) result" where
  "oem_main utf16 lossy case8 oem =
    andThen (oemCode (at0 utf16) lossy) (\<lambda>(ch, lossy).
      if ch = 0 \<or> \<not> length oem < 8 then Inr (ch, utf16, lossy, case8, oem)
      else if ch = 0x20 then oem_main (tl utf16) True case8 oem
      else if ch = 0x2e \<and> oem \<noteq> [] then Inr (ch, utf16, lossy, case8, oem)
      else let (ch, lossy) = (if ch = 0x2e then (0x5f, True) else (ch, lossy));
               (case8, lossy) = (if lossy then (case8, lossy) else case_step (at0 utf16) case8 lossy)
           in oem_main (tl utf16) lossy case8 (oem @ [ch]))"
  by auto
termination
  by (relation "measure (\<lambda>(s, _). length s)") (auto simp: at0_def split: list.splits if_splits)

function oem_skip :: "u16 list \<Rightarrow> bool \<Rightarrow> (u8 \<times> u16 list \<times> bool) result" where
  "oem_skip utf16 lossy =
    andThen (oemCode (at0 utf16) lossy) (\<lambda>(ch, lossy).
      if ch \<noteq> 0 \<and> ch \<noteq> 0x2e then oem_skip (tl utf16) lossy else Inr (ch, tl utf16, lossy))"
  by auto
termination
  by (relation "measure (\<lambda>(s, _). length s)") (auto simp: at0_def split: list.splits if_splits)

function oem_ext :: "u16 list \<Rightarrow> bool \<Rightarrow> int \<Rightarrow> u8 list \<Rightarrow> (u8 \<times> u16 list \<times> bool \<times> int \<times> u8 list) result" where
  "oem_ext utf16 lossy case3 ext =
    andThen (oemCode (at0 utf16) lossy) (\<lambda>(ch, lossy).
      if ch = 0 \<or> ch = 0x2e \<or> \<not> length ext < 3 then Inr (ch, utf16, lossy, case3, ext)
      else let (lossy, ext) = (if ch = 0x20 then (True, ext) else (lossy, ext @ [ch]));
               (case3, lossy) = (if lossy then (case3, lossy) else case_step (at0 utf16) case3 lossy)
           in oem_ext (tl utf16) lossy case3 ext)"
  by auto
termination
  by (relation "measure (\<lambda>(s, _). length s)") (auto simp: at0_def split: list.splits if_splits)

declare oem_main.simps [simp del] oem_skip.simps [simp del] oem_ext.simps [simp del]

lemma oem_skip_shorter: "oem_skip s l = Inr (ch, s', l') \<Longrightarrow> length s' \<le> length s \<and> (ch \<noteq> 0 \<longrightarrow> length s' < length s)"
proof (induction s l arbitrary: ch s' l' rule: oem_skip.induct)
  case (1 s l)
  obtain c l1 where c: "oemCode (at0 s) l = Inr (c, l1)"
    using 1(2) by (subst (asm) oem_skip.simps) (auto simp: andThen_Inr)
  have ne: "s \<noteq> []" if "c \<noteq> 0" using c that by (cases s) auto
  show ?case
  proof (cases "c \<noteq> 0 \<and> c \<noteq> 0x2e")
    case True
    then have "oem_skip (tl s) l1 = Inr (ch, s', l')" using 1(2) c by (subst (asm) oem_skip.simps) simp
    from 1(1) [OF c refl True this] show ?thesis using ne True by (cases s) auto
  next
    case False
    then have "ch = c" "s' = tl s" using 1(2) c by (subst (asm) oem_skip.simps, auto)+
    then show ?thesis using ne by (cases s) auto
  qed
qed

lemma oem_ext_shorter:
  "oem_ext s l k x = Inr (ch, s', l', k', x') \<Longrightarrow> length s' \<le> length s \<and> (ch \<noteq> 0 \<longrightarrow> s' \<noteq> [])"
proof (induction "length s" arbitrary: s l k x rule: less_induct)
  case less
  obtain c l1 where c: "oemCode (at0 s) l = Inr (c, l1)"
    using less(2) by (subst (asm) oem_ext.simps) (auto simp: andThen_Inr)
  show ?case
  proof (cases "c = 0 \<or> c = 0x2e \<or> \<not> length x < 3")
    case True
    then have "ch = c" "s' = s" using less(2) c by (subst (asm) oem_ext.simps, auto)+
    then show ?thesis using c by (cases s) auto
  next
    case False
    then have s: "length (tl s) < length s" using c by (cases s) auto
    define p where "p = (if c = 0x20 then (True, x) else (l1, x @ [c]))"
    define q where "q = (if fst p then (k, fst p) else case_step (at0 s) k (fst p))"
    have "oem_ext (tl s) (snd q) (fst q) (snd p) = Inr (ch, s', l', k', x')"
      using less(2) c False by (subst (asm) oem_ext.simps) (simp add: p_def q_def split: if_splits prod.splits)
    from less(1) [OF s this] show ?thesis using s by auto
  qed
qed

text \<open>The extensions: the last part behind a dot counts, each one before it is dropped.\<close>

function oem_exts :: "u8 \<Rightarrow> u16 list \<Rightarrow> bool \<Rightarrow> int \<Rightarrow> u8 list \<Rightarrow> (bool \<times> int \<times> u8 list) result" where
  "oem_exts ch utf16 lossy case3 ext =
    (if ch = 0 then Inr (lossy, case3, ext)
     else andThen (if ch \<noteq> 0x2e then oem_skip utf16 True else Inr (ch, utf16, lossy)) (\<lambda>(ch, utf16, lossy).
       if ch = 0x2e
       then andThen (oem_ext utf16 (if ext \<noteq> [] then True else lossy) case3 []) (\<lambda>(ch, utf16, lossy, case3, ext).
              oem_exts ch (tl utf16) lossy case3 ext)
       else oem_exts ch utf16 lossy case3 ext))"
  by auto
termination
proof (relation "measure (\<lambda>(ch, s, _). 2 * length s + (if ch = 0 then 0 else 1))", goal_cases)
  case (2 ch s l k x r ch1 p s1 l1 r2 ch2 p2 s2 p3 l2 p4 k2 x2)
  have "length s1 \<le> length s" using 2(1-4) oem_skip_shorter by (auto split: if_splits)
  moreover have "oem_ext s1 (if x \<noteq> [] then True else l1) k [] = Inr (ch2, s2, l2, k2, x2)" using 2(6-10) by simp
  then have "length s2 \<le> length s1" "ch2 \<noteq> 0 \<longrightarrow> s2 \<noteq> []" using oem_ext_shorter by blast+
  ultimately show ?case using 2(1) by (cases s2) auto
next
  case (3 ch s l k x r ch1 p s1 l1)
  then show ?case using oem_skip_shorter by (fastforce split: if_splits)
qed simp

declare oem_exts.simps [simp del]

definition utf16tooem :: "u16 list \<Rightarrow> u8 list \<Rightarrow> (bool \<times> u8 list) result" where
  "utf16tooem utf16 fcb =
    andThen (oem_main utf16 False 0 []) (\<lambda>(ch, utf16, lossy, case8, oem).
    andThen (oem_exts ch utf16 lossy 0 []) (\<lambda>(lossy, case3, ext).
      let main = oem @ replicate (8 - length oem) 0x20;
          ext = ext @ replicate (3 - length ext) 0x20;
          nt = (if lossy then 0
                else (if 0 < case8 then NTRes_LOWER8 else 0) OR (if 0 < case3 then NTRes_LOWER3 else 0))
      in Inr (lossy, main @ ext @ [fcb ! DIR_Attr, nt] @ drop 13 fcb)))"

subsection \<open>Long names\<close>

text \<open>The 13 units of a long name that an entry holds, in order.\<close>

definition ldir_offsets :: "nat list" where
  "ldir_offsets = map (\<lambda>i. LDIR_Name1 + i) [0, 2, 4, 6, 8] @ map (\<lambda>i. LDIR_Name2 + i) [0, 2, 4, 6, 8, 10]
     @ map (\<lambda>i. LDIR_Name3 + i) [0, 2]"

definition assembleLongName :: "u16 list \<Rightarrow> u8 list \<Rightarrow> u16 list" where
  "assembleLongName longName fcb = map (\<lambda>i. ucast (le_word fcb i)) ldir_offsets @ longName"

fun fill_units :: "nat list \<Rightarrow> u8 list \<Rightarrow> u16 list \<Rightarrow> bool \<Rightarrow> u8 list" where
  "fill_units [] fcb longName terminated = fcb"
| "fill_units (i # is) fcb longName terminated =
    (if terminated then fill_units is (le_xword fcb i 0xffff) longName True
     else fill_units is (le_xword fcb i (ucast (at0 longName))) (tl longName) (at0 longName = 0))"

definition fillLongName :: "u8 list \<Rightarrow> u16 list \<Rightarrow> int \<Rightarrow> u8 list result" where
  "fillLongName fcb longName ord =
    (let k = (ord AND NOT (uint LAST_LONG_ENTRY)) - 1
     in if k < 0 then Inl Undefined else Inr (fill_units ldir_offsets fcb (drop (nat k * 13) longName) False))"

subsection \<open>Numeric tails\<close>

text \<open>Scanning digits down from position \<open>s\<close>; the position in front of a tail, if there is one.\<close>

fun trail_loop :: "u8 list \<Rightarrow> nat \<Rightarrow> int \<Rightarrow> int \<Rightarrow> int \<Rightarrow> (int \<times> nat) option" where
  "trail_loop oem 0 n d k = None"
| "trail_loop oem (Suc s) n d k =
    (let c = oem ! Suc s
     in if c_isdigit c then let d = uint c - 0x30 in trail_loop oem s (n + d * k) d (k * 10)
        else if c = 0x7e then (if d = 0 then None else Some (n, s))
        else None)"

fun base_end :: "u8 list \<Rightarrow> nat \<Rightarrow> nat option" where
  "base_end oem 0 = (if oem ! 0 = 0x20 then None else Some 0)"
| "base_end oem (Suc s) = (if oem ! Suc s = 0x20 then base_end oem s else Some (Suc s))"

definition getNumericTrail :: "u8 list \<Rightarrow> (int \<times> nat) result" where
  "getNumericTrail oem =
    (case base_end oem 7 of
       None \<Rightarrow> Inl Undefined
     | Some e \<Rightarrow> Inr (case trail_loop oem e 0 0 1 of Some r \<Rightarrow> r | None \<Rightarrow> (0, e)))"

definition getNumericTrailOf :: "u8 list \<Rightarrow> u8 list \<Rightarrow> int result" where
  "getNumericTrailOf oem fcb =
    (if take 3 (drop 8 oem) \<noteq> take 3 (drop 8 fcb) then Inr 0
     else andThen (getNumericTrail fcb) (\<lambda>(n2, o2).
       if n2 = 0 then Inr 0
       else andThen (getNumericTrail oem) (\<lambda>(_, o1).
         if o1 < o2 \<and> oem ! 7 = 0x20 then Inr 0
         else if o2 < o1 \<and> fcb ! 7 = 0x20 then Inr 0
         else let n = min o1 o2 + 1
              in if take n oem \<noteq> take n fcb then Inr 0 else Inr n2)))"

function num_digits :: "int \<Rightarrow> nat" where
  "num_digits d = (if d \<le> 0 then 0 else Suc (num_digits (d div 10)))"
  by auto
termination by (relation "measure nat") auto

text \<open>Digits are written from position \<open>t\<close> down, then the tilde.\<close>

function put_digits :: "u8 list \<Rightarrow> nat \<Rightarrow> int \<Rightarrow> u8 list" where
  "put_digits oem t n = (if n \<le> 0 then oem[t := 0x7e] else put_digits (oem[t := word_of_int (0x30 + n mod 10)]) (t - 1) (n div 10))"
  by auto
termination by (relation "measure (\<lambda>(_, _, n). nat n)") auto

declare num_digits.simps [simp del] put_digits.simps [simp del]

definition setNumericTrail :: "u8 list \<Rightarrow> int \<Rightarrow> u8 list result" where
  "setNumericTrail oem n =
    ensuring (0 < n \<and> n < 1000000)
     (andThen (getNumericTrail oem) (\<lambda>(_, e).
       Inr (put_digits oem (min 7 (e + 1 + num_digits n)) n)))"

subsection \<open>Path names\<close>

text \<open>Which name is meant: the long name of the entries, or the short name.\<close>

definition isEqual :: "u16 list \<Rightarrow> u16 list \<Rightarrow> u8 list \<Rightarrow> bool" where
  "isEqual fileName fcbName fcb =
    (if utf16icmp fileName fcbName = 0 then True
     else case oemtoutf16 fcb of Some oemName \<Rightarrow> utf16icmp fileName oemName = 0 | None \<Rightarrow> False)"

definition utf16toutf8 :: "u16 list \<Rightarrow> u8 list result" where
  "utf16toutf8 utf16 = utf16cpy8 utf16"

lemma utf8_more_shorter: "utf8_more n u s = Some (v, s') \<Longrightarrow> length s' \<le> length s"
proof (induction n arbitrary: u s)
  case (Suc n)
  then have "utf8_more n (push_bit 6 u OR ucast (at0 s AND 63)) (tl s) = Some (v, s')"
    by (simp add: Let_def split: if_splits)
  from Suc.IH [OF this] show ?case by simp
qed simp

lemma utf8to32_shorter: "utf8to32 s = Some (u, s') \<Longrightarrow> at0 s \<noteq> 0 \<Longrightarrow> length s' < length s"
  using utf8_more_shorter
  by (cases s) (fastforce simp: utf8to32_def Let_def less_Suc_eq_le split: option.splits prod.splits if_splits)+

lemma utf8to32_end: "at0 s = 0 \<Longrightarrow> utf8to32 s = Some (0, s)"
  by (simp add: utf8to32_def utf8_lead_def isSurrogate_def)

text \<open>\<open>w\<close> holds the units written so far. When the conversion of a character fails the variable
  \<^verbatim>\<open>utf32\<close> is not set; \<^verbatim>\<open>utf8toutf16\<close> then throws whatever it holds, in \<^verbatim>\<open>splitPath\<close> its
  value is the parameter \<open>g\<close>.\<close>

function utf8toutf16_loop :: "u8 list \<Rightarrow> u16 list \<Rightarrow> u16 list result" where
  "utf8toutf16_loop utf8 w =
    (case utf8to32 utf8 of
       None \<Rightarrow> Inl (Thrown ENAMETOOLONG)
     | Some (u, utf8') \<Rightarrow>
         (case utf32to16 u of
            None \<Rightarrow> Inl Undefined
          | Some ws \<Rightarrow>
              if at0 utf8' \<noteq> 0 \<and> length (w @ ws) < 255 then utf8toutf16_loop utf8' (w @ ws)
              else if at0 utf8' \<noteq> 0 then Inl (Thrown ENAMETOOLONG)
              else Inr (w @ ws)))"
  by auto
termination
proof (relation "measure (\<lambda>(s, _). length s)", goal_cases)
  case (2 s w x u s' ws)
  then show ?case using utf8to32_shorter utf8to32_end by (cases "at0 s = 0") fastforce+
qed simp

definition utf8toutf16 :: "u8 list \<Rightarrow> u16 list result" where
  "utf8toutf16 utf8 = utf8toutf16_loop utf8 []"

function splitPath_loop :: "u32 \<Rightarrow> u8 list \<Rightarrow> u16 list \<Rightarrow> (u8 list option \<times> u16 list) result" where
  "splitPath_loop g utf8 w =
    (if at0 utf8 = 0 then Inr (Some utf8, w)
     else if isDelimitor (at0 utf8) then Inr (Some (dropWhile isDelimitor (tl utf8)), w)
     else case utf8to32 utf8 of
            None \<Rightarrow> (case utf32to16 g of None \<Rightarrow> Inl Undefined | Some ws \<Rightarrow> Inr (None, w @ ws))
          | Some (u, utf8') \<Rightarrow>
              (case utf32to16 u of None \<Rightarrow> Inl Undefined | Some ws \<Rightarrow> splitPath_loop g utf8' (w @ ws)))"
  by auto
termination
  by (relation "measure (\<lambda>(_, s, _). length s)") (auto dest: utf8to32_shorter)

definition splitPath :: "u32 \<Rightarrow> u8 list \<Rightarrow> (u8 list option \<times> u16 list) result" where
  "splitPath g utf8 = splitPath_loop g utf8 []"

declare utf8toutf16_loop.simps [simp del] splitPath_loop.simps [simp del]

subsection \<open>Converting names between UTF-8 and UTF-16\<close>

lemma utf16_decode_encode:
  assumes "utf16to32 s = Some (u, rest)" "at0 s \<noteq> 0"
  shows "\<exists>ws. utf32to16 u = Some ws \<and> s = ws @ rest \<and> u \<noteq> 0 \<and> ws \<noteq> []"
proof -
  obtain c t where s: "s = c # t" "c \<noteq> 0" using assms(2) by (cases s) auto
  show ?thesis
  proof (cases "c < 0xD800 \<or> 0xDFFF < c")
    case True
    then have u: "u = ucast c" "rest = t" using assms(1) s by (auto simp: utf16to32_def Let_def)
    have n: "unat u = unat c" by (simp add: u unat_ucast_up)
    have "unat c < 65536" using unsigned_less [of c] by simp
    then have "u < 0x10000" by (simp add: word_less_nat_alt n)
    moreover have "\<not> isSurrogate u"
      using True by (auto simp: isSurrogate_def word_le_nat_alt word_less_nat_alt n)
    moreover have "ucast u = c" unfolding u by (rule bit_word_eqI) (auto simp: bit_simps)
    moreover have "u \<noteq> 0" using calculation(3) s(2) by auto
    ultimately show ?thesis using s u by (simp add: utf32to16_def)
  next
    case False
    then have hi: "0xD800 \<le> c" "c \<le> 0xDBFF" using assms(1) s by (auto simp: utf16to32_def Let_def split: if_splits)
    then have lo: "0xDC00 \<le> at0 t" "at0 t \<le> 0xDFFF"
      and u: "u = (push_bit 10 (ucast (c AND 0x03ff)) OR ucast (at0 t AND 0x03ff)) + 0x10000" "rest = tl t"
      using assms(1) s False by (auto simp: utf16to32_def Let_def split: if_splits)
    obtain d r where t: "t = d # r" using lo by (cases t) auto
    define a b where "a = c AND 0x3ff" and "b = d AND 0x3ff"
    have ab: "unat a < 0x400" "unat b < 0x400" using and_3ff by (simp_all add: a_def b_def)
    have c: "c = 0xD800 OR a"
    proof -
      define x where "x = c - 0xD800"
      have "unat x = unat c - 0xD800" using hi by (simp add: x_def unat_sub)
      then have "unat x < 0x400" using hi by (simp add: word_le_nat_alt)
      note sx = surrogate_or [OF this]
      have "unat (0xD800 OR x) = unat c" unfolding sx(1) \<open>unat x = _\<close> using hi by (simp add: word_le_nat_alt)
      then have "c = 0xD800 OR x" by (simp add: word_unat_eq_iff)
      then show ?thesis using sx(3) by (simp add: a_def)
    qed
    have d: "d = 0xDC00 OR b"
    proof -
      define x where "x = d - 0xDC00"
      have "unat x = unat d - 0xDC00" using lo t by (simp add: x_def unat_sub)
      then have "unat x < 0x400" using lo t by (simp add: word_le_nat_alt)
      note sx = surrogate_or [OF this]
      have "unat (0xDC00 OR x) = unat d" unfolding sx(2) \<open>unat x = _\<close> using lo t by (simp add: word_le_nat_alt)
      then have "d = 0xDC00 OR x" by (simp add: word_unat_eq_iff)
      then show ?thesis using sx(4) by (simp add: b_def)
    qed
    define v :: u32 where "v = push_bit 10 (ucast a) OR ucast b"
    have v: "drop_bit 10 v = ucast a" "v AND 0x3ff = ucast b"
    proof -
      have bb: "bit b i \<Longrightarrow> i < 10" "bit a i \<Longrightarrow> i < 10" for i
        using unat_lt_bit [of b 10] unat_lt_bit [of a 10] ab by simp_all
      have nb: "\<not> bit b (10 + i)" for i using bb(1) [of "10 + i"] by auto
      have m: "(0x3ff :: u32) = mask 10" by (simp add: mask_eq_exp_minus_1)
      show "drop_bit 10 v = ucast a" unfolding v_def by (rule bit_word_eqI) (auto simp: bit_simps nb dest: bb)
      show "v AND 0x3ff = ucast b" unfolding v_def m by (rule bit_word_eqI) (auto simp: bit_simps dest: bb)
    qed
    have v20: "unat v < 2 ^ 20"
    proof (rule unat_less_bits)
      fix i
      assume i: "bit v i"
      have "bit a j \<Longrightarrow> j < 10" "bit b j \<Longrightarrow> j < 10" for j
        using unat_lt_bit [of a 10] unat_lt_bit [of b 10] ab by simp_all
      then show "i < 20" using i by (force simp: v_def bit_simps)
    qed
    have u': "u = v + 0x10000" using u(1) t by (simp add: v_def a_def b_def)
    have un: "unat u = unat v + 0x10000" using v20 by (simp add: u' unat_word_ariths)
    have "\<not> isSurrogate u" "\<not> u < 0x10000" "u \<le> 0x10FFFF" "u \<noteq> 0"
      using un v20 by (auto simp: isSurrogate_def word_le_nat_alt word_less_nat_alt)
    moreover have "u - 0x10000 = v" by (simp add: u')
    moreover have "ucast (ucast a :: u32) = a" "ucast (ucast b :: u32) = b"
      by (rule bit_word_eqI; auto simp: bit_simps)+
    ultimately show ?thesis using s t u(2) c d v by (simp add: utf32to16_def Let_def)
  qed
qed

lemma utf16cpy8_back:
  assumes "utf16cpy8 s = Inr bs" "at0 s \<noteq> 0" "0 \<notin> set s" "length w + length s \<le> 255"
  shows "utf8toutf16_loop bs w = Inr (w @ s) \<and> at0 bs \<noteq> 0"
  using assms
proof (induction s arbitrary: bs w rule: utf16cpy8.induct)
  case (1 s)
  obtain u s' where d: "utf16to32 s = Some (u, s')"
    using 1(2) by (subst (asm) utf16cpy8.simps) (auto split: option.splits)
  obtain ws where ws: "utf32to16 u = Some ws" "s = ws @ s'" "u \<noteq> 0" "ws \<noteq> []"
    using utf16_decode_encode [OF d 1(3)] by blast
  obtain b where b: "utf32to8 u = Some b"
    using 1(2) d by (subst (asm) utf16cpy8.simps) (auto split: option.splits)
  note e = utf8_encode_decode [OF b ws(3)]
  have dec: "utf8to32 (b @ r) = Some (u, r)" for r by (rule e(1))
  have hd: "at0 (b @ r) \<noteq> 0" for r using e(3,4) by (cases b) auto
  show ?case
  proof (cases "at0 s' = 0")
    case True
    then have "s' = []" using 1(4) ws(2) by (cases s') auto
    moreover have "bs = b" using 1(2) d b True by (subst (asm) utf16cpy8.simps) simp
    ultimately show ?thesis using dec [of "[]"] hd [of "[]"] ws by (subst utf8toutf16_loop.simps) simp
  next
    case False
    obtain r where r: "utf16cpy8 s' = Inr r" "bs = b @ r"
      using 1(2) d b False by (subst (asm) utf16cpy8.simps) (auto simp: andThen_Inr)
    have "0 \<notin> set s'" "length (w @ ws) + length s' \<le> 255" using 1(4,5) ws(2) by auto
    from 1(1) [OF d refl b False r(1) False this]
    have ih: "utf8toutf16_loop r (w @ ws) = Inr ((w @ ws) @ s')" "at0 r \<noteq> 0" by auto
    have "s' \<noteq> []" using False by auto
    then have "length (w @ ws) < 255" using 1(5) ws(2) by (cases s') auto
    then show ?thesis
      using ih r(2) dec [of r] hd [of r] ws by (subst utf8toutf16_loop.simps) simp
  qed
qed

text \<open>C27: A name that \<^verbatim>\<open>utf16toutf8\<close> converts to UTF-8, of at most 255 units, is converted back
  by \<^verbatim>\<open>utf8toutf16\<close> to the same name; the names an iterator shows can be looked up again.\<close>

theorem name_conversion_roundtrip:
  assumes "utf16toutf8 s = Inr bs" "s \<noteq> []" "0 \<notin> set s" "length s \<le> 255"
  shows "utf8toutf16 bs = Inr s"
proof -
  have "at0 s \<noteq> 0" using assms(2,3) by (cases s) auto
  then show ?thesis using utf16cpy8_back [of s bs "[]"] assms by (simp add: utf16toutf8_def utf8toutf16_def)
qed

lemma name_conversion_roundtrip_witness:
  "utf16toutf8 [0x61, 0xe9, 0x3042, 0xd83d, 0xde00] = Inr [0x61, 0xc3, 0xa9, 0xe3, 0x81, 0x82, 0xf0, 0x9f, 0x98, 0x80]
   \<and> utf8toutf16 [0x61, 0xc3, 0xa9, 0xe3, 0x81, 0x82, 0xf0, 0x9f, 0x98, 0x80] = Inr [0x61, 0xe9, 0x3042, 0xd83d, 0xde00]"
proof -
  have "utf16toutf8 [0x61, 0xe9, 0x3042, 0xd83d, 0xde00] = Inr [0x61, 0xc3, 0xa9, 0xe3, 0x81, 0x82, 0xf0, 0x9f, 0x98, 0x80]"
    by code_simp
  with name_conversion_roundtrip [OF this] show ?thesis by simp
qed

text \<open>The limit in \<^verbatim>\<open>utf8toutf16\<close> is too late by one: a last character outside the basic plane
  may leave 256 units, so that the terminating 0 is written behind the array of 256 units that
  the callers provide.\<close>

theorem utf8toutf16_overruns:
  "\<exists>w. utf8toutf16 (replicate 254 0x61 @ [0xf0, 0x9f, 0x98, 0x80]) = Inr w \<and> length w = 256"
proof -
  have a: "utf8toutf16_loop (replicate n 0x61 @ [0xf0, 0x9f, 0x98, 0x80]) w = Inr (w @ replicate n 0x61 @ [0xd83d, 0xde00])"
    if "length w + n = 254" for n w
    using that
  proof (induction n arbitrary: w)
    case 0
    have "utf8to32 [0xf0, 0x9f, 0x98, 0x80] = Some (0x1f600, [])" "utf32to16 0x1f600 = Some [0xd83d, 0xde00]" by code_simp+
    then show ?case by (subst utf8toutf16_loop.simps) simp
  next
    case (Suc n)
    have "utf8to32 (0x61 # r) = Some (0x61, r)" for r by (simp add: utf8to32_def utf8_lead_def isSurrogate_def)
    moreover have "utf32to16 0x61 = Some [0x61]" by code_simp
    moreover have "at0 (replicate n 0x61 @ [0xf0, 0x9f, 0x98, 0x80]) \<noteq> (0 :: u8)" by (cases n) auto
    ultimately show ?case using Suc by (subst utf8toutf16_loop.simps) simp
  qed
  show ?thesis using a [of "[]" 254] by (simp add: utf8toutf16_def)
qed

subsection \<open>Short names that lose nothing\<close>

lemma utf16icmp_refl: "utf16icmp s s = 0"
proof (induction "length s" arbitrary: s rule: less_induct)
  case less
  then show ?case by (cases s) (simp_all add: utf16icmp.simps Let_def)
qed

definition up :: "u16 \<Rightarrow> u8" where "up c = ucast (c_toupper c)"

text \<open>A character of a short name, and the case of a part given by its letters.\<close>

definition plain :: "u16 \<Rightarrow> bool" where
  "plain c \<longleftrightarrow> c \<noteq> 0 \<and> c < 0x7f \<and> up c \<noteq> 0x20 \<and> up c \<noteq> 0x2e \<and> isValidShortChar (up c)"

definition casing :: "int \<Rightarrow> int \<Rightarrow> u16 list \<Rightarrow> bool" where
  "casing k k' p \<longleftrightarrow> (k' = 1 \<and> 0 \<le> k \<and> (\<forall>c \<in> set p. \<not> c_isupper c))
     \<or> (k' = - 1 \<and> k \<le> 0 \<and> (\<forall>c \<in> set p. \<not> c_islower c))
     \<or> (k' = 0 \<and> k = 0 \<and> (\<forall>c \<in> set p. \<not> c_isupper c \<and> \<not> c_islower c))"

lemma oemCode_kept:
  assumes "oemCode c l = Inr (ch, l')" "\<not> l'"
  shows "\<not> l" "c = 0 \<longleftrightarrow> ch = 0" "c \<noteq> 0 \<Longrightarrow> c < 0x7f \<and> ch = up c \<and> isValidShortChar ch"
proof -
  have z: "\<not> isValidShortChar 0" by code_simp
  show "\<not> l" "c = 0 \<longleftrightarrow> ch = 0" "c \<noteq> 0 \<Longrightarrow> c < 0x7f \<and> ch = up c \<and> isValidShortChar ch"
    using assms z by (auto simp: oemCode_def Let_def up_def split: if_splits)
qed

lemma oemCode_lossy: "oemCode c True = Inr (ch, l) \<Longrightarrow> l"
  by (auto simp: oemCode_def Let_def split: if_splits)

lemma up_ascii:
  assumes "c < 0x7f"
  shows "\<not> c_islower c \<Longrightarrow> ucast (up c) = c" "\<not> c_isupper c \<Longrightarrow> c_tolower (ucast (up c)) = c"
    "up c = 0x2e \<longleftrightarrow> c = 0x2e" "up c = 0x20 \<longleftrightarrow> c = 0x20"
proof -
  have n: "unat c < 127" using assms by (simp add: word_less_nat_alt)
  have t: "unat (c_toupper c) = (if c_islower c then unat c - 32 else unat c)"
    by (auto simp: c_toupper_def c_islower_def word_le_nat_alt unat_sub)
  then have u: "unat (up c) = (if c_islower c then unat c - 32 else unat c)"
    using n by (simp add: up_def unsigned_ucast_eq take_bit_nat_eq_self)
  have w: "unat (ucast (up c) :: u16) = (if c_islower c then unat c - 32 else unat c)"
    using u by (simp add: unat_ucast_up)
  show "ucast (up c) = c" if "\<not> c_islower c" using w that by (simp add: word_unat_eq_iff)
  show "c_tolower (ucast (up c)) = c" if "\<not> c_isupper c"
  proof (cases "c_islower c")
    case True
    then have l: "97 \<le> unat c" "unat c \<le> 122" by (auto simp: c_islower_def word_le_nat_alt)
    then have "65 \<le> unat c - 32" "unat c - 32 \<le> 90" by linarith+
    then have "c_isupper (ucast (up c))" using w True by (simp add: c_isupper_def word_le_nat_alt)
    moreover have "unat (ucast (up c) + 0x20 :: u16) = unat c" using w True l by (simp add: unat_word_ariths)
    ultimately show ?thesis by (simp add: c_tolower_def word_unat_eq_iff)
  next
    case False
    then have "ucast (up c) = c" using w by (simp add: word_unat_eq_iff)
    then show ?thesis using that by (simp add: c_tolower_def)
  qed
  show "up c = 0x2e \<longleftrightarrow> c = 0x2e" "up c = 0x20 \<longleftrightarrow> c = 0x20"
    using u by (auto simp: word_unat_eq_iff c_islower_def word_le_nat_alt)
qed

lemma case_step_kept:
  assumes "case_step c k False = (k', False)" "casing k' k'' p" "k \<in> {- 1, 0, 1}"
  shows "casing k k'' (c # p)" "k' \<in> {- 1, 0, 1}"
proof -
  have "\<not> (c_isupper c \<and> c_islower c)" by (auto simp: c_isupper_def c_islower_def word_le_nat_alt)
  then show "casing k k'' (c # p)" "k' \<in> {- 1, 0, 1}"
    using assms by (auto simp: case_step_def casing_def split: if_splits)
qed

lemma casing_restores:
  assumes "casing 0 k p" "\<forall>c \<in> set p. c < 0x7f"
  shows "map (oem_case (0 < k)) (map up p) = p"
proof -
  have "oem_case (0 < k) (up c) = c" if "c \<in> set p" for c
    using assms that up_ascii [of c] by (auto simp: casing_def oem_case_def)
  then show ?thesis by (simp add: map_idI)
qed

lemma oem_main_kept:
  assumes "oem_main s l k oem = Inr (ch, s', l', k', oem')" "\<not> l'" "k \<in> {- 1, 0, 1}"
  shows "\<not> l \<and> (\<exists>p. s = p @ s' \<and> oem' = oem @ map up p \<and> list_all plain p \<and> casing k k' p)
    \<and> (ch = 0 \<and> at0 s' = 0 \<or> ch = 0x2e \<and> at0 s' = 0x2e \<and> oem' \<noteq> [] \<or> ch \<noteq> 0 \<and> 8 \<le> length oem') \<and> k' \<in> {- 1, 0, 1}
    \<and> (length oem \<le> 8 \<longrightarrow> length oem' \<le> 8) \<and> (ch = 0x2e \<longrightarrow> at0 s' = 0x2e)"
  using assms
proof (induction "length s" arbitrary: s l k oem rule: less_induct)
  case less
  obtain c l1 where c: "oemCode (at0 s) l = Inr (c, l1)"
    using less.prems(1) by (subst (asm) oem_main.simps) (auto simp: andThen_Inr)
  show ?case
  proof (cases "c = 0 \<or> \<not> length oem < 8 \<or> c = 0x2e \<and> oem \<noteq> []")
    case True
    then have r: "ch = c" "s' = s" "l' = l1" "k' = k" "oem' = oem"
      using less.prems(1) c by (subst (asm) oem_main.simps, auto split: if_splits)+
    note k = oemCode_kept [OF c]
    have "casing k k []" using less.prems(3) by (auto simp: casing_def)
    moreover have "c = 0x2e \<Longrightarrow> at0 s = 0x2e" using k less.prems(2) r(3) up_ascii(3) [of "at0 s"] by (cases "at0 s = 0") auto
    ultimately show ?thesis using True k less.prems(2,3) r by auto
  next
    case False
    then have s: "at0 s \<noteq> 0" "length (tl s) < length s" using c by (cases s; auto)+
    show ?thesis
    proof (cases "c = 0x20")
      case True
      then have r: "oem_main (tl s) True k oem = Inr (ch, s', l', k', oem')"
        using less.prems(1) c False by (subst (asm) oem_main.simps) simp
      then show ?thesis using less.hyps [OF s(2) r] less.prems(2,3) by blast
    next
      case nsp: False
      show ?thesis
      proof (cases "c = 0x2e \<or> l1")
        case True
        have r: "oem_main (tl s) True k (oem @ [if c = 0x2e then 0x5f else c]) = Inr (ch, s', l', k', oem')"
          using less.prems(1) c False nsp True by (subst (asm) oem_main.simps) (auto split: if_splits)
        then show ?thesis using less.hyps [OF s(2) r] less.prems(2,3) by blast
      next
        case keep: False
        obtain k1 l2 where ks: "case_step (at0 s) k l1 = (k1, l2)" by fastforce
        have r: "oem_main (tl s) l2 k1 (oem @ [c]) = Inr (ch, s', l', k', oem')"
          using less.prems(1) c False nsp keep ks by (subst (asm) oem_main.simps) (auto split: if_splits)
        have k1: "k1 \<in> {- 1, 0, 1}" using ks less.prems(3) by (auto simp: case_step_def split: if_splits)
        from less.hyps [OF s(2) r less.prems(2) k1] obtain p where p: "\<not> l2" "tl s = p @ s'" "oem' = (oem @ [c]) @ map up p"
          "list_all plain p" "casing k1 k' p" "k' \<in> {- 1, 0, 1}"
          "ch = 0 \<and> at0 s' = 0 \<or> ch = 0x2e \<and> at0 s' = 0x2e \<and> oem' \<noteq> [] \<or> ch \<noteq> 0 \<and> 8 \<le> length oem'"
          "length (oem @ [c]) \<le> 8 \<longrightarrow> length oem' \<le> 8" "ch = 0x2e \<longrightarrow> at0 s' = 0x2e" by blast
        have ck: "at0 s < 0x7f" "c = up (at0 s)" "isValidShortChar c" "\<not> l"
          using oemCode_kept [OF c] keep s(1) by auto
        have "plain (at0 s)" using ck False nsp keep s(1) by (auto simp: plain_def)
        moreover have "casing k k' (at0 s # p)" using case_step_kept(1) [OF _ p(5) less.prems(3)] ks keep p(1) by simp
        moreover have "s = (at0 s # p) @ s'" using p(2) s(1) by (cases s) auto
        ultimately show ?thesis using p ck False by (intro conjI exI [of _ "at0 s # p"]) auto
      qed
    qed
  qed
qed

lemma oem_skip_lossy: "oem_skip s True = Inr (ch, s', l) \<Longrightarrow> l"
proof (induction "length s" arbitrary: s rule: less_induct)
  case less
  obtain c l1 where c: "oemCode (at0 s) True = Inr (c, l1)"
    using less.prems by (subst (asm) oem_skip.simps) (auto simp: andThen_Inr)
  have l1: "l1" by (rule oemCode_lossy [OF c])
  show ?case
  proof (cases "c \<noteq> 0 \<and> c \<noteq> 0x2e")
    case True
    then have "oem_skip (tl s) True = Inr (ch, s', l)" using less.prems c l1 by (subst (asm) oem_skip.simps) simp
    moreover have "length (tl s) < length s" using True c by (cases s) auto
    ultimately show ?thesis using less.hyps by blast
  next
    case False
    then show ?thesis using less.prems c l1 by (subst (asm) oem_skip.simps) auto
  qed
qed

lemma oem_ext_kept:
  assumes "oem_ext s l k ext = Inr (ch, s', l', k', ext')" "\<not> l'" "k \<in> {- 1, 0, 1}"
  shows "\<not> l \<and> (\<exists>p. s = p @ s' \<and> ext' = ext @ map up p \<and> list_all plain p \<and> casing k k' p)
    \<and> (ch = 0 \<and> at0 s' = 0 \<or> ch = 0x2e \<and> at0 s' = 0x2e \<or> ch \<noteq> 0 \<and> 3 \<le> length ext') \<and> k' \<in> {- 1, 0, 1}
    \<and> (length ext \<le> 3 \<longrightarrow> length ext' \<le> 3)"
  using assms
proof (induction "length s" arbitrary: s l k ext rule: less_induct)
  case less
  obtain c l1 where c: "oemCode (at0 s) l = Inr (c, l1)"
    using less.prems(1) by (subst (asm) oem_ext.simps) (auto simp: andThen_Inr)
  show ?case
  proof (cases "c = 0 \<or> c = 0x2e \<or> \<not> length ext < 3")
    case True
    then have r: "ch = c" "s' = s" "l' = l1" "k' = k" "ext' = ext"
      using less.prems(1) c by (subst (asm) oem_ext.simps, auto split: if_splits)+
    note k = oemCode_kept [OF c]
    have "casing k k []" using less.prems(3) by (auto simp: casing_def)
    moreover have "c = 0x2e \<Longrightarrow> at0 s = 0x2e" using k less.prems(2) r(3) up_ascii(3) [of "at0 s"] by (cases "at0 s = 0") auto
    ultimately show ?thesis using True k less.prems(2,3) r by auto
  next
    case False
    then have s: "at0 s \<noteq> 0" "length (tl s) < length s" using c by (cases s; auto)+
    show ?thesis
    proof (cases "c = 0x20 \<or> l1")
      case True
      have r: "oem_ext (tl s) True k (if c = 0x20 then ext else ext @ [c]) = Inr (ch, s', l', k', ext')"
        using less.prems(1) c False True by (subst (asm) oem_ext.simps) (auto split: if_splits)
      then show ?thesis using less.hyps [OF s(2) r] less.prems(2,3) by blast
    next
      case keep: False
      obtain k1 l2 where ks: "case_step (at0 s) k l1 = (k1, l2)" by fastforce
      have r: "oem_ext (tl s) l2 k1 (ext @ [c]) = Inr (ch, s', l', k', ext')"
        using less.prems(1) c False keep ks by (subst (asm) oem_ext.simps) (auto split: if_splits)
      have k1: "k1 \<in> {- 1, 0, 1}" using ks less.prems(3) by (auto simp: case_step_def split: if_splits)
      from less.hyps [OF s(2) r less.prems(2) k1] obtain p where p: "\<not> l2" "tl s = p @ s'" "ext' = (ext @ [c]) @ map up p"
        "list_all plain p" "casing k1 k' p" "k' \<in> {- 1, 0, 1}"
        "ch = 0 \<and> at0 s' = 0 \<or> ch = 0x2e \<and> at0 s' = 0x2e \<or> ch \<noteq> 0 \<and> 3 \<le> length ext'"
        "length (ext @ [c]) \<le> 3 \<longrightarrow> length ext' \<le> 3" by blast
      have ck: "at0 s < 0x7f" "c = up (at0 s)" "isValidShortChar c" "\<not> l"
        using oemCode_kept [OF c] keep s(1) by auto
      have "plain (at0 s)" using ck False keep s(1) by (auto simp: plain_def)
      moreover have "casing k k' (at0 s # p)" using case_step_kept(1) [OF _ p(5) less.prems(3)] ks keep p(1) by simp
      moreover have "s = (at0 s # p) @ s'" using p(2) s(1) by (cases s) auto
      ultimately show ?thesis using p ck False by (intro conjI exI [of _ "at0 s # p"]) auto
    qed
  qed
qed

lemma oem_ext_lossy: "oem_ext s True k ext = Inr (ch, s', l', k', ext') \<Longrightarrow> l'"
proof (induction "length s" arbitrary: s k ext rule: less_induct)
  case less
  obtain c l1 where c: "oemCode (at0 s) True = Inr (c, l1)"
    using less.prems(1) by (subst (asm) oem_ext.simps) (auto simp: andThen_Inr)
  have l1: "l1" by (rule oemCode_lossy [OF c])
  show ?case
  proof (cases "c = 0 \<or> c = 0x2e \<or> \<not> length ext < 3")
    case True
    then show ?thesis using less.prems c l1 by (subst (asm) oem_ext.simps) auto
  next
    case False
    then have s: "length (tl s) < length s" using c by (cases s) auto
    have "oem_ext (tl s) True k (if c = 0x20 then ext else ext @ [c]) = Inr (ch, s', l', k', ext')"
      using less.prems(1) c False l1 by (subst (asm) oem_ext.simps) (auto split: if_splits)
    then show ?thesis using less.hyps [OF s] by blast
  qed
qed

lemma oem_exts_lossy: "oem_exts ch s True k ext = Inr (l', k', ext') \<Longrightarrow> l'"
proof (induction "2 * length s + (if ch = 0 then 0 else 1)" arbitrary: ch s k ext rule: less_induct)
  case less
  show ?case
  proof (cases "ch = 0")
    case True
    then show ?thesis using less.prems by (simp add: oem_exts.simps)
  next
    case False
    obtain ch1 s1 l1 where 1: "(if ch \<noteq> 0x2e then oem_skip s True else Inr (ch, s, True)) = Inr (ch1, s1, l1)"
      using less.prems False by (subst (asm) oem_exts.simps) (auto simp: andThen_Inr split: if_splits)
    have l1: "l1" using 1 oem_skip_lossy by (auto split: if_splits)
    have le: "length s1 \<le> length s" "ch1 \<noteq> 0 \<longrightarrow> ch1 \<noteq> 0x2e \<longrightarrow> length s1 < length s"
      using 1 oem_skip_shorter by (auto split: if_splits)
    show ?thesis
    proof (cases "ch1 = 0x2e")
      case True
      obtain ch2 s2 l2 k2 x2 where 2: "oem_ext s1 True k [] = Inr (ch2, s2, l2, k2, x2)"
        "oem_exts ch2 (tl s2) l2 k2 x2 = Inr (l', k', ext')"
        using less.prems False 1 True l1 by (subst (asm) oem_exts.simps) (auto simp: andThen_Inr split: if_splits)
      have "2 * length (tl s2) + (if ch2 = 0 then 0 else 1) < 2 * length s + (if ch = 0 then 0 else 1)"
        using oem_ext_shorter [OF 2(1)] le(1) False by (cases s2) auto
      then show ?thesis using less.hyps [of "tl s2" ch2 k2 x2] 2(2) oem_ext_lossy [OF 2(1)] by simp
    next
      case ndot: False
      have "oem_exts ch1 s1 l1 k ext = Inr (l', k', ext')"
        using less.prems False 1 ndot by (subst (asm) oem_exts.simps) (auto simp: andThen_Inr split: if_splits)
      then show ?thesis using less.hyps [of s1 ch1 k ext] le l1 False ndot by (cases "ch1 = 0") auto
    qed
  qed
qed

lemma oem_exts_after_loss:
  "oem_ext s True k x = Inr (ch, s', l', k', x') \<Longrightarrow> oem_exts ch t l' k' x' = Inr (l'', k'', x'') \<Longrightarrow> l''"
  by (metis (full_types) oem_ext_lossy oem_exts_lossy)

lemma oemCode_dot: "oemCode 0x2e l = Inr (0x2e, l)"
  by (cases l) code_simp+

lemma oem_exts_kept:
  assumes "oem_exts 0x2e (0x2e # t) False 0 [] = Inr (False, k', ext')" "0x2e \<notin> set t"
  shows "\<exists>q r. t = q @ r \<and> at0 r = 0 \<and> ext' = map up q \<and> list_all plain q \<and> casing 0 k' q \<and> length q \<le> 3"
proof -
  have "oem_ext (0x2e # t) False 0 [] = Inr (0x2e, 0x2e # t, False, 0, [])"
    by (subst oem_ext.simps) (simp add: oemCode_dot)
  then have "oem_exts 0x2e t False 0 [] = Inr (False, k', ext')"
    using assms(1) by (subst (asm) oem_exts.simps) simp
  then obtain ch3 s3 l3 k3 x3 where 3: "oem_ext t False 0 [] = Inr (ch3, s3, l3, k3, x3)"
    "oem_exts ch3 (tl s3) l3 k3 x3 = Inr (False, k', ext')"
    by (subst (asm) oem_exts.simps) (auto simp: andThen_Inr)
  have l3: "\<not> l3" using 3(2) oem_exts_lossy by (cases l3) auto
  from oem_ext_kept [OF 3(1) l3] obtain q where q: "t = q @ s3" "x3 = map up q" "list_all plain q" "casing 0 k3 q"
    "ch3 = 0 \<and> at0 s3 = 0 \<or> ch3 = 0x2e \<and> at0 s3 = 0x2e \<or> ch3 \<noteq> 0 \<and> 3 \<le> length x3" "length x3 \<le> 3" by auto
  have nd: "at0 s3 \<noteq> 0x2e" using assms(2) q(1) by (cases s3) auto
  have "ch3 = 0"
  proof (rule ccontr)
    assume nz: "ch3 \<noteq> 0"
    then have three: "3 \<le> length x3" using q(5) nd by auto
    then have x3: "x3 \<noteq> []" by auto
    show False
    proof (cases "ch3 = 0x2e")
      case True
      obtain ch4 s4 l4 k4 x4 where "oem_ext (tl s3) True k3 [] = Inr (ch4, s4, l4, k4, x4)"
        "oem_exts ch4 (tl s4) l4 k4 x4 = Inr (False, k', ext')"
        using 3(2) nz True x3 by (subst (asm) oem_exts.simps) (auto simp: andThen_Inr)
      then show False using oem_exts_after_loss by blast
    next
      case False
      obtain ch1 s1 l1 where 1: "oem_skip (tl s3) True = Inr (ch1, s1, l1)"
        using 3(2) nz False by (subst (asm) oem_exts.simps) (auto simp: andThen_Inr)
      have l1: "l1" by (rule oem_skip_lossy [OF 1])
      show False
      proof (cases "ch1 = 0x2e")
        case True
        obtain ch4 s4 l4 k4 x4 where "oem_ext s1 True k3 [] = Inr (ch4, s4, l4, k4, x4)"
          "oem_exts ch4 (tl s4) l4 k4 x4 = Inr (False, k', ext')"
          using 3(2) nz False 1 True x3 by (subst (asm) oem_exts.simps) (auto simp: andThen_Inr)
        then show False using oem_exts_after_loss by blast
      next
        case nd: False
        have "oem_exts ch1 s1 True k3 x3 = Inr (False, k', ext')"
          using 3(2) nz False 1 nd l1 by (subst (asm) oem_exts.simps) (auto simp: andThen_Inr)
        then show False using oem_exts_lossy by blast
      qed
    qed
  qed
  then have "k' = k3" "ext' = x3" "at0 s3 = 0" using 3(2) l3 q(5) by (auto simp: oem_exts.simps)
  then show ?thesis using q by auto
qed

lemma strip_padded: "xs = [] \<or> last xs \<noteq> 0x20 \<Longrightarrow> strip_spaces (xs @ replicate n 0x20) = xs"
proof -
  assume a: "xs = [] \<or> last xs \<noteq> 0x20"
  have "dropWhile (\<lambda>c. c = 0x20) (replicate n (0x20 :: u8) @ rev xs) = rev xs"
    using a by (induction n) (auto simp: dropWhile_eq_self_iff hd_rev)
  then show ?thesis by (simp add: strip_spaces_def)
qed

lemma plain_up:
  assumes "list_all plain p"
  shows "p = [] \<or> last (map up p) \<noteq> 0x20" "list_all isValidShortChar (map up p)" "\<forall>c \<in> set p. c < 0x7f"
  using assms last_in_set [of p] by (auto simp: list_all_iff plain_def last_map)

lemma short_name_kept:
  assumes "utf16tooem name fcb = Inr (False, f)" "name \<noteq> []" "0 \<notin> set name"
    and "length (filter (\<lambda>c. c = 0x2e) name) \<le> 1" "last name \<noteq> 0x2e"
  shows "oemtoutf16 f = Some name"
proof -
  obtain ch s l k8 main k3 ext where m: "oem_main name False 0 [] = Inr (ch, s, l, k8, main)"
    "oem_exts ch s l 0 [] = Inr (False, k3, ext)"
    and f: "f = (main @ replicate (8 - length main) 0x20) @ (ext @ replicate (3 - length ext) 0x20)
        @ [fcb ! DIR_Attr, (if 0 < k8 then 0x08 else 0) OR (if 0 < k3 then 0x10 else 0)] @ drop 13 fcb"
    using assms(1) by (auto simp: utf16tooem_def andThen_Inr Let_def)
  have l: "\<not> l" using m(2) oem_exts_lossy by (cases l) auto
  have k0: "(0 :: int) \<in> {- 1, 0, 1}" by simp
  from oem_main_kept [OF m(1) l k0] obtain p where p: "name = p @ s" "main = [] @ map up p" "list_all plain p" "casing 0 k8 p"
    "ch = 0 \<and> at0 s = 0 \<or> ch = 0x2e \<and> at0 s = 0x2e \<and> main \<noteq> [] \<or> ch \<noteq> 0 \<and> 8 \<le> length main"
    "length ([] :: u8 list) \<le> 8 \<longrightarrow> length main \<le> 8" "ch = 0x2e \<longrightarrow> at0 s = 0x2e" by blast
  have main: "main = map up p" "length main \<le> 8" using p(2,6) by simp_all
  have end0: "at0 t = 0 \<longleftrightarrow> t = []" if "set t \<subseteq> set name" for t using that assms(3) by (cases t) auto
  have "\<exists>q. name = p @ (if q = [] then [] else 0x2e # q) \<and> ext = map up q \<and> list_all plain q \<and> casing 0 k3 q
      \<and> length q \<le> 3 \<and> p \<noteq> []"
  proof (cases "ch = 0")
    case True
    then have "s = []" using p(1,5) end0 [of s] by auto
    moreover have "k3 = 0" "ext = []" using m(2) True by (simp_all add: oem_exts.simps)
    ultimately show ?thesis using p(1) assms(2) by (intro exI [of _ "[]"]) (simp add: casing_def)
  next
    case nz: False
    have dot: "ch = 0x2e"
    proof (rule ccontr)
      assume nd: "ch \<noteq> 0x2e"
      obtain ch1 s1 l1 where 1: "oem_skip s True = Inr (ch1, s1, l1)"
        using m(2) nz nd by (subst (asm) oem_exts.simps) (auto simp: andThen_Inr)
      have l1: "l1" by (rule oem_skip_lossy [OF 1])
      show False
      proof (cases "ch1 = 0x2e")
        case True
        obtain ch4 s4 l4 k4 x4 where "oem_ext s1 True 0 [] = Inr (ch4, s4, l4, k4, x4)"
          "oem_exts ch4 (tl s4) l4 k4 x4 = Inr (False, k3, ext)"
          using m(2) nz nd 1 True l1 by (subst (asm) oem_exts.simps) (auto simp: andThen_Inr)
        then show False using oem_exts_after_loss by blast
      next
        case False
        have "oem_exts ch1 s1 True 0 [] = Inr (False, k3, ext)"
          using m(2) nz nd 1 False l1 by (subst (asm) oem_exts.simps) (auto simp: andThen_Inr)
        then show False using oem_exts_lossy by blast
      qed
    qed
    have "at0 s = 0x2e" "main \<noteq> []" using dot p(5,7) by auto
    then obtain t where t: "s = 0x2e # t" "p \<noteq> []" using main(1) by (cases s) auto
    have nd: "0x2e \<notin> set t" using assms(4) p(1) t(1) by (auto simp: filter_empty_conv)
    from oem_exts_kept [OF m(2) [unfolded dot t(1), simplified l, unfolded simp_thms] nd] l
    obtain q r where q: "t = q @ r" "at0 r = 0" "ext = map up q" "list_all plain q" "casing 0 k3 q" "length q \<le> 3" by auto
    have "r = []" using end0 [of r] q(1,2) t(1) p(1) by auto
    moreover have "q \<noteq> []" using assms(5) p(1) t(1) q(1) calculation by auto
    ultimately show ?thesis using q p(1) t by (intro exI [of _ q]) auto
  qed
  then obtain q where q: "name = p @ (if q = [] then [] else 0x2e # q)" "ext = map up q" "list_all plain q" "casing 0 k3 q"
    "length q \<le> 3" "p \<noteq> []" by blast
  let ?nt = "(if 0 < k8 then 0x08 else 0) OR (if 0 < k3 then 0x10 else 0) :: u8"
  have t: "take 8 f = main @ replicate (8 - length main) 0x20" "take 3 (drop 8 f) = ext @ replicate (3 - length ext) 0x20"
    "f ! DIR_NTRes = ?nt"
  proof -
    have l: "length (main @ replicate (8 - length main) 0x20) = 8" "length (ext @ replicate (3 - length ext) 0x20) = 3"
      using main(2) q(2,5) by simp_all
    show "take 8 f = main @ replicate (8 - length main) 0x20" "take 3 (drop 8 f) = ext @ replicate (3 - length ext) 0x20"
      "f ! DIR_NTRes = ?nt"
      unfolding f using l by (simp_all only: take_append drop_append nth_append) simp_all
  qed
  have st: "strip_spaces (take 8 f) = map up p" "strip_spaces (take 3 (drop 8 f)) = map up q"
    unfolding t main(1) q(2) using plain_up(1) [OF p(3)] plain_up(1) [OF q(3)] by (auto intro: strip_padded)
  have nt: "?nt AND 0x08 \<noteq> 0 \<longleftrightarrow> 0 < k8" "?nt AND 0x10 \<noteq> 0 \<longleftrightarrow> 0 < k3" by auto
  have restore: "map (oem_case (0 < k8)) (map up p) = p" "map (oem_case (0 < k3)) (map up q) = q"
    using casing_restores [OF p(4) plain_up(3) [OF p(3)]] casing_restores [OF q(4) plain_up(3) [OF q(3)]] by simp_all
  show ?thesis
    unfolding oemtoutf16_def Let_def st t(3) nt restore
    using q(1,6) plain_up(2) [OF p(3)] plain_up(2) [OF q(3)] by simp
qed

text \<open>Every name gives bytes that are no control characters, and no marks of a free entry.\<close>

definition oem_char :: "u8 \<Rightarrow> bool" where
  "oem_char c \<longleftrightarrow> c \<noteq> 0 \<and> c < 0x80"

lemma validShort_ascii: "isValidShortChar c \<Longrightarrow> c < 0x80"
proof (rule ccontr)
  assume v: "isValidShortChar c" and "\<not> c < 0x80"
  then have "128 \<le> unat c" by (simp add: word_less_nat_alt)
  then have "4 \<le> unat c div 32" by linarith
  moreover have "unat c div 32 < 8" by (simp add: less_mult_imp_div_less)
  ultimately have "unat c div 32 \<in> {4, 5, 6, 7}" by auto
  then have "validShortMap ! (unat c div 32) = 0" by (auto simp: validShortMap_def)
  then show False using v by (simp add: isValidShortChar_def)
qed

lemma oemCode_char: "oemCode c l = Inr (ch, l') \<Longrightarrow> ch \<noteq> 0 \<Longrightarrow> oem_char ch"
  using validShort_ascii by (auto simp: oemCode_def oem_char_def Let_def split: if_splits)

lemma oem_main_chars:
  "oem_main s l k x = Inr (ch, s', l', k', x') \<Longrightarrow> list_all oem_char x \<and> length x \<le> 8 \<Longrightarrow> list_all oem_char x' \<and> length x' \<le> 8"
proof (induction "length s" arbitrary: s l k x rule: less_induct)
  case less
  obtain c l1 where c: "oemCode (at0 s) l = Inr (c, l1)"
    using less.prems(1) by (subst (asm) oem_main.simps) (auto simp: andThen_Inr)
  show ?case
  proof (cases "c = 0 \<or> \<not> length x < 8 \<or> c = 0x2e \<and> x \<noteq> []")
    case True
    then show ?thesis using less.prems c by (subst (asm) oem_main.simps) (auto split: if_splits)
  next
    case False
    then have s: "length (tl s) < length s" using c by (cases s) auto
    have "oem_char c" "oem_char 0x5f" using oemCode_char [OF c] False by (auto simp: oem_char_def)
    moreover obtain l2 k2 y where "oem_main (tl s) l2 k2 y = Inr (ch, s', l', k', x')" "y = x \<or> y = x @ [c] \<or> y = x @ [0x5f]"
      using less.prems(1) c False by (subst (asm) oem_main.simps) (auto simp: Let_def split: if_splits prod.splits)
    ultimately show ?thesis using less.hyps [OF s] less.prems(2) False by (auto simp: list_all_append)
  qed
qed

lemma oem_ext_chars:
  "oem_ext s l k x = Inr (ch, s', l', k', x') \<Longrightarrow> list_all oem_char x \<and> length x \<le> 3 \<Longrightarrow> list_all oem_char x' \<and> length x' \<le> 3"
proof (induction "length s" arbitrary: s l k x rule: less_induct)
  case less
  obtain c l1 where c: "oemCode (at0 s) l = Inr (c, l1)"
    using less.prems(1) by (subst (asm) oem_ext.simps) (auto simp: andThen_Inr)
  show ?case
  proof (cases "c = 0 \<or> c = 0x2e \<or> \<not> length x < 3")
    case True
    then show ?thesis using less.prems c by (subst (asm) oem_ext.simps) auto
  next
    case False
    then have s: "length (tl s) < length s" using c by (cases s) auto
    have "oem_char c" using oemCode_char [OF c] False by simp
    moreover obtain l2 k2 y where "oem_ext (tl s) l2 k2 y = Inr (ch, s', l', k', x')" "y = x \<or> y = x @ [c]"
      using less.prems(1) c False by (subst (asm) oem_ext.simps) (auto simp: Let_def split: if_splits prod.splits)
    ultimately show ?thesis using less.hyps [OF s] less.prems(2) False by (auto simp: list_all_append)
  qed
qed

lemma oem_exts_chars:
  "oem_exts ch s l k x = Inr (l', k', x') \<Longrightarrow> list_all oem_char x \<and> length x \<le> 3 \<Longrightarrow> list_all oem_char x' \<and> length x' \<le> 3"
proof (induction "2 * length s + (if ch = 0 then 0 else 1)" arbitrary: ch s l k x rule: less_induct)
  case less
  show ?case
  proof (cases "ch = 0")
    case True
    then show ?thesis using less.prems by (simp add: oem_exts.simps)
  next
    case False
    obtain ch1 s1 l1 where 1: "(if ch \<noteq> 0x2e then oem_skip s True else Inr (ch, s, l)) = Inr (ch1, s1, l1)"
      using less.prems False by (subst (asm) oem_exts.simps) (auto simp: andThen_Inr split: if_splits)
    have le: "length s1 \<le> length s" "ch1 \<noteq> 0 \<longrightarrow> ch1 \<noteq> 0x2e \<longrightarrow> length s1 < length s"
      using 1 oem_skip_shorter by (auto split: if_splits)
    show ?thesis
    proof (cases "ch1 = 0x2e")
      case True
      obtain l0 ch2 s2 l2 k2 x2 where 2: "oem_ext s1 l0 k [] = Inr (ch2, s2, l2, k2, x2)"
        "oem_exts ch2 (tl s2) l2 k2 x2 = Inr (l', k', x')"
        using less.prems False 1 True by (subst (asm) oem_exts.simps) (auto simp: andThen_Inr split: if_splits)
      have "2 * length (tl s2) + (if ch2 = 0 then 0 else 1) < 2 * length s + (if ch = 0 then 0 else 1)"
        using oem_ext_shorter [OF 2(1)] le(1) False by (cases s2) auto
      then show ?thesis using less.hyps [of "tl s2" ch2 l2 k2 x2] 2(2) oem_ext_chars [OF 2(1)] by simp
    next
      case ndot: False
      have "oem_exts ch1 s1 l1 k x = Inr (l', k', x')"
        using less.prems False 1 ndot by (subst (asm) oem_exts.simps) (auto simp: andThen_Inr split: if_splits)
      then show ?thesis using less.hyps [of s1 ch1 l1 k x] less.prems(2) le False ndot by (cases "ch1 = 0") auto
    qed
  qed
qed

lemma utf16tooem_bytes:
  assumes "utf16tooem w g = Inr (lossy, f)" "length g = 32"
  shows "length f = 32" "f ! 0 \<noteq> 0" "f ! 0 < 0x80"
proof -
  obtain ch s l k8 main k3 ext where m: "oem_main w False 0 [] = Inr (ch, s, l, k8, main)"
    "oem_exts ch s l 0 [] = Inr (lossy, k3, ext)"
    and f: "f = (main @ replicate (8 - length main) 0x20) @ (ext @ replicate (3 - length ext) 0x20)
        @ [g ! DIR_Attr, (if lossy then 0 else (if 0 < k8 then 0x08 else 0) OR (if 0 < k3 then 0x10 else 0))] @ drop 13 g"
    using assms(1) by (auto simp: utf16tooem_def andThen_Inr Let_def)
  have c: "list_all oem_char main" "length main \<le> 8" "length ext \<le> 3"
    using oem_main_chars [OF m(1)] oem_exts_chars [OF m(2)] by simp_all
  show "length f = 32" using c assms(2) by (simp add: f)
  have "oem_char (f ! 0)" using c by (cases main) (simp_all add: f oem_char_def nth_append)
  then show "f ! 0 \<noteq> 0" "f ! 0 < 0x80" by (simp_all add: oem_char_def)
qed

text \<open>C25: A name that \<^verbatim>\<open>utf16tooem\<close> turns into a short name without loss, with at most one dot and
  none at its end, is what \<^verbatim>\<open>oemtoutf16\<close> reads back from the entry, letters in their case; so
  \<^verbatim>\<open>isEqual\<close> finds the entry under the name it was created with.\<close>

theorem short_name_roundtrip:
  assumes "utf16tooem name fcb = Inr (False, f)" "name \<noteq> []" "0 \<notin> set name"
    and "length (filter (\<lambda>c. c = 0x2e) name) \<le> 1" "last name \<noteq> 0x2e"
  shows "oemtoutf16 f = Some name \<and> isEqual name longName f"
  using short_name_kept [OF assms] by (simp add: isEqual_def utf16icmp_refl)

lemma short_name_roundtrip_witness:
  "\<exists>f. utf16tooem [0x72, 0x65, 0x61, 0x64, 0x6d, 0x65, 0x2e, 0x54, 0x58, 0x54] (replicate 32 0) = Inr (False, f)
    \<and> oemtoutf16 f = Some [0x72, 0x65, 0x61, 0x64, 0x6d, 0x65, 0x2e, 0x54, 0x58, 0x54]"
proof -
  have r: "utf16tooem [0x72, 0x65, 0x61, 0x64, 0x6d, 0x65, 0x2e, 0x54, 0x58, 0x54] (replicate 32 0) = Inr (False,
    [0x52, 0x45, 0x41, 0x44, 0x4d, 0x45, 0x20, 0x20, 0x54, 0x58, 0x54, 0, 0x08] @ replicate 19 0)" by code_simp
  show ?thesis using short_name_roundtrip [OF r, of "[]"] r by simp
qed

text \<open>Two dots in a row, or one at the end, are not seen as a loss: the entry made for
  \<open>a..b\<close> reads back as \<open>a.b\<close> and is not found under the name it was created with.\<close>

theorem double_dot_lost:
  "\<exists>f. utf16tooem [0x61, 0x2e, 0x2e, 0x62] (replicate 32 0) = Inr (False, f) \<and> oemtoutf16 f = Some [0x61, 0x2e, 0x62]
    \<and> \<not> isEqual [0x61, 0x2e, 0x2e, 0x62] [0x61, 0x2e, 0x62] f"
proof -
  have 1: "utf16tooem [0x61, 0x2e, 0x2e, 0x62] (replicate 32 0) = Inr (False,
      [0x41, 0x20, 0x20, 0x20, 0x20, 0x20, 0x20, 0x20, 0x42, 0x20, 0x20, 0, 0x18] @ replicate 19 0)" by code_simp
  have 2: "oemtoutf16 ([0x41, 0x20, 0x20, 0x20, 0x20, 0x20, 0x20, 0x20, 0x42, 0x20, 0x20, 0, 0x18] @ replicate 19 0)
      = Some [0x61, 0x2e, 0x62]" by code_simp
  have "utf16icmp [0x61, 0x2e, 0x2e, 0x62] [0x61, 0x2e, 0x62] \<noteq> 0" by (simp add: utf16icmp_iff)
  then show ?thesis using 1 2 by (simp add: isEqual_def)
qed

subsection \<open>Long names\<close>

text \<open>The units an entry shows for the rest \<open>l\<close> of a name.\<close>

fun units :: "nat \<Rightarrow> u16 list \<Rightarrow> bool \<Rightarrow> u16 list" where
  "units 0 l t = []"
| "units (Suc n) l t = (if t then 0xffff # units n l True else at0 l # units n (tl l) (at0 l = 0))"

lemma length_le_xword' [simp]: "length (le_xword p i v) = length p"
  by (rule le16.length_put)

lemma length_fill_units [simp]: "length (fill_units is f l t) = length f"
  by (induction "is" f l t rule: fill_units.induct) auto

lemma fill_units_other: "\<forall>i \<in> set is. j + 2 \<le> i \<Longrightarrow> le_word (fill_units is f l t) j = le_word f j"
  by (induction "is" f l t rule: fill_units.induct) (auto simp: le16.get_put_other)

lemma ucast_take16: "(ucast (take_bit 16 (ucast (c :: u16)) :: u32) :: u16) = c"
  by (rule bit_word_eqI) (auto simp: bit_simps)

lemma fill_units_read:
  "sorted_wrt (\<lambda>i j. i + 2 \<le> j) is \<Longrightarrow> \<forall>i \<in> set is. i + 2 \<le> length f \<Longrightarrow>
   map (\<lambda>i. ucast (le_word (fill_units is f l t) i)) is = units (length is) l t"
proof (induction "is" f l t rule: fill_units.induct)
  case (2 i "is" f l t)
  have w: "ucast (le_word (fill_units is (le_xword f i (ucast c)) l' t') i) = (c :: u16)" for c l' t'
    using 2(3,4) by (simp add: fill_units_other le16.get_put_same ucast_take16)
  from w [of "0xffff"] have w': "ucast (le_word (fill_units is (le_xword f i 0xffff) l' t') i) = (0xffff :: u16)" for l' t'
    by simp
  show ?case using 2 w w' by auto
qed simp

lemma ldir_offsets: "ldir_offsets = [1, 3, 5, 7, 9, 14, 16, 18, 20, 22, 24, 28, 30]"
  by (simp add: ldir_offsets_def)

lemma units_text:
  "0 \<notin> set l \<Longrightarrow> units n l False = take n (l @ 0 # replicate n 0xffff)"
proof -
  have t: "units n l True = replicate n 0xffff" for n l by (induction n arbitrary: l) auto
  show "0 \<notin> set l \<Longrightarrow> units n l False = take n (l @ 0 # replicate n 0xffff)"
  proof (induction n arbitrary: l)
    case (Suc n)
    show ?case
    proof (cases l)
      case Nil
      have "take n (0xffff # replicate n 0xffff) = (replicate n 0xffff :: u16 list)"
        by (subst replicate_Suc [symmetric], subst take_replicate) simp
      then show ?thesis using t Nil by simp
    next
      case (Cons c l')
      then have "units n l' False = take n (l' @ 0 # replicate n 0xffff)" using Suc by simp
      also have "\<dots> = take n (l' @ 0 # replicate (Suc n) 0xffff)"
        by (cases "n - length l'") (simp_all add: take_append take_replicate min_def del: replicate_Suc)
      finally show ?thesis using Suc.prems Cons by simp
    qed
  qed simp
qed

lemma ord_bits:
  assumes "k < 64"
  shows "int k AND NOT 64 = int k" "(int k OR 64) AND NOT 64 = int k"
proof -
  have s: "(64 :: int) = push_bit 6 1" by simp
  have b: "bit (64 :: int) m \<longleftrightarrow> m = 6" for m by (simp only: s bit_push_bit_iff bit_1_iff) auto
  have "int k = take_bit 6 (int k)" using assms by (simp add: take_bit_int_eq_self)
  then have nk: "bit (int k) m \<longrightarrow> m < 6" for m by (metis bit_take_bit_iff)
  show "int k AND NOT 64 = int k"
    by (rule bit_eqI, simp only: bit_and_iff bit_or_iff bit_not_iff b) (use nk [of 6] in auto)
  show "(int k OR 64) AND NOT 64 = int k"
    by (rule bit_eqI, simp only: bit_and_iff bit_or_iff bit_not_iff b) (use nk [of 6] in auto)
qed

lemma fill_assemble:
  assumes "length f = 32" "0 < k" "k < 64" "0 \<notin> set name" "ord = int k \<or> ord = int k OR 64"
  shows "\<exists>e. fillLongName f name ord = Inr e
    \<and> assembleLongName l e = take 13 (drop ((k - 1) * 13) name @ 0 # replicate 13 0xffff) @ l"
proof -
  have o: "ord AND NOT 64 = int k" using assms(5) ord_bits [OF assms(3)] by auto
  let ?e = "fill_units ldir_offsets f (drop ((k - 1) * 13) name) False"
  have "fillLongName f name ord = Inr ?e"
    using assms(2) o by (simp add: fillLongName_def nat_diff_distrib)
  moreover have "0 \<notin> set (drop ((k - 1) * 13) name)" using assms(4) by (meson in_set_dropD)
  then have "map (\<lambda>i. ucast (le_word ?e i)) ldir_offsets
      = take 13 (drop ((k - 1) * 13) name @ 0 # replicate 13 0xffff)"
  proof -
    have "map (\<lambda>i. ucast (le_word ?e i)) ldir_offsets = units (length ldir_offsets) (drop ((k - 1) * 13) name) False"
      by (rule fill_units_read) (use assms(1) in \<open>simp_all add: ldir_offsets\<close>)
    also have "length ldir_offsets = 13" by (simp add: ldir_offsets)
    finally show ?thesis unfolding units_text [OF \<open>0 \<notin> set (drop ((k - 1) * 13) name)\<close>] .
  qed
  ultimately show ?thesis by (simp add: assembleLongName_def)
qed

lemma take13_block:
  assumes "13 * (n - 1) \<le> length name" "0 < k" "k \<le> n"
  shows "take 13 (drop ((k - 1) * 13) name @ 0 # replicate 13 0xffff)
    = take 13 (drop ((k - 1) * 13) (name @ 0 # replicate 13 (0xffff :: u16)))"
proof -
  have "(k - 1) * 13 \<le> length name" using assms mult_le_mono1 [of "k - 1" "n - 1" 13] by linarith
  then show ?thesis by (simp add: drop_append)
qed

lemma long_name_assembled:
  assumes "0 \<notin> set name" "13 * (n - 1) \<le> length name" "n < 64"
    and "\<And>k. k \<in> {1..n} \<Longrightarrow> length (f k) = 32"
    and "\<And>k. k \<in> {1..n} \<Longrightarrow> fillLongName (f k) name (if k = n then int k OR 64 else int k) = Inr (e k)"
  shows "foldl assembleLongName [0] (map e (rev [1..<Suc n])) = take (n * 13) (name @ 0 # replicate 13 0xffff) @ [0]"
proof -
  let ?t = "name @ 0 # replicate 13 0xffff"
  have step: "assembleLongName l (e k) = take 13 (drop ((k - 1) * 13) ?t) @ l" if k: "k \<in> {1..n}" for k l
  proof -
    have "0 < k" "k < 64" using k assms(3) by auto
    from fill_assemble [OF assms(4) [OF k] this assms(1), of "if k = n then int k OR 64 else int k" l]
    show ?thesis using assms(5) [OF k] take13_block [OF assms(2)] k by (auto split: if_splits)
  qed
  let ?p = "take (n * 13) ?t"
  have run: "m \<le> n \<Longrightarrow> foldl assembleLongName (drop (m * 13) ?p @ r) (map e (rev [1..<Suc m])) = ?p @ r" for m r
  proof (induction m)
    case (Suc m)
    have k: "Suc m \<in> {1..n}" using Suc.prems by simp
    have "take 13 (drop (m * 13) ?t) = take 13 (drop (m * 13) ?p)"
    proof -
      have "13 \<le> n * 13 - m * 13" using mult_le_mono1 [OF Suc.prems, of 13] by simp
      then show ?thesis unfolding drop_take take_take by (simp only: min_absorb1)
    qed
    moreover have "take 13 (drop (m * 13) ?p) @ drop (Suc m * 13) ?p = drop (m * 13) ?p"
      unfolding mult_Suc drop_drop [symmetric] by (rule append_take_drop_id)
    ultimately have "assembleLongName (drop (Suc m * 13) ?p @ r) (e (Suc m)) = drop (m * 13) ?p @ r"
      using step [OF k] by (metis append.assoc diff_Suc_1)
    then show ?case using Suc by simp
  qed simp
  have "drop (n * 13) ?p = []" by simp
  then show ?thesis using run [of n "[0]"] by simp
qed

lemma cstr_assembled:
  fixes name :: "u16 list"
  assumes "0 \<notin> set name" "length name \<le> 13 * n"
  shows "cstr (take (n * 13) (name @ 0 # replicate 13 0xffff) @ [0]) = name"
proof -
  have "take (n * 13) (name @ 0 # replicate 13 0xffff) @ [0] = name @ take (n * 13 - length name) (0 # replicate 13 0xffff) @ [0]"
    using assms(2) by (simp add: take_append)
  moreover have "cstr (name @ take j (0 # r) @ [0]) = name" for j and r :: "u16 list"
    using assms(1) by (cases j) (auto simp: takeWhile_append)
  ultimately show ?thesis by simp
qed

text \<open>C26: A long name written with \<^verbatim>\<open>fillLongName\<close> into the entries \<open>n\<close>, ..., 1 of a directory, the
  first of them marked as the last part, is read back whole by \<^verbatim>\<open>assembleLongName\<close> as it goes
  over the entries in that order.\<close>

theorem long_name_roundtrip:
  assumes "0 \<notin> set name" "13 * (n - 1) \<le> length name" "length name \<le> 13 * n" "0 < n" "n < 64"
    and "\<And>k. k \<in> {1..n} \<Longrightarrow> length (f k) = 32"
    and "\<And>k. k \<in> {1..n} \<Longrightarrow> fillLongName (f k) name (if k = n then int k OR 64 else int k) = Inr (e k)"
  shows "cstr (foldl assembleLongName [0] (map e (rev [1..<Suc n]))) = name"
  using long_name_assembled [OF assms(1,2,5-7)] cstr_assembled [OF assms(1,3)] by simp

lemma long_name_roundtrip_witness:
  "\<exists>e :: nat \<Rightarrow> u8 list. fillLongName (replicate 32 0) (replicate 15 0x61) 0x42 = Inr (e 2)
    \<and> fillLongName (replicate 32 0) (replicate 15 0x61) 1 = Inr (e 1)
    \<and> cstr (assembleLongName (assembleLongName [0] (e 2)) (e 1)) = replicate 15 0x61"
proof -
  define name where "name = replicate 15 (0x61 :: u16)"
  define e :: "nat \<Rightarrow> u8 list" where
    "e k = fill_units ldir_offsets (replicate 32 0) (drop ((k - 1) * 13) name) False" for k
  have o: "(int 2 OR 64) = 0x42" "(0x42 :: int) AND NOT 64 = 2" "(1 :: int) AND NOT 64 = 1" by simp_all
  have f: "fillLongName (replicate 32 0) name 0x42 = Inr (e 2)" "fillLongName (replicate 32 0) name 1 = Inr (e 1)"
    by (simp_all add: fillLongName_def e_def)
  have k: "k \<in> {1..2} \<Longrightarrow> k = 1 \<or> k = (2 :: nat)" for k by auto
  have "cstr (foldl assembleLongName [0] (map e (rev [1..<Suc 2]))) = name"
  proof (rule long_name_roundtrip)
    show "length ((\<lambda>k. replicate 32 0) k) = 32" if "k \<in> {1..2}" for k :: nat by simp
    show "fillLongName ((\<lambda>k. replicate 32 0) k) name (if k = 2 then int k OR 64 else int k) = Inr (e k)" if "k \<in> {1..2}" for k
      using k [OF that] f by auto
  qed (simp_all add: name_def)
  then show ?thesis using f unfolding name_def [symmetric] by (auto simp: numeral_2_eq_2)
qed

subsection \<open>Numeric tails\<close>

lemma num_digits_pos: "0 < n \<Longrightarrow> num_digits n = Suc (num_digits (n div 10))"
  by (subst num_digits.simps) simp

lemma num_digits_bound: "n < 10 ^ k \<Longrightarrow> num_digits n \<le> k"
proof (induction k arbitrary: n)
  case (Suc k)
  then have "num_digits (n div 10) \<le> k" by (intro Suc.IH) simp
  then show ?case by (subst num_digits.simps) simp
qed (simp add: num_digits.simps)

lemma length_put_digits [simp]: "length (put_digits oem t n) = length oem"
  by (induction oem t n rule: put_digits.induct) (subst put_digits.simps, simp)

lemma put_digits_other: "num_digits n \<le> t \<Longrightarrow> t < i \<or> i + num_digits n < t \<Longrightarrow> put_digits oem t n ! i = oem ! i"
proof (induction oem t n rule: put_digits.induct)
  case (1 oem t n)
  show ?case
  proof (cases "n \<le> 0")
    case True
    then show ?thesis using 1(3) by (subst put_digits.simps) (auto simp: num_digits.simps)
  next
    case False
    then have d: "num_digits n = Suc (num_digits (n div 10))" by (simp add: num_digits_pos)
    then have "t \<noteq> i" "t - 1 < i \<or> i + num_digits (n div 10) < t - 1" "num_digits (n div 10) \<le> t - 1" using 1(2,3) by auto
    then show ?thesis using 1(1) False by (subst put_digits.simps) simp
  qed
qed

lemma digit_char:
  assumes "0 \<le> (d :: int)" "d < 10"
  shows "c_isdigit (word_of_int (0x30 + d) :: u8)" "uint (word_of_int (0x30 + d) :: u8) - 0x30 = d"
    "(word_of_int (0x30 + d) :: u8) \<noteq> 0x20"
proof -
  have u: "uint (word_of_int (0x30 + d) :: u8) = 0x30 + d" using assms by (simp add: uint_word_of_int del: of_int_add)
  then show "uint (word_of_int (0x30 + d) :: u8) - 0x30 = d" by simp
  show "c_isdigit (word_of_int (0x30 + d) :: u8)" using u assms by (simp add: c_isdigit_def word_le_def)
  show "(word_of_int (0x30 + d) :: u8) \<noteq> 0x20"
  proof
    assume "(word_of_int (0x30 + d) :: u8) = 0x20"
    then have "uint (word_of_int (0x30 + d) :: u8) = uint (0x20 :: u8)" by (rule arg_cong)
    then show False unfolding u using assms by simp
  qed
qed

lemma put_digits_tail:
  "0 \<le> n \<Longrightarrow> num_digits n < t \<Longrightarrow> t < length oem \<Longrightarrow> 0 < n \<or> d \<noteq> 0 \<Longrightarrow>
   trail_loop (put_digits oem t n) t a d m = Some (a + n * m, t - num_digits n - 1) \<and> put_digits oem t n ! t \<noteq> 0x20"
proof (induction oem t n arbitrary: a d m rule: put_digits.induct)
  case (1 oem t n)
  obtain s where t: "t = Suc s" using 1(3) by (cases t) auto
  show ?case
  proof (cases "n \<le> 0")
    case True
    then have "n = 0" "put_digits oem t n = oem[t := 0x7e]" using 1(2) by (simp_all add: put_digits.simps)
    then show ?thesis using 1(4,5) t by (simp add: num_digits.simps c_isdigit_def)
  next
    case False
    let ?w = "word_of_int (0x30 + n mod 10) :: u8"
    have nd: "num_digits n = Suc (num_digits (n div 10))" using False by (simp add: num_digits_pos)
    have f: "put_digits oem t n = put_digits (oem[t := ?w]) s (n div 10)" using False t by (subst put_digits.simps) simp
    have "put_digits oem t n ! t = ?w"
      unfolding f using 1(3,4) nd t by (subst put_digits_other) auto
    moreover have "0 < n div 10 \<or> n mod 10 \<noteq> 0" using False by presburger
    then have "trail_loop (put_digits oem t n) s (a + n mod 10 * m) (n mod 10) (m * 10)
        = Some (a + n mod 10 * m + n div 10 * (m * 10), s - num_digits (n div 10) - 1)"
      unfolding f using 1(1) [OF False, of "n mod 10"] 1(2-4) nd t False by simp
    moreover have "n mod 10 * m + n div 10 * (m * 10) = n * m"
      by (metis add.commute distrib_right div_mult_mod_eq mult.assoc mult.commute)
    ultimately show ?thesis using digit_char [of "n mod 10"] t nd by (simp add: Let_def)
  qed
qed

lemma base_end_of: "i \<le> j \<Longrightarrow> oem ! i \<noteq> 0x20 \<Longrightarrow> \<forall>k \<in> {i<..j}. oem ! k = 0x20 \<Longrightarrow> base_end oem j = Some i"
  by (induction j) (auto simp: le_Suc_eq)

lemma base_end_pad: "base_end oem j = Some e \<Longrightarrow> e \<le> j \<and> oem ! e \<noteq> 0x20 \<and> (\<forall>k \<in> {e<..j}. oem ! k = 0x20)"
  by (induction j) (auto simp: le_Suc_eq split: if_splits)

lemma trail_loop_pos:
  "trail_loop oem s a d m = Some (n, x) \<Longrightarrow> 0 \<le> a \<Longrightarrow> 0 < m \<Longrightarrow> d \<noteq> 0 \<longrightarrow> 0 < a \<Longrightarrow> 0 < n"
proof (induction oem s a d m rule: trail_loop.induct)
  case (2 oem s a d m)
  show ?case
  proof (cases "c_isdigit (oem ! Suc s)")
    case True
    let ?d = "uint (oem ! Suc s) - 0x30"
    have d: "0 \<le> ?d" using True by (simp add: c_isdigit_def word_le_def)
    have "0 \<le> ?d * m" "?d \<noteq> 0 \<longrightarrow> 0 < ?d * m" using d 2(4) by auto
    then have "0 \<le> a + ?d * m" "?d \<noteq> 0 \<longrightarrow> 0 < a + ?d * m" using 2(3) by linarith+
    moreover have "trail_loop oem s (a + ?d * m) ?d (m * 10) = Some (n, x)" using 2(2) True by (simp add: Let_def)
    ultimately show ?thesis using 2(1) [OF refl True refl] 2(4) by simp
  qed (use 2 in \<open>auto simp: Let_def split: if_splits\<close>)
qed simp



text \<open>A name that ends in a tail of its own keeps the digits that a shorter new tail does not
  cover: the tail 1 leaves \<open>AB~12\<close> as it is, a name that the directory may hold already.\<close>

theorem numeric_tail_clash:
  "setNumericTrail [0x41, 0x42, 0x7e, 0x31, 0x32, 0x20, 0x20, 0x20, 0x54, 0x58, 0x54] 1
     = Inr [0x41, 0x42, 0x7e, 0x31, 0x32, 0x20, 0x20, 0x20, 0x54, 0x58, 0x54]"
  by code_simp

end
