(* ===== verification/FatDir.thy ===== *)
theory FatDir
  imports FatNames FatStreams
begin

text \<open>
  The directories of the FAT file system (\<^verbatim>\<open>os/fs/fat/fatDirectory.cpp\<close>). The operations
  read and write a directory through the cached stream of its clusters; here that is a list of
  bytes and a position, reads at the end are short and a write or \<^verbatim>\<open>setSize\<close> behind the end
  goes to \<^verbatim>\<open>FatStream::setSize\<close>. The arrays of names have 256 units; the work space of
  \<^verbatim>\<open>findNext\<close> has room for 20 parts of a long name.
\<close>

subsection \<open>Searching a directory\<close>

text \<open>The variables of \<^verbatim>\<open>findNext\<close>. \<open>f_long\<close> is the part of the work space from \<^verbatim>\<open>l\<close> on; \<open>f_sum\<close> is
  read only once \<open>f_ord\<close> says that a long name has begun.\<close>

record find_state =
  f_pos :: nat
  f_ent :: "u8 list"
  f_ord :: int
  f_sum :: u8
  f_long :: "u16 list"
  f_freeOffset :: int
  f_freeSize :: u32

definition find_free :: "int \<Rightarrow> find_state \<Rightarrow> find_state" where
  "find_free freeRequired s =
    (let s = (if uint (word_of_int (f_freeOffset s) + f_freeSize s) = int (f_pos s) - 32
              then s\<lparr>f_freeSize := f_freeSize s + 32\<rparr>
              else if f_freeSize s < word_of_int freeRequired
              then s\<lparr>f_freeOffset := int32 (int (f_pos s) - 32), f_freeSize := 32\<rparr>
              else s)
     in s\<lparr>f_ord := - 1\<rparr>)"

definition find_part :: "find_state \<Rightarrow> find_state result" where
  "find_part s =
    (if 13 * 20 + 1 < length (f_long s) + 13 then Inl Undefined
     else Inr (s\<lparr>f_long := assembleLongName (f_long s) (f_ent s), f_ord := f_ord s - 1\<rparr>))"

definition find_long :: "find_state \<Rightarrow> find_state result" where
  "find_long s =
    (let e = f_ent s
     in if e ! LDIR_Ord AND LAST_LONG_ENTRY \<noteq> 0
        then let ord = uint (e ! LDIR_Ord AND NOT LAST_LONG_ENTRY)
             in if 0 < ord \<and> ord \<le> 20 then find_part (s\<lparr>f_ord := ord, f_sum := e ! LDIR_Chksum\<rparr>)
                else Inr (s\<lparr>f_ord := - 1\<rparr>)
        else if 0 < f_ord s \<and> f_ord s = uint (e ! LDIR_Ord) \<and> f_sum s = e ! LDIR_Chksum
        then find_part s
        else Inr (s\<lparr>f_ord := - 1\<rparr>))"

definition find_name :: "find_state \<Rightarrow> u16 list result" where
  "find_name s =
    (if f_ord s = 0 \<and> f_sum s = getChecksum (f_ent s)
     then let w = utf16cpy (f_long s) in if 256 < length w then Inl Undefined else Inr w
     else Inr [0])"

lemma find_part_pos: "find_part s = Inr s' \<Longrightarrow> f_pos s' = f_pos s \<and> f_ent s' = f_ent s"
  by (auto simp: find_part_def split: if_splits)

lemma find_long_pos: "find_long s = Inr s' \<Longrightarrow> f_pos s' = f_pos s \<and> f_ent s' = f_ent s"
  by (auto simp: find_long_def Let_def dest!: find_part_pos split: if_splits)

lemma find_free_pos [simp]: "f_pos (find_free n s) = f_pos s" "f_ent (find_free n s) = f_ent s"
  by (simp_all add: find_free_def Let_def)

text \<open>The loop. On a short read the position stays at the last whole entry, as \<^verbatim>\<open>pos\<close> does.\<close>

function findNext_loop :: "u8 list \<Rightarrow> int \<Rightarrow> find_state \<Rightarrow> (bool \<times> find_state \<times> u16 list) result" where
  "findNext_loop dir freeRequired s =
    (let bs = take 32 (drop (f_pos s) dir);
         s = s\<lparr>f_ent := bs @ drop (length bs) (f_ent s)\<rparr>
     in if length bs \<noteq> 32 then Inr (False, s, [])
        else let s = (if f_ord s < 0 then s\<lparr>f_long := [0]\<rparr> else s)\<lparr>f_pos := f_pos s + 32\<rparr>
             in if isFreeEntry (f_ent s)
                then let s = find_free freeRequired s
                     in if f_ent s ! 0 = 0x00 then Inr (False, s, []) else findNext_loop dir freeRequired s
                else if isLongNameComponent (f_ent s)
                then andThen (find_long s) (\<lambda>s. findNext_loop dir freeRequired s)
                else if \<not> isVolumeID (f_ent s)
                then andThen (find_name s) (\<lambda>name. Inr (True, s, name))
                else findNext_loop dir freeRequired (s\<lparr>f_ord := - 1\<rparr>))"
  by auto
termination
  by (relation "measure (\<lambda>(dir, _, s). length dir - f_pos s)") (auto dest: find_long_pos simp: min_def split: if_splits)

declare findNext_loop.simps [simp del]

text \<open>What is left to do when no entry was found: the space asked for begins with the free entries
  at the end, and the directory grows if need be. The last component is the size to set.\<close>

definition find_end :: "int \<Rightarrow> nat \<Rightarrow> find_state \<Rightarrow> find_state \<times> int option" where
  "find_end freeRequired sz s =
    (if f_freeSize s < word_of_int freeRequired
     then let s = (if uint (word_of_int (f_freeOffset s) + f_freeSize s) \<noteq> int (f_pos s)
                   then s\<lparr>f_freeOffset := int32 (int (f_pos s)), f_freeSize := 0\<rparr> else s);
              n = f_freeOffset s + freeRequired
          in (s\<lparr>f_freeSize := word_of_int freeRequired\<rparr>, if int sz < n then Some n else None)
     else (s, None))"

definition findNext ::
    "u8 list \<Rightarrow> nat \<Rightarrow> u8 list \<Rightarrow> int \<Rightarrow> (bool \<times> find_state \<times> u16 list \<times> int option) result" where
  "findNext dir pos ent freeRequired =
    andThen (findNext_loop dir freeRequired
              \<lparr>f_pos = pos, f_ent = ent, f_ord = - 1, f_sum = 0, f_long = [], f_freeOffset = 0, f_freeSize = 0\<rparr>)
     (\<lambda>(found, s, name).
       if found then Inr (True, s, name, None)
       else let (s, grow) = find_end freeRequired (length dir) s in Inr (False, s, name, grow))"

definition st_isEmpty :: "fat_stream \<Rightarrow> u8 list \<Rightarrow> u8 list \<Rightarrow> bool result" where
  "st_isEmpty st dir ent =
    ensuring (st_isDirectory st)
     (andThen (findNext dir (if fst_root st then 0 else min (2 * 32) (length dir)) ent 0)
       (\<lambda>(found, _). Inr (\<not> found)))"

lemma findNext_loop_pos:
  "findNext_loop dir n s = Inr (True, s', name) \<Longrightarrow> f_pos s < f_pos s' \<and> f_pos s' \<le> length dir"
proof (induction dir n s rule: findNext_loop.induct)
  case (1 dir n s)
  define bs where "bs = take 32 (drop (f_pos s) dir)"
  define s1 where "s1 = s\<lparr>f_ent := bs @ drop (length bs) (f_ent s)\<rparr>"
  define s2 where "s2 = (if f_ord s1 < 0 then s1\<lparr>f_long := [0]\<rparr> else s1)\<lparr>f_pos := f_pos s1 + 32\<rparr>"
  have l: "length bs = 32" using 1(4) by (subst (asm) findNext_loop.simps) (auto simp: Let_def bs_def split: if_splits)
  then have p: "f_pos s2 = f_pos s + 32" "f_pos s2 \<le> length dir" by (auto simp: s1_def s2_def bs_def)
  note r = 1(4) [unfolded findNext_loop.simps [of dir n s] Let_def, folded bs_def, folded s1_def, folded s2_def]
  note IH = 1(1-3) [OF bs_def s1_def _ s2_def]
  show ?case
  proof (cases "isFreeEntry (f_ent s2)")
    case True
    then have f: "findNext_loop dir n (find_free n s2) = Inr (True, s', name)" "f_ent (find_free n s2) ! 0 \<noteq> 0"
      using r l by (auto split: if_splits)
    from IH(1) [OF _ True refl] f l p show ?thesis by simp
  next
    case nf: False
    show ?thesis
    proof (cases "isLongNameComponent (f_ent s2)")
      case True
      then obtain s3 where s3: "find_long s2 = Inr s3" "findNext_loop dir n s3 = Inr (True, s', name)"
        using r l nf by (auto simp: andThen_Inr)
      from IH(2) [OF _ nf True s3(1) s3(2)] l p find_long_pos [OF s3(1)] show ?thesis by simp
    next
      case nl: False
      show ?thesis
      proof (cases "isVolumeID (f_ent s2)")
        case True
        then have "findNext_loop dir n (s2\<lparr>f_ord := - 1\<rparr>) = Inr (True, s', name)" using r l nf nl by simp
        from IH(3) [OF _ nf nl _ this] l p True show ?thesis by simp
      next
        case False
        then have "f_pos s' = f_pos s2" using r l nf nl by (auto simp: andThen_Inr)
        then show ?thesis using p by simp
      qed
    qed
  qed
qed

lemma findNext_pos: "findNext dir pos ent n = Inr (True, s, name, g) \<Longrightarrow> pos < f_pos s \<and> f_pos s \<le> length dir"
  by (auto simp: findNext_def andThen_Inr dest!: findNext_loop_pos split: if_splits prod.splits)

text \<open>The loop of \<^verbatim>\<open>lookup\<close> over the entries of one directory: the position of the entry that has the
  name, and the entry. The buffer of the entry is filled whenever one is found.\<close>

function lookup_entry :: "u16 list \<Rightarrow> u8 list \<Rightarrow> nat \<Rightarrow> (nat \<times> u8 list) option result" where
  "lookup_entry fileName dir pos =
    andThen (findNext dir pos [] 0) (\<lambda>(found, s, longName, _).
      if \<not> found then Inr None
      else if isEqual fileName longName (f_ent s) then Inr (Some (f_pos s - 32, f_ent s))
      else lookup_entry fileName dir (f_pos s))"
  by auto
termination
  by (relation "measure (\<lambda>(_, dir, pos). length dir - pos)") (auto dest!: findNext_pos)

declare lookup_entry.simps [simp del]

subsection \<open>Path names\<close>

text \<open>The streams that are open, the latest last: a stream with its parent and, for a directory, the
  contents that its cache shows. The hash table of the file system finds them by place.\<close>

record fat_node =
  nd_st :: fat_stream
  nd_parent :: nat
  nd_dir :: "u8 list"

definition fs_lookup :: "fat_node list \<Rightarrow> u32 \<Rightarrow> u32 \<Rightarrow> nat option" where
  "fs_lookup nodes clus offset =
    find (\<lambda>i. let st = nd_st (nodes ! i)
              in \<not> fst_root st \<and> dirClus st = clus \<and> entOffset st = offset \<and> \<not> st_isRemoved st)
     (rev [0..<length nodes])"

definition open_node :: "fatfs \<Rightarrow> nat \<Rightarrow> fat_stream \<Rightarrow> int \<Rightarrow> fat_node run" where
  "open_node fs parent st now =
    (if st_isDirectory st
     then obind (st_read fs st (uint (fst_size st)) 0 now) (\<lambda>(st, dst, len).
          ok \<lparr>nd_st = st, nd_parent = parent, nd_dir = take (nat len) dst\<rparr>)
     else ok \<lparr>nd_st = st, nd_parent = parent, nd_dir = []\<rparr>)"

lemma obind_cong [fundef_cong]:
  "m = m' \<Longrightarrow> (\<And>x. m' = ok x \<Longrightarrow> f x = f' x) \<Longrightarrow> obind m f = obind m' f'"
  by (cases m') (auto simp: obind_def split: sum.splits)

lemma splitPath_shorter: "splitPath g s = Inr (Some rest, w) \<Longrightarrow> at0 s \<noteq> 0 \<Longrightarrow> length rest < length s"
proof -
  have "splitPath_loop g s w0 = Inr (Some rest, w) \<Longrightarrow> length rest \<le> length s \<and> (at0 s \<noteq> 0 \<longrightarrow> length rest < length s)" for w0
  proof (induction g s w0 rule: splitPath_loop.induct)
    case (1 g s w0)
    show ?case
    proof (cases "at0 s = 0 \<or> isDelimitor (at0 s)")
      case True
      moreover have "s \<noteq> [] \<Longrightarrow> length (dropWhile isDelimitor (tl s)) < length s"
        using length_dropWhile_le [of isDelimitor "tl s"] by (cases s) (auto simp: less_Suc_eq_le)
      ultimately show ?thesis using 1(2) by (subst (asm) splitPath_loop.simps) (cases s; auto split: if_splits)
    next
      case False
      then obtain u s' ws where d: "utf8to32 s = Some (u, s')" "utf32to16 u = Some ws"
        "splitPath_loop g s' (w0 @ ws) = Inr (Some rest, w)"
        using 1(2) by (subst (asm) splitPath_loop.simps) (auto split: option.splits)
      from 1(1) [OF _ _ d(1) refl d(2,3)] utf8to32_shorter [OF d(1)] False show ?thesis by auto
    qed
  qed
  then show "splitPath g s = Inr (Some rest, w) \<Longrightarrow> at0 s \<noteq> 0 \<Longrightarrow> length rest < length s"
    by (simp add: splitPath_def)
qed

text \<open>\<open>g\<close> is the value of the variable that \<^verbatim>\<open>splitPath\<close> uses unset. The result has the streams open
  now, the stream found (none where a component is not a directory), and the rest of the name.\<close>

function lookup :: "fatfs \<Rightarrow> int \<Rightarrow> u32 \<Rightarrow> fat_node list \<Rightarrow> nat \<Rightarrow> u8 list
    \<Rightarrow> (fat_node list \<times> nat option \<times> u8 list option) run" where
  "lookup fs now g nodes i name =
    (if at0 name = 0 then ok (nodes, Some i, Some name)
     else let st = nd_st (nodes ! i)
      in if \<not> st_isDirectory st then ok (nodes, None, Some name)
         else obind (Some (splitPath g name)) (\<lambda>(rest, w).
           if 255 < length w then Some (Inl Undefined)
           else if at0 w = 0
           then (case rest of None \<Rightarrow> ok (nodes, Some i, None) | Some name' \<Rightarrow> lookup fs now g nodes i name')
           else obind (Some (lookup_entry w (nd_dir (nodes ! i)) 0)) (\<lambda>r.
             case r of
               None \<Rightarrow> ok (nodes, Some i, Some name)
             | Some (pos, ent) \<Rightarrow>
                 obind
                  (if take 11 ent = nameDotdot then ok (nodes, nd_parent (nodes ! i))
                   else if take 11 ent \<noteq> nameDot
                   then (case fs_lookup nodes (fstClus st) (of_nat pos) of
                           Some j \<Rightarrow> ok (nodes, j)
                         | None \<Rightarrow>
                             obind (newFatStream fs (Some st) (of_nat pos) ent) (\<lambda>st'.
                             obind (open_node fs i st' now) (\<lambda>nd. ok (nodes @ [nd], length nodes))))
                   else ok (nodes, i))
                  (\<lambda>(nodes, j).
                     case rest of None \<Rightarrow> ok (nodes, Some j, None) | Some name' \<Rightarrow> lookup fs now g nodes j name'))))"
  by auto
termination
  by (relation "measure (\<lambda>(_, _, _, _, _, name). length name)") (auto dest: splitPath_shorter)

declare lookup.simps [simp del]

subsection \<open>Writing a directory\<close>

text \<open>\<^verbatim>\<open>setSize\<close> and \<^verbatim>\<open>write\<close> of the cached stream of a directory. Clusters that a directory gains are
  cleared; the last component is what \<^verbatim>\<open>FatStream::setSize\<close> writes to the entry of the directory.\<close>

definition dir_setSize ::
    "fatfs \<Rightarrow> fat_stream \<Rightarrow> u8 list \<Rightarrow> int \<Rightarrow> int \<Rightarrow> (fatfs \<times> fat_stream \<times> u8 list \<times> (u32 \<times> u8 list) list) run" where
  "dir_setSize fs st dir newSize now =
    obind (st_setSize fs st newSize now) (\<lambda>(fs, st, out).
      ok (fs, st, take (nat newSize) dir @ replicate (nat newSize - length dir) 0, out))"

definition dir_write ::
    "fatfs \<Rightarrow> fat_stream \<Rightarrow> u8 list \<Rightarrow> nat \<Rightarrow> u8 list \<Rightarrow> int
      \<Rightarrow> (fatfs \<times> fat_stream \<times> u8 list \<times> (u32 \<times> u8 list) list) run" where
  "dir_write fs st dir pos bs now =
    obind (if length dir < pos + length bs then dir_setSize fs st dir (int (pos + length bs)) now
           else ok (fs, st, dir, []))
     (\<lambda>(fs, st, dir, out). ok (fs, st, overwrite dir pos bs, out))"

fun dir_writes ::
    "fatfs \<Rightarrow> fat_stream \<Rightarrow> u8 list \<Rightarrow> nat \<Rightarrow> u8 list list \<Rightarrow> int
      \<Rightarrow> (fatfs \<times> fat_stream \<times> u8 list \<times> (u32 \<times> u8 list) list) run" where
  "dir_writes fs st dir pos [] now = ok (fs, st, dir, [])"
| "dir_writes fs st dir pos (e # es) now =
    obind (dir_write fs st dir pos e now) (\<lambda>(fs, st, dir, out).
    obind (dir_writes fs st dir (pos + length e) es now) (\<lambda>(fs, st, dir, out').
    ok (fs, st, dir, out @ out')))"

subsection \<open>Creating an entry\<close>

text \<open>\<^verbatim>\<open>ffs\<close> of the C library: the number of the lowest bit set, from 1, or 0.\<close>

definition ffs :: "u32 \<Rightarrow> int" where
  "ffs x = (case find (bit x) [0..<32] of None \<Rightarrow> 0 | Some i \<Rightarrow> int i + 1)"

text \<open>The variables of \<^verbatim>\<open>create\<close> while it looks for a place: the position of the directory stream, the
  buffer of the entry, and its own.\<close>

record create_state =
  c_pos :: nat
  c_ent :: "u8 list"
  c_freeRequired :: u32
  c_off :: int
  c_freeOffset :: int
  c_freeSize :: u32
  c_map :: u32

definition take_space :: "create_state \<Rightarrow> create_state" where
  "take_space s =
    (if 0 < c_freeRequired s \<and> c_freeRequired s \<le> c_freeSize s
     then s\<lparr>c_freeRequired := 0, c_off := c_freeOffset s\<rparr> else s)"

definition scan_found :: "create_state \<Rightarrow> find_state \<Rightarrow> create_state" where
  "scan_found s f = s\<lparr>c_pos := f_pos f, c_ent := f_ent f, c_freeOffset := f_freeOffset f, c_freeSize := f_freeSize f\<rparr>"

definition mark_tail :: "int \<Rightarrow> int \<Rightarrow> u32 \<Rightarrow> u32 result" where
  "mark_tail base trail m =
    (if 0 < trail \<and> trail - base < 32
     then if trail < base then Inl Undefined else Inr (m OR drop_bit (nat (trail - base)) 0x80000000)
     else Inr m)"

text \<open>One pass over the directory: none where the name is there already, else where the pass stopped
  and the size \<^verbatim>\<open>findNext\<close> is to give the directory.\<close>

function create_scan ::
    "u16 list \<Rightarrow> u8 list \<Rightarrow> bool \<Rightarrow> int \<Rightarrow> u8 list \<Rightarrow> create_state \<Rightarrow> (create_state \<times> int option) option result" where
  "create_scan fileName oem lossy base dir s =
    andThen (findNext dir (c_pos s) (c_ent s) (uint (c_freeRequired s))) (\<lambda>(found, f, longName, grow).
      let s = scan_found s f
      in if \<not> (found \<and> c_map s \<noteq> 0xffffffff) then Inr (Some (s, grow))
         else let s = take_space s
           in if isEqual fileName longName (c_ent s) then Inr None
              else if \<not> lossy then create_scan fileName oem lossy base dir s
              else andThen (getNumericTrailOf oem (c_ent s)) (\<lambda>trail.
                   andThen (mark_tail base trail (c_map s)) (\<lambda>m.
                     if m \<noteq> c_map s \<and> m = 0xffffffff then Inr (Some (s\<lparr>c_map := m\<rparr>, None))
                     else create_scan fileName oem lossy base dir (s\<lparr>c_map := m\<rparr>))))"
  by auto
termination
  by (relation "measure (\<lambda>(_, _, _, _, dir, s). length dir - c_pos s)")
    (auto dest!: findNext_pos simp: scan_found_def take_space_def)

declare create_scan.simps [simp del]

function create_search ::
    "u16 list \<Rightarrow> u8 list \<Rightarrow> bool \<Rightarrow> int \<Rightarrow> int \<Rightarrow> create_state \<Rightarrow> fatfs \<times> fat_stream \<times> u8 list \<times> (u32 \<times> u8 list) list
      \<Rightarrow> ((int \<times> create_state) option \<times> fatfs \<times> fat_stream \<times> u8 list \<times> (u32 \<times> u8 list) list) run" where
  "create_search fileName oem lossy now base s (fs, st, dir, out) =
    (if base < 999999
     then obind (Some (create_scan fileName oem lossy base dir (s\<lparr>c_map := 0, c_pos := 0\<rparr>))) (\<lambda>r.
          case r of
            None \<Rightarrow> ok (None, fs, st, dir, out)
          | Some (s, grow) \<Rightarrow>
              obind (case grow of None \<Rightarrow> ok (fs, st, dir, []) | Some n \<Rightarrow> dir_setSize fs st dir n now)
               (\<lambda>(fs, st, dir, out').
                 let s = take_space s
                 in if \<not> lossy \<or> c_map s \<noteq> 0xffffffff then ok (Some (base, s), fs, st, dir, out @ out')
                    else create_search fileName oem lossy now (base + 32) s (fs, st, dir, out @ out')))
     else ok (Some (base, s), fs, st, dir, out))"
  by auto
termination
  by (relation "measure (\<lambda>(_, _, _, _, base, _). nat (999999 - base))") auto

declare create_search.simps [simp del]

text \<open>The number of the tail \<^verbatim>\<open>create\<close> gives the short name: \<open>base\<close> is the number of the first bit of \<open>m\<close>.\<close>

definition choose_tail :: "int \<Rightarrow> u32 \<Rightarrow> int" where
  "choose_tail base m = base + (if m \<noteq> 0 then 32 - ffs m else 0)"

text \<open>The entries of a long name, the last part first.\<close>

lemma uint_and_less: "0 < (ord :: int) \<Longrightarrow> nat ((ord AND NOT 64) - 1) < nat ord"
proof -
  assume o: "0 < ord"
  have "ord AND NOT 64 \<le> ord" by (rule AND_upper1) (use o in simp)
  then show ?thesis using o by linarith
qed

function long_entries :: "u8 list \<Rightarrow> u16 list \<Rightarrow> int \<Rightarrow> u8 list list result" where
  "long_entries ent fileName ord =
    (if 0 < ord
     then andThen (fillLongName (le_xbyte ent LDIR_Ord (word_of_int ord)) fileName ord) (\<lambda>e.
          andThen (long_entries e fileName ((ord AND NOT (uint LAST_LONG_ENTRY)) - 1)) (\<lambda>es. Inr (e # es)))
     else Inr [])"
  by auto
termination
  by (relation "measure (\<lambda>(_, _, ord). nat ord)") (auto dest: uint_and_less)

declare long_entries.simps [simp del]

definition dot_entry :: "u8 list \<Rightarrow> u8 list \<Rightarrow> u32 \<Rightarrow> u8 list \<Rightarrow> u8 list" where
  "dot_entry ent name clus f =
    (let e = overwrite ent 0 name;
         e = le_xbyte e DIR_Attr (ucast ATTR_DIRECTORY);
         e = le_xword e DIR_FstClusLO clus;
         e = le_xword e DIR_FstClusHI (drop_bit 16 clus);
         e = overwrite e DIR_CrtTimeTenth (slice DIR_CrtTimeTenth 5 f);
         e = overwrite e DIR_LstAccDate (slice DIR_LstAccDate 2 f)
     in overwrite e DIR_WrtTime (slice DIR_WrtTime 4 f))"

text \<open>The new stream is given back with the contents of its cache. \<open>ent\<close> is what the buffer of the
  entry holds before; of the entries for \<open>.\<close> and \<open>..\<close> it fills what is not set.\<close>

record created =
  cr_fs :: fatfs
  cr_st :: fat_stream
  cr_dir :: "u8 list"
  cr_out :: "(u32 \<times> u8 list) list"
  cr_new :: "(fat_stream \<times> u8 list) option"

definition create_dots ::
    "fatfs \<Rightarrow> fat_stream \<Rightarrow> u32 \<Rightarrow> u8 list \<Rightarrow> int
      \<Rightarrow> (fatfs \<times> fat_stream \<times> u8 list \<times> (u32 \<times> u8 list) list) run" where
  "create_dots fs new parentClus ent now =
    obind (open_node fs 0 new now) (\<lambda>nd.
      let dot = dot_entry ent nameDot (fstClus new) (fcb new);
          dotdot = dot_entry dot nameDotdot parentClus (fcb new)
      in dir_writes fs (nd_st nd) (nd_dir nd) 0 [dot, dotdot] now)"

definition create_fill ::
    "fatfs \<Rightarrow> fat_stream \<Rightarrow> u8 list \<Rightarrow> (u32 \<times> u8 list) list \<Rightarrow> u8 list \<Rightarrow> u16 list \<Rightarrow> bool \<Rightarrow> u32 \<Rightarrow> u8 list \<Rightarrow> int
      \<Rightarrow> u8 \<Rightarrow> int \<Rightarrow> created run" where
  "create_fill fs st dir out ent fileName lossy need oem off attr now =
    obind (if attr AND ATTR_DIRECTORY \<noteq> 0 then allocCluster fs 1 True else ok (fs, 0)) (\<lambda>(fs, clus).
      let oem = le_xword oem DIR_FstClusLO clus;
          oem = le_xword oem DIR_FstClusHI (drop_bit 16 clus)
      in obind (newFatStream fs (Some st) (word_of_int off + need - 32) oem) (\<lambda>new.
      let new = setLastAccessTime (setLastWriteTime (setCreationTime new now) now) now
      in obind (if attr AND ATTR_DIRECTORY \<noteq> 0 then create_dots fs new (fstClus st) ent now
                else ok (fs, new, [], [])) (\<lambda>(fs, new, contents, up).
      let dir = foldl (\<lambda>d (pos, e). overwrite d (unat pos) e) dir up;
          ent = (replicate 32 0)[LDIR_Attr := ATTR_LONG_NAME, LDIR_Chksum := getChecksum (fcb new)];
          n = need div 32 - 1
      in obind (Some (if lossy then long_entries ent fileName (uint (n OR ucast LAST_LONG_ENTRY)) else Inr [])) (\<lambda>es.
         obind (dir_writes fs st dir (min (nat off) (length dir)) (es @ [fcb new]) now) (\<lambda>(fs, st, dir, out').
         ok \<lparr>cr_fs = fs, cr_st = st, cr_dir = dir, cr_out = out @ out', cr_new = Some (new, contents)\<rparr>)))))"

definition create ::
    "fatfs \<Rightarrow> fat_stream \<Rightarrow> u8 list \<Rightarrow> u8 list \<Rightarrow> u8 list \<Rightarrow> u8 \<Rightarrow> int \<Rightarrow> created run" where
  "create fs st dir ent name attr now =
    (let failed = (\<lambda>fs st dir out. ok \<lparr>cr_fs = fs, cr_st = st, cr_dir = dir, cr_out = out, cr_new = None\<rparr>)
     in if \<not> st_isDirectory st \<or> st_isRemoved st then failed fs st dir []
        else obind (Some (utf8toutf16 name)) (\<lambda>fileName.
             if 255 < length fileName then Some (Inl Undefined)
             else obind (Some (utf16tooem fileName (replicate 32 0))) (\<lambda>(lossy, oem).
             let need = 32 + (if lossy then 32 * ((of_nat (utf16len fileName) + 12) div 13) else 0) :: u32;
                 s = \<lparr>c_pos = 0, c_ent = ent, c_freeRequired = need, c_off = int DIR_LIMIT,
                      c_freeOffset = int DIR_LIMIT, c_freeSize = 0, c_map = 0\<rparr>
             in obind (create_search fileName oem lossy now 1 s (fs, st, dir, [])) (\<lambda>(r, fs, st, dir, out).
             case r of
               None \<Rightarrow> failed fs st dir out
             | Some (base, s) \<Rightarrow>
                 if int DIR_LIMIT \<le> c_off s then failed fs st dir out
                 else let oem = overwrite oem DIR_CrtTimeTenth (replicate (32 - DIR_CrtTimeTenth) 0);
                          oem = oem[DIR_Attr := if attr AND ATTR_DIRECTORY = 0 then ATTR_ARCHIVE
                                                else ATTR_ARCHIVE OR ATTR_DIRECTORY]
                   in obind (Some (if lossy then setNumericTrail oem (choose_tail base (c_map s)) else Inr oem)) (\<lambda>oem.
                      create_fill fs st dir out (c_ent s) fileName lossy need oem (c_off s) attr now)))))"

subsection \<open>Removing an entry\<close>

text \<open>The loop marks the entry at \<open>offset\<close>, and those of its long name, as free.\<close>

function remove_loop :: "u32 \<Rightarrow> u8 list \<Rightarrow> nat \<Rightarrow> u8 list" where
  "remove_loop offset dir pos =
    (let ent = take 32 (drop pos dir)
     in if length ent \<noteq> 32 \<or> ent ! 0 = 0x00 then dir
        else if isFreeEntry ent then remove_loop offset dir (pos + 32)
        else if isLongNameComponent ent
        then let ord = uint (ent ! LDIR_Ord AND NOT LAST_LONG_ENTRY)
             in if int (pos + 32) + 32 * (ord - 1) = uint offset then remove_loop offset (dir[pos := 0xe5]) (pos + 32)
                else remove_loop offset dir (pos + 32)
        else if \<not> isVolumeID ent
        then (if int pos = uint offset then dir[pos := 0xe5] else remove_loop offset dir (pos + 32))
        else remove_loop offset dir (pos + 32))"
  by auto
termination
  by (relation "measure (\<lambda>(_, dir, pos). length dir - pos)") (auto simp: min_def split: if_splits)

declare remove_loop.simps [simp del]

definition remove :: "fat_stream \<Rightarrow> u8 list \<Rightarrow> u8 list \<Rightarrow> (int \<times> fat_stream \<times> u8 list) result" where
  "remove st dir parentDir =
    (if st_isRemoved st then Inr (0, st, parentDir)
     else andThen (if \<not> st_isDirectory st then Inr False
                   else if fst_root st then Inr True
                   else andThen (st_isEmpty st dir []) (\<lambda>e. Inr (\<not> e))) (\<lambda>keep.
       if keep then Inr (- 1, st, parentDir)
       else let st = st\<lparr>fst_flags := fst_flags st OR Removed\<rparr>
            in Inr (0, st, remove_loop (entOffset st) parentDir 0)))"

end
