(* ===== verification/FatDirSpec.thy ===== *)
theory FatDirSpec
  imports FatDir
begin

text \<open>
  What a directory contains. A directory in order is a row of slots, each a free entry, a volume
  label, or a file with the entries of its long name before its own, and behind them a cleared
  end. The searches of theory FatDir are related to the files of such a row; \<^verbatim>\<open>create\<close> puts a
  file into it and \<^verbatim>\<open>remove\<close> takes one out.
\<close>

subsection \<open>Slots\<close>

datatype slot = Free "u8 list" | Volume "u8 list" | File "u8 list list" "u8 list"

fun slot_entries :: "slot \<Rightarrow> u8 list list" where
  "slot_entries (Free e) = [e]"
| "slot_entries (Volume e) = [e]"
| "slot_entries (File ls e) = ls @ [e]"

text \<open>The parts of a long name, numbered down to 1 and carrying the checksum of their file.\<close>

fun parts_ok :: "u8 \<Rightarrow> bool \<Rightarrow> u8 list list \<Rightarrow> bool" where
  "parts_ok c first [] = True"
| "parts_ok c first (l # ls) =
    (length l = 32 \<and> isLongNameComponent l \<and> \<not> isFreeEntry l \<and> l ! LDIR_Chksum = c
     \<and> (l ! LDIR_Ord AND LAST_LONG_ENTRY \<noteq> 0) = first
     \<and> uint (l ! LDIR_Ord AND NOT LAST_LONG_ENTRY) = int (Suc (length ls)) \<and> parts_ok c False ls)"

definition long_name :: "u8 list list \<Rightarrow> u16 list" where
  "long_name ls = (if ls = [] then [0] else utf16cpy (foldl assembleLongName [0] ls))"

definition plain_entry :: "u8 list \<Rightarrow> bool" where
  "plain_entry e \<longleftrightarrow> length e = 32 \<and> \<not> isFreeEntry e \<and> \<not> isLongNameComponent e \<and> \<not> isVolumeID e"

fun slot_ok :: "slot \<Rightarrow> bool" where
  "slot_ok (Free e) \<longleftrightarrow> length e = 32 \<and> e ! 0 = 0xe5"
| "slot_ok (Volume e) \<longleftrightarrow> length e = 32 \<and> \<not> isFreeEntry e \<and> \<not> isLongNameComponent e \<and> isVolumeID e"
| "slot_ok (File ls e) \<longleftrightarrow> plain_entry e \<and> length ls \<le> 20 \<and> parts_ok (getChecksum e) True ls \<and> length (long_name ls) \<le> 256"

definition row_bytes :: "slot list \<Rightarrow> u8 list" where
  "row_bytes gs = concat (concat (map slot_entries gs))"

definition dir_image :: "slot list \<Rightarrow> u8 list \<Rightarrow> u8 list \<Rightarrow> bool" where
  "dir_image gs z dir \<longleftrightarrow> dir = row_bytes gs @ z \<and> list_all slot_ok gs \<and> set z \<subseteq> {0} \<and> 32 dvd length z"

text \<open>The files in a row of slots that begins at position \<open>p\<close>: where their entry is, the entry, and
  the long name.\<close>

fun files :: "nat \<Rightarrow> slot list \<Rightarrow> (nat \<times> u8 list \<times> u16 list) list" where
  "files p [] = []"
| "files p (Free e # gs) = files (p + 32) gs"
| "files p (Volume e # gs) = files (p + 32) gs"
| "files p (File ls e # gs) = (p + 32 * length ls, e, long_name ls) # files (p + 32 * Suc (length ls)) gs"

lemma parts_length: "parts_ok c b ls \<Longrightarrow> length (concat ls) = 32 * length ls"
  by (induction c b ls rule: parts_ok.induct) auto

lemma slot_length: "slot_ok g \<Longrightarrow> length (concat (slot_entries g)) = 32 * length (slot_entries g)"
  by (cases g) (auto simp: parts_length plain_entry_def)

lemma row_bytes_simps [simp]: "row_bytes [] = []" "row_bytes (g # gs) = concat (slot_entries g) @ row_bytes gs"
  "row_bytes (gs @ hs) = row_bytes gs @ row_bytes hs"
  by (simp_all add: row_bytes_def)

lemma row_bytes_length: "list_all slot_ok gs \<Longrightarrow> 32 dvd length (row_bytes gs)"
  by (induction gs) (auto simp: slot_length)

lemma files_append: "list_all slot_ok gs \<Longrightarrow> files p (gs @ hs) = files p gs @ files (p + length (row_bytes gs)) hs"
  by (induction p gs rule: files.induct) (auto simp: add.assoc parts_length plain_entry_def add.commute add.left_commute)

text \<open>One round of the search, over the entry \<open>e\<close>.\<close>

definition at_entry :: "find_state \<Rightarrow> u8 list \<Rightarrow> find_state" where
  "at_entry s e = (if f_ord s < 0 then s\<lparr>f_ent := e, f_long := [0]\<rparr> else s\<lparr>f_ent := e\<rparr>)\<lparr>f_pos := f_pos s + 32\<rparr>"

lemma at_entry_simps [simp]:
  "f_ent (at_entry s e) = e" "f_pos (at_entry s e) = f_pos s + 32" "f_ord (at_entry s e) = f_ord s"
  "f_sum (at_entry s e) = f_sum s" "f_freeOffset (at_entry s e) = f_freeOffset s" "f_freeSize (at_entry s e) = f_freeSize s"
  "f_long (at_entry s e) = (if f_ord s < 0 then [0] else f_long s)"
  by (simp_all add: at_entry_def)

lemma find_round:
  assumes "drop (f_pos s) dir = e @ rest" "length e = 32" "length (f_ent s) \<le> 32"
  shows "findNext_loop dir n s =
    (if isFreeEntry e
     then if e ! 0 = 0 then Inr (False, find_free n (at_entry s e), []) else findNext_loop dir n (find_free n (at_entry s e))
     else if isLongNameComponent e then andThen (find_long (at_entry s e)) (findNext_loop dir n)
     else if \<not> isVolumeID e then andThen (find_name (at_entry s e)) (\<lambda>name. Inr (True, at_entry s e, name))
     else findNext_loop dir n (at_entry s e\<lparr>f_ord := - 1\<rparr>))"
proof -
  have t: "take 32 (drop (f_pos s) dir) = e" "e @ drop (length e) (f_ent s) = e" using assms by simp_all
  have a: "(if f_ord (s\<lparr>f_ent := e\<rparr>) < 0 then s\<lparr>f_ent := e, f_long := [0]\<rparr> else s\<lparr>f_ent := e\<rparr>)\<lparr>f_pos := f_pos (s\<lparr>f_ent := e\<rparr>) + 32\<rparr>
      = at_entry s e"
    by (simp add: at_entry_def)
  show ?thesis
    unfolding findNext_loop.simps [of dir n s] Let_def t unfolding a using assms(2) by simp
qed

subsection \<open>Searching a row of slots\<close>

lemma last_bit_clear: "x AND LAST_LONG_ENTRY = 0 \<Longrightarrow> x AND NOT LAST_LONG_ENTRY = x" for x :: u8
proof -
  assume a: "x AND LAST_LONG_ENTRY = 0"
  have "x = (x AND LAST_LONG_ENTRY) OR (x AND NOT LAST_LONG_ENTRY)" by (rule bit_word_eqI) (auto simp: bit_simps)
  then show ?thesis unfolding a by simp
qed

lemma length_assemble [simp]: "length (assembleLongName l e) = 13 + length l"
  by (simp add: assembleLongName_def ldir_offsets)

text \<open>The parts behind the first bring the number down to 0.\<close>

lemma find_parts:
  assumes "parts_ok c False ls" "f_ord s = int (length ls)" "f_sum s = c" "length (f_long s) + 13 * length ls \<le> 261"
    and "drop (f_pos s) dir = concat ls @ rest" "length (f_ent s) \<le> 32"
  shows "\<exists>s'. findNext_loop dir n s = findNext_loop dir n s' \<and> length (f_ent s') \<le> 32 \<and> f_ord s' = 0 \<and> f_sum s' = c
    \<and> f_long s' = foldl assembleLongName (f_long s) ls \<and> f_pos s' = f_pos s + 32 * length ls
    \<and> f_freeOffset s' = f_freeOffset s \<and> f_freeSize s' = f_freeSize s"
  using assms
proof (induction ls arbitrary: s)
  case (Cons l ls)
  let ?s = "at_entry s l"
  let ?t = "?s\<lparr>f_long := assembleLongName (f_long s) l, f_ord := int (length ls)\<rparr>"
  have l: "length l = 32" "isLongNameComponent l" "\<not> isFreeEntry l" "l ! LDIR_Chksum = c" "l ! LDIR_Ord AND LAST_LONG_ENTRY = 0"
    "uint (l ! LDIR_Ord) = int (Suc (length ls))" "parts_ok c False ls"
    using Cons.prems(1) last_bit_clear [of "l ! LDIR_Ord"] by auto
  have "find_long ?s = Inr ?t"
    using l Cons.prems(2-4) by (simp add: find_long_def find_part_def Let_def)
  then have r: "findNext_loop dir n s = findNext_loop dir n ?t"
    using find_round [of s dir l "concat ls @ rest" n] l Cons.prems(5,6) by simp
  have d: "drop (f_pos ?t) dir = concat ls @ rest"
    using Cons.prems(5) l(1) by (simp add: drop_drop [symmetric] add.commute [of _ 32] del: drop_drop)
  show ?case
    unfolding r using Cons.IH [of ?t] l Cons.prems(3,4) d by (auto simp: add.assoc)
qed auto

text \<open>At the slot of a file the search ends, with the entry and its long name.\<close>

lemma find_file:
  assumes "slot_ok (File ls e)" "drop (f_pos s) dir = concat (ls @ [e]) @ rest" "f_ord s < 0" "length (f_ent s) \<le> 32"
  shows "\<exists>s'. findNext_loop dir n s = Inr (True, s', long_name ls) \<and> f_ent s' = e
    \<and> f_pos s' = f_pos s + 32 * Suc (length ls) \<and> f_freeOffset s' = f_freeOffset s \<and> f_freeSize s' = f_freeSize s"
proof (cases ls)
  case Nil
  have "find_name (at_entry s e) = Inr [0]" using assms(3) by (simp add: find_name_def)
  then show ?thesis
    using assms Nil find_round [of s dir e rest n] by (simp add: plain_entry_def long_name_def)
next
  case (Cons l ls')
  let ?s = "at_entry s l" and ?c = "getChecksum e"
  let ?t = "?s\<lparr>f_ord := int (length ls'), f_sum := ?c, f_long := assembleLongName [0] l\<rparr>"
  have l: "length l = 32" "isLongNameComponent l" "\<not> isFreeEntry l" "l ! LDIR_Chksum = ?c" "l ! LDIR_Ord AND LAST_LONG_ENTRY \<noteq> 0"
    "uint (l ! LDIR_Ord AND NOT LAST_LONG_ENTRY) = int (Suc (length ls'))" "parts_ok ?c False ls'" "length ls' < 20"
    using assms(1) Cons by auto
  have "find_long ?s = Inr ?t"
    using l assms(3) by (simp add: find_long_def find_part_def Let_def)
  then have r: "findNext_loop dir n s = findNext_loop dir n ?t"
    using find_round [of s dir l "concat (ls' @ [e]) @ rest" n] l assms(2,4) Cons by simp
  have d: "drop (f_pos ?t) dir = concat ls' @ (e @ rest)"
    using assms(2) Cons l(1) by (simp add: drop_drop [symmetric] add.commute [of _ 32] del: drop_drop)
  obtain u where u: "findNext_loop dir n s = findNext_loop dir n u" "length (f_ent u) \<le> 32" "f_ord u = 0" "f_sum u = ?c"
    "f_long u = foldl assembleLongName (assembleLongName [0] l) ls'" "f_pos u = f_pos s + 32 * Suc (length ls')"
    "f_freeOffset u = f_freeOffset s" "f_freeSize u = f_freeSize s"
    using find_parts [OF l(7), of ?t dir "e @ rest" n] l d r by auto
  have e: "plain_entry e" "length (long_name ls) \<le> 256" using assms(1) by auto
  have "f_pos u = f_pos ?t + 32 * length ls'" using u(6) by simp
  then have "drop (f_pos u) dir = drop (32 * length ls') (drop (f_pos ?t) dir)" by (simp add: add.commute)
  then have "drop (f_pos u) dir = e @ rest" unfolding d using parts_length [OF l(7)] by simp
  moreover have "find_name (at_entry u e) = Inr (long_name ls)"
    using u e(2) Cons by (simp add: find_name_def long_name_def Let_def)
  ultimately have "findNext_loop dir n u = Inr (True, at_entry u e, long_name ls)"
    using find_round [of u dir e rest n] e u(2) by (simp add: plain_entry_def)
  then show ?thesis using u Cons by (intro exI [of _ "at_entry u e"]) simp
qed

text \<open>The free entries the search counts: \<open>k\<close> bytes of entries at \<open>q\<close> that are all free.\<close>

definition free_run :: "u8 list \<Rightarrow> nat \<Rightarrow> nat \<Rightarrow> bool" where
  "free_run dir q k \<longleftrightarrow> 32 dvd q \<and> 32 dvd k
     \<and> (\<forall>j. q \<le> j \<and> j < q + k \<and> 32 dvd j \<longrightarrow> j < length dir \<and> (dir ! j = 0xe5 \<or> dir ! j = 0))"

definition find_inv :: "u8 list \<Rightarrow> find_state \<Rightarrow> bool" where
  "find_inv dir s \<longleftrightarrow> 0 \<le> f_freeOffset s \<and> free_run dir (nat (f_freeOffset s)) (unat (f_freeSize s))
     \<and> nat (f_freeOffset s) + unat (f_freeSize s) \<le> f_pos s"

lemma free_run_le: "free_run dir q k \<Longrightarrow> m \<le> k \<Longrightarrow> 32 dvd m \<Longrightarrow> free_run dir q m"
  by (auto simp: free_run_def)

lemma free_run_0 [simp]: "free_run dir q 0 \<longleftrightarrow> 32 dvd q"
  by (auto simp: free_run_def)

lemma free_run_step: "free_run dir q k \<Longrightarrow> q + k = p \<Longrightarrow> p < length dir \<Longrightarrow> dir ! p = 0xe5 \<or> dir ! p = 0 \<Longrightarrow> free_run dir q (k + 32)"
  unfolding free_run_def
proof (intro conjI allI impI; (elim conjE)?)
  fix j
  assume a: "q + k = p" "p < length dir" "dir ! p = 0xe5 \<or> dir ! p = 0" "32 dvd q" "32 dvd k" "q \<le> j" "j < q + (k + 32)" "32 dvd j"
    and r: "\<forall>j. q \<le> j \<and> j < q + k \<and> 32 dvd j \<longrightarrow> j < length dir \<and> (dir ! j = 0xe5 \<or> dir ! j = 0)"
  have "32 dvd p" using a by auto
  then have "j < p \<or> j = p" using a by (auto elim!: dvdE)
  then show "j < length dir" "dir ! j = 0xe5 \<or> dir ! j = 0" using r a by auto
qed auto

lemma find_free_inv:
  assumes inv: "find_inv dir s" and p: "32 dvd f_pos s" "length dir < 2 ^ 31" "drop (f_pos s) dir = e @ rest" "length e = 32"
    and free: "isFreeEntry e"
  shows "find_inv dir (find_free n (at_entry s e))"
    "f_freeSize (find_free n (at_entry s e)) \<ge> word_of_int n
     \<or> f_freeOffset (find_free n (at_entry s e)) + int (unat (f_freeSize (find_free n (at_entry s e)))) = int (f_pos s) + 32
       \<and> f_freeSize (find_free n (at_entry s e)) \<noteq> 0"
proof -
  let ?o = "f_freeOffset s" and ?k = "f_freeSize s" and ?p = "f_pos s"
  have len: "?p + 32 \<le> length dir" using arg_cong [OF p(3), of length] p(4) by simp
  have hd: "dir ! ?p = e ! 0" using p(3,4) len by (metis add.right_neutral hd_drop_conv_nth add_leE hd_append length_greater_0_conv
        less_le_trans list.size(3) nth_append rel_simps(76) zero_less_numeral hd_conv_nth le_eq_less_or_eq less_add_same_cancel1 drop_all not_le)
  have fr: "dir ! ?p = 0xe5 \<or> dir ! ?p = 0" using free hd by (simp add: isFreeEntry_def)
  have o: "0 \<le> ?o" "nat ?o + unat ?k \<le> ?p" "free_run dir (nat ?o) (unat ?k)" using inv by (auto simp: find_inv_def)
  have "int (nat ?o) + int (unat ?k) \<le> int ?p" using o(2) by linarith
  then have le: "?o + int (unat ?k) \<le> int ?p" using o(1) by (simp only: int_nat_eq if_True)
  moreover have "int ?p < 2 ^ 31" using len p(2) by simp
  ultimately have lt: "?o + int (unat ?k) < 2 ^ 31" by linarith
  have u: "uint (word_of_int ?o + ?k) = ?o + int (unat ?k)"
  proof -
    have "word_of_int ?o + ?k = word_of_int (?o + int (unat ?k))" by simp
    then show ?thesis using o(1) lt by (simp only: uint_word_of_int) (simp add: take_bit_int_eq_self)
  qed
  have "unat ?k < 2 ^ 31" using o(2) len p(2) by linarith
  then have k32: "unat (?k + 32) = unat ?k + 32" by (intro unat_add_u32 [THEN trans]) auto
  show "find_inv dir (find_free n (at_entry s e))"
  proof (cases "?o + int (unat ?k) = int ?p")
    case True
    then have "nat ?o + unat ?k = ?p" using o(1) by (metis int_nat_eq nat_int of_nat_add)
    then have "free_run dir (nat ?o) (unat ?k + 32)" using o(3) fr len by (intro free_run_step [of _ _ _ ?p]) auto
    then show ?thesis using True o u k32 by (simp add: find_inv_def find_free_def Let_def)
  next
    case False
    have i: "int32 (int ?p) = int ?p" using len p(2) by (intro int32_id) auto
    have "free_run dir ?p 32" using free_run_step [of dir ?p 0 ?p] p(1) fr len by simp
    then show ?thesis using False o u i by (auto simp: find_inv_def find_free_def Let_def)
  qed
  show "f_freeSize (find_free n (at_entry s e)) \<ge> word_of_int n
     \<or> f_freeOffset (find_free n (at_entry s e)) + int (unat (f_freeSize (find_free n (at_entry s e)))) = int ?p + 32
       \<and> f_freeSize (find_free n (at_entry s e)) \<noteq> 0"
  proof -
    have i: "int32 (int ?p) = int ?p" using len p(2) by (intro int32_id) auto
    have "uint (?k + 32) = uint ?k + 32" using arg_cong [OF k32, of int] by simp
    moreover have "?k + 32 \<noteq> 0" using k32 by auto
    ultimately show ?thesis using u i by (auto simp: find_free_def Let_def not_less)
  qed
qed

text \<open>Where a search that found nothing stops: behind the first cleared entry, or at the end.\<close>

definition find_done :: "int \<Rightarrow> u8 list \<Rightarrow> u8 list \<Rightarrow> find_state \<Rightarrow> bool" where
  "find_done n dir z s \<longleftrightarrow> find_inv dir s \<and> length (f_ent s) \<le> 32
     \<and> (if z = [] then f_pos s = length dir
        else f_pos s = length dir - length z + 32
          \<and> (word_of_int n \<le> f_freeSize s
            \<or> f_freeOffset s + int (unat (f_freeSize s)) = int (f_pos s) \<and> f_freeSize s \<noteq> 0))"

definition find_next_file :: "u8 list \<Rightarrow> u8 list \<Rightarrow> (nat \<times> u8 list \<times> u16 list) list \<Rightarrow> find_state \<Rightarrow> u16 list \<Rightarrow> bool" where
  "find_next_file dir z fls s nm \<longleftrightarrow> find_inv dir s
     \<and> (\<exists>gs. list_all slot_ok gs \<and> drop (f_pos s) dir = row_bytes gs @ z
          \<and> fls = (f_pos s - 32, f_ent s, nm) # files (f_pos s) gs)
     \<and> 32 dvd f_pos s \<and> length (f_ent s) = 32"

lemma find_inv_pos: "find_inv dir s \<Longrightarrow> f_freeOffset s' = f_freeOffset s \<Longrightarrow> f_freeSize s' = f_freeSize s \<Longrightarrow> f_pos s \<le> f_pos s'
  \<Longrightarrow> find_inv dir s'"
  by (auto simp: find_inv_def)

lemma find_free_ord [simp]: "f_ord (find_free n s) = - 1"
  by (simp add: find_free_def Let_def)

lemma zeros_32:
  assumes "set z \<subseteq> {0}" "32 dvd length z" "z \<noteq> []"
  shows "z = replicate 32 (0 :: u8) @ drop 32 z"
proof -
  have l: "32 \<le> length z" using assms(2,3) by (auto intro: dvd_imp_le)
  have "take 32 z = replicate 32 0"
  proof (rule replicate_eqI)
    show "length (take 32 z) = 32" using l by simp
    show "y \<in> set (take 32 z) \<Longrightarrow> y = 0" for y using assms(1) in_set_takeD by fast
  qed
  then show ?thesis by (metis append_take_drop_id)
qed

lemma find_slots:
  assumes "list_all slot_ok gs" "drop (f_pos s) dir = row_bytes gs @ z" "set z \<subseteq> {0}" "32 dvd length z" "f_pos s \<le> length dir"
    and "f_ord s < 0" "length (f_ent s) \<le> 32" "find_inv dir s" "32 dvd f_pos s" "length dir < 2 ^ 31"
  shows "if files (f_pos s) gs = [] then \<exists>s'. findNext_loop dir n s = Inr (False, s', []) \<and> find_done n dir z s'
    else \<exists>s' nm. findNext_loop dir n s = Inr (True, s', nm) \<and> find_next_file dir z (files (f_pos s) gs) s' nm"
  using assms
proof (induction gs arbitrary: s)
  case Nil
  show ?case
  proof (cases "z = []")
    case True
    then have p: "f_pos s = length dir" using Nil by simp
    then have "findNext_loop dir n s = Inr (False, s, [])" by (subst findNext_loop.simps) simp
    then show ?thesis using True p Nil by (simp add: find_done_def)
  next
    case False
    let ?e = "replicate 32 (0 :: u8)"
    have d: "drop (f_pos s) dir = ?e @ drop 32 z" using Nil.prems(2) zeros_32 [OF Nil.prems(3,4) False] by simp
    have fr: "isFreeEntry ?e" by (simp add: isFreeEntry_def)
    let ?s = "find_free n (at_entry s ?e)"
    have "findNext_loop dir n s = Inr (False, ?s, [])" using find_round [OF d _ Nil.prems(7)] fr by simp
    moreover have "find_done n dir z ?s"
      using find_free_inv [OF Nil.prems(8-10) d _ fr, of n] False Nil.prems(2,5) arg_cong [OF Nil.prems(2), of length]
      by (auto simp: find_done_def)
    ultimately show ?thesis by simp
  qed
next
  case (Cons g gs)
  have ok: "slot_ok g" "list_all slot_ok gs" using Cons.prems(1) by simp_all
  have step: "drop (f_pos s + 32) dir = row_bytes gs @ z" "f_pos s + 32 \<le> length dir" if "drop (f_pos s) dir = e @ row_bytes gs @ z" "length e = 32" for e
  proof -
    have "drop (f_pos s + 32) dir = drop 32 (drop (f_pos s) dir)" by (simp add: add.commute)
    then show "drop (f_pos s + 32) dir = row_bytes gs @ z" unfolding that(1) using that(2) by simp
    show "f_pos s + 32 \<le> length dir" using arg_cong [OF that(1), of length] that(2) by simp
  qed
  show ?case
  proof (cases g)
    case (Free e)
    have d: "drop (f_pos s) dir = e @ row_bytes gs @ z" "length e = 32" using Cons.prems(2) ok Free by simp_all
    have fr: "isFreeEntry e" "e ! 0 \<noteq> 0" using ok Free by (simp_all add: isFreeEntry_def)
    let ?s = "find_free n (at_entry s e)"
    have r: "findNext_loop dir n s = findNext_loop dir n ?s" using find_round [OF d Cons.prems(7)] fr by simp
    show ?thesis
      unfolding r using Cons.IH [of ?s, unfolded find_free_pos at_entry_simps] ok(2) step [OF d] Cons.prems(3,4,9,10) Free d(2)
        find_free_inv(1) [OF Cons.prems(8-10) d fr(1), of n] by simp
  next
    case (Volume e)
    have d: "drop (f_pos s) dir = e @ row_bytes gs @ z" "length e = 32" using Cons.prems(2) ok Volume by simp_all
    let ?s = "at_entry s e\<lparr>f_ord := - 1\<rparr>"
    have r: "findNext_loop dir n s = findNext_loop dir n ?s" using find_round [OF d Cons.prems(7)] ok Volume by simp
    have "find_inv dir ?s" by (rule find_inv_pos [OF Cons.prems(8)]) simp_all
    then show ?thesis
      unfolding r using Cons.IH [of ?s] ok(2) step [OF d] Cons.prems(3,4,9,10) Volume d(2) by (simp cong: if_cong)
  next
    case (File ls e)
    have d: "drop (f_pos s) dir = concat (ls @ [e]) @ row_bytes gs @ z" using Cons.prems(2) File by simp
    have l: "length (concat (ls @ [e])) = 32 * Suc (length ls)" using slot_length [of g] ok(1) File by simp
    obtain s' where s': "findNext_loop dir n s = Inr (True, s', long_name ls)" "f_ent s' = e"
      "f_pos s' = f_pos s + 32 * Suc (length ls)" "f_freeOffset s' = f_freeOffset s" "f_freeSize s' = f_freeSize s"
      using find_file [OF _ d Cons.prems(6,7)] ok(1) File by blast
    have "drop (f_pos s') dir = drop (32 * Suc (length ls)) (drop (f_pos s) dir)" using s'(3) by (simp add: add.commute)
    then have "drop (f_pos s') dir = row_bytes gs @ z" unfolding d using l by simp
    moreover have "find_inv dir s'" by (rule find_inv_pos [OF Cons.prems(8)]) (use s' in simp_all)
    moreover have "32 dvd f_pos s'" using Cons.prems(9) s'(3) by (metis dvd_add dvd_triv_left)
    ultimately have "find_next_file dir z (files (f_pos s) (g # gs)) s' (long_name ls)"
      using s' ok File by (auto simp: find_next_file_def plain_entry_def)
    then show ?thesis using s'(1) File by auto
  qed
qed

text \<open>The space that a search without result leaves: it begins in the row of slots or right behind
  it, and in the directory grown as far as needed all its entries are free.\<close>

definition grown :: "u8 list \<Rightarrow> nat \<Rightarrow> u8 list" where
  "grown dir k = dir @ replicate (k - length dir) 0"

definition space :: "u8 list \<Rightarrow> u8 list \<Rightarrow> nat \<Rightarrow> nat \<Rightarrow> bool" where
  "space dir z q k \<longleftrightarrow> q + length z \<le> length dir \<and> free_run (grown dir (q + k)) q k"

lemma free_run_zeros:
  assumes "free_run dir q k" "32 dvd m" "\<forall>j. q + k \<le> j \<and> j < length dir \<longrightarrow> dir ! j = 0"
  shows "free_run (grown dir (q + m)) q m"
  using assms unfolding free_run_def grown_def
  by (auto simp: nth_append) (metis le_less_linear)+

lemma find_end_space:
  assumes "find_done n dir z s" "0 < n" "n < 2 ^ 20" "32 dvd nat n" "32 dvd length dir" "length dir < 2 ^ 30"
    and "drop (length dir - length z) dir = z" "set z \<subseteq> {0}" "length z \<le> length dir" "32 dvd length z"
  shows "\<exists>s' q. find_end n (length dir) s = (s', if length dir < q + nat n then Some (int (q + nat n)) else None)
    \<and> f_freeOffset s' = int q \<and> word_of_int n \<le> f_freeSize s' \<and> f_ent s' = f_ent s \<and> f_pos s' = f_pos s
    \<and> space dir z q (nat n)"
proof -
  let ?o = "f_freeOffset s" and ?k = "f_freeSize s" and ?p = "f_pos s"
  have inv: "0 \<le> ?o" "free_run dir (nat ?o) (unat ?k)" "nat ?o + unat ?k \<le> ?p" using assms(1) by (auto simp: find_done_def find_inv_def)
  have end0: "dir ! j = 0" if "length dir - length z \<le> j" "j < length dir" for j
  proof -
    have "z ! (j - (length dir - length z)) = dir ! j" using that assms(7,9) by (metis le_add_diff_inverse nth_drop diff_le_self)
    moreover have "j - (length dir - length z) < length z" using that assms(9) by linarith
    ultimately show ?thesis using assms(8) nth_mem by fastforce
  qed
  have pl: "?p \<le> length dir" "length dir - length z \<le> ?p" "z \<noteq> [] \<longrightarrow> ?p = length dir - length z + 32"
    using assms(1,9,10) dvd_imp_le [of 32 "length z"] by (auto simp: find_done_def split: if_splits)
  have lt: "?o + uint ?k \<le> int ?p" using inv(1,3) by (metis int_nat_eq of_nat_add of_nat_mono uint_nat)
  moreover have "int ?p < 2 ^ 30" using pl(1) assms(6) by simp
  ultimately have lt30: "?o + uint ?k < 2 ^ 30" by (rule le_less_trans)
  have u: "uint (word_of_int ?o + ?k) = ?o + uint ?k"
  proof -
    have "word_of_int ?o + ?k = word_of_int (?o + uint ?k)" by simp
    then show ?thesis using inv(1) lt30 by (simp only: uint_word_of_int) (simp add: take_bit_int_eq_self)
  qed
  have n: "uint (word_of_int n :: u32) = n" using assms(2,3) by (simp add: uint_word_of_int take_bit_int_eq_self)
  show ?thesis
  proof (cases "word_of_int n \<le> ?k")
    case True
    then have nk: "nat n \<le> unat ?k" using u32_of_int [of n] assms(2,3) by (simp add: word_le_nat_alt)
    have le: "nat ?o + nat n \<le> length dir" using nk inv(3) pl(1) by linarith
    have "nat ?o + 32 \<le> nat ?o + nat n" using assms(2,4) by (auto intro: dvd_imp_le)
    then have "nat ?o + length z \<le> length dir"
      using nk inv(3) pl assms(9) by (cases "z = []") auto
    moreover have "free_run (grown dir (nat ?o + nat n)) (nat ?o) (nat n)"
      using free_run_le [OF inv(2) nk assms(4)] le by (simp add: grown_def)
    ultimately have "space dir z (nat ?o) (nat n)" by (simp add: space_def)
    moreover have "\<not> ?k < word_of_int n" using True by (simp add: not_less)
    ultimately show ?thesis
      using True le inv(1) by (intro exI [of _ s] exI [of _ "nat ?o"]) (simp add: find_end_def)
  next
    case False
    have i: "int32 (int ?p) = int ?p" using pl(1) assms(6) by (intro int32_id) auto
    show ?thesis
    proof (cases "?o + uint ?k = int ?p")
      case True
      let ?s = "s\<lparr>f_freeSize := word_of_int n\<rparr>"
      have e: "nat ?o + unat ?k = ?p" using True inv(1) by (metis int_nat_eq nat_int of_nat_add uint_nat)
      have "free_run (grown dir (nat ?o + nat n)) (nat ?o) (nat n)"
        by (rule free_run_zeros [OF inv(2) assms(4)]) (use e pl end0 in auto)
      moreover have "nat ?o + length z \<le> length dir"
      proof (cases "z = []")
        case True
        then show ?thesis using inv(3) pl(1) by simp
      next
        case z: False
        have "?p \<noteq> nat ?o \<longrightarrow> nat ?o + 32 \<le> ?p"
          using e inv(2) dvd_imp_le [of 32 "unat ?k"] by (auto simp: free_run_def)
        moreover have "?p \<noteq> nat ?o"
          using z \<open>\<not> word_of_int n \<le> ?k\<close> assms(1) e by (auto simp: find_done_def unat_eq_0)
        ultimately show ?thesis using pl(3) z assms(9) by auto
      qed
      ultimately have "space dir z (nat ?o) (nat n)" by (simp add: space_def)
      moreover have "int (length dir) < ?o + n \<longleftrightarrow> length dir < nat ?o + nat n" using inv(1) assms(2) by linarith
      ultimately show ?thesis using False True u inv(1)
        by (intro exI [of _ ?s] exI [of _ "nat ?o"]) (auto simp: find_end_def Let_def assms(2) less_imp_le)
    next
      case ne: False
      then have z: "z = []" using False assms(1) by (auto simp: find_done_def split: if_splits)
      let ?s = "s\<lparr>f_freeOffset := int ?p, f_freeSize := word_of_int n\<rparr>"
      have p: "?p = length dir" using z assms(1) by (simp add: find_done_def)
      have "free_run (grown dir (?p + nat n)) ?p (nat n)"
        by (rule free_run_zeros [of dir ?p 0]) (use p assms in auto)
      then have "space dir z ?p (nat n)" using p z by (simp add: space_def)
      moreover have "int (length dir) < int ?p + n \<longleftrightarrow> length dir < ?p + nat n" using assms(2) by linarith
      ultimately show ?thesis using False ne u i p assms(2)
        by (intro exI [of _ ?s] exI [of _ ?p]) (auto simp: find_end_def Let_def)
    qed
  qed
qed

text \<open>\<^verbatim>\<open>findNext\<close> from a position where a slot begins.\<close>

definition row_at :: "u8 list \<Rightarrow> nat \<Rightarrow> slot list \<Rightarrow> u8 list \<Rightarrow> bool" where
  "row_at dir p gs z \<longleftrightarrow> list_all slot_ok gs \<and> drop p dir = row_bytes gs @ z \<and> p \<le> length dir \<and> 32 dvd p
     \<and> set z \<subseteq> {0} \<and> 32 dvd length z \<and> length dir < 2 ^ 30"

lemma row_at_0: "dir_image gs z dir \<Longrightarrow> length dir < 2 ^ 30 \<Longrightarrow> row_at dir 0 gs z"
  by (auto simp: dir_image_def row_at_def)

lemma row_at_end:
  assumes "row_at dir p gs z"
  shows "drop (length dir - length z) dir = z" "length z \<le> length dir" "32 dvd length dir"
proof -
  have d: "drop p dir = row_bytes gs @ z" "p \<le> length dir" using assms by (auto simp: row_at_def)
  have l: "length dir = p + length (row_bytes gs) + length z" using arg_cong [OF d(1), of length] d(2) by simp
  then have "drop (length dir - length z) dir = drop (length (row_bytes gs)) (drop p dir)" by (simp add: add.commute)
  then show "drop (length dir - length z) dir = z" unfolding d(1) by simp
  show "length z \<le> length dir" "32 dvd length dir"
    using l assms row_bytes_length [of gs] by (auto simp: row_at_def)
qed

lemma findNext_file:
  assumes "row_at dir p gs z" "files p gs \<noteq> []" "length ent \<le> 32"
  shows "\<exists>s nm gs'. findNext dir p ent n = Inr (True, s, nm, None) \<and> find_inv dir s \<and> length (f_ent s) = 32
    \<and> row_at dir (f_pos s) gs' z \<and> files p gs = (f_pos s - 32, f_ent s, nm) # files (f_pos s) gs'"
proof -
  let ?s = "\<lparr>f_pos = p, f_ent = ent, f_ord = - 1, f_sum = 0, f_long = [], f_freeOffset = 0, f_freeSize = 0\<rparr>"
  have r: "list_all slot_ok gs" "drop p dir = row_bytes gs @ z" "p \<le> length dir" "32 dvd p"
    "set z \<subseteq> {0}" "32 dvd length z" "length dir < 2 ^ 30" using assms(1) by (auto simp: row_at_def)
  have "find_inv dir ?s" by (simp add: find_inv_def)
  then obtain s nm where s: "findNext_loop dir n ?s = Inr (True, s, nm)" "find_next_file dir z (files p gs) s nm"
    using find_slots [of gs ?s dir z n] r assms(2,3) by auto
  then obtain gs' where "list_all slot_ok gs'" "drop (f_pos s) dir = row_bytes gs' @ z"
    "files p gs = (f_pos s - 32, f_ent s, nm) # files (f_pos s) gs'" by (auto simp: find_next_file_def)
  moreover have "f_pos s \<le> length dir" using findNext_loop_pos [OF s(1)] by simp
  ultimately show ?thesis using s r by (auto simp: findNext_def find_next_file_def row_at_def)
qed

lemma findNext_none:
  assumes "row_at dir p gs z" "files p gs = []" "length ent \<le> 32" "0 \<le> n" "n < 2 ^ 20" "32 dvd nat n"
  shows "\<exists>s q. findNext dir p ent n = Inr (False, s, [], if 0 < n \<and> length dir < q + nat n then Some (int (q + nat n)) else None)
    \<and> (0 < n \<longrightarrow> f_freeOffset s = int q \<and> word_of_int n \<le> f_freeSize s \<and> space dir z q (nat n)) \<and> length (f_ent s) \<le> 32"
proof -
  let ?s = "\<lparr>f_pos = p, f_ent = ent, f_ord = - 1, f_sum = 0, f_long = [], f_freeOffset = 0, f_freeSize = 0\<rparr>"
  have r: "list_all slot_ok gs" "drop p dir = row_bytes gs @ z" "p \<le> length dir" "32 dvd p"
    "set z \<subseteq> {0}" "32 dvd length z" "length dir < 2 ^ 30" using assms(1) by (auto simp: row_at_def)
  have "find_inv dir ?s" by (simp add: find_inv_def)
  then obtain s where s: "findNext_loop dir n ?s = Inr (False, s, [])" "find_done n dir z s"
    using find_slots [of gs ?s dir z n] r assms(2,3) by auto
  show ?thesis
  proof (cases "0 < n")
    case True
    from find_end_space [OF s(2) True assms(5,6) row_at_end(3) [OF assms(1)] r(7) row_at_end(1) [OF assms(1)] r(5)
        row_at_end(2) [OF assms(1)] r(6)]
    obtain s' q where "find_end n (length dir) s = (s', if length dir < q + nat n then Some (int (q + nat n)) else None)"
      "f_freeOffset s' = int q" "word_of_int n \<le> f_freeSize s'" "f_ent s' = f_ent s" "space dir z q (nat n)" by blast
    moreover have "length (f_ent s) \<le> 32" using s(2) by (simp add: find_done_def)
    ultimately show ?thesis using s(1) True by (intro exI [of _ s'] exI [of _ q]) (simp add: findNext_def)
  next
    case False
    moreover have "length (f_ent s) \<le> 32" using s(2) by (simp add: find_done_def)
    ultimately show ?thesis using s(1) assms(4) by (simp add: findNext_def find_end_def)
  qed
qed

subsection \<open>Looking up a name\<close>

lemma lookup_entry_row:
  "row_at dir p gs z \<Longrightarrow>
   lookup_entry fileName dir p = Inr (map_option (\<lambda>(q, e, nm). (q, e)) (find (\<lambda>(q, e, nm). isEqual fileName nm e) (files p gs)))"
proof (induction "length (files p gs)" arbitrary: p gs)
  case 0
  then have e: "files p gs = []" by simp
  from findNext_none [OF 0(2) e, of "[]" 0] obtain s g where "findNext dir p [] 0 = Inr (False, s, [], g)" by auto
  then show ?case using e by (subst lookup_entry.simps) simp
next
  case (Suc k)
  then have "files p gs \<noteq> []" by auto
  from findNext_file [OF Suc(3) this, of "[]" 0] obtain s nm gs' where s: "findNext dir p [] 0 = Inr (True, s, nm, None)"
    "row_at dir (f_pos s) gs' z" "files p gs = (f_pos s - 32, f_ent s, nm) # files (f_pos s) gs'" by auto
  have "lookup_entry fileName dir (f_pos s)
      = Inr (map_option (\<lambda>(q, e, nm). (q, e)) (find (\<lambda>(q, e, nm). isEqual fileName nm e) (files (f_pos s) gs')))"
    by (rule Suc(1) [OF _ s(2)]) (use Suc(2) s(3) in simp)
  then show ?case using s by (subst lookup_entry.simps) simp
qed

subsection \<open>Putting a file into free entries\<close>

fun free_slot :: "slot \<Rightarrow> bool" where
  "free_slot (Free e) = True"
| "free_slot _ = False"

lemma nth_concat32: "list_all (\<lambda>x. length x = 32) xs \<Longrightarrow> i < length xs \<Longrightarrow> concat xs ! (32 * i) = xs ! i ! 0"
proof (induction xs arbitrary: i)
  case (Cons x xs)
  show ?case
  proof (cases i)
    case 0
    then show ?thesis using Cons.prems(1) by (simp add: nth_append)
  next
    case (Suc j)
    then have "concat (x # xs) ! (32 * i) = concat xs ! (32 * j)" using Cons.prems(1) by (simp add: nth_append)
    then show ?thesis using Cons Suc by simp
  qed
qed simp

lemma parts_entries: "parts_ok c b ls \<Longrightarrow> list_all (\<lambda>x. length x = 32 \<and> \<not> isFreeEntry x \<and> isLongNameComponent x) ls"
  by (induction c b ls rule: parts_ok.induct) auto

text \<open>Only the slot of a free entry begins, or goes on, with a free entry.\<close>

lemma entry_of_slot:
  assumes "slot_ok g" "i < length (slot_entries g)"
    and "concat (slot_entries g) ! (32 * i) = 0xe5 \<or> concat (slot_entries g) ! (32 * i) = 0"
  shows "free_slot g \<and> i = 0"
proof (cases g)
  case (File ls e)
  have a: "list_all (\<lambda>x. length x = 32 \<and> \<not> isFreeEntry x) (ls @ [e])"
    using parts_entries [of "getChecksum e" True ls] assms(1) File by (auto simp: plain_entry_def list_all_iff)
  then have "list_all (\<lambda>x. length x = 32) (ls @ [e])" by (auto simp: list_all_iff)
  then have n: "concat (slot_entries g) ! (32 * i) = (ls @ [e]) ! i ! 0"
    using nth_concat32 [of "ls @ [e]" i] assms(2) File by simp
  have "(ls @ [e]) ! i \<in> set (ls @ [e])" using assms(2) File by (intro nth_mem) simp
  then have "\<not> isFreeEntry ((ls @ [e]) ! i)" using a by (auto simp: list_all_iff)
  then show ?thesis using n assms(3) by (simp add: isFreeEntry_def)
qed (use assms in \<open>auto simp: isFreeEntry_def\<close>)

lemma split_at_free:
  assumes "list_all slot_ok gs" "q < length (row_bytes gs)" "32 dvd q" "row_bytes gs ! q = 0xe5 \<or> row_bytes gs ! q = 0"
  shows "\<exists>as bs. gs = as @ bs \<and> length (row_bytes as) = q"
  using assms
proof (induction gs arbitrary: q)
  case (Cons g gs)
  obtain i where q: "q = 32 * i" using Cons.prems(3) by auto
  have g: "slot_ok g" "list_all slot_ok gs" using Cons.prems(1) by simp_all
  let ?l = "length (concat (slot_entries g))"
  show ?case
  proof (cases "q < ?l")
    case True
    then have "i < length (slot_entries g)" using q slot_length [OF g(1)] by simp
    moreover have "row_bytes (g # gs) ! q = concat (slot_entries g) ! (32 * i)" using True q by (simp add: nth_append)
    ultimately have "i = 0" using entry_of_slot [OF g(1)] Cons.prems(4) by simp
    then show ?thesis using q by (intro exI [of _ "[]"] exI [of _ "g # gs"]) simp
  next
    case False
    have "row_bytes (g # gs) ! q = row_bytes gs ! (q - ?l)" using False by (simp add: nth_append)
    moreover have "32 dvd q - ?l" using Cons.prems(3) slot_length [OF g(1)] by (simp add: dvd_diff_nat)
    moreover have "q - ?l < length (row_bytes gs)" using Cons.prems(2) False by simp
    ultimately obtain as bs where "gs = as @ bs" "length (row_bytes as) = q - ?l"
      using Cons.IH [OF g(2), of "q - ?l"] Cons.prems(4) by auto
    then show ?thesis using False by (intro exI [of _ "g # as"] exI [of _ bs]) simp
  qed
qed simp

lemma free_run_head: "free_run dir q k \<Longrightarrow> 0 < k \<Longrightarrow> q < length dir \<and> (dir ! q = 0xe5 \<or> dir ! q = 0)"
  by (auto simp: free_run_def)

lemma free_run_drop:
  assumes "free_run (xs @ dir) (length xs + q) k" "32 dvd length xs"
  shows "free_run dir q k"
  unfolding free_run_def
proof (intro conjI allI impI)
  fix j
  assume j: "q \<le> j \<and> j < q + k \<and> 32 dvd j"
  then have "length xs + j < length (xs @ dir) \<and> ((xs @ dir) ! (length xs + j) = 0xe5 \<or> (xs @ dir) ! (length xs + j) = 0)"
    using assms spec [of "\<lambda>j. length xs + q \<le> j \<and> j < length xs + q + k \<and> 32 dvd j \<longrightarrow> j < length (xs @ dir)
        \<and> ((xs @ dir) ! j = 0xe5 \<or> (xs @ dir) ! j = 0)" "length xs + j"]
    unfolding free_run_def by (simp del: nth_append_length_plus)
  then show "j < length dir" "dir ! j = 0xe5 \<or> dir ! j = 0" by auto
qed (use assms in \<open>auto simp: free_run_def dvd_add_right_iff\<close>)

lemma free_prefix:
  assumes "list_all slot_ok gs" "free_run (row_bytes gs @ z) 0 k" "32 dvd length z"
  shows "\<exists>fs bs y z'. gs = fs @ bs \<and> list_all free_slot fs \<and> z = y @ z' \<and> length (row_bytes fs) + length y = k
    \<and> (y = [] \<or> bs = [])"
  using assms
proof (induction gs arbitrary: k)
  case Nil
  have "k \<le> length z"
  proof (cases "k = 0")
    case False
    have "32 dvd k" using Nil by (simp add: free_run_def)
    moreover from this have "32 dvd k - 32" "k - 32 < k" using False by (auto simp: dvd_diff_nat)
    ultimately have "k - 32 < length z" using Nil(2) by (simp add: free_run_def)
    then show ?thesis using Nil(3) \<open>32 dvd k\<close> by (auto elim!: dvdE)
  qed simp
  then show ?case by (intro exI [of _ "[]"] exI [of _ "take k z"] exI [of _ "drop k z"]) simp
next
  case (Cons g gs)
  show ?case
  proof (cases "k = 0")
    case True
    then show ?thesis by (intro exI [of _ "[]"] exI [of _ "g # gs"] exI [of _ z]) simp
  next
    case False
    have g: "slot_ok g" "list_all slot_ok gs" using Cons.prems(1) by simp_all
    have ne: "slot_entries g \<noteq> []" by (cases g) auto
    have l: "0 < length (concat (slot_entries g))" using slot_length [OF g(1)] ne by (cases "slot_entries g") auto
    have "concat (slot_entries g) ! 0 = 0xe5 \<or> concat (slot_entries g) ! 0 = 0"
      using free_run_head [OF Cons.prems(2)] False l by (auto simp: nth_append)
    then have "free_slot g" using entry_of_slot [OF g(1), of 0] ne by simp
    then obtain e where e: "g = Free e" "length e = 32" using g(1) by (cases g) auto
    have k: "32 dvd k" using Cons.prems(2) by (simp add: free_run_def)
    then have k32: "32 \<le> k" using False by (simp add: dvd_imp_le)
    have "free_run (e @ (row_bytes gs @ z)) (length e + 0) (k - 32)"
      using Cons.prems(2) e k k32 unfolding free_run_def by (auto simp: dvd_diff_nat)
    then have "free_run (row_bytes gs @ z) 0 (k - 32)" by (rule free_run_drop) (simp add: e)
    from Cons.IH [OF g(2) this Cons.prems(3)] obtain fs bs y z' where
      "gs = fs @ bs" "list_all free_slot fs" "z = y @ z'" "length (row_bytes fs) + length y = k - 32" "y = [] \<or> bs = []" by blast
    then show ?thesis using e k32 by (intro exI [of _ "g # fs"] exI [of _ bs] exI [of _ y] exI [of _ z']) simp
  qed
qed

lemma files_of_free: "list_all slot_ok fs \<Longrightarrow> list_all free_slot fs \<Longrightarrow> files p (fs @ bs) = files (p + length (row_bytes fs)) bs"
proof (induction fs arbitrary: p)
  case (Cons g fs)
  then show ?case by (cases g) (auto simp: add.assoc)
qed simp

lemma put_file:
  assumes "dir_image gs z dir" "space dir z q k" "k = 32 * Suc (length ls)" "slot_ok (File ls e)"
  shows "\<exists>gs' z'. dir_image gs' z' (overwrite (grown dir (q + k)) q (concat (ls @ [e])))
    \<and> set (files 0 gs') = insert (q + 32 * length ls, e, long_name ls) (set (files 0 gs))"
proof -
  let ?x = "concat (ls @ [e])"
  define z2 where "z2 = z @ replicate (q + k - length dir) (0 :: u8)"
  have d: "dir = row_bytes gs @ z" "list_all slot_ok gs" "set z \<subseteq> {0}" "32 dvd length z"
    using assms(1) by (auto simp: dir_image_def)
  have q: "q \<le> length (row_bytes gs)" and run: "free_run (grown dir (q + k)) q k" "32 dvd q" "32 dvd k"
    using assms(2) d(1) by (auto simp: space_def free_run_def)
  have D: "grown dir (q + k) = row_bytes gs @ z2" using d(1) by (simp add: grown_def z2_def)
  have z2: "set z2 \<subseteq> {0}" "32 dvd length z2"
    using d(3,4) row_bytes_length [OF d(2)] run(2,3) d(1) by (auto simp: z2_def dvd_diff_nat)
  have "\<exists>as bs. gs = as @ bs \<and> length (row_bytes as) = q"
  proof (cases "q = length (row_bytes gs)")
    case False
    have "0 < k" using assms(3) by simp
    from free_run_head [OF run(1) this] show ?thesis
      using split_at_free [OF d(2) _ run(2)] False q by (simp add: D nth_append)
  qed auto
  then obtain as bs where ab: "gs = as @ bs" "length (row_bytes as) = q" by blast
  have "free_run (row_bytes as @ (row_bytes bs @ z2)) (length (row_bytes as) + 0) k" using run(1) D ab by simp
  then have "free_run (row_bytes bs @ z2) 0 k" by (rule free_run_drop) (use ab run(2) in simp)
  from free_prefix [OF _ this z2(2)] d(2) ab obtain fs cs y z' where
    f: "bs = fs @ cs" "list_all free_slot fs" "z2 = y @ z'" "length (row_bytes fs) + length y = k" "y = [] \<or> cs = []" by auto
  have ok: "list_all slot_ok as" "list_all slot_ok fs" "list_all slot_ok cs" using d(2) ab f(1) by simp_all
  let ?g = "as @ File ls e # cs"
  have x: "length ?x = k" using slot_length [OF assms(4)] assms(3) by simp
  have "32 dvd length z'"
  proof -
    have "length y = k - length (row_bytes fs)" using f(4) by simp
    then have "32 dvd length y" using run(3) row_bytes_length [OF ok(2)] by (simp add: dvd_diff_nat)
    then show ?thesis using z2(2) f(3) by (simp add: dvd_add_right_iff)
  qed
  moreover have "overwrite (grown dir (q + k)) q ?x = row_bytes ?g @ z'"
    unfolding overwrite_def D x using ab f by (auto simp: drop_append)
  ultimately have "dir_image ?g z' (overwrite (grown dir (q + k)) q ?x)"
    using ok assms(4) z2(1) f(3) by (simp add: dir_image_def)
  moreover have "files 0 ?g = files 0 as @ (q + 32 * length ls, e, long_name ls) # files (q + k) cs"
    using files_append [OF ok(1), of 0] ab(2) assms(3) by simp
  moreover have "files 0 gs = files 0 as @ files (q + k) cs"
    using files_append [OF ok(1), of 0] ab f files_of_free [OF ok(2) f(2), of q cs] by auto
  ultimately show ?thesis by (intro exI [of _ ?g] exI [of _ z']) auto
qed

subsection \<open>The search of \<open>create\<close>\<close>

text \<open>A place has been found already, or is still wanted.\<close>

definition place_got :: "u8 list \<Rightarrow> u8 list \<Rightarrow> u32 \<Rightarrow> create_state \<Rightarrow> bool" where
  "place_got dir z need s \<longleftrightarrow> c_freeRequired s = 0
     \<and> (\<exists>q. c_off s = int q \<and> q + unat need \<le> length dir \<and> space dir z q (unat need))"

definition scan_inv :: "u8 list \<Rightarrow> u8 list \<Rightarrow> u32 \<Rightarrow> create_state \<Rightarrow> bool" where
  "scan_inv dir z need s \<longleftrightarrow> (c_freeRequired s = need \<or> place_got dir z need s) \<and> length (c_ent s) \<le> 32"

definition scan_end :: "u8 list \<Rightarrow> u8 list \<Rightarrow> u32 \<Rightarrow> create_state \<Rightarrow> int option \<Rightarrow> bool" where
  "scan_end dir z need s grow \<longleftrightarrow>
     (if c_freeRequired s = 0 then grow = None
      else \<exists>q. c_freeOffset s = int q \<and> need \<le> c_freeSize s \<and> space dir z q (unat need)
        \<and> grow = (if length dir < q + unat need then Some (int (q + unat need)) else None))"

lemma row_at_pos:
  assumes "row_at dir p gs z"
  shows "p + length z \<le> length dir"
proof -
  have d: "drop p dir = row_bytes gs @ z" "p \<le> length dir" using assms by (auto simp: row_at_def)
  show ?thesis using arg_cong [OF d(1), of length] d(2) by simp
qed

lemma take_space_inv:
  assumes "scan_inv dir z need s" "0 < need" "32 dvd unat need" "find_inv dir f" "row_at dir (f_pos f) gs z" "length (f_ent f) \<le> 32"
  shows "scan_inv dir z need (take_space (scan_found s f))"
proof (cases "c_freeRequired s = need \<and> need \<le> f_freeSize f")
  case True
  let ?q = "nat (f_freeOffset f)"
  have le: "unat need \<le> unat (f_freeSize f)" using True by (simp add: word_le_nat_alt)
  have f: "0 \<le> f_freeOffset f" "free_run dir ?q (unat (f_freeSize f))" "?q + unat (f_freeSize f) \<le> f_pos f"
    using assms(4) by (auto simp: find_inv_def)
  have b: "?q + unat need + length z \<le> length dir" using f(3) le row_at_pos [OF assms(5)] by linarith
  then have "grown dir (?q + unat need) = dir" by (simp add: grown_def)
  then have "space dir z ?q (unat need)" using free_run_le [OF f(2) le assms(3)] b by (simp add: space_def)
  then have "place_got dir z need (take_space (scan_found s f))"
    using True assms(2) b f(1) by (auto simp: place_got_def take_space_def scan_found_def intro!: exI [of _ ?q])
  then show ?thesis using assms(6) by (simp add: scan_inv_def take_space_def scan_found_def)
next
  case False
  then show ?thesis using assms(1,6) by (auto simp: scan_inv_def take_space_def scan_found_def place_got_def)
qed

lemma create_scan_row:
  assumes "create_scan fileName oem lossy base dir s = Inr (Some (s', grow))" "row_at dir (c_pos s) gs z" "scan_inv dir z need s"
    and "0 < need" "unat need < 2 ^ 20" "32 dvd unat need" "c_map s \<noteq> 0xffffffff"
  shows "scan_inv dir z need s' \<and> (c_map s' = 0xffffffff \<and> lossy \<and> grow = None \<and> take_space s' = s'
    \<or> c_map s' \<noteq> 0xffffffff \<and> (\<forall>(q, e, nm) \<in> set (files (c_pos s) gs). \<not> isEqual fileName nm e) \<and> scan_end dir z need s' grow)"
  using assms(1-3,7)
proof (induction "length (files (c_pos s) gs)" arbitrary: s gs)
  case 0
  let ?n = "uint (c_freeRequired s)"
  have e: "files (c_pos s) gs = []" using 0(1) by simp
  have fr: "c_freeRequired s = 0 \<or> c_freeRequired s = need" and ent: "length (c_ent s) \<le> 32"
    using 0(4) by (auto simp: scan_inv_def place_got_def)
  have nn: "nat ?n = unat (c_freeRequired s)" by simp
  have "int (unat need) < int (2 ^ 20)" using assms(5) by (rule iffD2 [OF of_nat_less_iff])
  then have un: "uint need < 2 ^ 20" by simp
  have n: "0 \<le> ?n" "?n < 2 ^ 20" "32 dvd nat ?n"
    subgoal by simp
    subgoal using fr un by (elim disjE) simp_all
    subgoal unfolding nn using fr assms(6) by (elim disjE) simp_all
    done
  from findNext_none [OF 0(3) e ent n] obtain f q where f:
    "findNext dir (c_pos s) (c_ent s) ?n = Inr (False, f, [], if 0 < ?n \<and> length dir < q + nat ?n then Some (int (q + nat ?n)) else None)"
    "0 < ?n \<longrightarrow> f_freeOffset f = int q \<and> word_of_int ?n \<le> f_freeSize f \<and> space dir z q (nat ?n)"
    and fe: "length (f_ent f) \<le> 32" by blast
  have s': "s' = scan_found s f" "grow = (if 0 < ?n \<and> length dir < q + nat ?n then Some (int (q + nat ?n)) else None)"
    using 0(2) f(1) by (subst (asm) create_scan.simps, simp)+
  have pos: "0 < ?n \<longleftrightarrow> c_freeRequired s \<noteq> 0" by (metis uint_0_iff uint_ge_0 less_le)
  have "scan_end dir z need s' grow"
    using f(2) fr s' pos nn by (auto simp: scan_end_def scan_found_def)
  moreover have "scan_inv dir z need s'"
    using 0(4) fe by (auto simp: s' scan_inv_def scan_found_def place_got_def)
  ultimately show ?case using e 0(5) s'(1) by (simp add: scan_found_def)
next
  case (Suc k)
  let ?n = "uint (c_freeRequired s)"
  have ne: "files (c_pos s) gs \<noteq> []" using Suc(2) by auto
  have ent: "length (c_ent s) \<le> 32" using Suc(5) by (simp add: scan_inv_def)
  from findNext_file [OF Suc(4) ne ent, of ?n] obtain f nm gs' where f:
    "findNext dir (c_pos s) (c_ent s) ?n = Inr (True, f, nm, None)" "find_inv dir f" "length (f_ent f) = 32"
    "row_at dir (f_pos f) gs' z" "files (c_pos s) gs = (f_pos f - 32, f_ent f, nm) # files (f_pos f) gs'" by blast
  let ?s = "take_space (scan_found s f)"
  have ts: "c_pos ?s = f_pos f" "c_ent ?s = f_ent f" "c_map ?s = c_map s" by (simp_all add: take_space_def scan_found_def)
  have inv: "scan_inv dir z need ?s" by (rule take_space_inv [OF Suc(5) assms(4,6) f(2,4)]) (simp add: f)
  have mp: "c_map (scan_found s f) = c_map s" by (simp add: scan_found_def)
  note run = Suc(3) [unfolded create_scan.simps [of fileName oem lossy base dir s] f(1) andThen_simps Let_def prod.case ts(2,3) mp]
  have neq: "\<not> isEqual fileName nm (f_ent f)" using run Suc(6) by (auto split: if_splits)
  have IH: "scan_inv dir z need s' \<and> (c_map s' = 0xffffffff \<and> lossy \<and> grow = None \<and> take_space s' = s'
      \<or> c_map s' \<noteq> 0xffffffff \<and> (\<forall>(q, e, nm) \<in> set (files (c_pos s) gs). \<not> isEqual fileName nm e) \<and> scan_end dir z need s' grow)"
    if "create_scan fileName oem lossy base dir (?s\<lparr>c_map := m\<rparr>) = Inr (Some (s', grow))" "m \<noteq> 0xffffffff" for m
  proof -
    have i: "scan_inv dir z need (?s\<lparr>c_map := m\<rparr>)" using inv by (simp add: scan_inv_def place_got_def)
    have l: "k = length (files (c_pos (?s\<lparr>c_map := m\<rparr>)) gs')" using Suc(2) f(5) ts by simp
    from Suc(1) [OF l that(1) _ i] show ?thesis using f(4,5) ts neq that(2) by simp
  qed
  show ?case
  proof (cases lossy)
    case False
    have "?s\<lparr>c_map := c_map s\<rparr> = ?s" by (cases s) (simp add: take_space_def scan_found_def)
    then have "create_scan fileName oem lossy base dir (?s\<lparr>c_map := c_map s\<rparr>) = Inr (Some (s', grow))"
      using run Suc(6) neq False by simp
    then show ?thesis using IH Suc(6) by blast
  next
    case True
    then obtain trail m where m: "mark_tail base trail (c_map s) = Inr m"
      "(if m \<noteq> c_map s \<and> m = 0xffffffff then Inr (Some (?s\<lparr>c_map := m\<rparr>, None))
        else create_scan fileName oem lossy base dir (?s\<lparr>c_map := m\<rparr>)) = Inr (Some (s', grow))"
      using run Suc(6) neq by (auto simp: andThen_Inr)
    show ?thesis
    proof (cases "m = 0xffffffff")
      case True
      then have "s' = ?s\<lparr>c_map := m\<rparr>" "grow = None" using m(2) Suc(6) by auto
      moreover have "take_space (?s\<lparr>c_map := m\<rparr>) = ?s\<lparr>c_map := m\<rparr>" by (simp add: take_space_def)
      ultimately show ?thesis using inv True \<open>lossy\<close> by (simp add: scan_inv_def place_got_def)
    next
      case False
      then show ?thesis using IH m(2) by simp
    qed
  qed
qed

lemma grown_id: "q + k \<le> length dir \<Longrightarrow> grown dir (q + k) = dir"
  by (simp add: grown_def)

lemma create_search_row:
  assumes "create_search fileName oem lossy now base s (fs, st, dir, out) = ok (Some (base', s'), fs', st', dir', out')"
    and "base' < 999999" "row_at dir 0 gs z" "scan_inv dir z need s" "0 < need" "unat need < 2 ^ 20" "32 dvd unat need"
  shows "(\<forall>(q, e, nm) \<in> set (files 0 gs). \<not> isEqual fileName nm e)
    \<and> (\<exists>q. c_off s' = int q \<and> space dir z q (unat need) \<and> dir' = grown dir (q + unat need))"
  using assms(1,4)
proof (induction "nat (999999 - base)" arbitrary: base s out rule: less_induct)
  case (less base s out)
  let ?s = "s\<lparr>c_map := 0, c_pos := 0\<rparr>"
  have b: "base < 999999" using less(2) assms(2) by (subst (asm) create_search.simps) (auto split: if_splits)
  note run = less(2) [unfolded create_search.simps [of fileName oem lossy now base], simplified b if_True]
  obtain r where r: "create_scan fileName oem lossy base dir ?s = Inr r"
    using run by (cases "create_scan fileName oem lossy base dir ?s") auto
  obtain s1 grow where s1: "r = Some (s1, grow)" using run r by (cases r) auto
  have inv: "scan_inv dir z need ?s" using less(3) by (simp add: scan_inv_def place_got_def)
  have row: "row_at dir (c_pos ?s) gs z" using assms(3) by simp
  note scan = create_scan_row [OF r [unfolded s1] row inv assms(5-7)]
  have scan: "scan_inv dir z need s1 \<and> (c_map s1 = 0xffffffff \<and> lossy \<and> grow = None \<and> take_space s1 = s1
    \<or> c_map s1 \<noteq> 0xffffffff \<and> (\<forall>(q, e, nm) \<in> set (files 0 gs). \<not> isEqual fileName nm e) \<and> scan_end dir z need s1 grow)"
    using scan by simp
  obtain fs1 st1 dir1 out1 where g: "(case grow of None \<Rightarrow> ok (fs, st, dir, []) | Some n \<Rightarrow> dir_setSize fs st dir n now) = ok (fs1, st1, dir1, out1)"
    and rest: "(if \<not> lossy \<or> c_map (take_space s1) \<noteq> 0xffffffff
      then ok (Some (base, take_space s1), fs1, st1, dir1, out @ out1)
      else create_search fileName oem lossy now (base + 32) (take_space s1) (fs1, st1, dir1, out @ out1))
      = ok (Some (base', s'), fs', st', dir', out')"
    using run r s1 by (auto simp: obind_eq_Some Let_def)
  have m: "c_map (take_space s1) = c_map s1" by (simp add: take_space_def)
  show ?case
  proof (cases "c_map s1 = 0xffffffff")
    case True
    then have l: "lossy" "grow = None" using scan by auto
    then have same: "fs1 = fs" "st1 = st" "dir1 = dir" "out1 = []" using g by simp_all
    have "scan_inv dir z need (take_space s1)" using scan True by auto
    moreover have "create_search fileName oem lossy now (base + 32) (take_space s1) (fs, st, dir, out)
        = ok (Some (base', s'), fs', st', dir', out')"
      using rest l same m True by simp
    ultimately show ?thesis using less(1) [of "base + 32"] b by simp
  next
    case False
    then have c: "(\<forall>(q, e, nm) \<in> set (files 0 gs). \<not> isEqual fileName nm e)" "scan_end dir z need s1 grow" "scan_inv dir z need s1"
      using scan by auto
    have s': "s' = take_space s1" "dir' = dir1" using rest False m by auto
    show ?thesis
    proof (cases "c_freeRequired s1 = 0")
      case True
      then have "grow = None" using c(2) by (simp add: scan_end_def)
      then have "dir1 = dir" using g by simp
      moreover obtain q where "c_off s1 = int q" "q + unat need \<le> length dir" "space dir z q (unat need)"
        using c(3) True assms(5) by (auto simp: scan_inv_def place_got_def)
      ultimately show ?thesis using c(1) s' True by (intro conjI exI [of _ q]) (simp_all add: take_space_def grown_id)
    next
      case False
      then have fr: "c_freeRequired s1 = need" using c(3) by (auto simp: scan_inv_def place_got_def)
      obtain q where q: "c_freeOffset s1 = int q" "need \<le> c_freeSize s1" "space dir z q (unat need)"
        "grow = (if length dir < q + unat need then Some (int (q + unat need)) else None)"
        using c(2) False by (auto simp: scan_end_def)
      have "dir1 = grown dir (q + unat need)"
      proof (cases "length dir < q + unat need")
        case True
        then have "dir_setSize fs st dir (int (q + unat need)) now = ok (fs1, st1, dir1, out1)" using g q(4) by simp
        then have "dir1 = take (q + unat need) dir @ replicate (q + unat need - length dir) 0"
          by (auto simp: dir_setSize_def obind_eq_Some nat_add_distrib)
        then show ?thesis using True by (simp add: grown_def)
      next
        case False
        then show ?thesis using g q(4) by (simp add: grown_id)
      qed
      then show ?thesis using c(1) s' fr q assms(5) by (intro conjI exI [of _ q]) (simp_all add: take_space_def)
    qed
  qed
qed

subsection \<open>The entries of a long name\<close>

lemma fill_units_nth:
  "\<forall>i \<in> set is. j \<noteq> i \<and> j \<noteq> i + 1 \<Longrightarrow> fill_units is f l t ! j = f ! j"
  by (induction "is" f l t rule: fill_units.induct) (auto simp: le_xword_def)

lemma fill_units_keeps: "j \<in> {0, 11, 12, 13} \<Longrightarrow> fill_units ldir_offsets f l t ! j = f ! j"
  by (rule fill_units_nth) (auto simp: ldir_offsets)

definition part_ord :: "nat \<Rightarrow> nat \<Rightarrow> int" where
  "part_ord n k = (if k = n then int k OR 64 else int k)"

lemma part_ord_byte:
  assumes "0 < k" "k \<le> 20"
  shows "word_of_int (int k) AND (64 :: u8) = 0" "uint (word_of_int (int k) AND NOT (64 :: u8)) = int k"
    "word_of_int (int k OR 64) AND (64 :: u8) \<noteq> 0" "uint (word_of_int (int k OR 64) AND NOT (64 :: u8)) = int k"
    "word_of_int (int k) \<noteq> (0 :: u8)" "word_of_int (int k) \<noteq> (0xe5 :: u8)"
    "word_of_int (int k OR 64) \<noteq> (0 :: u8)" "word_of_int (int k OR 64) \<noteq> (0xe5 :: u8)"
    "0 < int k OR 64" "(int k OR 64) AND NOT 64 = int k" "int k AND NOT 64 = int k"
proof -
  have "k \<in> {1, 2, 3, 4, 5, 6, 7, 8, 9, 10, 11, 12, 13, 14, 15, 16, 17, 18, 19, 20}" unfolding insert_iff empty_iff using assms by presburger
  then show "word_of_int (int k) AND (64 :: u8) = 0" "uint (word_of_int (int k) AND NOT (64 :: u8)) = int k"
    "word_of_int (int k OR 64) AND (64 :: u8) \<noteq> 0" "uint (word_of_int (int k OR 64) AND NOT (64 :: u8)) = int k"
    "word_of_int (int k) \<noteq> (0 :: u8)" "word_of_int (int k) \<noteq> (0xe5 :: u8)"
    "word_of_int (int k OR 64) \<noteq> (0 :: u8)" "word_of_int (int k OR 64) \<noteq> (0xe5 :: u8)"
    "0 < int k OR 64" "(int k OR 64) AND NOT 64 = int k" "int k AND NOT 64 = int k"
    by (elim insertE emptyE; simp)+
qed

lemma ucast_of_int8 [simp]: "(ucast (word_of_int i :: u32) :: u8) = word_of_int i"
  by (rule bit_word_eqI) (auto simp: bit_simps)

lemma long_entries_parts:
  assumes "long_entries ent name (part_ord n k) = Inr es" "k \<le> n" "n \<le> 20" "length ent = 32" "0 < n"
    and "ent ! LDIR_Attr = ATTR_LONG_NAME" "ent ! LDIR_Chksum = c"
  shows "length es = k \<and> parts_ok c (0 < k \<and> k = n) es
    \<and> (\<forall>i < k. \<exists>f. length f = 32 \<and> fillLongName f name (part_ord n (k - i)) = Inr (es ! i))"
  using assms
proof (induction k arbitrary: ent es)
  case 0
  then show ?case by (simp add: part_ord_def long_entries.simps)
next
  case (Suc k)
  let ?o = "part_ord n (Suc k)"
  let ?f = "le_xbyte ent LDIR_Ord (word_of_int ?o)"
  note b = part_ord_byte [of "Suc k", simplified]
  have k20: "Suc k \<le> 20" using Suc.prems(2,3) by simp
  have o: "0 < ?o" "?o AND NOT 64 = int (Suc k)" using part_ord_byte [of "Suc k"] k20 by (auto simp: part_ord_def)
  obtain e es' where e: "fillLongName ?f name ?o = Inr e" "long_entries e name ((?o AND NOT 64) - 1) = Inr es'" "es = e # es'"
    using Suc.prems(1) o by (subst (asm) long_entries.simps) (auto simp: andThen_Inr)
  have ef: "e = fill_units ldir_offsets ?f (drop (k * 13) name) False"
    using e(1) o(2) by (auto simp: fillLongName_def Let_def split: if_splits)
  have len: "length ?f = 32" "length e = 32" using Suc.prems(4) ef by (simp_all add: le_xbyte_def)
  have keep: "e ! 0 = word_of_int ?o" "e ! 11 = 0x0f" "e ! 13 = c"
    using fill_units_keeps [of 0 ?f "drop (k * 13) name" False] fill_units_keeps [of 11 ?f "drop (k * 13) name" False]
      fill_units_keeps [of 13 ?f "drop (k * 13) name" False] Suc.prems(4,6,7) ef by (simp_all add: le_xbyte_def)
  have "(?o AND NOT 64) - 1 = part_ord n k" using o(2) Suc.prems(2) by (simp add: part_ord_def)
  then have rec: "length es' = k \<and> parts_ok c (0 < k \<and> k = n) es'
      \<and> (\<forall>i < k. \<exists>f. length f = 32 \<and> fillLongName f name (part_ord n (k - i)) = Inr (es' ! i))"
    using Suc.IH [of e es'] e(2) Suc.prems(2,3,5) len(2) keep by simp
  have ent: "(e ! 0 AND 64 \<noteq> 0) = (Suc k = n)" "uint (e ! 0 AND NOT 64) = int (Suc k)" "e ! 0 \<noteq> 0" "e ! 0 \<noteq> 0xe5"
    using part_ord_byte [of "Suc k"] k20 keep(1) by (auto simp: part_ord_def)
  have "parts_ok c (Suc k = n) es"
    using rec e(3) ent keep len(2) Suc.prems(2) by (auto simp: isLongNameComponent_def isFreeEntry_def)
  moreover have "\<exists>f. length f = 32 \<and> fillLongName f name (part_ord n (Suc k - i)) = Inr (es ! i)" if "i < Suc k" for i
  proof (cases i)
    case 0
    then show ?thesis using e len(1) by (intro exI [of _ ?f]) simp
  next
    case (Suc j)
    then show ?thesis using that rec e(3) by simp
  qed
  ultimately show ?case using rec e(3) by simp
qed

lemma utf16cpy_cstr: "utf16cpy s = cstr s @ [0]"
  by (induction s) auto

lemma long_entries_name:
  assumes "long_entries ent name (part_ord n n) = Inr es" "n = (length name + 12) div 13" "0 < n" "length name \<le> 255" "0 \<notin> set name"
    and "length ent = 32" "ent ! LDIR_Attr = ATTR_LONG_NAME" "ent ! LDIR_Chksum = c"
  shows "length es = n" "parts_ok c True es" "long_name es = name @ [0]"
proof -
  have n: "n \<le> 20" "13 * (n - 1) \<le> length name" "length name \<le> 13 * n" using assms(2,4) by linarith+
  note p = long_entries_parts [OF assms(1) order_refl n(1) assms(6,3,7,8)]
  show l: "length es = n" and "parts_ok c True es" using p assms(3) by auto
  have "\<forall>k. \<exists>f. k \<in> {1..n} \<longrightarrow> length f = 32 \<and> fillLongName f name (part_ord n k) = Inr (es ! (n - k))"
  proof
    fix k
    show "\<exists>f. k \<in> {1..n} \<longrightarrow> length f = 32 \<and> fillLongName f name (part_ord n k) = Inr (es ! (n - k))"
      using p [THEN conjunct2, THEN conjunct2, THEN spec, of "n - k"] by (cases "k \<in> {1..n}") auto
  qed
  then obtain f where f: "\<And>k. k \<in> {1..n} \<Longrightarrow> length (f k) = 32 \<and> fillLongName (f k) name (part_ord n k) = Inr (es ! (n - k))"
    by metis
  have es: "map (\<lambda>k. es ! (n - k)) (rev [1..<Suc n]) = es"
    by (rule nth_equalityI) (use l in \<open>auto simp: rev_nth simp del: upt_Suc\<close>)
  have "foldl assembleLongName [0] (map (\<lambda>k. es ! (n - k)) (rev [1..<Suc n]))
      = take (n * 13) (name @ 0 # replicate 13 0xffff) @ [0]"
    by (rule long_name_assembled [OF assms(5) n(2), where f = f]) (use f n(1) in \<open>auto simp: part_ord_def\<close>)
  then have "utf16cpy (foldl assembleLongName [0] es) = name @ [0]"
    unfolding es using cstr_assembled [OF assms(5) n(3)] by (simp add: utf16cpy_cstr)
  moreover have "es \<noteq> []" using l assms(3) by auto
  ultimately show "long_name es = name @ [0]" by (simp add: long_name_def)
qed

end
