(* ===== verification/FatCreate.thy ===== *)
theory FatCreate
  imports FatDirSpec
begin

text \<open>
  Creating a file and removing one, as operations on the files of a directory in order
  (theory FatDirSpec): \<^verbatim>\<open>create\<close> adds exactly the new file, which \<^verbatim>\<open>lookup\<close> then finds under the
  name given, and \<^verbatim>\<open>remove\<close> takes out exactly its own.
\<close>

subsection \<open>The numbers of short names in use\<close>

text \<open>The pass of \<^verbatim>\<open>create\<close> over entries whose short names have the tails \<open>ts\<close>.\<close>

fun mark_tails :: "int \<Rightarrow> int list \<Rightarrow> u32 \<Rightarrow> u32 result" where
  "mark_tails base [] m = Inr m"
| "mark_tails base (t # ts) m = andThen (mark_tail base t m) (mark_tails base ts)"

definition in_window :: "int \<Rightarrow> int \<Rightarrow> bool" where
  "in_window base t \<longleftrightarrow> base \<le> t \<and> t < base + 32"

lemma bit_mark: "n < 32 \<Longrightarrow> bit (drop_bit n (0x80000000 :: u32)) i \<longleftrightarrow> i + n = 31"
proof -
  assume n: "n < 32"
  have "(0x80000000 :: u32) = push_bit 31 1" by simp
  then have "bit (drop_bit n (0x80000000 :: u32)) i \<longleftrightarrow> bit (push_bit 31 (1 :: u32)) (n + i)" by (simp only: bit_drop_bit_eq comp_def)
  moreover have "bit (push_bit 31 (1 :: u32)) k \<longleftrightarrow> k = 31" for k by (subst bit_push_bit_iff) (auto simp: bit_1_iff)
  ultimately show ?thesis by (simp only: add.commute)
qed

lemma mark_tail_bits:
  assumes "mark_tail base t m = Inr m'" "0 < base" "i < 32"
  shows "bit m' i \<longleftrightarrow> bit m i \<or> t = base + 31 - int i"
proof (cases "0 < t \<and> t - base < 32")
  case True
  then have b: "base \<le> t" "m' = m OR drop_bit (nat (t - base)) 0x80000000" using assms(1) by (auto simp: mark_tail_def split: if_splits)
  have "i + nat (t - base) = 31 \<longleftrightarrow> t = base + 31 - int i" using b(1) by linarith
  moreover have "nat (t - base) < 32" using True b(1) by (simp add: nat_less_iff)
  ultimately show ?thesis by (simp add: b(2) bit_or_iff bit_mark)
next
  case False
  then show ?thesis using assms by (auto simp: mark_tail_def)
qed

lemma mark_tails_bits:
  "mark_tails base ts m = Inr m' \<Longrightarrow> 0 < base \<Longrightarrow> i < 32 \<Longrightarrow> bit m' i \<longleftrightarrow> bit m i \<or> base + 31 - int i \<in> set ts"
proof (induction ts arbitrary: m)
  case (Cons t ts)
  then obtain m1 where "mark_tail base t m = Inr m1" "mark_tails base ts m1 = Inr m'" by (auto simp: FatNames.andThen_Inr)
  then show ?case using Cons mark_tail_bits [of base t m m1 i] by auto
qed simp

lemma ffs_bit: "m \<noteq> 0 \<Longrightarrow> \<exists>i < 32. bit m i \<and> ffs m = int i + 1"
proof -
  assume "m \<noteq> 0"
  then obtain j where j: "bit m j" "j < 32" using bit_imp_le_length [of m] by (auto simp: bit_eq_iff)
  then have "find (bit m) [0..<32] \<noteq> None" by (auto simp: find_None_iff)
  then obtain i where i: "find (bit m) [0..<32] = Some i" by blast
  then have "bit m i \<and> i < 32" by (auto simp: find_Some_iff)
  then show ?thesis using i by (auto simp: ffs_def)
qed

text \<open>C37: The number \<^verbatim>\<open>create\<close> gives the short name of a new entry is one that an entry of the
  directory has already, whenever any of the 32 numbers it looks at is in use: the first bit that
  is set stands for the last number in use, not for a free one.\<close>

theorem choose_tail_in_use:
  assumes "0 < base" "mark_tails base ts 0 = Inr m"
  shows "choose_tail base m \<in> set ts \<longleftrightarrow> list_ex (in_window base) ts"
proof (cases "m = 0")
  case True
  have "\<not> in_window base t" if "t \<in> set ts" for t
  proof
    assume w: "in_window base t"
    then have "nat (base + 31 - t) < 32" by (simp add: in_window_def nat_less_iff)
    then show False using mark_tails_bits [OF assms(2,1), of "nat (base + 31 - t)"] that True w by (auto simp: in_window_def)
  qed
  moreover have "in_window base base" by (simp add: in_window_def)
  ultimately have "base \<notin> set ts" "\<not> list_ex (in_window base) ts" by (auto simp: list_ex_iff)
  then show ?thesis using True by (simp add: choose_tail_def)
next
  case False
  from ffs_bit [OF this] obtain i where i: "i < 32" "bit m i" "ffs m = int i + 1" by blast
  then have "base + 31 - int i \<in> set ts" using mark_tails_bits [OF assms(2,1) i(1)] by simp
  moreover have "in_window base (base + 31 - int i)" using i(1) by (simp add: in_window_def)
  ultimately show ?thesis using False i(3) by (auto simp: choose_tail_def list_ex_iff algebra_simps)
qed

lemma choose_tail_in_use_witness:
  "mark_tails 1 [- 1, 1, 2] 0 = Inr 0xc0000000 \<and> choose_tail 1 0xc0000000 \<in> {- 1, 1, 2}"
proof -
  have m: "mark_tails 1 [- 1, 1, 2] 0 = Inr 0xc0000000" by code_simp
  show ?thesis using choose_tail_in_use [OF _ m] m by (simp add: in_window_def)
qed

subsection \<open>The entry of a new file\<close>

lemma set_times_keep:
  fixes new :: fat_stream and now :: int
  defines "new' \<equiv> setLastAccessTime (setLastWriteTime (setCreationTime new now) now) now"
  shows "length (fcb new') = length (fcb new)" "i < 13 \<Longrightarrow> fcb new' ! i = fcb new ! i" "entOffset new' = entOffset new"
  unfolding new'_def
  by (auto simp: setLastAccessTime_def setLastWriteTime_def setCreationTime_def setLastAccessDate_def setLastWriteDate_def
      setCreationDate_def Let_def le_xword_def le_xbyte_def split: sum.splits)

lemma newFatStream_fields:
  "newFatStream fs p q f = ok new \<Longrightarrow> fcb new = f \<and> entOffset new = q"
  by (auto simp: newFatStream_def Let_def obind_eq_Some split: if_splits)

lemma oemtoutf16_cong:
  assumes "take 11 f = take 11 g" "f ! DIR_NTRes = g ! DIR_NTRes"
  shows "oemtoutf16 f = oemtoutf16 g"
proof -
  have "take 8 f = take 8 (take 11 f)" "take 3 (drop 8 f) = drop 8 (take 11 f)" for f :: "u8 list"
    by (simp_all add: drop_take)
  then have "take 8 f = take 8 g" "take 3 (drop 8 f) = take 3 (drop 8 g)" using assms(1) by metis+
  then show ?thesis using assms(2) by (simp add: oemtoutf16_def Let_def)
qed

lemma setNumericTrail_keeps:
  assumes "setNumericTrail oem n = Inr f" "8 \<le> length oem"
  shows "length f = length oem" "f ! 0 = oem ! 0" "8 \<le> i \<Longrightarrow> f ! i = oem ! i" "0 < n" "n < 1000000"
proof -
  obtain m e where n: "0 < n" "n < 10 ^ 6" and f: "f = put_digits oem (min 7 (e + 1 + num_digits n)) n"
    using assms(1) by (auto simp: setNumericTrail_def andThen_Inr split: if_splits)
  have k: "0 < num_digits n" "num_digits n \<le> 6" using num_digits_bound [OF n(2)] num_digits_pos [OF n(1)] by simp_all
  then have k': "num_digits n \<le> min 7 (e + 1 + num_digits n)" "0 + num_digits n < min 7 (e + 1 + num_digits n)" by auto
  show "length f = length oem" by (simp add: f)
  show "f ! 0 = oem ! 0" unfolding f using put_digits_other [OF k'(1), of 0 oem] k'(2) by simp
  have "min 7 (e + 1 + num_digits n) \<le> 7" by (rule min.cobounded1)
  then show "8 \<le> i \<Longrightarrow> f ! i = oem ! i" unfolding f using put_digits_other [OF k'(1), of i oem] by linarith
  show "0 < n" "n < 1000000" using n by simp_all
qed

lemma ffs_bounds: "0 \<le> ffs x \<and> ffs x \<le> 32"
  by (auto simp: ffs_def find_Some_iff split: option.splits)

lemma choose_tail_ge: "base \<le> choose_tail base m"
  using ffs_bounds [of m] by (simp add: choose_tail_def)

text \<open>The search ends with a number below the limit, unless the short name is full of tails.\<close>

lemma create_search_base:
  assumes "create_search fileName oem lossy now base s (fs, st, dir, out) = ok (Some (base', s'), r)" "base mod 32 = 1"
    and "base < 999999 \<or> lossy"
  shows "base' < 999999 \<or> lossy \<and> 1000000 \<le> base'"
  using assms
proof (induction "nat (999999 - base)" arbitrary: base s fs st dir out rule: less_induct)
  case (less base s fs st dir out)
  show ?case
  proof (cases "base < 999999")
    case True
    note run = less(2) [unfolded create_search.simps [of fileName oem lossy now base], simplified True if_True]
    obtain x where x: "create_scan fileName oem lossy base dir (s\<lparr>c_map := 0, c_pos := 0\<rparr>) = Inr x"
      using run by (cases "create_scan fileName oem lossy base dir (s\<lparr>c_map := 0, c_pos := 0\<rparr>)") auto
    obtain s1 grow where s1: "x = Some (s1, grow)" using run x by (cases x) auto
    obtain fs1 st1 dir1 out1 where "(if \<not> lossy \<or> c_map (take_space s1) \<noteq> 0xffffffff
        then ok (Some (base, take_space s1), fs1, st1, dir1, out @ out1)
        else create_search fileName oem lossy now (base + 32) (take_space s1) (fs1, st1, dir1, out @ out1))
        = ok (Some (base', s'), r)"
      using run x s1 by (auto simp: obind_eq_Some Let_def)
    then consider "base' = base" | "lossy" "create_search fileName oem lossy now (base + 32) (take_space s1) (fs1, st1, dir1, out @ out1)
        = ok (Some (base', s'), r)"
      by (auto split: if_splits)
    then show ?thesis
    proof cases
      case 2
      from less(1) [OF _ 2(2)] show ?thesis using True less(3) 2(1) by simp
    qed (use True in simp)
  next
    case False
    then have "base' = base" using less(2) by (subst (asm) create_search.simps) simp
    moreover have "1000000 \<le> base" using False less(3) by presburger
    ultimately show ?thesis using False less(4) by simp
  qed
qed

subsection \<open>\<open>create\<close> and \<open>lookup\<close>\<close>

text \<open>The space an entry with a name of \<open>n\<close> units asks for, when the short name loses something of it.\<close>

lemma space_wanted:
  assumes "length w \<le> 255" "0 \<notin> set w"
    and "need = 32 + (if lossy then 32 * ((of_nat (utf16len w) + 12) div 13) else 0 :: u32)"
  shows "unat need = 32 * Suc (if lossy then (length w + 12) div 13 else 0)"
    "lossy \<Longrightarrow> uint (need div 32 - 1 OR 64) = part_ord ((length w + 12) div 13) ((length w + 12) div 13)"
proof -
  have ul: "utf16len w = length w" using assms(2) by (induction w) auto
  let ?m = "(length w + 12) div 13"
  have m: "?m \<le> 20" using assms(1) by linarith
  have d: "unat ((of_nat (length w) + 12) div 13 :: u32) = ?m"
    using assms(1) by (simp add: unat_div unat_word_ariths unat_of_nat)
  then have m32: "unat (32 * ((of_nat (length w) + 12) div 13) :: u32) = 32 * ?m"
    using m by (subst unat_mult_u32) simp_all
  show u: "unat need = 32 * Suc (if lossy then ?m else 0)"
    unfolding assms(3) ul using m m32 by (auto simp: unat_add_u32)
  assume lossy
  then have "unat (need div 32) = Suc ?m" using u by (simp add: unat_div)
  then have "unat (need div 32 - 1) = ?m" by (subst unat_sub) (simp_all add: word_le_nat_alt)
  then have "need div 32 - 1 = of_nat ?m" using m by (simp add: word_unat_eq_iff unat_of_nat take_bit_nat_eq_self)
  then have "uint (need div 32 - 1 OR 64) = int ?m OR 64"
    using m by (simp add: unsigned_or_eq uint_word_of_int unsigned_of_nat take_bit_nat_eq_self)
  then show "uint (need div 32 - 1 OR 64) = part_ord ?m ?m" by (simp add: part_ord_def)
qed

lemma overwrite_append:
  "pos + length a + length b \<le> length xs \<Longrightarrow> overwrite (overwrite xs pos a) (pos + length a) b = overwrite xs pos (a @ b)"
  by (simp add: overwrite_def ac_simps)

lemma dir_writes_in:
  "list_all (\<lambda>e. length e = 32) es \<Longrightarrow> pos + 32 * length es \<le> length dir \<Longrightarrow>
   dir_writes fs st dir pos es now = ok (fs, st, overwrite dir pos (concat es), [])"
proof (induction es arbitrary: dir pos)
  case (Cons e es)
  have e: "length e = 32" "list_all (\<lambda>e. length e = 32) es" using Cons.prems(1) by simp_all
  have l: "length (concat es) = 32 * length es" using e(2) by (induction es) auto
  have "dir_write fs st dir pos e now = ok (fs, st, overwrite dir pos e, [])"
    using Cons.prems(2) e(1) by (simp add: dir_write_def)
  moreover have "dir_writes fs st (overwrite dir pos e) (pos + length e) es now
      = ok (fs, st, overwrite (overwrite dir pos e) (pos + length e) (concat es), [])"
    using Cons.prems(2) e by (intro Cons.IH) simp_all
  moreover have "overwrite (overwrite dir pos e) (pos + length e) (concat es) = overwrite dir pos (concat (e # es))"
    using Cons.prems(2) e(1) l by (subst overwrite_append) simp_all
  ultimately show ?case by simp
qed simp

text \<open>What a run of \<^verbatim>\<open>create\<close> for a file that succeeds goes through.\<close>

lemma create_file_run:
  assumes "create fs st dir ent name attr now = ok c" "cr_new c = Some (new, contents)" "attr AND ATTR_DIRECTORY = 0"
    and "utf8toutf16 name = Inr w"
  shows "\<exists>lossy oem s base s' fs1 st1 dir1 out1 oem1 new0 es need.
    length w \<le> 255 \<and> utf16tooem w (replicate 32 0) = Inr (lossy, oem)
    \<and> need = 32 + (if lossy then 32 * ((of_nat (utf16len w) + 12) div 13) else 0 :: u32)
    \<and> s = \<lparr>c_pos = 0, c_ent = ent, c_freeRequired = need, c_off = int DIR_LIMIT, c_freeOffset = int DIR_LIMIT, c_freeSize = 0, c_map = 0\<rparr>
    \<and> create_search w oem lossy now 1 s (fs, st, dir, []) = ok (Some (base, s'), fs1, st1, dir1, out1)
    \<and> c_off s' < int DIR_LIMIT
    \<and> (if lossy then setNumericTrail ((overwrite oem 13 (replicate 19 0))[11 := ATTR_ARCHIVE]) (choose_tail base (c_map s'))
       else Inr ((overwrite oem 13 (replicate 19 0))[11 := ATTR_ARCHIVE])) = Inr oem1
    \<and> newFatStream fs1 (Some st1) (word_of_int (c_off s') + need - 32)
        (le_xword (le_xword oem1 DIR_FstClusLO 0) DIR_FstClusHI 0) = ok new0
    \<and> new = setLastAccessTime (setLastWriteTime (setCreationTime new0 now) now) now
    \<and> (if lossy then long_entries ((replicate 32 0)[11 := ATTR_LONG_NAME, 13 := getChecksum (fcb new)]) w (uint ((need div 32 - 1) OR 64))
       else Inr []) = Inr es
    \<and> (\<exists>fs2 st2 out2. dir_writes fs1 st1 dir1 (min (nat (c_off s')) (length dir1)) (es @ [fcb new]) now = ok (fs2, st2, cr_dir c, out2))"
proof -
  obtain lossy oem where o: "utf16tooem w (replicate 32 0) = Inr (lossy, oem)" "length w \<le> 255"
    "st_isDirectory st" "\<not> st_isRemoved st"
    using assms(1,2,4) by (auto simp: create_def obind_eq_Some Let_def split: if_splits)
  define need where "need = 32 + (if lossy then 32 * ((of_nat (utf16len w) + 12) div 13) else 0 :: u32)"
  define s where "s = \<lparr>c_pos = 0, c_ent = ent, c_freeRequired = need, c_off = int DIR_LIMIT, c_freeOffset = int DIR_LIMIT,
    c_freeSize = 0, c_map = 0\<rparr>"
  obtain r fs1 st1 dir1 out1 where r: "create_search w oem lossy now 1 s (fs, st, dir, []) = ok (r, fs1, st1, dir1, out1)"
    using assms(1,2,4) o
    by (auto simp: create_def obind_eq_Some Let_def need_def s_def split: if_splits)
  note run = assms(1) [unfolded create_def Let_def]
  note known = assms(3,4) o leD [OF o(2)] r [unfolded need_def s_def, simplified]
  obtain base s' where s': "r = Some (base, s')" using run assms(2) by (cases r) (auto simp: known)
  obtain oem1 where f: "c_off s' < int DIR_LIMIT"
    "(if lossy then setNumericTrail ((overwrite oem 13 (replicate 19 0))[11 := ATTR_ARCHIVE]) (choose_tail base (c_map s'))
       else Inr ((overwrite oem 13 (replicate 19 0))[11 := ATTR_ARCHIVE])) = Inr oem1"
    "create_fill fs1 st1 dir1 out1 (c_ent s') w lossy need oem1 (c_off s') attr now = ok c"
    using run assms(2) by (auto simp: known s' obind_eq_Some need_def split: if_splits)
  obtain new0 where new0: "newFatStream fs1 (Some st1) (word_of_int (c_off s') + need - 32)
        (le_xword (le_xword oem1 DIR_FstClusLO 0) DIR_FstClusHI 0) = ok new0"
    using f(3) assms(3) by (auto simp: create_fill_def obind_eq_Some Let_def)
  define new1 where "new1 = setLastAccessTime (setLastWriteTime (setCreationTime new0 now) now) now"
  note fill = f(3) [unfolded create_fill_def Let_def]
  obtain es fs2 st2 d out2 where es: "(if lossy then long_entries ((replicate 32 0)[11 := ATTR_LONG_NAME, 13 := getChecksum (fcb new1)]) w (uint (need div 32 - 1 OR 64)) else Inr []) = Inr es"
    "dir_writes fs1 st1 dir1 (min (nat (c_off s')) (length dir1)) (es @ [fcb new1]) now = ok (fs2, st2, d, out2)"
    "c = \<lparr>cr_fs = fs2, cr_st = st2, cr_dir = d, cr_out = out1 @ out2, cr_new = Some (new1, [])\<rparr>"
    using fill by (auto simp: assms(3) new0 new1_def obind_eq_Some split: if_splits)
  then have "new = new1" "d = cr_dir c" using assms(2) by simp_all
  then show ?thesis using o need_def s_def r s' f(1,2) new0 es new1_def by blast
qed

lemma created_entry:
  fixes now :: int
  assumes "utf16tooem w (replicate 32 0) = Inr (lossy, oem)"
    and "(if lossy then setNumericTrail ((overwrite oem 13 (replicate 19 0))[11 := ATTR_ARCHIVE]) n
          else Inr ((overwrite oem 13 (replicate 19 0))[11 := ATTR_ARCHIVE])) = Inr oem1"
    and "newFatStream fs p q (le_xword (le_xword oem1 DIR_FstClusLO 0) DIR_FstClusHI 0) = ok new0"
    and new_def: "new = setLastAccessTime (setLastWriteTime (setCreationTime new0 now) now) now"
  shows "plain_entry (fcb new)" "entOffset new = q" "\<not> lossy \<Longrightarrow> oemtoutf16 (fcb new) = oemtoutf16 oem"
proof -
  let ?o = "(overwrite oem 13 (replicate 19 0))[11 := ATTR_ARCHIVE]"
  have oem: "length oem = 32" "oem ! 0 \<noteq> 0" "oem ! 0 < 0x80" using utf16tooem_bytes [OF assms(1)] by simp_all
  have lo: "length ?o = 32" "?o ! 0 = oem ! 0" "?o ! 11 = ATTR_ARCHIVE" "?o ! 12 = oem ! 12" "take 11 ?o = take 11 oem"
    using oem(1) by (simp_all add: nth_overwrite) (simp add: overwrite_def min_def)
  have o1: "length oem1 = 32" "oem1 ! 0 = oem ! 0" "oem1 ! 11 = ATTR_ARCHIVE" "\<not> lossy \<Longrightarrow> oem1 = ?o"
    using assms(2) lo setNumericTrail_keeps [of ?o n oem1] by (auto split: if_splits)
  let ?f = "le_xword (le_xword oem1 DIR_FstClusLO 0) DIR_FstClusHI 0"
  have f: "fcb new0 = ?f" "entOffset new0 = q" using newFatStream_fields [OF assms(3)] by simp_all
  have k: "fcb new ! i = oem1 ! i" if "i < 13" for i
    using that by (simp add: new_def set_times_keep f le_xword_def)
  have len: "length (fcb new) = 32" using o1(1) by (simp add: new_def set_times_keep f)
  show "entOffset new = q" by (simp add: new_def set_times_keep f)
  have "oem ! 0 \<noteq> 0xe5" using oem(3) by auto
  then show "plain_entry (fcb new)"
    using len oem(2) k [of 0] k [of 11] o1
    by (simp add: plain_entry_def isFreeEntry_def isLongNameComponent_def isVolumeID_def)
  assume nl: "\<not> lossy"
  have "take 11 (fcb new) = take 11 oem"
    using k o1(1) o1(4) [OF nl] lo len oem(1) by (intro nth_equalityI) (auto simp: nth_overwrite)
  moreover have "fcb new ! 12 = oem ! 12" using k [of 12] o1(4) [OF nl] lo(4) by simp
  ultimately show "oemtoutf16 (fcb new) = oemtoutf16 oem" by (intro oemtoutf16_cong) simp_all
qed

lemma find_only: "y \<in> set xs \<Longrightarrow> P y \<Longrightarrow> \<forall>x \<in> set xs. P x \<longrightarrow> x = y \<Longrightarrow> find P xs = Some y"
proof (induction xs)
  case (Cons x xs)
  show ?case
  proof (cases "P x")
    case True
    then have "x = y" using Cons.prems(3) by (meson list.set_intros(1))
    then show ?thesis using True by simp
  next
    case False
    then have "y \<in> set xs" using Cons.prems(1,2) by (metis set_ConsD)
    then show ?thesis using False Cons.IH [OF _ Cons.prems(2)] Cons.prems(3) by (metis find.simps(2) list.set_intros(2))
  qed
qed simp

text \<open>A name that its entries keep: one with a loss gets the entries of a long name, the others must
  not lose a dot without being told.\<close>

definition kept_name :: "u16 list \<Rightarrow> bool" where
  "kept_name w \<longleftrightarrow> w \<noteq> [] \<and> 0 \<notin> set w
     \<and> (case utf16tooem w (replicate 32 0) of
          Inl _ \<Rightarrow> False
        | Inr (lossy, _) \<Rightarrow> lossy \<or> length (filter (\<lambda>c. c = 0x2e) w) \<le> 1 \<and> last w \<noteq> 0x2e)"

text \<open>C1: A file that \<^verbatim>\<open>create\<close> makes in a directory in order is added to the files of the directory,
  all others staying where they are, and the directory stays in order. Before, \<^verbatim>\<open>lookup\<close> did not find
  the name there; afterwards it finds the new entry under it, at the place the new stream has. This is for
  names that their entries keep: not empty, without a 0, and with at most one dot and none at the end
  unless \<^verbatim>\<open>utf16tooem\<close> reports a loss. A name such as \<open>a..b\<close>, for which it reports none, is created but not
  found again, see \<open>double_dot_lost\<close>.\<close>

theorem create_then_lookup:
  assumes "dir_image gs z dir" "length dir \<le> DIR_LIMIT" "length ent \<le> 32" "attr AND ATTR_DIRECTORY = 0"
    and "utf8toutf16 name = Inr w" "kept_name w"
    and "create fs st dir ent name attr now = ok c" "cr_new c = Some (new, contents)"
  shows "lookup_entry w dir 0 = Inr None
    \<and> lookup_entry w (cr_dir c) 0 = Inr (Some (unat (entOffset new), fcb new))
    \<and> (\<exists>gs' z' nm. dir_image gs' z' (cr_dir c)
        \<and> set (files 0 gs') = insert (unat (entOffset new), fcb new, nm) (set (files 0 gs)))"
proof -
  from create_file_run [OF assms(7,8,4,5)] obtain lossy oem s base s' fs1 st1 dir1 out1 oem1 new0 es need fs2 st2 out2 where
    w: "length w \<le> 255" and oem: "utf16tooem w (replicate 32 0) = Inr (lossy, oem)"
    and need: "need = 32 + (if lossy then 32 * ((of_nat (utf16len w) + 12) div 13) else 0 :: u32)"
    and s: "s = \<lparr>c_pos = 0, c_ent = ent, c_freeRequired = need, c_off = int DIR_LIMIT, c_freeOffset = int DIR_LIMIT, c_freeSize = 0, c_map = 0\<rparr>"
    and search: "create_search w oem lossy now 1 s (fs, st, dir, []) = ok (Some (base, s'), fs1, st1, dir1, out1)"
    and limit: "c_off s' < int DIR_LIMIT"
    and oem1: "(if lossy then setNumericTrail ((overwrite oem 13 (replicate 19 0))[11 := ATTR_ARCHIVE]) (choose_tail base (c_map s'))
       else Inr ((overwrite oem 13 (replicate 19 0))[11 := ATTR_ARCHIVE])) = Inr oem1"
    and new0: "newFatStream fs1 (Some st1) (word_of_int (c_off s') + need - 32)
        (le_xword (le_xword oem1 DIR_FstClusLO 0) DIR_FstClusHI 0) = ok new0"
    and new: "new = setLastAccessTime (setLastWriteTime (setCreationTime new0 now) now) now"
    and es: "(if lossy then long_entries ((replicate 32 0)[11 := ATTR_LONG_NAME, 13 := getChecksum (fcb new)]) w (uint ((need div 32 - 1) OR 64))
       else Inr []) = Inr es"
    and put: "dir_writes fs1 st1 dir1 (min (nat (c_off s')) (length dir1)) (es @ [fcb new]) now = ok (fs2, st2, cr_dir c, out2)"
    by blast
  have nm: "w \<noteq> []" "0 \<notin> set w" "lossy \<or> length (filter (\<lambda>c. c = 0x2e) w) \<le> 1 \<and> last w \<noteq> 0x2e"
    using assms(6) oem by (auto simp: kept_name_def)
  let ?m = "(length w + 12) div 13"
  have m: "0 < ?m" "?m \<le> 20"
    subgoal using nm(1) by (cases w) simp_all
    subgoal using w by linarith
    done
  note sw = space_wanted [OF w nm(2) need]
  have need': "0 < need" "unat need < 2 ^ 20" "32 dvd unat need"
  proof -
    show "unat need < 2 ^ 20" "32 dvd unat need" using sw(1) m by auto
    have "unat need \<noteq> 0" using sw(1) by simp
    then show "0 < need" by (metis unat_0 word_gt_0)
  qed
  note entry = created_entry [OF oem oem1 new0 new]
  have row: "row_at dir 0 gs z" using row_at_0 [OF assms(1)] assms(2) by simp
  have base: "base < 999999"
  proof (rule ccontr)
    assume "\<not> base < 999999"
    then have l: "lossy" "1000000 \<le> base" using create_search_base [OF search] by simp_all
    then have "choose_tail base (c_map s') < 1000000"
      using oem1 utf16tooem_bytes(1) [OF oem] by (intro setNumericTrail_keeps(5)) auto
    then show False using l(2) choose_tail_ge [of base "c_map s'"] by simp
  qed
  have "scan_inv dir z need s" using assms(3) by (simp add: scan_inv_def s)
  from create_search_row [OF search base row this need'] obtain q where
    fresh: "\<forall>(p, e, nm) \<in> set (files 0 gs). \<not> isEqual w nm e"
    and q: "c_off s' = int q" "space dir z q (unat need)" "dir1 = grown dir (q + unat need)" by blast
  have ls: "length es = (if lossy then ?m else 0)" "parts_ok (getChecksum (fcb new)) True es" "lossy \<Longrightarrow> long_name es = w @ [0]"
    using es long_entries_name [of "(replicate 32 0)[11 := ATTR_LONG_NAME, 13 := getChecksum (fcb new)]" w ?m es] sw(2) nm(2) m(1) w
    by (auto split: if_splits)
  have slot: "slot_ok (File es (fcb new))"
    using entry(1) ls m(2) w by (cases lossy) (auto simp: long_name_def)
  have len: "q + unat need \<le> length dir1" by (simp add: q(3) grown_def)
  have dc: "cr_dir c = overwrite dir1 q (concat (es @ [fcb new]))"
  proof -
    have "list_all (\<lambda>e. length e = 32) (es @ [fcb new])"
      using parts_entries [OF ls(2)] entry(1) by (auto simp: list_all_iff plain_entry_def)
    then have "dir_writes fs1 st1 dir1 q (es @ [fcb new]) now = ok (fs1, st1, overwrite dir1 q (concat (es @ [fcb new])), [])"
      by (rule dir_writes_in) (use len sw(1) ls(1) in auto)
    moreover have "min (nat (c_off s')) (length dir1) = q" using len q(1) by simp
    ultimately show ?thesis using put by simp
  qed
  have k: "unat need = 32 * Suc (length es)" using sw(1) ls(1) by simp
  from put_file [OF assms(1) q(2) k slot] obtain gs' z' where
    img: "dir_image gs' z' (overwrite (grown dir (q + unat need)) q (concat (es @ [fcb new])))"
    and fl: "set (files 0 gs') = insert (q + 32 * length es, fcb new, long_name es) (set (files 0 gs))" by blast
  have img: "dir_image gs' z' (cr_dir c)" using img q(3) dc by simp
  have off: "unat (entOffset new) = q + 32 * length es"
  proof -
    have "length es \<le> 20" using m(2) ls(1) by simp
    then have "need = of_nat (32 * Suc (length es))" unfolding word_unat_eq_iff k by (subst unat_of_nat_u32) simp_all
    then have "entOffset new = of_nat (q + 32 * length es)" by (simp add: entry(2) q(1))
    moreover have "length es \<le> 20" "q \<le> 2 ^ 21" using m(2) ls(1) q(2) assms(2) by (auto simp: space_def)
    ultimately show ?thesis by (simp add: unat_of_nat_u32 del: of_nat_add of_nat_mult of_nat_numeral)
  qed
  have eq: "isEqual w (long_name es) (fcb new)"
  proof (cases lossy)
    case True
    have "cstr (w @ v) = w @ cstr v" for v using nm(2) by (intro takeWhile_append2) auto
    from this [of "[]"] this [of "[0]"] have "cstr w = w" "cstr (w @ [0]) = w" by simp_all
    then have "utf16icmp w (w @ [0]) = 0" unfolding utf16icmp_iff by (simp only:)
    then show ?thesis using ls(3) [OF True] by (simp add: isEqual_def)
  next
    case False
    then have "oemtoutf16 (fcb new) = Some w" using entry(3) short_name_kept [of w _ oem] oem nm by simp
    then show ?thesis by (simp add: isEqual_def utf16icmp_refl)
  qed
  have "lookup_entry w dir 0 = Inr None"
    using lookup_entry_row [OF row] fresh by (auto simp: find_None_iff)
  moreover have "lookup_entry w (cr_dir c) 0 = Inr (Some (unat (entOffset new), fcb new))"
  proof -
    have "length (cr_dir c) < 2 ^ 30"
    proof -
      have "length (concat (es @ [fcb new])) = 32 * Suc (length es)" using slot_length [OF slot] by simp
      then have "length (cr_dir c) = length dir1" using len k by (simp add: dc)
      moreover have "length es \<le> 20" "q \<le> length dir" using m(2) ls(1) q(2) by (simp_all add: space_def)
      moreover from this have "length dir1 \<le> length dir + unat need" by (simp add: q(3) grown_def)
      ultimately have "length (cr_dir c) \<le> 2097152 + 32 * 21" unfolding k using assms(2) by simp
      then show ?thesis by (rule le_less_trans) simp
    qed
    note look = lookup_entry_row [OF row_at_0 [OF img this]]
    have "find (\<lambda>(p, e, nm). isEqual w nm e) (files 0 gs') = Some (q + 32 * length es, fcb new, long_name es)"
      by (rule find_only) (use fl fresh eq in auto)
    then show ?thesis unfolding look by (simp add: off)
  qed
  ultimately show ?thesis using img fl off by auto
qed

text \<open>An empty root directory of 512 bytes.\<close>

definition ex_root :: fat_stream where
  "ex_root = ex_stream\<lparr>fst_root := True, fcb := (replicate 32 0)[11 := ATTR_DIRECTORY], fst_size := 512, fstClus := 0\<rparr>"

lemma ex_search:
  "create_search [0x61, 0x2b, 0x31] oem True now 1
     \<lparr>c_pos = 0, c_ent = replicate 32 0, c_freeRequired = 64, c_off = 2097152, c_freeOffset = 2097152, c_freeSize = 0, c_map = 0\<rparr>
     (fs, st, replicate 128 0, []) =
   ok (Some (1, \<lparr>c_pos = 32, c_ent = replicate 32 0, c_freeRequired = 0, c_off = 0, c_freeOffset = 0, c_freeSize = 64, c_map = 0\<rparr>),
     fs, st, replicate 128 0, [])"
proof -
  have "create_scan [0x61, 0x2b, 0x31] oem True 1 (replicate 128 0)
     \<lparr>c_pos = 0, c_ent = replicate 32 0, c_freeRequired = 64, c_off = 2097152, c_freeOffset = 2097152, c_freeSize = 0, c_map = 0\<rparr> =
    Inr (Some (\<lparr>c_pos = 32, c_ent = replicate 32 0, c_freeRequired = 64, c_off = 2097152, c_freeOffset = 0, c_freeSize = 64, c_map = 0\<rparr>, None))"
    by (subst create_scan.simps) code_simp
  then show ?thesis by (subst create_search.simps) (simp add: take_space_def)
qed

lemma create_then_lookup_witness:
  "\<exists>c new. create ex12_file ex_root (replicate 128 0) (replicate 32 0) [0x61, 0x2b, 0x31] 0 0 = ok c
    \<and> cr_new c = Some (new, []) \<and> lookup_entry [0x61, 0x2b, 0x31] (replicate 128 0) 0 = Inr None
    \<and> lookup_entry [0x61, 0x2b, 0x31] (cr_dir c) 0 = Inr (Some (32, fcb new))"
proof -
  let ?oem = "[0x41, 0x5f, 0x31] @ replicate 8 0x20 @ [0x20, 0] @ replicate 19 (0 :: u8)"
  let ?e = "setNumericTrail ?oem 1"
  have n: "utf8toutf16 [0x61, 0x2b, 0x31] = Inr [0x61, 0x2b, 0x31]" by code_simp
  have u: "utf16tooem [0x61, 0x2b, 0x31] (replicate 32 0) = Inr (True, ?oem[11 := 0])" by code_simp
  have t: "choose_tail 1 0 = 1" by (simp add: choose_tail_def)
  have s: "st_isDirectory ex_root" "\<not> st_isRemoved ex_root" by code_simp+
  have o: "(overwrite (?oem[11 := 0]) 13 (replicate 19 0))[11 := 0x20] = ?oem" by code_simp
  have tl: "?e = Inr ([0x41, 0x5f, 0x31, 0x7e, 0x31] @ replicate 6 0x20 @ [0x20, 0] @ replicate 19 0)" by code_simp
  have "case create_fill ex12_file ex_root (replicate 128 0) [] (replicate 32 0) [0x61, 0x2b, 0x31] True 64
      ([0x41, 0x5f, 0x31, 0x7e, 0x31] @ replicate 6 0x20 @ [0x20, 0] @ replicate 19 0) 0 0 0 of
      Some (Inr c) \<Rightarrow> (case cr_new c of Some (new, xs) \<Rightarrow> xs = [] \<and> entOffset new = 32 | None \<Rightarrow> False) | _ \<Rightarrow> False"
    by code_simp
  then obtain c new where f: "create_fill ex12_file ex_root (replicate 128 0) [] (replicate 32 0) [0x61, 0x2b, 0x31] True 64
      ([0x41, 0x5f, 0x31, 0x7e, 0x31] @ replicate 6 0x20 @ [0x20, 0] @ replicate 19 0) 0 0 0 = ok c"
    "cr_new c = Some (new, [])" "entOffset new = 32"
    by (auto split: option.splits sum.splits)
  have "create ex12_file ex_root (replicate 128 0) (replicate 32 0) [0x61, 0x2b, 0x31] 0 0 = ok c"
    unfolding create_def Let_def using f(1) n u t s o tl ex_search [of "?oem[11 := 0]" 0 ex12_file ex_root] by simp
  note c = this f(2,3)
  have i: "dir_image [] (replicate 128 0) (replicate 128 0)" by (simp add: dir_image_def)
  have k: "kept_name [0x61, 0x2b, 0x31]" by code_simp
  show ?thesis
    using create_then_lookup [OF i _ _ _ n k c(1,2)] c by (intro exI [of _ c] exI [of _ new]) simp
qed

end
