(* ===== verification/FatRemove.thy ===== *)
theory FatRemove
  imports FatDirSpec
begin

text \<open>
  \<^verbatim>\<open>FatStream::remove\<close>, related to the files of the directory that the entry is in.
\<close>

subsection \<open>Removing a file\<close>

text \<open>What \<^verbatim>\<open>remove\<close> does to the row of slots: the entries of the file at \<open>off\<close> become free ones.\<close>

definition freed :: "u8 list \<Rightarrow> u8 list" where
  "freed e = e[0 := 0xe5]"

fun unlist :: "nat \<Rightarrow> nat \<Rightarrow> slot list \<Rightarrow> slot list" where
  "unlist off p [] = []"
| "unlist off p (Free e # gs) = Free e # unlist off (p + 32) gs"
| "unlist off p (Volume e # gs) = Volume e # unlist off (p + 32) gs"
| "unlist off p (File ls e # gs) =
    (if p + 32 * length ls = off then map (\<lambda>e. Free (freed e)) (ls @ [e]) @ gs
     else File ls e # unlist off (p + 32 * Suc (length ls)) gs)"

lemma unlist_slots: "list_all slot_ok gs \<Longrightarrow> list_all slot_ok (unlist off p gs)"
proof (induction off p gs rule: unlist.induct)
  case (4 off p ls e gs)
  have "list_all (\<lambda>e. length e = 32) (ls @ [e])"
    using 4(2) parts_entries [of "getChecksum e" True ls] by (auto simp: list_all_iff plain_entry_def)
  then have "list_all slot_ok (map (\<lambda>e. Free (freed e)) (ls @ [e]))" by (auto simp: list_all_iff freed_def)
  then show ?case using 4 by simp
qed auto

lemma length_freed_entry [simp]: "length (freed e) = length e"
  by (simp add: freed_def)

lemma length_freed: "length (concat (map freed es)) = length (concat es)"
  by (induction es) (simp_all add: freed_def)

lemma row_freed: "row_bytes (map (\<lambda>e. Free (freed e)) es) = concat (map freed es)"
  by (induction es) simp_all

lemma length_unlist: "length (row_bytes (unlist off p gs)) = length (row_bytes gs)"
  by (induction off p gs rule: unlist.induct) (simp_all add: row_freed length_freed)

lemma files_freed: "list_all (\<lambda>e. length e = 32) es \<Longrightarrow> files p (map (\<lambda>e. Free (freed e)) es @ gs) = files (p + 32 * length es) gs"
  by (induction es arbitrary: p) (simp_all add: add.assoc)

lemma files_from: "x \<in> set (files p gs) \<Longrightarrow> p \<le> fst x"
  by (induction p gs rule: files.induct) auto

lemma files_unlist: "list_all slot_ok gs \<Longrightarrow> files p (unlist off p gs) = filter (\<lambda>x. fst x \<noteq> off) (files p gs)"
proof (induction off p gs rule: unlist.induct)
  case (4 off p ls e gs)
  have l: "list_all (\<lambda>e. length e = 32) (ls @ [e])"
    using 4(2) parts_entries [of "getChecksum e" True ls] by (auto simp: list_all_iff plain_entry_def)
  have "filter (\<lambda>x. fst x \<noteq> p + 32 * length ls) (files (p + 32 * Suc (length ls)) gs) = files (p + 32 * Suc (length ls)) gs"
    using files_from by (force intro!: filter_True)
  then show ?case using 4 files_freed [OF l, of p gs] by auto
qed auto

lemma own_part: "int (p + 32) + 32 * (uint (x :: u8) - 1) = uint (off :: u32) \<longleftrightarrow> p + 32 * unat x = unat off"
  "int p = uint off \<longleftrightarrow> p = unat off"
proof -
  have u: "uint x = int (unat x)" "uint off = int (unat off)" by simp_all
  show "int (p + 32) + 32 * (uint x - 1) = uint off \<longleftrightarrow> p + 32 * unat x = unat off" unfolding u by presburger
  show "int p = uint off \<longleftrightarrow> p = unat off" unfolding u by presburger
qed

lemma remove_round:
  assumes "length e = 32" "length pre = pos"
  shows "remove_loop off (pre @ e @ rest) pos =
    (if e ! 0 = 0 then pre @ e @ rest
     else if isFreeEntry e then remove_loop off (pre @ e @ rest) (pos + 32)
     else if isLongNameComponent e
     then remove_loop off (if pos + 32 * unat (e ! LDIR_Ord AND NOT LAST_LONG_ENTRY) = unat off
            then pre @ freed e @ rest else pre @ e @ rest) (pos + 32)
     else if \<not> isVolumeID e
     then (if pos = unat off then pre @ freed e @ rest else remove_loop off (pre @ e @ rest) (pos + 32))
     else remove_loop off (pre @ e @ rest) (pos + 32))"
proof -
  have t: "take 32 (drop pos (pre @ e @ rest)) = e" using assms by simp
  have u: "(pre @ e @ rest)[pos := 0xe5] = pre @ freed e @ rest" using assms by (simp add: freed_def list_update_append)
  show ?thesis unfolding remove_loop.simps [of off "pre @ e @ rest" pos] Let_def t u own_part using assms(1) by simp
qed

lemma remove_parts:
  assumes "parts_ok c b ls" "length pre = pos"
  shows "remove_loop off (pre @ concat ls @ rest) pos =
    remove_loop off (pre @ concat (if pos + 32 * length ls = unat off then map freed ls else ls) @ rest) (pos + 32 * length ls)"
  using assms
proof (induction ls arbitrary: b pre pos)
  case (Cons l ls)
  have l: "length l = 32" "isLongNameComponent l" "\<not> isFreeEntry l" "l ! 0 \<noteq> 0" "parts_ok c False ls"
    "uint (l ! LDIR_Ord AND NOT LAST_LONG_ENTRY) = int (Suc (length ls))"
    using Cons.prems(1) by (auto simp: isFreeEntry_def)
  let ?hit = "pos + 32 * Suc (length ls) = unat off"
  have "unat (l ! LDIR_Ord AND NOT LAST_LONG_ENTRY) = Suc (length ls)" using arg_cong [OF l(6), of nat] by simp
  then have "remove_loop off (pre @ concat (l # ls) @ rest) pos
      = remove_loop off (pre @ (if ?hit then freed l else l) @ concat ls @ rest) (pos + 32)"
    using remove_round [OF l(1) Cons.prems(2), of off "concat ls @ rest"] l by simp
  also have "\<dots> = remove_loop off ((pre @ (if ?hit then freed l else l)) @ concat (if ?hit then map freed ls else ls) @ rest) (pos + 32 + 32 * length ls)"
    using Cons.IH [OF l(5), of "pre @ (if ?hit then freed l else l)" "pos + 32"] l(1) Cons.prems(2)
    by (simp add: freed_def add.assoc)
  finally show ?case by (simp add: add.assoc)
qed simp

lemma remove_row:
  assumes "list_all slot_ok gs" "set z \<subseteq> {0}" "32 dvd length z" "length pre = pos" "32 dvd pos"
  shows "remove_loop off (pre @ row_bytes gs @ z) pos = pre @ row_bytes (unlist (unat off) pos gs) @ z"
  using assms
proof (induction "unat off" pos gs arbitrary: pre rule: unlist.induct)
  case (1 p)
  show ?case
  proof (cases "z = []")
    case True
    then show ?thesis using 1 by (subst remove_loop.simps) simp
  next
    case False
    have z: "z = replicate 32 0 @ drop 32 z" by (rule zeros_32 [OF 1(2,3) False])
    show ?thesis using remove_round [of "replicate 32 0" pre p off "drop 32 z"] 1(4) z by simp
  qed
next
  case (2 p e gs)
  have "remove_loop off (pre @ e @ row_bytes gs @ z) p = remove_loop off ((pre @ e) @ row_bytes gs @ z) (p + 32)"
    using 2 by (subst remove_round) (auto simp: isFreeEntry_def)
  then show ?case using 2(1) [of "pre @ e"] 2(2-) by simp
next
  case (3 p e gs)
  have "remove_loop off (pre @ e @ row_bytes gs @ z) p = remove_loop off ((pre @ e) @ row_bytes gs @ z) (p + 32)"
    using 3 by (subst remove_round) (auto simp: isFreeEntry_def)
  then show ?case using 3(1) [of "pre @ e"] 3(2-) by simp
next
  case (4 p ls e gs)
  have p: "parts_ok (getChecksum e) True ls" and e: "length e = 32" "\<not> isFreeEntry e" "e ! 0 \<noteq> 0" "\<not> isLongNameComponent e" "\<not> isVolumeID e"
    using 4(2) by (auto simp: plain_entry_def isFreeEntry_def)
  let ?hit = "p + 32 * length ls = unat off"
  let ?ls = "concat (if ?hit then map freed ls else ls)"
  have l: "length (pre @ ?ls) = p + 32 * length ls"
    using parts_length [OF p] length_freed [of ls] 4(5) by simp
  have "remove_loop off (pre @ row_bytes (File ls e # gs) @ z) p = remove_loop off ((pre @ ?ls) @ e @ row_bytes gs @ z) (p + 32 * length ls)"
    using remove_parts [OF p 4(5), of off "e @ row_bytes gs @ z"] by simp
  also have "\<dots> = (if ?hit then (pre @ ?ls) @ freed e @ row_bytes gs @ z
      else remove_loop off (((pre @ ?ls) @ e) @ row_bytes gs @ z) (p + 32 * length ls + 32))"
    using remove_round [OF e(1) l, of off "row_bytes gs @ z"] e by simp
  also have "\<dots> = pre @ row_bytes (unlist (unat off) p (File ls e # gs)) @ z"
  proof (cases ?hit)
    case True
    then show ?thesis using row_freed [of ls] by (simp add: row_freed)
  next
    case False
    then show ?thesis using 4(1) [OF False, of "(pre @ ?ls) @ e"] 4(2-) e(1) l by (simp add: add.assoc add.commute [of 32])
  qed
  finally show ?case .
qed
text \<open>C2: \<^verbatim>\<open>remove\<close> of a file or an empty directory takes exactly its own entry, and those of its long
  name, out of the directory it is in, marks it as removed and leaves every other file where it
  is and the directory in order. The root and a directory that holds files besides its two own
  entries are refused and nothing changes.\<close>

theorem remove_unlists:
  assumes "dir_image gs z parent" "\<not> st_isRemoved st" "\<not> st_isDirectory st \<or> row_at dir 64 hs y"
  shows "\<exists>r st' parent'. remove st dir parent = Inr (r, st', parent')
    \<and> (if st_isDirectory st \<and> (fst_root st \<or> files 64 hs \<noteq> []) then r = - 1 \<and> st' = st \<and> parent' = parent
       else r = 0 \<and> st_isRemoved st' \<and> length parent' = length parent
         \<and> (\<exists>gs'. dir_image gs' z parent' \<and> files 0 gs' = filter (\<lambda>x. fst x \<noteq> unat (entOffset st)) (files 0 gs)))"
proof -
  have empty: "st_isEmpty st dir [] = Inr (files 64 hs = [])" if d: "st_isDirectory st" "\<not> fst_root st"
  proof -
    have row: "row_at dir 64 hs y" using assms(3) d(1) by simp
    have m: "(if fst_root st then 0 else min (2 * 32) (length dir)) = 64" using row d(2) by (simp add: row_at_def)
    show ?thesis
    proof (cases "files 64 hs = []")
      case True
      from findNext_none [OF row True, of "[]" 0] obtain s g where "findNext dir 64 [] 0 = Inr (False, s, [], g)" by auto
      then show ?thesis unfolding st_isEmpty_def m using d(1) True by simp
    next
      case False
      from findNext_file [OF row False, of "[]" 0] obtain s nm where "findNext dir 64 [] 0 = Inr (True, s, nm, None)" by auto
      then show ?thesis unfolding st_isEmpty_def m using d(1) False by simp
    qed
  qed
  have p: "parent = [] @ row_bytes gs @ z" "list_all slot_ok gs" "set z \<subseteq> {0}" "32 dvd length z" using assms(1) by (auto simp: dir_image_def)
  have loop: "remove_loop off parent 0 = row_bytes (unlist (unat off) 0 gs) @ z" for off
    using remove_row [OF p(2-4), of "[]" 0 off] p(1) by simp
  have img: "dir_image (unlist off 0 gs) z (row_bytes (unlist off 0 gs) @ z)" for off
    using p unlist_slots by (simp add: dir_image_def)
  have len: "length (row_bytes (unlist off 0 gs) @ z) = length parent" for off
    using length_unlist p(1) by simp
  have rm: "st_isRemoved (st\<lparr>fst_flags := fst_flags st OR Removed\<rparr>)" by (simp add: st_isRemoved_def)
  show ?thesis
    using assms(2) empty by (auto simp: remove_def loop img len [simplified] rm files_unlist [OF p(2)] intro!: exI [of _ "unlist (unat (entOffset st)) 0 gs"])
qed

text \<open>The first of two files, \<open>A\<close> and \<open>B\<close>, is removed.\<close>

lemma remove_unlists_witness:
  fixes z :: "u8 list"
  defines "z \<equiv> replicate 448 0" and "a \<equiv> 0x41 # replicate 10 0x20 @ ATTR_ARCHIVE # replicate 20 (0 :: u8)"
    and "b \<equiv> 0x42 # replicate 10 0x20 @ ATTR_ARCHIVE # replicate 20 (0 :: u8)"
  shows "\<exists>st' dir' gs'. remove (ex_stream\<lparr>entOffset := 0\<rparr>) [] (row_bytes [File [] a, File [] b] @ z) = Inr (0, st', dir')
    \<and> dir_image gs' z dir' \<and> files 0 gs' = [(32, b, [0])]"
proof -
  have ok: "slot_ok (File [] a)" "slot_ok (File [] b)" unfolding a_def b_def by code_simp+
  have i: "dir_image [File [] a, File [] b] z (row_bytes [File [] a, File [] b] @ z)"
    using ok by (simp add: dir_image_def z_def)
  have st: "\<not> st_isRemoved (ex_stream\<lparr>entOffset := 0\<rparr>)" "\<not> st_isDirectory (ex_stream\<lparr>entOffset := 0\<rparr>)" by code_simp+
  show ?thesis
    using remove_unlists [OF i st(1), where dir = "[]"] st(2) by (auto simp: long_name_def)
qed

end
