(* ===== verification/FatMount.thy ===== *)
theory FatMount
  imports FatResize
begin

text \<open>
  Mounting and dismounting a volume (\<^verbatim>\<open>os/fs/fat/fatFileSystem.cpp\<close>). The partition and the
  cached stream over it are one byte store. A division by zero is \<open>Undefined\<close>.
\<close>

subsection \<open>\<open>mount\<close>\<close>

text \<open>The fields that \<^verbatim>\<open>mount\<close> computes from the boot sector.\<close>

definition mount_geometry :: "fatfs \<Rightarrow> store \<Rightarrow> fatfs result" where
  "mount_geometry fs disk =
    (if fs_mounted fs then Inl (Thrown EALREADY)
     else let b = store_read disk 0 512
      in if le_word b 510 \<noteq> 0xaa55 then Inl (Thrown EINVAL)
         else let bps = le_word b BPB_BytsPerSec;
                  spc = le_byte b BPB_SecPerClus
           in if bps = 0 then Inl Undefined
              else let rootSecs = (le_word b BPB_RootEntCnt * 32 + (bps - 1)) div bps;
                       sz = (if le_word b BPB_FATSz16 = 0 then le_dword b BPB_FATSz32 else le_word b BPB_FATSz16);
                       tot = (if le_word b BPB_TotSec16 = 0 then le_dword b BPB_TotSec32 else le_word b BPB_TotSec16);
                       firstRoot = le_word b BPB_RsvdSecCnt + le_byte b BPB_NumFATs * sz;
                       firstData = firstRoot + rootSecs;
                       secs = tot - firstData
                in if spc = 0 then Inl Undefined
                   else let fs = fs\<lparr>fs_mounted := True, fs_disk := disk, fs_bpb := b, bytsPerSec := ucast bps,
                                 bytsPerClus := bps * spc, hiddSec := le_dword b BPB_HiddSec, rootDirSectors := rootSecs,
                                 fatSz := sz, totSec := tot, firstRootDirSector := firstRoot, firstDataSector := firstData,
                                 dataSec := secs, countOfClusters := secs div spc\<rparr>
                        in Inr (if isFat32 fs
                                then fs\<lparr>firstRootDirSector := firstSectorOfCluster fs (le_dword b BPB_RootClus)\<rparr>
                                else fs))"

definition fsi_valid :: "u8 list \<Rightarrow> bool" where
  "fsi_valid f \<longleftrightarrow> le_dword f FSI_LeadSig = 0x41615252 \<and> le_dword f FSI_StrucSig = 0x61417272
     \<and> le_dword f FSI_TrailSig = 0xaa550000"

definition fsi_position :: "fatfs \<Rightarrow> nat" where
  "fsi_position fs = unat (le_word (fs_bpb fs) BPB_FSInfo * ucast (bytsPerSec fs))"

definition mount_hints :: "fatfs \<Rightarrow> fatfs" where
  "mount_hints fs =
    (if \<not> isFat32 fs then fs\<lparr>nxtFree := 0xffffffff, freeCount := 0xffffffff\<rparr>
     else let f = store_read (fs_disk fs) (fsi_position fs) 512
          in if fsi_valid f
             then fs\<lparr>fs_fsi := f, nxtFree := le_dword f FSI_Nxt_Free, freeCount := le_dword f FSI_Free_Count\<rparr>
             else fs\<lparr>fs_fsi := f, nxtFree := 0xffffffff, freeCount := 0xffffffff\<rparr>)"

text \<open>Counting the free clusters from \<open>n\<close> on, and looking for the first.\<close>

partial_function (option) count_free :: "fatfs \<Rightarrow> u32 \<Rightarrow> u32 \<Rightarrow> u32 \<Rightarrow> (u32 \<times> u32) option" where
  "count_free fs n free nxt =
    (if isEof fs n then Some (free, nxt)
     else if clusEntryVal fs n = 0
     then count_free fs (n + 1) (free + 1) (if isEof fs nxt then n else nxt)
     else count_free fs (n + 1) free nxt)"

declare count_free.simps [code]

definition root_entry :: "fatfs \<Rightarrow> u8 list" where
  "root_entry fs =
    (let f = replicate 11 0x20 @ replicate (32 - 11) 0;
         f = le_xbyte f DIR_Attr (ucast ATTR_DIRECTORY)
     in if isFat32 fs
        then let f = le_xword f DIR_FstClusLO (le_dword (fs_bpb fs) BPB_RootClus)
             in le_xword f DIR_FstClusHI (drop_bit 16 (le_dword (fs_bpb fs) BPB_RootClus))
        else f)"

text \<open>Without a partition nothing happens; otherwise the stream of the root is given back.\<close>

definition mount :: "fatfs \<Rightarrow> store option \<Rightarrow> (fatfs \<times> fat_stream option) run" where
  "mount fs disk =
    (case disk of
       None \<Rightarrow> ok (fs, None)
     | Some disk \<Rightarrow>
         obind (Some (mount_geometry fs disk)) (\<lambda>fs.
         let fs = mount_hints fs
         in obind (if \<not> isClean fs then ok (fs\<lparr>nxtFree := 0xffffffff, freeCount := 0xffffffff\<rparr>)
                   else Some (setClean fs False)) (\<lambda>fs.
            obind (if isEof fs (nxtFree fs) \<or> isEof fs (freeCount fs)
                   then map_option (\<lambda>(free, nxt). Inr (fs\<lparr>freeCount := free, nxtFree := nxt\<rparr>)) (count_free fs 2 0 (nxtFree fs))
                   else ok fs) (\<lambda>fs.
            obind (newFatStream fs None 0 (root_entry fs)) (\<lambda>root. ok (fs, Some root))))))"

subsection \<open>\<open>dismount\<close>\<close>

definition dismount :: "fatfs \<Rightarrow> fat_stream option \<Rightarrow> fatfs result" where
  "dismount fs root =
    (if \<not> fs_mounted fs then Inr fs
     else andThen
       (case root of
          None \<Rightarrow> Inr fs
        | Some root \<Rightarrow>
            let fs = (if isFat32 fs \<and> fsi_valid (fs_fsi fs)
                      then let f = le_xdword (fs_fsi fs) FSI_Nxt_Free (nxtFree fs);
                               f = le_xdword f FSI_Free_Count (freeCount fs)
                           in fs\<lparr>fs_fsi := f, fs_disk := store_write (fs_disk fs) (fsi_position fs) f\<rparr>
                      else fs)
            in setClean fs True)
       (\<lambda>fs. Inr (fs\<lparr>fs_mounted := False, bytsPerClus := 0, countOfClusters := 0, freeCount := 0\<rparr>)))"

subsection \<open>Counting free clusters\<close>

definition free_from :: "fatfs \<Rightarrow> u32 \<Rightarrow> u32 set" where
  "free_from fs n = {c. n \<le> c \<and> \<not> isEof fs c \<and> clusEntryVal fs c = 0}"

lemma fat_free_from: "fat_free fs = free_from fs 2"
  by (auto simp: fat_free_def free_from_def fat_map_def split: if_splits)

lemma free_from_step:
  assumes "fat_ok fs" "\<not> isEof fs n"
  shows "free_from fs n = (if clusEntryVal fs n = 0 then insert n (free_from fs (n + 1)) else free_from fs (n + 1))"
    "n \<notin> free_from fs (n + 1)" "unat (n + 1) = unat n + 1"
proof -
  have "unat n \<le> unat (countOfClusters fs) + 1" "unat (countOfClusters fs) < 0x0ffffff5"
    using assms by (auto simp: isEof_nat fat_ok_def word_less_nat_alt)
  then show u: "unat (n + 1) = unat n + 1" by (subst unat_add_u32) simp_all
  have "n \<le> c \<longleftrightarrow> c = n \<or> n + 1 \<le> c" for c
    using u by (auto simp: word_le_nat_alt word_unat_eq_iff)
  then show "free_from fs n = (if clusEntryVal fs n = 0 then insert n (free_from fs (n + 1)) else free_from fs (n + 1))"
    using assms(2) by (auto simp: free_from_def)
  show "n \<notin> free_from fs (n + 1)" using u by (simp add: free_from_def word_le_nat_alt)
qed

lemma count_free_total:
  assumes "fat_ok fs"
  shows "\<exists>nxt'. count_free fs n free nxt = Some (free + of_nat (card (free_from fs n)), nxt')
    \<and> (\<not> isEof fs nxt \<longrightarrow> nxt' = nxt)
    \<and> (isEof fs nxt \<and> free_from fs n \<noteq> {} \<longrightarrow> nxt' \<in> free_from fs n \<and> (\<forall>c \<in> free_from fs n. nxt' \<le> c))"
proof (induction "unat (countOfClusters fs) + 2 - unat n" arbitrary: n free nxt rule: less_induct)
  case less
  show ?case
  proof (cases "isEof fs n")
    case True
    then have "free_from fs n = {}"
      by (auto simp: free_from_def isEof_def)
    then show ?thesis using True by (simp add: count_free.simps)
  next
    case False
    note st = free_from_step [OF assms False]
    have "unat n \<le> unat (countOfClusters fs) + 1" using False assms by (auto simp: isEof_nat fat_ok_def)
    then have dec: "unat (countOfClusters fs) + 2 - unat (n + 1) < unat (countOfClusters fs) + 2 - unat n" using st(3) by simp
    have le: "\<forall>c \<in> free_from fs (n + 1). n \<le> c" using st(3) by (auto simp: free_from_def word_le_nat_alt)
    have sub: "n + 1 \<le> c \<Longrightarrow> n \<le> c" for c using st(3) by (auto simp: word_le_nat_alt)
    show ?thesis
    proof (cases "clusEntryVal fs n = 0")
      case True
      define x where "x = (if isEof fs nxt then n else nxt)"
      have x: "\<not> isEof fs x" using False by (simp add: x_def)
      from less [OF dec, of "free + 1" x] x have
        r: "count_free fs (n + 1) (free + 1) x = Some (free + 1 + of_nat (card (free_from fs (n + 1))), x)" by blast
      have m: "n \<in> free_from fs n" "\<forall>c \<in> free_from fs n. n \<le> c" using st(1) True le by auto
      have "card (free_from fs n) = Suc (card (free_from fs (n + 1)))" using st True by (simp add: card_insert_disjoint)
      then have "count_free fs n free nxt = Some (free + of_nat (card (free_from fs n)), x)"
        using r True False by (subst count_free.simps) (simp add: x_def)
      then show ?thesis using m by (intro exI [of _ x]) (auto simp: x_def)
    next
      case nz: False
      then have "free_from fs n = free_from fs (n + 1)" "count_free fs n free nxt = count_free fs (n + 1) free nxt"
        using False st(1) by (simp, subst count_free.simps) simp_all
      then show ?thesis using less [OF dec, of free nxt] by simp
    qed
  qed
qed

subsection \<open>The mark of a clean volume\<close>

lemma fat_entry_1: "vol_ok fs \<Longrightarrow> \<not> isEof fs 1"
  using vol_ok_fat(2) by (auto simp: isEof_nat fat_ok_def)

lemma clean_bits:
  fixes v :: u32
  shows "((v OR 0x8000) AND 0xffff) AND 0x8000 \<noteq> 0" "((v AND NOT 0x8000) AND 0xffff) AND 0x8000 = 0"
    "((v OR 0x08000000) AND 0x0fffffff) AND 0x08000000 \<noteq> 0" "((v AND NOT 0x08000000) AND 0x0fffffff) AND 0x08000000 = 0"
proof -
  have 1: "((v OR 0x8000) AND 0xffff) AND 0x8000 = 0x8000" "((v OR 0x08000000) AND 0x0fffffff) AND 0x08000000 = 0x08000000"
    unfolding and.assoc by (simp_all add: bit.conj_disj_distrib2)
  show "((v OR 0x8000) AND 0xffff) AND 0x8000 \<noteq> 0" "((v OR 0x08000000) AND 0x0fffffff) AND 0x08000000 \<noteq> 0"
    unfolding 1 by simp_all
  show "((v AND NOT 0x8000) AND 0xffff) AND 0x8000 = 0" "((v AND NOT 0x08000000) AND 0x0fffffff) AND 0x08000000 = 0"
    unfolding and.assoc by simp_all
qed

lemma setClean_run:
  assumes "vol_ok fs"
  obtains fs' where "setClean fs b = Inr fs'" "fat_step {} fs fs'" "\<forall>n. n \<noteq> 1 \<longrightarrow> fat_map fs' n = fat_map fs n"
    "freeCount fs' = freeCount fs" "nxtFree fs' = nxtFree fs" "isFat12 fs \<or> isClean fs' = b"
proof (cases "isFat12 fs")
  case True
  then have "setClean fs b = Inr fs" using fat_types [of fs] by (simp add: setClean_def)
  then show ?thesis using that fat_step_refl [OF assms] True by blast
next
  case False
  define v where "v = (let val = clusEntryVal fs 1; k = (if isFat16 fs then 0x8000 else 0x08000000)
    in if b then val OR k else val AND NOT k)"
  have set: "setClean fs b = setClusEntryVal fs 1 v"
    using False isFat32_else [of fs] by (auto simp: setClean_def v_def Let_def)
  obtain fs' where fs': "setClusEntryVal fs 1 v = Inr fs'" "fat_step {} fs fs'"
    "fat_map fs' = (fat_map fs)(1 \<mapsto> fat_trunc fs v)" "freeCount fs' = freeCount fs" "nxtFree fs' = nxtFree fs"
    using set_entry [OF assms fat_entry_1 [OF assms]] by metis
  have t: "isFat16 fs' = isFat16 fs" "isFat32 fs' = isFat32 fs" "isEof fs' = isEof fs"
    using fat_step_frame [OF fs'(2)] by (simp_all add: isFat16_def)
  have "clusEntryVal fs' 1 = fat_trunc fs v"
    using fs'(3) fat_entry_1 [OF assms] t(3) by (metis fat_map_apply fun_upd_same option.inject)
  then have "isClean fs' = b"
    using False isFat32_else [of fs] t clean_bits fat_types [of fs]
    by (cases b) (auto simp: isClean_def fat_trunc_def v_def Let_def)
  then show ?thesis using that fs' set by simp
qed

lemma fat_free_cong: "\<forall>n. n \<noteq> 1 \<longrightarrow> fat_map fs' n = fat_map fs n \<Longrightarrow> fat_free fs' = fat_free fs"
proof -
  assume m: "\<forall>n. n \<noteq> 1 \<longrightarrow> fat_map fs' n = fat_map fs n"
  have "fat_map fs' c = fat_map fs c" if "2 \<le> c" for c
    using that m by (cases "c = 1") (auto simp: word_le_nat_alt)
  then show ?thesis by (auto simp: fat_free_def)
qed

lemma root_stream:
  assumes "vol_ok fs"
  obtains root where "newFatStream fs None 0 (root_entry fs) = ok root" "fst_root root" "st_isDirectory root"
    "fstClus root = (if isFat32 fs then le_dword (fs_bpb fs) BPB_RootClus else 0)" "fst_flags root = 0"
proof -
  let ?e = "root_entry fs"
  let ?c = "le_word ?e DIR_FstClusLO OR push_bit 16 (le_word ?e DIR_FstClusHI)"
  have name: "take 11 ?e = replicate 11 0x20"
    by (simp add: root_entry_def Let_def le_xbyte_def le_xword_def)
  have dir: "fcb_isDirectory ?e"
    by (simp add: root_entry_def Let_def le_xbyte_def le_xword_def fcb_isDirectory_def)
  have c: "?c = (if isFat32 fs then le_dword (fs_bpb fs) BPB_RootClus else 0)"
  proof (cases "isFat32 fs")
    case True
    then show ?thesis
      using entry_set_clus(1) [of "le_xbyte (replicate 11 0x20 @ replicate (32 - 11) 0) DIR_Attr (ucast ATTR_DIRECTORY)"
          "le_dword (fs_bpb fs) BPB_RootClus"]
      by (simp add: root_entry_def entry_clus_def Let_def le_xbyte_def)
  next
    case False
    then show ?thesis by (simp add: root_entry_def Let_def le_xbyte_def le_word_def nth_append)
  qed
  have "\<exists>sz. calcSize_loop fs clus 0 = Some sz" for clus using calcSize_loop_total [of fs 0 clus] bpc_bound(1,2,4) [OF assms] by auto
  then have "\<exists>sz. calcSize fs ?c = Some sz" by (simp add: calcSize_def)
  then obtain sz where sz: "calcSize fs ?c = Some sz" ..
  show ?thesis
  proof (rule that)
    have "take 11 ?e \<noteq> nameDot" "take 11 ?e \<noteq> nameDotdot"
      unfolding name by code_simp+
    then show "newFatStream fs None 0 ?e = ok \<lparr>fst_root = True, dirClus = 0, entOffset = 0, fstClus = ?c, fst_size = sz, fcb = ?e,
        fst_flags = 0, lastPosition = 0, lastClus = ?c\<rparr>"
      using dir sz by (simp add: newFatStream_def Let_def)
  qed (use dir c in \<open>simp_all add: st_isDirectory_def\<close>)
qed

subsection \<open>What \<open>mount\<close> establishes\<close>

text \<open>The hints of \<open>g\<close> are not to be used: the volume was not dismounted, or they are out of range.\<close>

definition recounts :: "fatfs \<Rightarrow> bool" where
  "recounts g \<longleftrightarrow> \<not> isClean g \<or> isEof g (nxtFree (mount_hints g)) \<or> isEof g (freeCount (mount_hints g))"

lemma mount_hints_frame:
  "\<exists>f x y. mount_hints g = g\<lparr>fs_fsi := f, nxtFree := x, freeCount := y\<rparr>"
  by (cases g) (auto simp: mount_hints_def Let_def)

lemma fsi_frame [simp]:
  "vol_ok (fs\<lparr>fs_fsi := f\<rparr>) = vol_ok fs" "fat_map (fs\<lparr>fs_fsi := f\<rparr>) = fat_map fs" "isClean (fs\<lparr>fs_fsi := f\<rparr>) = isClean fs"
  "isEof (fs\<lparr>fs_fsi := f\<rparr>) = isEof fs" "isFat32 (fs\<lparr>fs_fsi := f\<rparr>) = isFat32 fs" "isFat12 (fs\<lparr>fs_fsi := f\<rparr>) = isFat12 fs"
  by (auto simp: vol_ok_def fat_table_ok_def fat_ok_def vol_geo_def fat_clear_def fat_map_def isClean_def isEof_def isFat32_def
      isFat16_def isFat12_def clusEntryVal_def fatPosition_def fatOffset_def fat_bps_def fat_base_def fat_len_def fat_rel_def
      fat_width_def fat_bpc_def data_base_def fun_eq_iff Let_def)

lemma isClean_hints [simp]: "isClean (fs\<lparr>nxtFree := x\<rparr>) = isClean fs" "isClean (fs\<lparr>freeCount := x\<rparr>) = isClean fs"
  by (simp_all add: isClean_def)

lemma card_fat_free:
  assumes "vol_ok fs"
  shows "unat (of_nat (card (fat_free fs)) :: u32) = card (fat_free fs)" "card (fat_free fs) \<le> unat (countOfClusters fs)"
proof -
  have "valid_cluster fs c" if "c \<in> fat_free fs" for c
    using that by (auto simp: fat_free_def fat_map_def valid_cluster_def split: if_splits)
  then have "unat ` fat_free fs \<subseteq> {2..<unat (countOfClusters fs) + 2}" unfolding valid_cluster_nat [OF assms] by auto
  then have "card (unat ` fat_free fs) \<le> card {2..<unat (countOfClusters fs) + 2}" by (intro card_mono) auto
  moreover have "card (unat ` fat_free fs) = card (fat_free fs)" by (intro card_image) (simp add: inj_on_def word_unat_eq_iff)
  ultimately show le: "card (fat_free fs) \<le> unat (countOfClusters fs)" by simp
  then have "card (fat_free fs) < 2 ^ 32" by (rule le_less_trans) simp
  then show "unat (of_nat (card (fat_free fs)) :: u32) = card (fat_free fs)" by (rule unat_of_nat_u32)
qed

lemma mount_run:
  assumes "mount_geometry fs disk = Inr g" "vol_ok g"
  obtains fs' root where "mount fs (Some disk) = ok (fs', Some root)" "vol_ok fs'" "\<forall>n. n \<noteq> 1 \<longrightarrow> fat_map fs' n = fat_map g n"
    "isFat12 g \<or> \<not> isClean fs'" "freeCount fs' = (if recounts g then of_nat (card (fat_free g)) else freeCount (mount_hints g))"
    "fs' = g\<lparr>fs_disk := fs_disk fs', fs_fsi := fs_fsi fs', nxtFree := nxtFree fs', freeCount := freeCount fs'\<rparr>"
    "fst_root root" "st_isDirectory root" "fstClus root = (if isFat32 g then le_dword (fs_bpb g) BPB_RootClus else 0)"
    "\<forall>a. \<not> in_fat g a \<longrightarrow> fs_disk fs' a = fs_disk g a"
proof -
  let ?h = "mount_hints g"
  obtain f x y where h: "?h = g\<lparr>fs_fsi := f, nxtFree := x, freeCount := y\<rparr>" using mount_hints_frame by blast
  have hok: "vol_ok ?h" "fat_map ?h = fat_map g" "isClean ?h = isClean g" "isEof ?h = isEof g" by (simp_all add: h assms(2))
  obtain fs1 where fs1: "(if \<not> isClean ?h then ok (?h\<lparr>nxtFree := 0xffffffff, freeCount := 0xffffffff\<rparr>) else Some (setClean ?h False)) = ok fs1"
    "fat_step {} ?h fs1" "\<forall>n. n \<noteq> 1 \<longrightarrow> fat_map fs1 n = fat_map g n" "isFat12 g \<or> \<not> isClean fs1"
    "freeCount fs1 = (if isClean g then y else 0xffffffff)" "nxtFree fs1 = (if isClean g then x else 0xffffffff)"
  proof (cases "isClean g")
    case True
    obtain fs1 where "setClean ?h False = Inr fs1" "fat_step {} ?h fs1" "\<forall>n. n \<noteq> 1 \<longrightarrow> fat_map fs1 n = fat_map ?h n"
      "freeCount fs1 = freeCount ?h" "nxtFree fs1 = nxtFree ?h" "isFat12 ?h \<or> isClean fs1 = False"
      using setClean_run [OF hok(1)] by metis
    then show ?thesis using that [of fs1] True hok by (simp add: h)
  next
    case False
    let ?f = "?h\<lparr>nxtFree := 0xffffffff, freeCount := 0xffffffff\<rparr>"
    have "fat_step {} ?h ?f"
      using fat_step_trans [OF fat_step_hints(1) [OF hok(1)] fat_step_hints(2)] hok(1) by simp
    then show ?thesis using that [of ?f] False hok by simp
  qed
  have ok1: "vol_ok fs1" by (rule fat_step_ok [OF fs1(2)])
  have e1: "isEof fs1 = isEof g" using fat_step_frame(1) [OF fs1(2)] hok(4) by simp
  have free: "fat_free fs1 = fat_free g" by (rule fat_free_cong [OF fs1(3)])
  have re: "isEof fs1 (nxtFree fs1) \<or> isEof fs1 (freeCount fs1) \<longleftrightarrow> recounts g"
  proof -
    have "isEof g 0xffffffff" using vol_ok_fat(2) [OF assms(2)] by (auto simp: isEof_nat fat_ok_def word_less_nat_alt)
    then show ?thesis using fs1(5,6) by (simp add: e1 recounts_def h)
  qed
  obtain fs2 where fs2: "(if isEof fs1 (nxtFree fs1) \<or> isEof fs1 (freeCount fs1)
       then map_option (\<lambda>(free, nxt). Inr (fs1\<lparr>freeCount := free, nxtFree := nxt\<rparr>)) (count_free fs1 2 0 (nxtFree fs1))
       else ok fs1) = ok fs2" "fat_step {} fs1 fs2" "fat_map fs2 = fat_map fs1" "isClean fs2 = isClean fs1"
    "freeCount fs2 = (if recounts g then of_nat (card (fat_free g)) else freeCount ?h)"
  proof (cases "recounts g")
    case True
    obtain nxt where c: "count_free fs1 2 0 (nxtFree fs1) = Some (of_nat (card (fat_free g)), nxt)"
      using count_free_total [OF vol_ok_fat(2) [OF ok1], of 2 0 "nxtFree fs1"] free by (auto simp: fat_free_from)
    let ?f = "fs1\<lparr>freeCount := of_nat (card (fat_free g)), nxtFree := nxt\<rparr>"
    have "fat_step {} fs1 ?f"
      using fat_step_trans [OF fat_step_hints(2) [OF ok1] fat_step_hints(1)] ok1 by simp
    then show ?thesis using that [of ?f] True c by (simp add: re)
  next
    case False
    then have "\<not> (isEof fs1 (nxtFree fs1) \<or> isEof fs1 (freeCount fs1))" "freeCount fs1 = freeCount ?h"
      using re fs1(5) by (simp_all add: recounts_def h)
    then show ?thesis using that [of fs1] fat_step_refl [OF ok1] False by simp
  qed
  have ok2: "vol_ok fs2" by (rule fat_step_ok [OF fs2(2)])
  have st: "fat_step {} ?h fs2" using fat_step_trans0 [OF fs1(2) fs2(2)] .
  obtain root where root: "newFatStream fs2 None 0 (root_entry fs2) = ok root" "fst_root root" "st_isDirectory root"
    "fstClus root = (if isFat32 fs2 then le_dword (fs_bpb fs2) BPB_RootClus else 0)"
    using root_stream [OF ok2] by metis
  have "mount fs (Some disk) = ok (fs2, Some root)"
    unfolding mount_def Let_def using assms(1) fs1(1) fs2(1) root(1) by simp
  moreover have "fs2 = g\<lparr>fs_disk := fs_disk fs2, fs_fsi := fs_fsi fs2, nxtFree := nxtFree fs2, freeCount := freeCount fs2\<rparr>"
  proof -
    obtain m a b where "fs2 = ?h\<lparr>fs_disk := m, nxtFree := a, freeCount := b\<rparr>" using st unfolding fat_step_def by blast
    then show ?thesis by (simp add: h)
  qed
  moreover have "\<forall>a. \<not> in_fat g a \<longrightarrow> fs_disk fs2 a = fs_disk g a"
  proof -
    have "in_fat ?h = in_fat g" by (simp add: h fun_eq_iff in_fat_def fat_base_def fat_len_def fat_bps_def)
    then show ?thesis using st by (simp add: fat_step_def h)
  qed
  ultimately show ?thesis
    using that [of fs2 root] ok2 fs2 fs1 root fat_step_frame [OF st] by (simp add: h)
qed

subsection \<open>A small volume\<close>

text \<open>An empty FAT12 volume of three clusters.\<close>

definition ex_boot :: "u8 list" where
  "ex_boot = ex_bpb[510 := 0x55, 511 := 0xaa]"

definition ex_disk :: store where
  "ex_disk = (\<lambda>a. if a < 512 then ex_boot ! a else 0)"

definition ex_empty :: fatfs where
  "ex_empty = ex12\<lparr>fs_disk := ex_disk, fs_bpb := ex_boot\<rparr>"

lemma ex_boot_read: "store_read ex_disk 0 512 = ex_boot"
  by (intro nth_equalityI) (simp_all add: ex_disk_def ex_boot_def ex_bpb_nth)

lemma ex_geometry: "mount_geometry (ex12\<lparr>fs_mounted := False\<rparr>) ex_disk = Inr ex_empty"
proof -
  have f: "le_word ex_boot 510 = 0xaa55" "le_word ex_boot 11 = 512" "le_byte ex_boot 13 = 1" "le_word ex_boot 14 = 1" "le_byte ex_boot 16 = 2"
    "le_word ex_boot 17 = 16" "le_word ex_boot 19 = 7" "le_word ex_boot 22 = 1" "le_dword ex_boot 28 = 0"
    by (simp_all add: le_word_def le_byte_def le_dword_def ex_boot_def ex_bpb_def)
  have "\<not> isFat32 (ex12\<lparr>fs_disk := ex_disk, fs_bpb := ex_boot\<rparr>)" by (simp add: isFat32_def ex12_def)
  then show ?thesis
    unfolding mount_geometry_def ex_boot_read Let_def
    by (simp add: f ex12_def ex_empty_def)
qed

lemma ex_empty_ok: "vol_ok ex_empty" "isFat12 ex_empty" "fat_base ex_empty = 512"
proof -
  have nth: "ex_boot ! i = ex_bpb ! i" if "i < 510" for i using that by (simp add: ex_boot_def)
  show t: "isFat12 ex_empty" by (simp add: isFat12_def ex_empty_def ex12_def)
  have b: "fat_bps ex_empty = 512" "fat_bpc ex_empty = 512" "unat (fatSz ex_empty) = 1" "unat (firstDataSector ex_empty) = 4"
    "unat (countOfClusters ex_empty) = 3" by (simp_all add: ex_empty_def ex12_def fat_bps_def fat_bpc_def)
  have p: "unat (le_word (fs_bpb ex_empty) BPB_RsvdSecCnt) = 1" "unat (fs_bpb ex_empty ! BPB_NumFATs) = 2"
    "unat (fs_bpb ex_empty ! BPB_SecPerClus) = 1"
    by (simp_all add: ex_empty_def le_word_def nth ex_bpb_nth)
  show base: "fat_base ex_empty = 512" using b p by (simp add: fat_base_def)
  have len: "fat_len ex_empty = 512" "data_base ex_empty = 2048" using b by (simp_all add: fat_len_def data_base_def)
  have "fat_ok ex_empty"
    using b p base len t fat_types(3) [OF t] by (auto simp: fat_ok_def fat_rel_def fat_width_def word_less_nat_alt)
  moreover have "fat_clear ex_empty" using fat_types(3) [OF t] by (simp add: fat_clear_def)
  moreover have "vol_geo ex_empty" using b p base len by (simp add: vol_geo_def word_less_nat_alt upt_rec)
  ultimately show "vol_ok ex_empty" by (simp add: vol_ok_def fat_table_ok_def)
qed

lemma ex_empty_free: "card (fat_free ex_empty) = 3"
proof -
  have e: "isEof ex_empty n \<longleftrightarrow> 4 < n" for n by (simp add: isEof_def ex_empty_def ex12_def)
  have z: "clusEntryVal ex_empty n = 0" if "\<not> isEof ex_empty n" for n
  proof -
    have "fs_disk ex_empty (fat_base ex_empty + q) = 0" for q by (simp add: ex_empty_ok(3)) (simp add: ex_empty_def ex_disk_def)
    then have "fat_byte ex_empty 0 q = 0" for q by (simp add: fat_byte_def)
    then show ?thesis using clusEntryVal_bytes [OF vol_ok_fat(2) [OF ex_empty_ok(1)] that] ex_empty_ok(2) by (simp add: le_word_def)
  qed
  have "fat_free ex_empty = {2, 3, 4}"
  proof -
    have "n \<in> {2, 3, 4}" if "2 \<le> n" "n \<le> 4" for n :: u32
      using that by (simp add: word_le_nat_alt word_unat_eq_iff) linarith
    then show ?thesis using z by (auto simp: fat_free_def fat_map_Some e not_less)
  qed
  then show ?thesis by simp
qed

text \<open>C10: \<^verbatim>\<open>mount\<close> of a volume whose boot sector describes a FAT in order succeeds. The table
  is the one on the disk, but for the mark in entry 1 that the volume is in use; the root stream is
  a directory at the first cluster of the root; and unless a clean volume brings its own number,
  the number of free clusters is the number of entries that are 0.\<close>

theorem mount_counts_free:
  assumes "mount_geometry fs disk = Inr g" "vol_ok g"
  shows "\<exists>fs' root. mount fs (Some disk) = ok (fs', Some root) \<and> vol_ok fs'
    \<and> (\<forall>n. n \<noteq> 1 \<longrightarrow> fat_map fs' n = fat_map g n) \<and> (isFat12 g \<or> \<not> isClean fs')
    \<and> unat (freeCount fs') = (if recounts g then card (fat_free fs') else unat (freeCount (mount_hints g)))
    \<and> fst_root root \<and> st_isDirectory root \<and> fstClus root = (if isFat32 g then le_dword (fs_bpb g) BPB_RootClus else 0)"
proof (rule mount_run [OF assms])
  fix fs' root
  assume m: "mount fs (Some disk) = ok (fs', Some root)" "vol_ok fs'"
    "\<forall>n. n \<noteq> 1 \<longrightarrow> fat_map fs' n = fat_map g n" "isFat12 g \<or> \<not> isClean fs'"
    "freeCount fs' = (if recounts g then of_nat (card (fat_free g)) else freeCount (mount_hints g))"
    "fst_root root" "st_isDirectory root" "fstClus root = (if isFat32 g then le_dword (fs_bpb g) BPB_RootClus else 0)"
  have "unat (freeCount fs') = (if recounts g then card (fat_free fs') else unat (freeCount (mount_hints g)))"
    using card_fat_free(1) [OF assms(2)] fat_free_cong [OF m(3)] m(5) by simp
  then show ?thesis using m(1-4,6-8) by blast
qed

theorem mount_counts_free_witness:
  "\<exists>fs' root. mount (ex12\<lparr>fs_mounted := False\<rparr>) (Some ex_disk) = ok (fs', Some root) \<and> vol_ok fs'
    \<and> unat (freeCount fs') = card (fat_free fs') \<and> fstClus root = 0"
proof -
  have t: "\<not> isFat32 ex_empty" using fat_types(3) [OF ex_empty_ok(2)] .
  have "isEof ex_empty 0xffffffff" by (simp add: isEof_def ex_empty_def ex12_def)
  then have "recounts ex_empty" using t by (simp add: recounts_def mount_hints_def)
  then show ?thesis using mount_counts_free [OF ex_geometry ex_empty_ok(1)] t by auto
qed

subsection \<open>Dismounting and mounting again\<close>

lemma geometry_local:
  assumes "mount_geometry x d = Inr g" "\<not> fs_mounted y" "\<forall>a < 512. d' a = d a"
  shows "mount_geometry y d' = Inr (g\<lparr>fs_disk := d', fs_fsi := fs_fsi y, nxtFree := nxtFree y, freeCount := freeCount y\<rparr>)"
proof -
  have b: "store_read d' 0 512 = store_read d 0 512" using assms(3) by (auto simp: store_read_def)
  show ?thesis
    using assms(1,2) unfolding mount_geometry_def b Let_def
    by (cases x; cases y) (auto simp: isFat32_def firstSectorOfCluster_def split: if_splits)
qed

text \<open>A volume as it is between \<^verbatim>\<open>mount\<close> and \<^verbatim>\<open>dismount\<close>: its fields are those the boot sector gives,
  and the boot sector and the FSInfo sector lie before the FAT.\<close>

definition mounted :: "fatfs \<Rightarrow> bool" where
  "mounted fs \<longleftrightarrow> vol_ok fs \<and> mount_geometry (fs\<lparr>fs_mounted := False\<rparr>) (fs_disk fs) = Inr fs \<and> 512 \<le> fat_base fs
     \<and> (isFat32 fs \<longrightarrow> 512 \<le> fsi_position fs \<and> fsi_position fs + 512 \<le> fat_base fs
          \<and> fs_fsi fs = store_read (fs_disk fs) (fsi_position fs) 512)"

lemma mounted_step:
  assumes "mounted fs" "fat_step W fs fs'" "\<forall>a \<in> W. fat_base fs \<le> a"
  shows "mounted fs'"
proof -
  obtain m x y where fs': "fs' = fs\<lparr>fs_disk := m, nxtFree := x, freeCount := y\<rparr>" using assms(2) unfolding fat_step_def by blast
  have same: "m a = fs_disk fs a" if "a < fat_base fs" for a
  proof -
    have "a \<notin> W" "\<not> in_fat fs a" using that assms(3) by (auto simp: in_fat_def)
    then show ?thesis using assms(2) by (simp add: fat_step_def fs')
  qed
  have fm: "fs_mounted fs" using assms(1) by (cases fs) (auto simp: mounted_def mount_geometry_def Let_def split: if_splits)
  have "mount_geometry (fs'\<lparr>fs_mounted := False\<rparr>) (fs_disk fs') = Inr (fs\<lparr>fs_disk := m, fs_fsi := fs_fsi fs, nxtFree := x, freeCount := y\<rparr>)"
    using geometry_local [of "fs\<lparr>fs_mounted := False\<rparr>" "fs_disk fs" fs "fs'\<lparr>fs_mounted := False\<rparr>" m] assms(1) same
    by (simp add: mounted_def fs')
  then show ?thesis
    using assms(1) fat_step_ok(1) [OF assms(2)] same by (auto simp: mounted_def fs' fsi_position_def store_read_def)
qed

lemma geometry_mounted: "mount_geometry x d = Inr g \<Longrightarrow> fs_mounted g"
  by (auto simp: mount_geometry_def Let_def split: if_splits)

lemma fsi_written:
  fixes nxt free :: u32
  assumes "length f = 512" "fsi_valid f"
  defines "f' \<equiv> le_xdword (le_xdword f FSI_Nxt_Free nxt) FSI_Free_Count free"
  shows "length f' = 512" "fsi_valid f'" "le_dword f' FSI_Free_Count = free"
  using assms by (simp_all add: fsi_valid_def codec_simps)

text \<open>\<^verbatim>\<open>dismount\<close> leaves the boot sector, and the FSInfo sector with the number of free clusters.\<close>

lemma dismount_run:
  assumes "mounted fs" "fs_mounted fs"
  obtains fs1 g where "dismount fs (Some root) = Inr fs1" "mount_geometry fs1 (fs_disk fs1) = Inr g" "vol_ok g"
    "\<forall>n. n \<noteq> 1 \<longrightarrow> fat_map g n = fat_map fs n"
    "\<not> recounts g \<Longrightarrow> freeCount (mount_hints g) = freeCount fs"
proof -
  have vol: "vol_ok fs" and geo: "mount_geometry (fs\<lparr>fs_mounted := False\<rparr>) (fs_disk fs) = Inr fs" and base: "512 \<le> fat_base fs"
    and fsi: "isFat32 fs \<Longrightarrow> 512 \<le> fsi_position fs \<and> fsi_position fs + 512 \<le> fat_base fs
      \<and> fs_fsi fs = store_read (fs_disk fs) (fsi_position fs) 512"
    using assms(1) by (auto simp: mounted_def)
  let ?p = "fsi_position fs"
  let ?f = "le_xdword (le_xdword (fs_fsi fs) FSI_Nxt_Free (nxtFree fs)) FSI_Free_Count (freeCount fs)"
  let ?put = "isFat32 fs \<and> fsi_valid (fs_fsi fs)"
  define fa where "fa = (if ?put then fs\<lparr>fs_fsi := ?f, fs_disk := store_write (fs_disk fs) ?p ?f\<rparr> else fs)"
  have fa_alt: "fa = (if ?put then fs\<lparr>fs_disk := store_write (fs_disk fs) ?p ?f, fs_fsi := ?f\<rparr> else fs)" by (simp add: fa_def)
  have f: "length ?f = 512" "fsi_valid ?f" "le_dword ?f FSI_Free_Count = freeCount fs" if ?put
    using fsi_written [of "fs_fsi fs"] that fsi by simp_all
  have a: "vol_ok fa" "fat_map fa = fat_map fs" "\<forall>a < 512. fs_disk fa a = fs_disk fs a"
    "?put \<longrightarrow> store_read (fs_disk fa) ?p 512 = ?f" "fat_base fa = fat_base fs"
  proof -
    have "fat_step {?p..<?p + 512} fs (fs\<lparr>fs_disk := store_write (fs_disk fs) ?p ?f\<rparr>)
        \<and> fat_map (fs\<lparr>fs_disk := store_write (fs_disk fs) ?p ?f\<rparr>) = fat_map fs" if ?put
    proof -
      have "\<not> in_fat fs a" if "a \<in> {?p..<?p + 512}" for a using that fsi \<open>?put\<close> by (auto simp: in_fat_def)
      moreover have "store_write (fs_disk fs) ?p ?f a = fs_disk fs a" if "a \<notin> {?p..<?p + 512}" for a
        using that f(1) [OF \<open>?put\<close>] by (auto simp: store_write_def)
      ultimately show ?thesis using fat_step_write [OF vol] by blast
    qed
    then show "vol_ok fa" "fat_map fa = fat_map fs"
      using vol fat_step_ok(1) by (auto simp: fa_alt)
    show "\<forall>a < 512. fs_disk fa a = fs_disk fs a" using fsi by (auto simp: fa_def store_write_def)
    show "?put \<longrightarrow> store_read (fs_disk fa) ?p 512 = ?f" using f by (simp add: fa_def store_read_write_same)
    show "fat_base fa = fat_base fs" by (simp add: fa_def fat_base_def fat_bps_def)
  qed
  obtain fb where fb: "setClean fa True = Inr fb" "fat_step {} fa fb" "\<forall>n. n \<noteq> 1 \<longrightarrow> fat_map fb n = fat_map fa n"
    "freeCount fb = freeCount fa" "nxtFree fb = nxtFree fa" using setClean_run [OF a(1)] by metis
  have out: "fs_disk fb a = fs_disk fa a" if "a < fat_base fs" for a
    using that fb(2) a(5) by (auto simp: fat_step_def in_fat_def)
  let ?fs1 = "fb\<lparr>fs_mounted := False, bytsPerClus := 0, countOfClusters := 0, freeCount := 0\<rparr>"
  have dis: "dismount fs (Some root) = Inr ?fs1"
  proof -
    have "dismount fs (Some root) = andThen (setClean fa True)
        (\<lambda>fs. Inr (fs\<lparr>fs_mounted := False, bytsPerClus := 0, countOfClusters := 0, freeCount := 0\<rparr>))"
      unfolding dismount_def fa_def Let_def using assms(2) by simp
    then show ?thesis using fb(1) by simp
  qed
  obtain m x y where bf: "fb = fa\<lparr>fs_disk := m, nxtFree := x, freeCount := y\<rparr>" using fb(2) unfolding fat_step_def by blast
  let ?g = "fb\<lparr>freeCount := 0\<rparr>"
  have "mount_geometry ?fs1 (fs_disk fb) = Inr (fs\<lparr>fs_disk := fs_disk fb, fs_fsi := fs_fsi fb, nxtFree := nxtFree fb, freeCount := 0\<rparr>)"
    using geometry_local [OF geo, of ?fs1 "fs_disk fb"] out a(3) base by auto
  also have "fs\<lparr>fs_disk := fs_disk fb, fs_fsi := fs_fsi fb, nxtFree := nxtFree fb, freeCount := 0\<rparr> = ?g"
    by (simp add: bf fa_def)
  finally have g: "mount_geometry ?fs1 (fs_disk ?fs1) = Inr ?g" by simp
  have "freeCount (mount_hints ?g) = freeCount fs" if r: "\<not> recounts ?g"
  proof -
    have t: "isFat32 ?g = isFat32 fs" "isEof ?g = isEof fb" using fat_step_frame(13) [OF fb(2)] by (simp_all add: fa_def)
    have p: "fsi_position ?g = ?p" by (simp add: fsi_position_def bf fa_def)
    have e: "isEof ?g 0xffffffff"
      using vol_ok_fat(2) [OF fat_step_ok(1) [OF fb(2)]] by (auto simp: isEof_nat fat_ok_def word_less_nat_alt)
    have f32: "isFat32 fs" using r e t(1) by (auto simp: recounts_def mount_hints_def)
    have disk: "store_read (fs_disk fb) ?p 512 = store_read (fs_disk fa) ?p 512"
      using out fsi [OF f32] by (auto simp: store_read_def)
    show ?thesis
    proof (cases "fsi_valid (fs_fsi fs)")
      case True
      then have "store_read (fs_disk fb) ?p 512 = ?f" using disk a(4) f32 by simp
      then show ?thesis using f True f32 t(1) p by (simp add: mount_hints_def Let_def)
    next
      case False
      then have "store_read (fs_disk fb) ?p 512 = fs_fsi fs" using disk fsi [OF f32] by (simp add: fa_def)
      then have "nxtFree (mount_hints ?g) = 0xffffffff" using False t(1) p f32 by (simp add: mount_hints_def Let_def)
      then show ?thesis using r e by (simp add: recounts_def)
    qed
  qed
  then show ?thesis
    using that [OF dis g] fat_step_ok(1) [OF fb(2)] fb(3) a(2) by simp
qed

text \<open>C11: A volume that is dismounted and mounted again is as it was: the entries of the table
  are the same, but for the mark in entry 1, and so is the number of free clusters, whether it
  comes from the FSInfo sector or is counted anew.\<close>

theorem dismount_mount_roundtrip:
  assumes "mounted fs" "unat (freeCount fs) = card (fat_free fs)"
  shows "\<exists>fs1 fs2 root2. dismount fs (Some root) = Inr fs1 \<and> mount fs1 (Some (fs_disk fs1)) = ok (fs2, Some root2)
    \<and> vol_ok fs2 \<and> freeCount fs2 = freeCount fs \<and> (\<forall>n. n \<noteq> 1 \<longrightarrow> fat_map fs2 n = fat_map fs n)"
proof -
  have "fs_mounted fs" using assms(1) geometry_mounted by (auto simp: mounted_def)
  then obtain fs1 g where d: "dismount fs (Some root) = Inr fs1" "mount_geometry fs1 (fs_disk fs1) = Inr g" "vol_ok g"
    "\<forall>n. n \<noteq> 1 \<longrightarrow> fat_map g n = fat_map fs n" "\<not> recounts g \<Longrightarrow> freeCount (mount_hints g) = freeCount fs"
    using dismount_run [OF assms(1)] by metis
  show ?thesis
  proof (rule mount_run [OF d(2,3)])
    fix fs2 root2
    assume m: "mount fs1 (Some (fs_disk fs1)) = ok (fs2, Some root2)" "vol_ok fs2" "\<forall>n. n \<noteq> 1 \<longrightarrow> fat_map fs2 n = fat_map g n"
      "freeCount fs2 = (if recounts g then of_nat (card (fat_free g)) else freeCount (mount_hints g))"
    have "(of_nat (card (fat_free g)) :: u32) = freeCount fs"
      using assms(2) fat_free_cong [OF d(4)] card_fat_free(1) [OF d(3)] by (simp add: word_unat_eq_iff)
    then have "freeCount fs2 = freeCount fs" using m(4) d(5) by simp
    then show ?thesis using d(1,4) m(1-3) by auto
  qed
qed

theorem dismount_mount_roundtrip_witness:
  "\<exists>fs1 fs2 root2. dismount ex_empty (Some ex_file) = Inr fs1 \<and> mount fs1 (Some (fs_disk fs1)) = ok (fs2, Some root2)
    \<and> vol_ok fs2 \<and> freeCount fs2 = 3 \<and> (\<forall>n. n \<noteq> 1 \<longrightarrow> fat_map fs2 n = fat_map ex_empty n)"
proof -
  have f: "freeCount ex_empty = 3" "fs_disk ex_empty = ex_disk" by (simp_all add: ex_empty_def ex12_def)
  have "mount_geometry (ex_empty\<lparr>fs_mounted := False\<rparr>) ex_disk = Inr ex_empty"
    using geometry_local [OF ex_geometry, of "ex_empty\<lparr>fs_mounted := False\<rparr>" ex_disk] f(2) by simp
  then have "mounted ex_empty"
    using ex_empty_ok fat_types(3) [OF ex_empty_ok(2)] f(2) by (simp add: mounted_def)
  then show ?thesis using dismount_mount_roundtrip [of ex_empty ex_file] ex_empty_free f(1) by simp
qed

end
