(* ===== verification/FatFormat.thy ===== *)
theory FatFormat
  imports FatMount
begin

text \<open>
  Formatting a volume (\<^verbatim>\<open>os/fs/fat/fatFormat.cpp\<close>). The boot sectors are built from assembly
  and are parameters; so is what the disk says of its geometry. Reading an unset geometry, dividing
  by zero and copying 512 bytes into a smaller sector are \<open>Undefined\<close>.
\<close>

subsection \<open>The geometry of the disk\<close>

record geometry =
  g_heads :: u32
  g_cylinders :: u32
  g_sectorsPerTrack :: u32
  g_bytesPerSector :: u32
  g_diskSize :: int

function large_loop :: "u32 \<Rightarrow> u32 \<Rightarrow> u32 \<times> u32" where
  "large_loop cylinders heads =
    (if 1023 < cylinders \<and> heads < 128 then large_loop (cylinders div 2) (heads * 2) else (cylinders, heads))"
  by auto
termination
  by (relation "measure (\<lambda>(c, _). unat c)") (auto simp: unat_div word_less_nat_alt)

declare large_loop.simps [simp del]

definition getGeometry :: "geometry \<Rightarrow> geometry" where
  "getGeometry g =
    (if g_diskSize g < 512 * 2 ^ 24 \<and> g_sectorsPerTrack g < 64
     then let (c, h) = large_loop (g_cylinders g) (g_heads g);
              (c, h) = (if 1023 < c \<or> 127 < h then (c * h div 255, 255) else (c, h))
          in g\<lparr>g_cylinders := c, g_heads := h\<rparr>
     else g)"

definition disk_sectors :: "geometry \<Rightarrow> u32" where
  "disk_sectors g = word_of_int (g_diskSize g div uint (g_bytesPerSector g))"

text \<open>Sectors per cluster by the number of sectors.\<close>

definition DskTableFAT16 :: "(u32 \<times> u8) list" where
  "DskTableFAT16 = [(8400, 0), (32680, 2), (262144, 4), (524288, 8), (1048576, 16), (2097152, 32), (4194304, 64), (0xffffffff, 0)]"

definition DskTableFAT32 :: "(u32 \<times> u8) list" where
  "DskTableFAT32 = [(66600, 0), (532480, 1), (16777216, 8), (33554432, 16), (67108864, 32), (0xffffffff, 64)]"

definition sec_per_clus :: "(u32 \<times> u8) list \<Rightarrow> u32 \<Rightarrow> u8" where
  "sec_per_clus table n = snd (hd (dropWhile (\<lambda>e. fst e < n) table))"

subsection \<open>Writing sectors\<close>

definition write_sectors :: "u32 \<Rightarrow> u8 list \<Rightarrow> u32 list \<Rightarrow> store \<Rightarrow> store" where
  "write_sectors bps s secs m = foldl (\<lambda>m sec. store_write m (unat (sec * bps)) s) m secs"

text \<open>The parameter block; \<open>sz16\<close> is what the 16 bit field of the size of the FAT gets.\<close>

definition bpb_fields :: "u8 list \<Rightarrow> geometry \<Rightarrow> u8 \<Rightarrow> u32 \<Rightarrow> u32 \<Rightarrow> u32 \<Rightarrow> u32 \<Rightarrow> u32 \<Rightarrow> u8 list" where
  "bpb_fields s g secPerClus resvd numFATs rootEnt n sz16 =
    (let s = le_xword s BPB_BytsPerSec (g_bytesPerSector g);
         s = le_xbyte s BPB_SecPerClus (ucast secPerClus);
         s = le_xword s BPB_RsvdSecCnt resvd;
         s = le_xbyte s BPB_NumFATs numFATs;
         s = le_xword s BPB_RootEntCnt rootEnt;
         s = le_xword s BPB_TotSec16 (if drop_bit 16 n \<noteq> 0 then 0 else n);
         s = le_xword s BPB_FATSz16 sz16;
         s = le_xword s BPB_SecPerTrk (g_sectorsPerTrack g);
         s = le_xword s BPB_NumHeads (g_heads g);
         s = le_xdword s BPB_HiddSec 0
     in le_xdword s BPB_TotSec32 (if drop_bit 16 n \<noteq> 0 then n else 0))"

text \<open>The two FATs, of \<open>sz\<close> sectors each behind \<open>resvd\<close> sectors, the first beginning with \<open>first\<close>.\<close>

definition write_fats :: "u32 \<Rightarrow> u32 \<Rightarrow> u32 \<Rightarrow> u8 list \<Rightarrow> store \<Rightarrow> store" where
  "write_fats bps resvd sz first m =
    write_sectors bps (replicate (unat bps) 0)
      (concat (map (\<lambda>i. map (\<lambda>j. resvd + of_nat j * sz + of_nat i) [0..<2]) [1..<unat sz]))
      (write_sectors bps first (map (\<lambda>j. resvd + of_nat j * sz) [0..<2]) m)"

definition write_root :: "u32 \<Rightarrow> u32 \<Rightarrow> u32 \<Rightarrow> u32 \<Rightarrow> store \<Rightarrow> store" where
  "write_root bps resvd sz n m =
    write_sectors bps (replicate (unat bps) 0) (map (\<lambda>i. resvd + 2 * sz + of_nat i) [0..<unat n]) m"

definition formatFat12 :: "u8 list \<Rightarrow> geometry option \<Rightarrow> store \<Rightarrow> (store \<times> int) result" where
  "formatFat12 boot disk m =
    (case map_option getGeometry disk of
       None \<Rightarrow> Inl Undefined
     | Some g \<Rightarrow>
         if g_bytesPerSector g = 0 then Inl Undefined
         else if disk_sectors g \<noteq> 2880 \<or> g_bytesPerSector g \<noteq> 512 then Inr (m, - 1)
         else let n = disk_sectors g;
                  bps = g_bytesPerSector g;
                  rootDirSectors = (224 * 32 + (bps - 1)) div bps;
                  s = bpb_fields (overwrite (replicate (unat bps) 0) 0 boot) g 1 1 2 224 n 9;
                  s = le_xdword s BS_VolID 0;
                  m = store_write m 0 s;
                  m = write_fats bps 1 9 ((replicate (unat bps) 0)[0 := boot ! BPB_Media, 1 := 0x8f, 2 := 0xff]) m
              in Inr (write_root bps 1 9 rootDirSectors m, 0))"

text \<open>The size of one FAT. \<open>per\<close> is the number of its entries in a sector of 512 bytes.\<close>

definition fat_size :: "u32 \<Rightarrow> u8 \<Rightarrow> u32 \<Rightarrow> u32" where
  "fat_size per secPerClus t =
    (let v = per * ucast secPerClus + 2 in (t + 2 * ucast secPerClus + (v - 1)) div v)"

definition formatFat16 :: "u8 list \<Rightarrow> geometry option \<Rightarrow> store \<Rightarrow> (store \<times> int) result" where
  "formatFat16 boot disk m =
    (case map_option getGeometry disk of
       None \<Rightarrow> Inl Undefined
     | Some g \<Rightarrow>
         let bps = g_bytesPerSector g
         in if bps < 512 then Inl Undefined
            else let n = disk_sectors g;
                     spc = sec_per_clus DskTableFAT16 n;
                     rootDirSectors = (512 * 32 + (bps - 1)) div bps;
                     t = n - (1 + rootDirSectors);
                     sz = fat_size 256 spc t
                 in if spc = 0 then Inl Undefined
                    else ensuring (0 \<le> sint (sz - ((t - 2 * sz) div ucast spc + 2 + bps div 2 - 1) div (bps div 2)))
                     (let s = bpb_fields (overwrite (replicate (unat bps) 0) 0 boot) g spc 1 2 512 n sz;
                          s = le_xdword s BS_VolID 0;
                          m = store_write m 0 s;
                          first = le_xword (replicate (unat bps) 0) 0 (0xff00 OR le_byte boot BPB_Media);
                          first = le_xword first 2 (0xfff8 OR 0x8000 OR 0x4000);
                          m = write_fats bps 1 sz first m
                      in Inr (write_root bps 1 sz rootDirSectors m, 0)))"

definition formatFat32 :: "u8 list \<Rightarrow> geometry option \<Rightarrow> store \<Rightarrow> (store \<times> int) result" where
  "formatFat32 boot disk m =
    (case map_option getGeometry disk of
       None \<Rightarrow> Inl Undefined
     | Some g \<Rightarrow>
         let bps = g_bytesPerSector g
         in if bps < 512 then Inl Undefined
            else let n = disk_sectors g;
                     spc = sec_per_clus DskTableFAT32 n;
                     rootDirSectors = (0 * 32 + (bps - 1)) div bps;
                     t = n - (36 + rootDirSectors);
                     sz = fat_size 128 spc t
                 in if spc = 0 then Inl Undefined
                    else ensuring (0 \<le> sint (sz - ((t - 2 * sz) div ucast spc + 2 + bps div 4 - 1) div (bps div 4)))
                     (let s = bpb_fields (overwrite (replicate (unat bps) 0) 0 boot) g spc 36 2 0 n 0;
                          s = le_xdword s BPB_FATSz32 sz;
                          s = le_xdword s BS32_VolID 0;
                          m = store_write m 0 s;
                          m = store_write m (unat (le_word s BPB_BkBootSec * bps)) s;
                          f = overwrite s 0 boot;
                          f = le_xdword f FSI_LeadSig 0x41615252;
                          f = le_xdword f FSI_StrucSig 0x61417272;
                          f = le_xdword f FSI_Free_Count ((t - 2 * sz) div ucast spc - 1);
                          f = le_xdword f FSI_Nxt_Free 3;
                          f = le_xdword f FSI_TrailSig 0xaa550000;
                          m = store_write m (unat (1 * bps)) f;
                          first = le_xdword (replicate (unat bps) 0) 0 (0x0fffff00 OR le_byte boot BPB_Media);
                          first = le_xdword first 4 (0x0ffffff8 OR 0x08000000 OR 0x04000000);
                          first = le_xdword first 8 0x0ffffff8;
                          m = write_fats bps 36 sz first m
                      in Inr (write_root bps 36 sz (ucast spc) m, 0)))"

text \<open>\<open>size\<close> is the size of the partition, \<open>boots\<close> the three boot sectors.\<close>

definition format :: "u8 list \<times> u8 list \<times> u8 list \<Rightarrow> int \<Rightarrow> geometry option \<Rightarrow> store \<Rightarrow> (store \<times> int) result" where
  "format boots sz disk m =
    (let (boot12, boot16, boot32) = boots
     in if 2 ^ 28 * 32 * 1024 < sz then Inr (m, - 1)
        else if sz \<le> 512 * 8400 then formatFat12 boot12 disk m
        else if sz < 512 * 1024 * 1024 then formatFat16 boot16 disk m
        else formatFat32 boot32 disk m)"

text \<open>Formatting the volume that is mounted; what \<open>format\<close> returns is not looked at.\<close>

definition fs_format :: "u8 list \<times> u8 list \<times> u8 list \<Rightarrow> int \<Rightarrow> geometry option \<Rightarrow> fatfs \<Rightarrow> fat_stream option
    \<Rightarrow> (fatfs \<times> fat_stream option) run" where
  "fs_format boots sz disk fs root =
    (if \<not> fs_mounted fs then Some (Inl (Thrown EALREADY))
     else obind (Some (dismount fs root)) (\<lambda>fs.
          obind (Some (format boots sz disk (fs_disk fs))) (\<lambda>(m, _). mount fs (Some m))))"

text \<open>Replacing the code in the boot sector, around the parameter block.\<close>

definition new_boot_code :: "u8 list \<Rightarrow> nat \<Rightarrow> u8 list \<Rightarrow> u8 list" where
  "new_boot_code boot k s = overwrite (overwrite s 0 (take 3 boot)) k (take (512 - k) (drop k boot))"

definition updateBootCode :: "u8 list \<times> u8 list \<times> u8 list \<Rightarrow> fatfs \<Rightarrow> fatfs \<times> int" where
  "updateBootCode boots fs =
    (let (boot12, boot16, boot32) = boots;
         put = (\<lambda>s. (fs\<lparr>fs_disk := store_write (fs_disk fs) 0 s\<rparr>, 0));
         s = store_read (fs_disk fs) 0 512
     in if isFat12 fs then put (new_boot_code boot12 (BS_FilSysType + 8) s)
        else if isFat16 fs then put (new_boot_code boot16 (BS_FilSysType + 8) s)
        else if isFat32 fs then put (new_boot_code boot32 (BS32_FilSysType + 8) s)
        else (fs, - 1))"

subsection \<open>What is on the disk afterwards\<close>

lemma write_sectors_at:
  assumes "length s = 512" "bps = 512" "\<forall>sec \<in> set secs. unat sec < 8388608"
  shows "write_sectors bps s secs m a = (if a div 512 \<in> unat ` set secs then s ! (a mod 512) else m a)"
  using assms(3)
proof (induction secs arbitrary: m)
  case (Cons sec secs)
  have "unat sec < 8388608" using Cons.prems by (rule bspec) simp
  have e: "unat (512 :: u32) = 512" by simp
  have "(2 :: nat) ^ 32 = 4294967296" by simp
  then have "unat sec * unat (512 :: u32) < 2 ^ 32" unfolding e using \<open>unat sec < 8388608\<close> by linarith
  from unat_mult_u32 [OF this] have u: "unat (sec * bps) = unat sec * 512" unfolding assms(2) e .
  have d: "k * 512 \<le> a \<and> a < k * 512 + 512 \<longleftrightarrow> a div 512 = k" for k
    using div_mult_mod_eq [of a 512] mod_less_divisor [of 512 a] div_nat_eqI [of k 512 a] by auto
  have "a - unat sec * 512 = a mod 512" if "a div 512 = unat sec"
    unfolding that [symmetric] by (rule minus_div_mult_eq_mod)
  then have "store_write m (unat (sec * bps)) s a = (if a div 512 = unat sec then s ! (a mod 512) else m a)"
    unfolding store_write_def assms(1) u d by simp
  then show ?case using Cons.IH [of "store_write m (unat (sec * bps)) s"] Cons.prems by (auto simp: write_sectors_def)
qed (simp add: write_sectors_def)

lemma write_root_at:
  assumes "bps = 512" "unat resvd + 2 * unat sz + unat n < 8388608"
  shows "write_root bps resvd sz n m a =
    (if a div 512 \<in> {unat resvd + 2 * unat sz..<unat resvd + 2 * unat sz + unat n} then 0 else m a)"
proof -
  have u: "unat (resvd + 2 * sz + of_nat i) = unat resvd + 2 * unat sz + i" if "i < unat n" for i
    using that assms(2) by (simp add: unat_word_ariths unat_of_nat)
  have "unat ` set (map (\<lambda>i. resvd + 2 * sz + of_nat i) [0..<unat n]) = {unat resvd + 2 * unat sz..<unat resvd + 2 * unat sz + unat n}"
  proof -
    have "unat ` set (map (\<lambda>i. resvd + 2 * sz + of_nat i) [0..<unat n]) = (\<lambda>i. unat resvd + 2 * unat sz + i) ` {0..<unat n}"
      unfolding set_map image_image set_upt using u by (intro image_cong) simp_all
    then show ?thesis using image_add_atLeastLessThan [of "unat resvd + 2 * unat sz" 0 "unat n"] by (simp add: add.commute)
  qed
  moreover have "\<forall>sec \<in> set (map (\<lambda>i. resvd + 2 * sz + of_nat i) [0..<unat n]). unat sec < 8388608"
    using u assms by auto
  ultimately show ?thesis
    using write_sectors_at [of "replicate (unat bps) 0" bps] assms(1) by (simp add: write_root_def)
qed


lemma write_fats_at:
  assumes "bps = 512" "length first = 512" "0 < unat sz" "unat resvd + 2 * unat sz < 8388608"
  shows "write_fats bps resvd sz first m a =
    (if a div 512 \<in> {unat resvd, unat resvd + unat sz} then first ! (a mod 512)
     else if a div 512 \<in> {unat resvd..<unat resvd + 2 * unat sz} then 0 else m a)"
proof -
  let ?rest = "concat (map (\<lambda>i. map (\<lambda>j. resvd + of_nat j * sz + of_nat i) [0..<2]) [1..<unat sz])"
  have u: "unat (resvd + of_nat j * sz + of_nat i) = unat resvd + j * unat sz + i" if "j < 2" "i < unat sz" for i j
  proof -
    have "j = 0 \<or> j = 1" using that(1) by auto
    then show ?thesis using that(2) assms(4) by (elim disjE) (simp_all add: unat_word_ariths unat_of_nat)
  qed
  have b: "unat bps = 512" using assms(1) by simp
  have heads: "map (\<lambda>j. resvd + of_nat j * sz) [0..<2] = [resvd, resvd + sz]" by (simp add: numeral_2_eq_2)
  have h: "unat (resvd + sz) = unat resvd + unat sz" using assms(4) by (intro unat_add_u32) simp
  have "unat ` set ?rest = {unat resvd + j * unat sz + i |i j. 1 \<le> i \<and> i < unat sz \<and> j < 2}"
    using u by (force simp: image_iff)
  also have "\<dots> = {unat resvd..<unat resvd + 2 * unat sz} - {unat resvd, unat resvd + unat sz}"
  proof (rule set_eqI)
    fix k
    have "\<exists>i j. k = unat resvd + j * unat sz + i \<and> 1 \<le> i \<and> i < unat sz \<and> j < 2"
      if "unat resvd < k" "k < unat resvd + 2 * unat sz" "k \<noteq> unat resvd + unat sz"
    proof (cases "k < unat resvd + unat sz")
      case True
      then show ?thesis using that by (intro exI [of _ "k - unat resvd"] exI [of _ 0]) auto
    next
      case False
      then show ?thesis using that by (intro exI [of _ "k - unat resvd - unat sz"] exI [of _ 1]) auto
    qed
    then show "k \<in> {unat resvd + j * unat sz + i |i j. 1 \<le> i \<and> i < unat sz \<and> j < 2}
      \<longleftrightarrow> k \<in> {unat resvd..<unat resvd + 2 * unat sz} - {unat resvd, unat resvd + unat sz}"
      by (auto simp: less_Suc_eq numeral_2_eq_2)
  qed
  finally have rest: "unat ` set ?rest = {unat resvd..<unat resvd + 2 * unat sz} - {unat resvd, unat resvd + unat sz}" .
  have lim: "\<forall>sec \<in> set ?rest. unat sec < 8388608" "\<forall>sec \<in> set [resvd, resvd + sz]. unat sec < 8388608"
  proof -
    have "unat sec < 8388608" if "sec \<in> set ?rest" for sec
    proof -
      have "unat sec \<in> unat ` set ?rest" using that by (rule imageI)
      then show ?thesis unfolding rest using assms(4) by simp
    qed
    then show "\<forall>sec \<in> set ?rest. unat sec < 8388608" by blast
    show "\<forall>sec \<in> set [resvd, resvd + sz]. unat sec < 8388608" using assms(4) h by simp
  qed
  define t where "t = a div 512"
  have z: "(replicate (unat bps) 0 :: u8 list) ! (a mod 512) = 0" using assms(1) by simp
  define m1 where "m1 = write_sectors bps first [resvd, resvd + sz] m"
  have 1: "m1 a = (if t \<in> {unat resvd, unat resvd + unat sz} then first ! (a mod 512) else m a)"
    using write_sectors_at [OF assms(2,1) lim(2)] by (simp add: m1_def t_def h)
  have "write_sectors bps (replicate (unat bps) 0) ?rest m1 a = (if t \<in> unat ` set ?rest then replicate (unat bps) 0 ! (a mod 512) else m1 a)"
    unfolding t_def by (rule write_sectors_at [OF _ assms(1) lim(1)]) (simp add: b)
  then have "write_fats bps resvd sz first m a = (if t \<in> unat ` set ?rest then 0 else m1 a)"
    unfolding write_fats_def heads m1_def z .
  then show ?thesis unfolding t_def [symmetric] rest 1 using assms(3) by simp
qed

text \<open>Fields of different widths that do not overlap.\<close>

lemma skip_fields [codec_simps]:
  "j + 1 \<le> i \<or> i + 2 \<le> j \<Longrightarrow> le_byte (le_xword p i v) j = le_byte p j"
  "j + 1 \<le> i \<or> i + 4 \<le> j \<Longrightarrow> le_byte (le_xdword p i v) j = le_byte p j"
  "j + 2 \<le> i \<or> i + 1 \<le> j \<Longrightarrow> le_word (le_xbyte p i v) j = le_word p j"
  "j + 2 \<le> i \<or> i + 4 \<le> j \<Longrightarrow> le_word (le_xdword p i v) j = le_word p j"
  "j + 4 \<le> i \<or> i + 1 \<le> j \<Longrightarrow> le_dword (le_xbyte p i v) j = le_dword p j"
  "j + 4 \<le> i \<or> i + 2 \<le> j \<Longrightarrow> le_dword (le_xword p i v) j = le_dword p j"
  by (auto simp: le_byte_def le_word_def le_dword_def codec_simps)

lemma bpb_read:
  fixes g :: geometry and spc :: u8 and resvd nf re n sz16 :: u32
  assumes "length s0 = 512"
  defines "s \<equiv> bpb_fields s0 g spc resvd nf re n sz16"
  shows "length s = 512" "le_word s BPB_BytsPerSec = take_bit 16 (g_bytesPerSector g)" "le_byte s BPB_SecPerClus = take_bit 8 (ucast spc)"
    "le_word s BPB_RsvdSecCnt = take_bit 16 resvd" "le_byte s BPB_NumFATs = take_bit 8 nf"
    "le_word s BPB_RootEntCnt = take_bit 16 re" "le_word s BPB_TotSec16 = (if drop_bit 16 n \<noteq> 0 then 0 else n)"
    "le_word s BPB_FATSz16 = take_bit 16 sz16" "le_dword s BPB_HiddSec = 0"
    "le_dword s BPB_TotSec32 = (if drop_bit 16 n \<noteq> 0 then n else 0)"
    "36 \<le> i \<Longrightarrow> s ! i = s0 ! i"
proof -
  have n: "take_bit 16 n = n" if "drop_bit 16 n = 0"
    using that bits_ident [of 16 n] by simp
  show "length s = 512" "le_word s BPB_BytsPerSec = take_bit 16 (g_bytesPerSector g)" "le_byte s BPB_SecPerClus = take_bit 8 (ucast spc)"
    "le_word s BPB_RsvdSecCnt = take_bit 16 resvd" "le_byte s BPB_NumFATs = take_bit 8 nf"
    "le_word s BPB_RootEntCnt = take_bit 16 re" "le_word s BPB_TotSec16 = (if drop_bit 16 n \<noteq> 0 then 0 else n)"
    "le_word s BPB_FATSz16 = take_bit 16 sz16" "le_dword s BPB_HiddSec = 0"
    "le_dword s BPB_TotSec32 = (if drop_bit 16 n \<noteq> 0 then n else 0)"
    "36 \<le> i \<Longrightarrow> s ! i = s0 ! i"
    using assms(1) n unfolding s_def bpb_fields_def Let_def by (simp_all add: codec_simps)
qed

subsection \<open>Mounting what a boot sector describes\<close>

text \<open>A volume of \<open>N\<close> sectors of 512 bytes: \<open>R\<close> reserved ones, two FATs of \<open>F\<close> sectors and a root
  directory of \<open>E\<close> entries before the clusters of \<open>spc\<close> sectors.\<close>

definition describes :: "u8 list \<Rightarrow> nat \<Rightarrow> nat \<Rightarrow> nat \<Rightarrow> nat \<Rightarrow> nat \<Rightarrow> bool" where
  "describes b spc R F E N \<longleftrightarrow> le_word b 510 = 0xaa55 \<and> le_word b BPB_BytsPerSec = 512 \<and> le_byte b BPB_SecPerClus = of_nat spc
     \<and> le_word b BPB_RsvdSecCnt = of_nat R \<and> le_byte b BPB_NumFATs = 2 \<and> le_word b BPB_RootEntCnt = of_nat E
     \<and> (if le_word b BPB_FATSz16 = 0 then le_dword b BPB_FATSz32 else le_word b BPB_FATSz16) = of_nat F
     \<and> (if le_word b BPB_TotSec16 = 0 then le_dword b BPB_TotSec32 else le_word b BPB_TotSec16) = of_nat N"

definition laid_out :: "fatfs \<Rightarrow> nat \<Rightarrow> nat \<Rightarrow> nat \<Rightarrow> nat \<Rightarrow> nat \<Rightarrow> bool" where
  "laid_out g spc R F D cc \<longleftrightarrow> unat (bytsPerSec g) = 512 \<and> unat (bytsPerClus g) = 512 * spc \<and> unat (fatSz g) = F
     \<and> unat (firstDataSector g) = D \<and> unat (countOfClusters g) = cc \<and> unat (le_word (fs_bpb g) BPB_RsvdSecCnt) = R
     \<and> unat (fs_bpb g ! BPB_NumFATs) = 2 \<and> unat (fs_bpb g ! BPB_SecPerClus) = spc"

lemma geometry_described:
  assumes "\<not> fs_mounted fs" "describes (store_read M 0 512) spc R F E N" "0 < spc" "spc < 256"
    and "E < 65536" "R < 65536" "D = R + 2 * F + (E * 32 + 511) div 512" "D \<le> N" "N < 8388608"
  shows "\<exists>g. mount_geometry fs M = Inr g \<and> fs_disk g = M \<and> fs_bpb g = store_read M 0 512 \<and> fs_mounted g
    \<and> laid_out g spc R F D ((N - D) div spc) \<and> (\<not> isFat32 g \<longrightarrow> unat (firstRootDirSector g) = R + 2 * F)"
proof -
  define b where "b = store_read M 0 512"
  note d = assms(2) [unfolded describes_def, folded b_def]
  have F: "F < 8388608" using assms(7-9) by linarith
  have u: "unat (of_nat k :: u32) = k" if "k < 8388608" for k using that by (intro unat_of_nat_u32) simp
  have us: "unat (of_nat spc :: u32) = spc" "unat (of_nat E :: u32) = E" "unat (of_nat R :: u32) = R" "unat (of_nat F :: u32) = F"
    "unat (of_nat N :: u32) = N" using assms F by (simp_all add: u)
  have roots: "(of_nat E * 32 + 511) div 512 = (of_nat ((E * 32 + 511) div 512) :: u32)"
    using assms(5) by (simp add: word_unat_eq_iff unat_div unat_word_ariths unat_of_nat)
  have first: "(of_nat R + 2 * of_nat F :: u32) + (of_nat E * 32 + 511) div 512 = of_nat D" using assms(7) unfolding roots by simp
  have secs: "unat (of_nat N - of_nat D :: u32) = N - D"
    using assms(8,9) us(5) u [of D] by (subst unat_sub) (simp_all add: word_le_nat_alt)
  have spc0: "(of_nat spc :: u32) \<noteq> 0" using us(1) assms(3) by (metis unat_0 less_irrefl)
  have bpc: "unat (512 * of_nat spc :: u32) = 512 * spc" using assms(4) us(1) by (subst unat_mult_u32) simp_all
  have cc: "unat ((of_nat N - of_nat D) div of_nat spc :: u32) = (N - D) div spc" by (simp add: unat_div secs us)
  have by8: "unat (b ! BPB_NumFATs) = 2" "unat (b ! BPB_SecPerClus) = spc"
  proof -
    have "unat (le_byte b BPB_NumFATs) = 2" "unat (le_byte b BPB_SecPerClus) = spc" using d us(1) by simp_all
    then show "unat (b ! BPB_NumFATs) = 2" "unat (b ! BPB_SecPerClus) = spc" by (simp_all add: le_byte_def unat_ucast_up)
  qed
  have D: "unat (of_nat D :: u32) = D" using assms(8,9) by (intro u) simp
  have root: "unat (of_nat R + 2 * of_nat F :: u32) = R + 2 * F"
  proof -
    have "(of_nat R + 2 * of_nat F :: u32) = of_nat (R + 2 * F)" by simp
    then show ?thesis using u [of "R + 2 * F"] assms(7-9) by (simp del: of_nat_add)
  qed
  show ?thesis
    using assms(1) d spc0 unfolding mount_geometry_def b_def [symmetric] Let_def
    by (auto simp: first laid_out_def us bpc cc D by8 u root isFat32_def)
qed

lemma laid_out_ok:
  assumes "laid_out g spc R F D cc" "R + 2 * F \<le> D" "0 < cc" "D + cc * spc < 8388608" "spc \<in> {1, 2, 4, 8, 16, 32, 64}"
    and "fat_rel g (cc + 1) + fat_width g \<le> F * 512"
  shows "fat_ok g" "vol_geo g" "fat_base g = R * 512" "fat_len g = F * 512" "data_base g = D * 512"
proof -
  have l: "fat_bps g = 512" "fat_bpc g = 512 * spc" using assms(1) by (simp_all add: laid_out_def fat_bps_def fat_bpc_def)
  show b: "fat_base g = R * 512" "fat_len g = F * 512" "data_base g = D * 512"
    using assms(1) l by (simp_all add: laid_out_def fat_base_def fat_len_def data_base_def)
  have s: "0 < spc" using assms(5) by auto
  then have "cc * 1 \<le> cc * spc" by (intro mult_le_mono2) simp
  then have cc: "cc < 8388608" using assms(4) by linarith
  have lim: "R * 512 + F * 512 < 2 ^ 32" using assms(2,4) by simp
  show "fat_ok g"
    using assms(1,6) l b lim cc by (auto simp: fat_ok_def laid_out_def word_less_nat_alt unat_gt_0)
  have "512 * spc \<in> set (map (\<lambda>k. 2 ^ k) [0..<24])" using assms(5) by (elim insertE emptyE) (simp_all add: upt_rec)
  moreover have "(512 :: nat) \<in> set (map (\<lambda>k. 2 ^ k) [0..<16])" by (simp add: upt_rec)
  moreover have "cc * (512 * spc) = 512 * (cc * spc)" by simp
  then have "D * 512 + cc * (512 * spc) < 2 ^ 32" using assms(4) by simp
  moreover have "0 < countOfClusters g" using assms(1,3) by (simp add: laid_out_def word_less_nat_alt)
  ultimately show "vol_geo g" using assms(1-3) l b s by (auto simp: vol_geo_def laid_out_def)
qed

lemma blank_entry:
  assumes "fat_ok g" "\<not> isEof g c" "\<forall>q. fat_rel g (unat c) \<le> q \<and> q < fat_len g \<longrightarrow> fs_disk g (fat_base g + q) = 0"
  shows "clusEntryVal g c = 0"
proof -
  have w: "fat_rel g (unat c) + fat_width g \<le> fat_len g" by (rule fat_rel_in [OF assms(1,2)])
  have z: "fat_byte g 0 (fat_rel g (unat c) + i) = 0" if "i < fat_width g" for i
    using assms(3) that w by (simp add: fat_byte_def)
  have "1 < fat_width g" "\<not> isFat12 g \<Longrightarrow> \<not> isFat16 g \<Longrightarrow> 3 < fat_width g" by (auto simp: fat_width_def isFat32_else)
  then show ?thesis
    using z [of 0] z [of 1] z [of 2] z [of 3] unfolding clusEntryVal_bytes [OF assms(1,2)]
    by (auto simp: le_word_def le_dword_def)
qed

lemma getGeometry_keeps [simp]:
  "g_bytesPerSector (getGeometry g) = g_bytesPerSector g" "g_diskSize (getGeometry g) = g_diskSize g"
  by (auto simp: getGeometry_def split: prod.splits)

lemma disk_sectors_nat: "g_bytesPerSector g = 512 \<Longrightarrow> g_diskSize g = 512 * int n \<Longrightarrow> disk_sectors g = of_nat n"
  by (simp add: disk_sectors_def)

lemma div_bounds:
  fixes a b q :: nat
  assumes "0 < b" "q = a div b"
  shows "b * q \<le> a \<and> a < b * q + b"
proof -
  have "b * q + a mod b = a" "a mod b < b" using assms by simp_all
  then show ?thesis by linarith
qed

text \<open>The size of the FAT is enough for the clusters that remain.\<close>

lemma fat_sizes:
  fixes t s F cc p v :: nat
  assumes "F = (t + 2 * s + (v - 1)) div v" "cc = (t - 2 * F) div s" "v = p * s + 2" "s \<in> {1, 2, 4, 8, 16}" "p \<in> {128, 256}" "100 * s \<le> t"
  shows "cc + 2 \<le> p * F" "2 * F \<le> t" "0 < F" "s * cc \<le> t - 2 * F" "t - 2 * F < s * cc + s" "v * F \<le> t + 2 * s + (v - 1)" "t + 2 * s \<le> v * F"
proof -
  have v: "0 < v" using assms(3) by simp
  have F: "v * F \<le> t + 2 * s + (v - 1)" "t + 2 * s + (v - 1) < v * F + v"
    using div_bounds [OF v assms(1)] by blast+
  have s: "0 < s" using assms(4) by auto
  have C: "s * cc \<le> t - 2 * F" "t - 2 * F < s * cc + s"
    using div_bounds [OF s assms(2)] by blast+
  show "v * F \<le> t + 2 * s + (v - 1)" "s * cc \<le> t - 2 * F" "t - 2 * F < s * cc + s" by (rule F C)+
  show "t + 2 * s \<le> v * F" using F(2) v by linarith
  show "2 * F \<le> t" "0 < F" "cc + 2 \<le> p * F"
    using assms(4-6) F C unfolding assms(3) by (elim insertE emptyE; simp; linarith)+
qed

lemma fat_size_nat:
  assumes "s \<le> 64" "t < 8388608" "p \<le> 256" "per = of_nat p"
  shows "fat_size per (of_nat s) (of_nat t) = of_nat ((t + 2 * s + (p * s + 2 - 1)) div (p * s + 2))"
proof -
  have u: "(ucast (of_nat s :: u8) :: u32) = of_nat s" using assms(1) by (simp add: word_unat_eq_iff unat_ucast_up unat_of_nat)
  have ps: "p * s \<le> 256 * 64" using assms(1,3) by (rule mult_le_mono [rotated])
  have v: "per * of_nat s + 2 = (of_nat (p * s + 2) :: u32)" by (simp add: assms(4))
  have a: "of_nat t + 2 * of_nat s + (of_nat (p * s + 2) - 1) = (of_nat (t + 2 * s + (p * s + 2 - 1)) :: u32)" by simp
  have "unat (of_nat (t + 2 * s + (p * s + 2 - 1)) div of_nat (p * s + 2) :: u32) = (t + 2 * s + (p * s + 2 - 1)) div (p * s + 2)"
  proof -
    have "unat (of_nat (t + 2 * s + (p * s + 2 - 1)) :: u32) = t + 2 * s + (p * s + 2 - 1)" "unat (of_nat (p * s + 2) :: u32) = p * s + 2"
      using ps assms(1,2) by (intro unat_of_nat_u32; simp)+
    then show ?thesis by (simp only: unat_div)
  qed
  moreover have "(t + 2 * s + (p * s + 2 - 1)) div (p * s + 2) < 2 ^ 32"
    using ps assms(1,2) by (intro le_less_trans [OF div_le_dividend]) simp
  ultimately show ?thesis unfolding fat_size_def u v a Let_def word_unat_eq_iff by (simp only: unat_of_nat_u32)
qed

lemma sint_small:
  assumes "unat (w :: u32) < 2147483648"
  shows "0 \<le> sint w"
proof -
  have "int (unat w) < 2147483648" using assms by linarith
  then have "uint w < 2147483648" by simp
  then have "signed_take_bit 31 (uint w) = uint w" 
    by (intro signed_take_bit_int_eq_self) (simp_all add: order_trans [of _ 0])
  then show ?thesis by (simp add: sint_uint)
qed

lemma fat_size_enough:
  fixes s F cc k :: nat
  assumes "cc = (t - 2 * F) div s" "cc + 2 \<le> k * F" "2 * F \<le> t" "t < 8388608" "0 < s" "s \<le> 64" "0 < k" "k \<le> 256"
  shows "0 \<le> sint (of_nat F - ((of_nat t - 2 * of_nat F) div ucast (of_nat s :: u8) + 2 + of_nat k - 1) div of_nat k :: u32)"
    "(of_nat t - 2 * of_nat F) div ucast (of_nat s :: u8) = (of_nat cc :: u32)"
proof -
  have us: "(ucast (of_nat s :: u8) :: u32) = of_nat s" using assms(6) by (simp add: word_unat_eq_iff unat_ucast_up unat_of_nat)
  have u: "unat (of_nat j :: u32) = j" if "j < 16777216" for j using that by (intro unat_of_nat_u32) simp
  have t: "of_nat t - 2 * of_nat F = (of_nat (t - 2 * F) :: u32)" using assms(3) by simp
  have cct: "cc \<le> t" unfolding assms(1) by (meson diff_le_self div_le_dividend le_trans)
  show q: "(of_nat t - 2 * of_nat F) div ucast (of_nat s :: u8) = (of_nat cc :: u32)"
  proof -
    have "unat (of_nat (t - 2 * F) :: u32) = t - 2 * F" "unat (of_nat s :: u32) = s" "unat (of_nat cc :: u32) = cc"
      using assms(4,6) cct by (auto intro!: u)
    then show ?thesis unfolding us t word_unat_eq_iff unat_div by (simp only: assms(1))
  qed
  have e: "of_nat cc + 2 + of_nat k - 1 = (of_nat (cc + 1 + k) :: u32)" by simp
  have r: "of_nat (cc + 1 + k) div of_nat k = (of_nat ((cc + 1 + k) div k) :: u32)"
  proof -
    have "(cc + 1 + k) div k < 16777216" using cct assms(4,8) by (intro le_less_trans [OF div_le_dividend]) simp
    moreover have "cc + 1 + k < 16777216" "k < 16777216" using cct assms(4,8) by simp_all
    ultimately show ?thesis unfolding word_unat_eq_iff unat_div by (simp only: u)
  qed
  have le: "(cc + 1 + k) div k \<le> F"
  proof -
    have "cc + 1 + k < Suc F * k" using assms(2) by (simp add: mult.commute)
    then have "(cc + 1 + k) div k < Suc F" by (simp only: div_less_iff_less_mult [OF assms(7)])
    then show ?thesis by simp
  qed
  have "unat (of_nat F - of_nat ((cc + 1 + k) div k) :: u32) < 16777216"
  proof -
    have "(of_nat F - of_nat ((cc + 1 + k) div k) :: u32) = of_nat (F - (cc + 1 + k) div k)" using le by simp
    moreover have "F - (cc + 1 + k) div k < 16777216" using assms(3,4) by linarith
    ultimately show ?thesis by (simp only: u)
  qed
  then have "0 \<le> sint (of_nat F - of_nat ((cc + 1 + k) div k) :: u32)"
    by (intro sint_small) simp
  then show "0 \<le> sint (of_nat F - ((of_nat t - 2 * of_nat F) div ucast (of_nat s :: u8) + 2 + of_nat k - 1) div of_nat k :: u32)"
    unfolding q e r .
qed

lemma sec_per_clus16:
  assumes "8400 < n" "n < 1048576"
  shows "\<exists>s. sec_per_clus DskTableFAT16 (of_nat n) = of_nat s
    \<and> (s = 2 \<and> n \<le> 32680 \<or> s = 4 \<and> 32680 < n \<and> n \<le> 262144 \<or> s = 8 \<and> 262144 < n \<and> n \<le> 524288 \<or> s = 16 \<and> 524288 < n)"
proof -
  have w: "(x :: u32) < of_nat n \<longleftrightarrow> unat x < n" for x using assms(2) by (simp add: word_less_nat_alt unat_of_nat)
  show ?thesis unfolding sec_per_clus_def DskTableFAT16_def using assms by (simp add: w)
qed

lemma sec_per_clus32:
  assumes "1048576 \<le> n" "n < 8388608"
  shows "sec_per_clus DskTableFAT32 (of_nat n) = 8"
proof -
  have w: "(x :: u32) < of_nat n \<longleftrightarrow> unat x < n" for x using assms(2) by (simp add: word_less_nat_alt unat_of_nat)
  show ?thesis unfolding sec_per_clus_def DskTableFAT32_def using assms by (simp add: w)
qed

subsection \<open>The three kinds of volume\<close>

lemma format_image:
  fixes m :: store
  assumes "length first = 512" "0 < R" "0 < F" "R + 2 * F + k < 8388608"
  defines "M \<equiv> write_root 512 (of_nat R) (of_nat F) (of_nat k) (write_fats 512 (of_nat R) (of_nat F) first m)"
  shows "a < R * 512 \<Longrightarrow> M a = m a"
    "q < F * 512 \<Longrightarrow> M (R * 512 + q) = (if q < 512 then first ! q else 0)"
    "(R + 2 * F) * 512 \<le> a \<Longrightarrow> a < (R + 2 * F + k) * 512 \<Longrightarrow> M a = 0"
proof -
  have u: "unat (of_nat R :: u32) = R" "unat (of_nat F :: u32) = F" "unat (of_nat k :: u32) = k"
    using assms(4) by (auto intro!: unat_of_nat_u32)
  have M: "M a = (if a div 512 \<in> {R + 2 * F..<R + 2 * F + k} then 0
      else if a div 512 \<in> {R, R + F} then first ! (a mod 512)
      else if a div 512 \<in> {R..<R + 2 * F} then 0 else m a)" for a
    unfolding M_def using assms(1-4) by (subst write_root_at; (subst write_fats_at)?) (simp_all add: u)
  show "M a = m a" if "a < R * 512"
  proof -
    have "a div 512 < R" using that by (simp add: div_less_iff_less_mult)
    then show ?thesis by (simp add: M)
  qed
  show "M (R * 512 + q) = (if q < 512 then first ! q else 0)" if "q < F * 512"
  proof -
    have d: "(R * 512 + q) div 512 = R + q div 512" "(R * 512 + q) mod 512 = q mod 512" by simp_all
    have "q div 512 < F" using that by (simp add: div_less_iff_less_mult)
    moreover have "q div 512 = 0 \<longleftrightarrow> q < 512" by (simp add: div_eq_0_iff)
    ultimately show ?thesis unfolding M d by auto
  qed
  show "M a = 0" if "(R + 2 * F) * 512 \<le> a" "a < (R + 2 * F + k) * 512"
  proof -
    have "R + 2 * F \<le> a div 512" "a div 512 < R + 2 * F + k"
      using that by (simp_all add: div_less_iff_less_mult less_eq_div_iff_mult_less_eq)
    then show ?thesis by (simp add: M)
  qed
qed

text \<open>What a formatted volume is: its boot sector describes a layout, all entries of the table
  behind the first \<open>used\<close> bytes are 0, and so are the bytes of the root directory behind the FATs: the
  \<open>E\<close> entries of FAT12 and FAT16, or the cluster 2 of FAT32, where \<open>E\<close> is 0.\<close>

definition formatted :: "store \<Rightarrow> nat \<Rightarrow> nat \<Rightarrow> nat \<Rightarrow> nat \<Rightarrow> nat \<Rightarrow> nat \<Rightarrow> bool" where
  "formatted M spc R F E N used \<longleftrightarrow> describes (store_read M 0 512) spc R F E N
     \<and> (\<forall>q. used \<le> q \<and> q < F * 512 \<longrightarrow> M (R * 512 + q) = 0)
     \<and> (\<forall>q < if E = 0 then 512 * spc else 32 * E. M ((R + 2 * F) * 512 + q) = 0)"

text \<open>Where the root directory lies.\<close>

definition root_bytes :: "fatfs \<Rightarrow> nat set" where
  "root_bytes fs =
    (if isFat32 fs then cluster_bytes fs (le_dword (fs_bpb fs) BPB_RootClus)
     else {unat (firstRootDirSector fs) * fat_bps fs
           ..< unat (firstRootDirSector fs) * fat_bps fs + 32 * unat (le_word (fs_bpb fs) BPB_RootEntCnt)})"

definition boot_ok :: "u8 list \<Rightarrow> bool" where
  "boot_ok b \<longleftrightarrow> length b = 512 \<and> le_word b 510 = 0xaa55"

lemma boot_sector:
  assumes "boot_ok boot"
  shows "overwrite (replicate 512 0) 0 boot = boot"
  using assms by (simp add: overwrite_def boot_ok_def)

lemma describes_fields:
  fixes spc :: nat
  assumes "boot_ok boot" "g_bytesPerSector g = 512" "spc < 256" "R < 65536" "E < 65536" "F < 65536" "0 < F" "N < 8388608" "0 < N"
  defines "s \<equiv> le_xdword (bpb_fields boot g (of_nat spc) (of_nat R) 2 (of_nat E) (of_nat N) (of_nat F)) BS_VolID 0"
  shows "describes s spc R F E N" "length s = 512"
proof -
  have t: "take_bit 16 (of_nat k) = (of_nat k :: u32)" if "k < 65536" for k
    using that by (intro take_bit_word_small) (simp add: unat_of_nat)
  have t8: "take_bit 8 (ucast (of_nat spc :: u8)) = (of_nat spc :: u32)"
    using assms(3) by (simp add: word_unat_eq_iff unat_ucast_up unat_of_nat unsigned_take_bit_eq take_bit_nat_eq_self)
  note b = bpb_read [where ?s0.0 = boot and g = g and spc = "of_nat spc" and resvd = "of_nat R" and nf = 2 and re = "of_nat E"
      and n = "of_nat N" and ?sz16.0 = "of_nat F"]
  have l: "length boot = 512" using assms(1) by (simp add: boot_ok_def)
  have F0: "(of_nat F :: u32) \<noteq> 0" using assms(6,7) by (simp add: word_unat_eq_iff unat_of_nat)
  have N0: "(of_nat N :: u32) \<noteq> 0" using assms(8,9) by (simp add: word_unat_eq_iff unat_of_nat)
  have sig: "le_word s 510 = 0xaa55"
  proof -
    have "le_word s 510 = le_word (bpb_fields boot g (of_nat spc) (of_nat R) 2 (of_nat E) (of_nat N) (of_nat F)) 510"
      by (simp add: s_def codec_simps)
    also have "\<dots> = le_word boot 510" using b(11) l by (simp add: le_word_def)
    finally show ?thesis using assms(1) by (simp add: boot_ok_def)
  qed
  show "length s = 512" using b(1) l by (simp add: s_def)
  show "describes s spc R F E N"
    using sig assms(2) b(2-10) [OF l] t t8 F0 N0 assms(4-6) unfolding describes_def s_def
    by (simp add: codec_simps)
qed

lemma formattedI:
  assumes "length s = 512" "describes s spc R F E N" "length first = 512" "\<forall>i. used \<le> i \<and> i < 512 \<longrightarrow> first ! i = 0"
    and "0 < R" "0 < F" "R + 2 * F + k < 8388608" "\<forall>a < 512. m a = s ! a" "(if E = 0 then 512 * spc else 32 * E) \<le> 512 * k"
  defines "M \<equiv> write_root 512 (of_nat R) (of_nat F) (of_nat k) (write_fats 512 (of_nat R) (of_nat F) first m)"
  shows "formatted M spc R F E N used" "q < 512 \<Longrightarrow> M (R * 512 + q) = first ! q"
proof -
  note im = format_image [OF assms(3,5-7), of _ m, folded M_def]
  have "M a = s ! a" if "a < 512" for a using im(1) [of a] that assms(5,8) by simp
  then have "store_read M 0 512 = s" using assms(1) by (intro nth_equalityI) simp_all
  moreover have "M ((R + 2 * F) * 512 + q) = 0" if "q < (if E = 0 then 512 * spc else 32 * E)" for q
    using that assms(9) by (intro im(3)) (simp_all add: algebra_simps)
  ultimately show "formatted M spc R F E N used" using assms(2,4) im(2) by (auto simp: formatted_def)
  show "M (R * 512 + q) = first ! q" if "q < 512" using im(2) [of q] that assms(6) by simp
qed

lemma format12_run:
  assumes "boot_ok boot" "g_bytesPerSector d = 512" "g_diskSize d = 512 * 2880"
  obtains M where "formatFat12 boot (Some d) m = Inr (M, 0)" "formatted M 1 1 9 224 2880 3"
proof -
  let ?g = "getGeometry d"
  let ?s = "le_xdword (bpb_fields boot ?g 1 1 2 224 2880 9) BS_VolID 0"
  let ?first = "(replicate 512 0)[0 := boot ! BPB_Media, 1 := 0x8f, 2 := 0xff]"
  let ?M = "write_root 512 1 9 14 (write_fats 512 1 9 ?first (store_write m 0 ?s))"
  have n: "disk_sectors ?g = 2880" by (simp add: disk_sectors_def assms)
  have s: "describes ?s 1 1 9 224 2880" "length ?s = 512"
    using describes_fields [OF assms(1), of ?g 1 1 224 9 2880] assms(2) by simp_all
  have "formatFat12 boot (Some d) m = Inr (?M, 0)"
    unfolding formatFat12_def Let_def using n assms boot_sector [OF assms(1)] by simp
  moreover have "formatted ?M 1 1 9 224 2880 3"
    using formattedI(1) [OF s(2,1), of ?first 3 14 "store_write m 0 ?s"] s(2) by (simp add: store_write_def nth_list_update)
  ultimately show ?thesis by (rule that)
qed

lemma format16_run:
  assumes "boot_ok boot" "g_bytesPerSector d = 512" "g_diskSize d = 512 * int n" "8400 < n" "n < 1048576"
  obtains M s F where "formatFat16 boot (Some d) m = Inr (M, 0)" "formatted M s 1 F 512 n 4" "s \<in> {2, 4, 8, 16}" "33 + 2 * F \<le> n"
    "4085 \<le> (n - (33 + 2 * F)) div s" "(n - (33 + 2 * F)) div s < 65525" "(n - (33 + 2 * F)) div s + 2 \<le> 256 * F" "0 < F"
    "M (512 + 2) = 0xf8" "M (512 + 3) = 0xff"
proof -
  let ?g = "getGeometry d"
  obtain s :: nat where s: "sec_per_clus DskTableFAT16 (of_nat n) = of_nat s"
    "s = 2 \<and> n \<le> 32680 \<or> s = 4 \<and> 32680 < n \<and> n \<le> 262144 \<or> s = 8 \<and> 262144 < n \<and> n \<le> 524288 \<or> s = 16 \<and> 524288 < n"
    using sec_per_clus16 [OF assms(4,5)] by blast
  define t where "t = n - 33"
  define F where "F = (t + 2 * s + (256 * s + 2 - 1)) div (256 * s + 2)"
  define cc where "cc = (t - 2 * F) div s"
  have sc: "s \<in> {1, 2, 4, 8, 16}" "0 < s" "s \<le> 64" "100 * s \<le> t" "s \<in> {2, 4, 8, 16}" using s(2) assms(4) by (auto simp: t_def)
  note num = fat_sizes [OF F_def cc_def refl sc(1) _ sc(4), simplified]
  have bnd: "4085 \<le> cc" "cc < 65525" "F < 65536"
    using s(2) num assms(4,5) unfolding t_def by (elim disjE conjE; simp; linarith)+
  have tn: "t < 8388608" "n = t + 33" using assms(4,5) by (simp_all add: t_def)
  have n: "disk_sectors ?g = of_nat n" using disk_sectors_nat [of ?g n] assms(2,3) by simp
  have t32: "of_nat n - (1 + (512 * 32 + (512 - 1)) div 512) = (of_nat t :: u32)" using tn(2) by simp
  have sz: "fat_size 256 (of_nat s) (of_nat t) = of_nat F"
    unfolding F_def using sc(3) tn(1) by (intro fat_size_nat) simp_all
  have "cc + 2 \<le> 256 * F" using num(1) by simp
  note en = fat_size_enough [OF cc_def this num(2) tn(1) sc(2,3), simplified]
  let ?s = "le_xdword (bpb_fields boot ?g (of_nat s) 1 2 512 (of_nat n) (of_nat F)) BS_VolID 0"
  let ?first = "le_xword (le_xword (replicate 512 0) 0 (0xff00 OR le_byte boot BPB_Media)) 2 (0xfff8 OR 0x8000 OR 0x4000)"
  let ?M = "write_root 512 1 (of_nat F) 32 (write_fats 512 1 (of_nat F) ?first (store_write m 0 ?s))"
  have d: "describes ?s s 1 F 512 n" "length ?s = 512"
    using describes_fields [OF assms(1), of ?g s 1 512 F n] assms(2,5) sc(3) bnd(3) num(3) assms(4) by simp_all
  have s0: "(of_nat s :: u8) \<noteq> 0" using sc(5) by auto
  have run: "formatFat16 boot (Some d) m = Inr (?M, 0)"
    unfolding formatFat16_def Let_def using n s(1) sz t32 en(1) s0 assms(2) boot_sector [OF assms(1)] by simp
  have first: "length ?first = 512" "\<forall>i. 4 \<le> i \<and> i < 512 \<longrightarrow> ?first ! i = 0" by (auto simp: le_xword_def)
  have small: "1 + 2 * F + 32 < 8388608" "(0 :: nat) < 1" using num(2) tn(2) assms(5) by simp_all
  have put: "\<forall>a < 512. store_write m 0 ?s a = ?s ! a" using d(2) by (simp add: store_write_def)
  have room: "(if (512 :: nat) = 0 then 512 * s else 32 * 512) \<le> 512 * 32" by simp
  note img = formattedI [OF d(2,1) first small(2) num(3) small(1) put room, unfolded of_nat_1 of_nat_numeral mult_1]
  show ?thesis
  proof (rule that [OF run img(1) sc(5) _ _ _ _ num(3)])
    have "n - (33 + 2 * F) = t - 2 * F" by (simp add: t_def)
    then show "4085 \<le> (n - (33 + 2 * F)) div s" "(n - (33 + 2 * F)) div s < 65525" "(n - (33 + 2 * F)) div s + 2 \<le> 256 * F"
      using bnd num(1) by (simp_all add: cc_def)
    show "33 + 2 * F \<le> n" using num(2) tn(2) by simp
    show "?M (512 + 2) = 0xf8" "?M (512 + 3) = 0xff" using img(2) [of 2] img(2) [of 3] by (simp_all add: le_xword_def)
  qed
qed

lemma describes_fields32:
  assumes "boot_ok boot" "g_bytesPerSector g = 512" "F < 65536" "0 < F" "N < 8388608" "65536 \<le> N"
  defines "s \<equiv> le_xdword (le_xdword (bpb_fields boot g 8 36 2 0 (of_nat N) 0) BPB_FATSz32 (of_nat F)) BS32_VolID 0"
  shows "describes s 8 36 F 0 N" "length s = 512" "le_dword s BPB_RootClus = le_dword boot BPB_RootClus"
    "le_word s BPB_FSInfo = le_word boot BPB_FSInfo" "le_word s BPB_BkBootSec = le_word boot BPB_BkBootSec"
proof -
  note b = bpb_read [where ?s0.0 = boot and g = g and spc = 8 and resvd = 36 and nf = 2 and re = 0 and n = "of_nat N" and ?sz16.0 = 0]
  have l: "length boot = 512" using assms(1) by (simp add: boot_ok_def)
  have other: "le_word s i = le_word boot i" if "40 \<le> i \<and> i + 2 \<le> 67 \<or> 71 \<le> i" for i
    using b(11) [OF l, of i] b(11) [OF l, of "i + 1"] that unfolding s_def by (auto simp: le_word_def codec_simps)
  show "le_dword s BPB_RootClus = le_dword boot BPB_RootClus"
    using b(11) [OF l] unfolding s_def by (simp add: le_dword_def codec_simps)
  show "le_word s BPB_FSInfo = le_word boot BPB_FSInfo" "le_word s BPB_BkBootSec = le_word boot BPB_BkBootSec" by (rule other; simp)+
  have sig: "le_word s 510 = 0xaa55" using other [of 510] assms(1) by (simp add: boot_ok_def)
  have n: "drop_bit 16 (of_nat N :: u32) \<noteq> 0"
  proof
    assume "drop_bit 16 (of_nat N :: u32) = 0"
    then have "unat (drop_bit 16 (of_nat N :: u32)) = 0" by simp
    then have "unat (of_nat N :: u32) div 65536 = 0" by (simp add: drop_bit_eq_div unat_div)
    moreover have "unat (of_nat N :: u32) = N" using assms(5) by (intro unat_of_nat_u32) simp
    ultimately show False using assms(6) by simp
  qed
  show "length s = 512" using b(1) l by (simp add: s_def)
  show "describes s 8 36 F 0 N"
    using sig assms(2) b(2-10) [OF l] b(1) l n unfolding describes_def s_def by (simp add: codec_simps)
qed

lemma byte_masks:
  fixes b :: u8
  shows "drop_bit 24 (ucast b :: u32) = 0" "(ucast b :: u32) AND 0xf0000000 = 0" "push_bit 8 (ucast b :: u32) AND 0xf0000000 = 0"
    "push_bit 16 (ucast b :: u32) AND 0xf0000000 = 0"
proof -
  have m: "(0xf0000000 :: u32) = push_bit 28 0xf" by simp
  have b: "\<not> bit b n" if "8 \<le> n" for n using that bit_imp_le_length [of b n] by auto
  show "drop_bit 24 (ucast b :: u32) = 0" by (rule bit_word_eqI) (auto simp: bit_simps b)
  show "(ucast b :: u32) AND 0xf0000000 = 0" "push_bit 8 (ucast b :: u32) AND 0xf0000000 = 0"
    "push_bit 16 (ucast b :: u32) AND 0xf0000000 = 0"
    unfolding m by (rule bit_word_eqI; auto simp: bit_simps b simp del: push_bit_numeral)+
qed

lemma store_readI: "(\<And>i. i < n \<Longrightarrow> M (a + (k + i)) = f i) \<Longrightarrow> store_read M (a + k) n = map f [0..<n]"
  by (intro nth_equalityI) (simp_all add: add.assoc)

lemma format32_run:
  assumes "boot_ok boot" "g_bytesPerSector d = 512" "g_diskSize d = 512 * int n" "1048576 \<le> n" "n < 8388608"
    and "le_dword boot BPB_RootClus = 2" "le_word boot BPB_FSInfo = 1" "2 \<le> unat (le_word boot BPB_BkBootSec)" "unat (le_word boot BPB_BkBootSec) < 36"
  obtains M F f where "formatFat32 boot (Some d) m = Inr (M, 0)" "formatted M 8 36 F 0 n 12" "36 + 2 * F \<le> n"
    "65525 \<le> (n - (36 + 2 * F)) div 8" "(n - (36 + 2 * F)) div 8 + 2 \<le> 128 * F" "0 < F"
    "M (36 * 512 + 3) = 0x0f" "store_read M (36 * 512 + 4) 8 = [0xf8, 0xff, 0xff, 0x0f, 0xf8, 0xff, 0xff, 0x0f]"
    "store_read M 512 512 = f" "fsi_valid f" "le_dword f FSI_Nxt_Free = 3"
    "le_dword f FSI_Free_Count = of_nat ((n - (36 + 2 * F)) div 8 - 1)"
    "le_dword (store_read M 0 512) BPB_RootClus = 2" "le_word (store_read M 0 512) BPB_FSInfo = 1"
proof -
  let ?g = "getGeometry d"
  define t where "t = n - 36"
  define F where "F = (t + 2 * 8 + (128 * 8 + 2 - 1)) div (128 * 8 + 2)"
  define cc where "cc = (t - 2 * F) div 8"
  have tn: "t < 8388608" "n = t + 36" "1048000 \<le> t" "100 * 8 \<le> t" using assms(4,5) by (simp_all add: t_def)
  note num = fat_sizes [OF F_def cc_def refl _ _ tn(4), simplified]
  have bnd: "65525 \<le> cc" "F < 65536" using num(2,4,5,6) tn(1,3) by linarith+
  have n: "disk_sectors ?g = of_nat n" using disk_sectors_nat [of ?g n] assms(2,3) by simp
  have t32: "of_nat n - (36 + (0 * 32 + (512 - 1)) div 512) = (of_nat t :: u32)" using tn(2) by simp
  have sz: "fat_size 128 (of_nat 8) (of_nat t) = of_nat F"
    unfolding F_def using tn(1) by (intro fat_size_nat) simp_all
  have "cc + 2 \<le> 128 * F" using num(1) by simp
  note en = fat_size_enough [OF cc_def this num(2) tn(1), simplified]
  let ?s = "le_xdword (le_xdword (bpb_fields boot ?g 8 36 2 0 (of_nat n) 0) BPB_FATSz32 (of_nat F)) BS32_VolID 0"
  let ?f = "le_xdword (le_xdword (le_xdword (le_xdword (le_xdword boot FSI_LeadSig 0x41615252) FSI_StrucSig 0x61417272)
     FSI_Free_Count (of_nat cc - 1)) FSI_Nxt_Free 3) FSI_TrailSig 0xaa550000"
  let ?first = "le_xdword (le_xdword (le_xdword (replicate 512 0) 0 (0x0fffff00 OR le_byte boot BPB_Media)) 4
     (0x0ffffff8 OR 0x08000000 OR 0x04000000)) 8 0x0ffffff8"
  let ?bk = "unat (le_word ?s BPB_BkBootSec * 512)"
  let ?m = "store_write (store_write (store_write m 0 ?s) ?bk ?s) 512 ?f"
  let ?M = "write_root 512 36 (of_nat F) 8 (write_fats 512 36 (of_nat F) ?first ?m)"
  have l: "length boot = 512" using assms(1) by (simp add: boot_ok_def)
  note d = describes_fields32 [OF assms(1), of ?g F n, simplified getGeometry_keeps, OF assms(2) bnd(2) num(3) assms(5)]
  have n16: "65536 \<le> n" using assms(4) by simp
  note d = d [OF n16]
  have bk: "?bk = 512 * unat (le_word boot BPB_BkBootSec)" unfolding d(5) using assms(9) by (subst unat_mult_u32) simp_all
  have run: "formatFat32 boot (Some d) m = Inr (?M, 0)"
    unfolding formatFat32_def Let_def
    using n sec_per_clus32 [OF assms(4,5)] sz t32 en assms(2) boot_sector [OF assms(1)] l d(2)
    by (simp add: overwrite_def)
  have first: "length ?first = 512" "\<forall>i. 12 \<le> i \<and> i < 512 \<longrightarrow> ?first ! i = 0" by (auto simp: le_xdword_def)
  have small: "36 + 2 * F + 8 < 8388608" "(0 :: nat) < 36" using bnd(2) by simp_all
  have lf: "length ?f = 512" using l by simp
  have put: "\<forall>a < 512. ?m a = ?s ! a" using d(2) bk assms(8) by (auto simp: store_write_def)
  have room: "(if (0 :: nat) = 0 then 512 * 8 else 32 * 0) \<le> (512 * 8 :: nat)" by simp
  note img = formattedI [OF d(2,1) first small(2) num(3) small(1) put room, unfolded of_nat_numeral]
  note im = format_image [OF first(1) small(2) num(3) small(1), of _ ?m, unfolded of_nat_numeral]
  have boots: "store_read ?M 0 512 = ?s"
    using im(1) put d(2) by (intro nth_equalityI) simp_all
  have f: "store_read ?M 512 512 = ?f"
    using im(1) lf by (intro nth_equalityI) (simp_all add: store_write_def)
  show ?thesis
  proof (rule that [OF run img(1) _ _ _ num(3) _ _ f])
    show "?M (36 * 512 + 3) = 0x0f" using img(2) [of 3] by (simp add: le_xdword_def le_byte_def byte_masks(1))
    have "n - (36 + 2 * F) = t - 2 * F" by (simp add: t_def)
    then show "65525 \<le> (n - (36 + 2 * F)) div 8" "(n - (36 + 2 * F)) div 8 + 2 \<le> 128 * F"
      "le_dword ?f FSI_Free_Count = of_nat ((n - (36 + 2 * F)) div 8 - 1)"
      using bnd num(1) lf by (simp_all add: cc_def codec_simps of_nat_diff)
    show "36 + 2 * F \<le> n" using num(2) tn(2) by simp
    show "fsi_valid ?f" "le_dword ?f FSI_Nxt_Free = 3" using l by (simp_all add: fsi_valid_def codec_simps)
    show "le_dword (store_read ?M 0 512) BPB_RootClus = 2" "le_word (store_read ?M 0 512) BPB_FSInfo = 1"
      unfolding boots using d(3,4) assms(6,7) by simp_all
    show "store_read ?M (36 * 512 + 4) 8 = [0xf8, 0xff, 0xff, 0x0f, 0xf8, 0xff, 0xff, 0x0f]"
    proof -
      have "?M (36 * 512 + (4 + i)) = ?first ! (4 + i)" if "i < 8" for i using img(2) [of "4 + i"] that by simp
      then have "store_read ?M (36 * 512 + 4) 8 = map (\<lambda>i. ?first ! (4 + i)) [0..<8]" by (rule store_readI)
      then show ?thesis by (simp add: upt_rec le_xdword_def)
    qed
  qed
qed

subsection \<open>A formatted volume mounts\<close>

definition root_clear :: "fatfs \<Rightarrow> store \<Rightarrow> bool" where
  "root_clear g M \<longleftrightarrow> root_bytes g \<noteq> {} \<and> (\<forall>a \<in> root_bytes g. M a = 0 \<and> \<not> in_fat g a)"

lemma formatted_geometry:
  assumes "\<not> fs_mounted fs" "formatted M spc R F E N used" "spc \<in> {1, 2, 4, 8, 16, 32, 64}" "E < 65536" "R < 65536"
    and "D = R + 2 * F + (E * 32 + 511) div 512" "D \<le> N" "N < 8388608" "cc = (N - D) div spc" "0 < cc"
    and "if cc < 4085 then cc + 1 + (cc + 1) div 2 + 2 \<le> F * 512 \<and> used \<le> 3
      else if cc < 65525 then (cc + 2) * 2 \<le> F * 512 \<and> used \<le> 4 else (cc + 2) * 4 \<le> F * 512 \<and> used \<le> 12"
    and "if cc < 65525 then 0 < E else E = 0 \<and> le_dword (store_read M 0 512) BPB_RootClus = 2"
  obtains g where "mount_geometry fs M = Inr g" "fs_disk g = M" "fs_bpb g = store_read M 0 512" "laid_out g spc R F D cc" "fat_ok g" "vol_geo g"
    "fat_base g = R * 512" "isFat12 g \<longleftrightarrow> cc < 4085" "isFat32 g \<longleftrightarrow> 65525 \<le> cc"
    "\<And>c. (if isFat32 g then 3 else 2) \<le> unat c \<Longrightarrow> \<not> isEof g c \<Longrightarrow> clusEntryVal g c = 0"
    "root_clear g M"
proof -
  have f: "describes (store_read M 0 512) spc R F E N" "\<forall>q. used \<le> q \<and> q < F * 512 \<longrightarrow> M (R * 512 + q) = 0"
    using assms(2) by (simp_all add: formatted_def)
  have f3: "M ((R + 2 * F) * 512 + q) = 0" if "q < (if E = 0 then 512 * spc else 32 * E)" for q
    using assms(2) that by (simp add: formatted_def)
  have spc: "0 < spc" "spc < 256" using assms(3) by auto
  obtain g where g: "mount_geometry fs M = Inr g" "fs_disk g = M" "fs_bpb g = store_read M 0 512" "laid_out g spc R F D cc"
      "\<not> isFat32 g \<Longrightarrow> unat (firstRootDirSector g) = R + 2 * F"
    using geometry_described [OF assms(1) f(1) spc assms(4-8)] assms(9) by blast
  have cc: "unat (countOfClusters g) = cc" using g(4) by (simp add: laid_out_def)
  have t: "isFat12 g \<longleftrightarrow> cc < 4085" "isFat16 g \<longleftrightarrow> 4085 \<le> cc \<and> cc < 65525" "isFat32 g \<longleftrightarrow> 65525 \<le> cc"
    by (simp_all add: isFat12_def isFat16_def isFat32_def word_less_nat_alt word_le_nat_alt cc)
  have "cc * spc \<le> N - D" using assms(9) by simp
  then have top: "D + cc * spc < 8388608" using assms(7,8) by simp
  have fits: "fat_rel g (cc + 1) + fat_width g \<le> F * 512"
    using assms(11) t by (auto simp: fat_rel_def fat_width_def split: if_splits)
  have "R + 2 * F \<le> D" using assms(6) by simp
  note ok = laid_out_ok [OF g(4) this assms(10) top assms(3) fits]
  have "clusEntryVal g c = 0" if c: "(if isFat32 g then 3 else 2) \<le> unat c" "\<not> isEof g c" for c
  proof (rule blank_entry [OF ok(1) c(2)], intro allI impI)
    fix q
    assume q: "fat_rel g (unat c) \<le> q \<and> q < fat_len g"
    have "used \<le> fat_rel g (if isFat32 g then 3 else 2)" using assms(11) t by (auto simp: fat_rel_def)
    also have "\<dots> \<le> q" using fat_rel_mono [OF c(1), of g] q by simp
    finally show "fs_disk g (fat_base g + q) = 0" using f(2) q ok(3,4) g(2) by simp
  qed
  moreover have "root_clear g M"
  proof -
    define k where "k = (if E = 0 then 512 * spc else 32 * E)"
    have "le_word (fs_bpb g) BPB_RootEntCnt = of_nat E" using f(1) g(3) by (simp add: describes_def)
    then have E: "unat (le_word (fs_bpb g) BPB_RootEntCnt) = E" using assms(4) by (simp add: unat_of_nat_u32)
    have b: "fat_bps g = 512" "fat_bpc g = 512 * spc" using g(4) by (simp_all add: laid_out_def fat_bps_def fat_bpc_def)
    have rb: "root_bytes g = {(R + 2 * F) * 512 ..< (R + 2 * F) * 512 + k}"
    proof (cases "isFat32 g")
      case True
      then have "E = 0" "le_dword (fs_bpb g) BPB_RootClus = 2" using assms(12) t(3) g(3) by simp_all
      then show ?thesis
        using True ok(5) b assms(6) by (simp add: root_bytes_def k_def cluster_bytes_def cluster_pos_def)
    next
      case False
      then have "0 < E" using assms(12) t(3) by simp
      then show ?thesis using False g(5) E b by (simp add: root_bytes_def k_def)
    qed
    have n2: "unat (fs_bpb g ! BPB_NumFATs) = 2" using g(4) by (simp add: laid_out_def)
    have "M a = 0 \<and> \<not> in_fat g a" if "a \<in> root_bytes g" for a
    proof -
      have a: "(R + 2 * F) * 512 \<le> a" "a < (R + 2 * F) * 512 + k" using that rb by auto
      then have "M a = 0" using f3 [of "a - (R + 2 * F) * 512"] by (simp add: k_def)
      moreover have "\<not> in_fat g a" using a(1) ok(3,4) n2 by (simp add: in_fat_def)
      ultimately show ?thesis ..
    qed
    moreover have "0 < k" using spc(1) by (simp add: k_def)
    ultimately show ?thesis by (simp add: root_clear_def rb)
  qed
  ultimately show ?thesis using that g(1-4) ok(1-3) t by blast
qed

text \<open>The mounted volume has its root where the formatted one has it, and all bytes of it are 0.\<close>

lemma root_stays:
  assumes "root_clear g M" "fs_disk g = M" "\<forall>a. \<not> in_fat g a \<longrightarrow> fs_disk fs' a = fs_disk g a"
    and "fs' = g\<lparr>fs_disk := fs_disk fs', fs_fsi := fs_fsi fs', nxtFree := nxtFree fs', freeCount := freeCount fs'\<rparr>"
  shows "root_bytes fs' \<noteq> {} \<and> (\<forall>a \<in> root_bytes fs'. fs_disk fs' a = 0)"
proof -
  have "root_bytes (g\<lparr>fs_disk := m, fs_fsi := f, nxtFree := x, freeCount := y\<rparr>) = root_bytes g" for m f x y
    by (simp add: root_bytes_def cluster_bytes_def cluster_pos_def data_base_def fat_bpc_def fat_bps_def isFat32_def)
  then have "root_bytes fs' = root_bytes g" by (subst assms(4)) simp
  then show ?thesis using assms(1-3) by (auto simp: root_clear_def)
qed

lemma blank_mount:
  assumes "mount_geometry fs M = Inr g" "fat_ok g" "vol_geo g" "\<not> isFat32 g" "\<And>c. 2 \<le> unat c \<Longrightarrow> \<not> isEof g c \<Longrightarrow> clusEntryVal g c = 0"
    and "fs_disk g = M" "root_clear g M"
  obtains fs' root where "mount fs (Some M) = ok (fs', Some root)" "vol_ok fs'" "isFat12 fs' = isFat12 g" "\<not> isFat32 fs'"
    "fat_free fs' = {c. valid_cluster fs' c}" "unat (freeCount fs') = card (fat_free fs')" "fst_root root" "fstClus root = 0"
    "root_bytes fs' \<noteq> {} \<and> (\<forall>a \<in> root_bytes fs'. fs_disk fs' a = 0)"
proof -
  have vol: "vol_ok g" using assms(2-4) by (simp add: vol_ok_def fat_table_ok_def fat_clear_def)
  have "isEof g 0xffffffff" using assms(2) by (auto simp: isEof_nat fat_ok_def word_less_nat_alt)
  then have re: "recounts g" using assms(4) by (simp add: recounts_def mount_hints_def)
  show ?thesis
  proof (rule mount_run [OF assms(1) vol])
    fix fs' root
    assume m: "mount fs (Some M) = ok (fs', Some root)" "vol_ok fs'" "\<forall>n. n \<noteq> 1 \<longrightarrow> fat_map fs' n = fat_map g n"
      "freeCount fs' = (if recounts g then of_nat (card (fat_free g)) else freeCount (mount_hints g))"
      "fs' = g\<lparr>fs_disk := fs_disk fs', fs_fsi := fs_fsi fs', nxtFree := nxtFree fs', freeCount := freeCount fs'\<rparr>"
      "fst_root root" "fstClus root = (if isFat32 g then le_dword (fs_bpb g) BPB_RootClus else 0)"
      "\<forall>a. \<not> in_fat g a \<longrightarrow> fs_disk fs' a = fs_disk g a"
    have "countOfClusters fs' = countOfClusters g" by (subst m(5)) simp
    then have t: "isFat12 fs' = isFat12 g" "isFat32 fs' = isFat32 g" "isEof fs' = isEof g"
      by (simp_all add: isFat12_def isFat32_def isEof_def fun_eq_iff)
    have free: "fat_free fs' = fat_free g" by (rule fat_free_cong [OF m(3)])
    have "fat_free g = {c. valid_cluster g c}"
      using assms(5) by (auto simp: fat_free_def valid_cluster_def fat_map_Some word_le_nat_alt)
    then show ?thesis
      using that [OF m(1,2) t(1)] t(2,3) assms(4) m(4,6,7) root_stays [OF assms(7,6) m(8,5)] re free card_fat_free(1) [OF vol] by (simp add: valid_cluster_def)
  qed
qed

lemma unat_less_3: "unat (c :: u32) < 3 \<Longrightarrow> c = 0 \<or> c = 1 \<or> c = 2"
  by (auto simp: word_unat_eq_iff)

lemma mount32:
  assumes "mount_geometry fs M = Inr g" "fs_disk g = M" "fat_ok g" "vol_geo g" "isFat32 g" "fat_base g = 36 * 512" "unat (countOfClusters g) = cc"
    and "\<And>c. 3 \<le> unat c \<Longrightarrow> \<not> isEof g c \<Longrightarrow> clusEntryVal g c = 0" "M (36 * 512 + 3) = 0x0f"
    and "store_read M (36 * 512 + 4) 8 = [0xf8, 0xff, 0xff, 0x0f, 0xf8, 0xff, 0xff, 0x0f]"
    and "store_read M 512 512 = f" "fsi_valid f" "le_dword f FSI_Nxt_Free = 3" "le_dword f FSI_Free_Count = of_nat (cc - 1)"
    and "bytsPerSec g = 512" "le_dword (fs_bpb g) BPB_RootClus = 2" "le_word (fs_bpb g) BPB_FSInfo = 1" "65525 \<le> cc" "root_clear g M"
  obtains fs' root where "mount fs (Some M) = ok (fs', Some root)" "vol_ok fs'" "isFat32 fs'"
    "fat_free fs' = {c. valid_cluster fs' c \<and> c \<noteq> 2}" "unat (freeCount fs') = card (fat_free fs')" "fst_root root" "fstClus root = 2"
    "root_bytes fs' \<noteq> {} \<and> (\<forall>a \<in> root_bytes fs'. fs_disk fs' a = 0)" "cluster_chain fs' [2]"
proof -
  have cc: "cc < 0x0ffffff5" using assms(3,7) by (simp add: fat_ok_def word_less_nat_alt)
  have eof: "isEof g c \<longleftrightarrow> cc + 1 < unat c" for c using assms(3,7) by (simp add: isEof_nat fat_ok_def)
  have small: "\<not> isEof g 0" "\<not> isEof g 1" "\<not> isEof g 2" "\<not> isEof g 3" using assms(18) by (simp_all add: eof)
  have t: "\<not> isFat12 g" "\<not> isFat16 g" using fat_types [of g] assms(5) by auto
  have by4: "M (36 * 512 + 4 + i) = [0xf8, 0xff, 0xff, 0x0f, 0xf8, 0xff, 0xff, 0x0f] ! i" if "i < 8" for i
  proof -
    have "M (36 * 512 + 4 + i) = store_read M (36 * 512 + 4) 8 ! i" using that by simp
    then show ?thesis unfolding assms(10) .
  qed
  have e: "clusEntryVal g n = le_dword [M (36 * 512 + 4 * unat n), M (36 * 512 + (4 * unat n + 1)), M (36 * 512 + (4 * unat n + 2)),
      M (36 * 512 + (4 * unat n + 3))] 0" if "\<not> isEof g n" for n
    using clusEntryVal_bytes [OF assms(3) that] t by (simp add: fat_byte_def assms(2,6) fat_rel_def algebra_simps)
  have e12: "clusEntryVal g 1 = 0x0ffffff8" "clusEntryVal g 2 = 0x0ffffff8"
    using e [OF small(2)] e [OF small(3)] by4 [of 0] by4 [of 1] by4 [of 2] by4 [of 3] by4 [of 4] by4 [of 5] by4 [of 6] by4 [of 7]
    by (simp_all add: le_dword_def)
  have e0: "clusEntryVal g 0 AND 0xf0000000 = 0"
    using e [OF small(1)] assms(9) byte_masks(2-4) by (simp add: le_dword_def bit.conj_disj_distrib2)
  have "clusEntryVal g n AND 0xf0000000 = 0" if "\<not> isEof g n" for n
  proof (cases "unat n < 3")
    case True
    then show ?thesis using unat_less_3 [OF True] e0 e12 by auto
  next
    case False
    then show ?thesis using assms(8) that by simp
  qed
  then have vol: "vol_ok g" using assms(3,4) by (simp add: vol_ok_def fat_table_ok_def fat_clear_def)
  define x :: u32 where "x = of_nat (cc - 1)"
  have hints: "nxtFree (mount_hints g) = 3" "freeCount (mount_hints g) = x"
    using assms(2,5,11-15,17) by (simp_all add: mount_hints_def fsi_position_def x_def)
  have ucc: "unat x = cc - 1" unfolding x_def using cc by (intro unat_of_nat_u32) simp
  have re: "\<not> recounts g"
    using small(4) e12 t by (simp add: recounts_def hints isClean_def eof ucc)
  have free: "fat_free g = {c. valid_cluster g c \<and> c \<noteq> 2}"
  proof -
    have "3 \<le> unat c" if "valid_cluster g c" "c \<noteq> 2" for c
    proof (rule ccontr)
      assume "\<not> 3 \<le> unat c"
      then have "c = 0 \<or> c = 1" using unat_less_3 [of c] that(2) by simp
      then show False using that(1) by (auto simp: valid_cluster_def word_le_nat_alt)
    qed
    moreover have "clusEntryVal g 2 \<noteq> 0" using e12 by simp
    ultimately show ?thesis using assms(8) by (auto simp: fat_free_def valid_cluster_def fat_map_Some)
  qed
  have card: "card (fat_free g) = cc - 1"
  proof -
    have "unat ` fat_free g = {3..<cc + 2}"
    proof (rule set_eqI)
      fix k
      have "k \<in> unat ` fat_free g" if "3 \<le> k" "k < cc + 2"
      proof (rule image_eqI)
        have u: "unat (of_nat k :: u32) = k" using that cc by (intro unat_of_nat_u32) simp
        then show "k = unat (of_nat k :: u32)" ..
        show "of_nat k \<in> fat_free g" unfolding free using that u by (auto simp: valid_cluster_nat [OF vol] assms(7) word_unat_eq_iff)
      qed
      moreover have "3 \<le> unat c \<and> unat c < cc + 2" if "c \<in> fat_free g" for c
        using that unat_less_3 [of c] by (force simp: free valid_cluster_nat [OF vol] assms(7))
      ultimately show "k \<in> unat ` fat_free g \<longleftrightarrow> k \<in> {3..<cc + 2}" by auto
    qed
    then have "card (unat ` fat_free g) = cc - 1" by simp
    moreover have "card (unat ` fat_free g) = card (fat_free g)" by (intro card_image) (simp add: inj_on_def word_unat_eq_iff)
    ultimately show ?thesis by simp
  qed
  show ?thesis
  proof (rule mount_run [OF assms(1) vol])
    fix fs' root
    assume m: "mount fs (Some M) = ok (fs', Some root)" "vol_ok fs'" "\<forall>n. n \<noteq> 1 \<longrightarrow> fat_map fs' n = fat_map g n"
      "freeCount fs' = (if recounts g then of_nat (card (fat_free g)) else freeCount (mount_hints g))"
      "fs' = g\<lparr>fs_disk := fs_disk fs', fs_fsi := fs_fsi fs', nxtFree := nxtFree fs', freeCount := freeCount fs'\<rparr>"
      "fst_root root" "fstClus root = (if isFat32 g then le_dword (fs_bpb g) BPB_RootClus else 0)"
      "\<forall>a. \<not> in_fat g a \<longrightarrow> fs_disk fs' a = fs_disk g a"
    have "countOfClusters fs' = countOfClusters g" by (subst m(5)) simp
    then have t: "isFat32 fs' = isFat32 g" "isEof fs' = isEof g" by (simp_all add: isFat32_def isEof_def fun_eq_iff)
    have c2: "valid_cluster fs' 2" using t(2) small(3) by (simp add: valid_cluster_def)
    have "fat_map fs' 2 = fat_map g 2" using m(3) by simp
    also have "\<dots> = Some 0x0ffffff8" using small(3) e12(2) by (simp add: fat_map_Some)
    finally have ch: "cluster_chain fs' [2]"
      using c2 cc by (simp add: cluster_chain_def t(2) eof)
    have "fat_free fs' = fat_free g" by (rule fat_free_cong [OF m(3)])
    then show ?thesis
      using that [OF m(1,2)] ch root_stays [OF assms(19,2) m(8,5)] t assms(5,16) m(4,6,7) re free card hints ucc by (simp add: valid_cluster_def)
  qed
qed

text \<open>Disks that \<^verbatim>\<open>format\<close> accepts: 1.44 MB floppies, and those of more than 8400 and less than
  \<open>2 ^ 23\<close> sectors. The boot sectors carry their signature, and the one for FAT32 names cluster 2
  for the root and sector 1 for the free space.\<close>

definition formattable :: "u8 list \<times> u8 list \<times> u8 list \<Rightarrow> geometry \<Rightarrow> nat \<Rightarrow> bool" where
  "formattable boots d n \<longleftrightarrow>
     (let (b12, b16, b32) = boots
      in boot_ok b12 \<and> boot_ok b16 \<and> boot_ok b32 \<and> le_dword b32 BPB_RootClus = 2 \<and> le_word b32 BPB_FSInfo = 1
         \<and> 2 \<le> unat (le_word b32 BPB_BkBootSec) \<and> unat (le_word b32 BPB_BkBootSec) < 36)
     \<and> g_bytesPerSector d = 512 \<and> g_diskSize d = 512 * int n \<and> (n = 2880 \<or> 8400 < n \<and> n < 8388608)"

lemma format12_mount:
  assumes "boot_ok boot" "g_bytesPerSector d = 512" "g_diskSize d = 512 * 2880" "\<not> fs_mounted fs"
  obtains M fs' root where "formatFat12 boot (Some d) m = Inr (M, 0)" "mount fs (Some M) = ok (fs', Some root)" "vol_ok fs'"
    "isFat12 fs'" "\<not> isFat32 fs'" "fat_free fs' = {c. valid_cluster fs' c}" "unat (freeCount fs') = card (fat_free fs')"
    "fst_root root" "fstClus root = 0" "root_bytes fs' \<noteq> {} \<and> (\<forall>a \<in> root_bytes fs'. fs_disk fs' a = 0)"
proof -
  obtain M where M: "formatFat12 boot (Some d) m = Inr (M, 0)" "formatted M 1 1 9 224 2880 3"
    using format12_run [OF assms(1-3)] by blast
  show ?thesis
  proof (rule formatted_geometry [OF assms(4) M(2), of 33 2847])
    fix g
    assume g: "mount_geometry fs M = Inr g" "fat_ok g" "vol_geo g" "isFat12 g \<longleftrightarrow> 2847 < (4085 :: nat)" "isFat32 g \<longleftrightarrow> 65525 \<le> (2847 :: nat)"
      "\<And>c. (if isFat32 g then 3 else 2) \<le> unat c \<Longrightarrow> \<not> isEof g c \<Longrightarrow> clusEntryVal g c = 0" "fs_disk g = M" "root_clear g M"
    have t: "isFat12 g" "\<not> isFat32 g" using g(4,5) by simp_all
    show ?thesis
    proof (rule blank_mount [OF g(1-3) t(2) _ g(7,8)])
      show "clusEntryVal g c = 0" if "2 \<le> unat c" "\<not> isEof g c" for c using g(6) that t by simp
    qed (rule that [OF M(1)], (assumption | simp only: t simp_thms)+)
  qed simp_all
qed

lemma format16_mount:
  assumes "boot_ok boot" "g_bytesPerSector d = 512" "g_diskSize d = 512 * int n" "8400 < n" "n < 1048576" "\<not> fs_mounted fs"
  obtains M fs' root where "formatFat16 boot (Some d) m = Inr (M, 0)" "mount fs (Some M) = ok (fs', Some root)" "vol_ok fs'"
    "\<not> isFat12 fs'" "\<not> isFat32 fs'" "fat_free fs' = {c. valid_cluster fs' c}" "unat (freeCount fs') = card (fat_free fs')"
    "fst_root root" "fstClus root = 0" "root_bytes fs' \<noteq> {} \<and> (\<forall>a \<in> root_bytes fs'. fs_disk fs' a = 0)"
proof (rule format16_run [OF assms(1-5), of m])
  fix M F and s :: nat
  assume M: "formatFat16 boot (Some d) m = Inr (M, 0)" "formatted M s 1 F 512 n 4" "s \<in> {2, 4, 8, 16}" "33 + 2 * F \<le> n"
    "4085 \<le> (n - (33 + 2 * F)) div s" "(n - (33 + 2 * F)) div s < 65525" "(n - (33 + 2 * F)) div s + 2 \<le> 256 * F"
  define cc where "cc = (n - (33 + 2 * F)) div s"
  show ?thesis
  proof (rule formatted_geometry [OF assms(6) M(2), of "33 + 2 * F" cc])
    show "s \<in> {1, 2, 4, 8, 16, 32, 64}" using M(3) by auto
    show "if cc < 4085 then cc + 1 + (cc + 1) div 2 + 2 \<le> F * 512 \<and> (4 :: nat) \<le> 3
      else if cc < 65525 then (cc + 2) * 2 \<le> F * 512 \<and> (4 :: nat) \<le> 4 else (cc + 2) * 4 \<le> F * 512 \<and> (4 :: nat) \<le> 12"
      using M(5-7) by (simp add: cc_def)
    show "cc = (n - (33 + 2 * F)) div s" "0 < cc" using M(5) by (simp_all add: cc_def)
    show "if cc < 65525 then 0 < (512 :: nat) else (512 :: nat) = 0 \<and> le_dword (store_read M 0 512) BPB_RootClus = 2"
      using M(6) by (simp add: cc_def)
    fix g
    assume g: "mount_geometry fs M = Inr g" "fat_ok g" "vol_geo g" "isFat12 g \<longleftrightarrow> cc < 4085" "isFat32 g \<longleftrightarrow> 65525 \<le> cc"
      "\<And>c. (if isFat32 g then 3 else 2) \<le> unat c \<Longrightarrow> \<not> isEof g c \<Longrightarrow> clusEntryVal g c = 0" "fs_disk g = M" "root_clear g M"
    have t: "\<not> isFat12 g" "\<not> isFat32 g" using g(4,5) M(5,6) by (simp_all add: cc_def)
    show ?thesis
    proof (rule blank_mount [OF g(1-3) t(2) _ g(7,8)])
      show "clusEntryVal g c = 0" if "2 \<le> unat c" "\<not> isEof g c" for c using g(6) that t by simp
    qed (rule that [OF M(1)], (assumption | simp only: t simp_thms)+)
  qed (use M(4) assms(5) in simp_all)
qed

lemma format32_mount:
  assumes "boot_ok boot" "g_bytesPerSector d = 512" "g_diskSize d = 512 * int n" "1048576 \<le> n" "n < 8388608"
    and "le_dword boot BPB_RootClus = 2" "le_word boot BPB_FSInfo = 1" "2 \<le> unat (le_word boot BPB_BkBootSec)" "unat (le_word boot BPB_BkBootSec) < 36"
    and "\<not> fs_mounted fs"
  obtains M fs' root where "formatFat32 boot (Some d) m = Inr (M, 0)" "mount fs (Some M) = ok (fs', Some root)" "vol_ok fs'"
    "isFat32 fs'" "fat_free fs' = {c. valid_cluster fs' c \<and> c \<noteq> 2}" "unat (freeCount fs') = card (fat_free fs')"
    "fst_root root" "fstClus root = 2" "root_bytes fs' \<noteq> {} \<and> (\<forall>a \<in> root_bytes fs'. fs_disk fs' a = 0)" "cluster_chain fs' [2]"
proof (rule format32_run [OF assms(1-9), of m])
  fix M F f
  assume M: "formatFat32 boot (Some d) m = Inr (M, 0)" "formatted M 8 36 F 0 n 12" "36 + 2 * F \<le> n"
    "65525 \<le> (n - (36 + 2 * F)) div 8" "(n - (36 + 2 * F)) div 8 + 2 \<le> 128 * F"
    "M (36 * 512 + 3) = 0x0f" "store_read M (36 * 512 + 4) 8 = [0xf8, 0xff, 0xff, 0x0f, 0xf8, 0xff, 0xff, 0x0f]"
    "store_read M 512 512 = f" "fsi_valid f" "le_dword f FSI_Nxt_Free = 3"
    "le_dword f FSI_Free_Count = of_nat ((n - (36 + 2 * F)) div 8 - 1)"
    "le_dword (store_read M 0 512) BPB_RootClus = 2" "le_word (store_read M 0 512) BPB_FSInfo = 1"
  define cc where "cc = (n - (36 + 2 * F)) div 8"
  show ?thesis
  proof (rule formatted_geometry [OF assms(10) M(2), of "36 + 2 * F" cc])
    show "if cc < 4085 then cc + 1 + (cc + 1) div 2 + 2 \<le> F * 512 \<and> (12 :: nat) \<le> 3
      else if cc < 65525 then (cc + 2) * 2 \<le> F * 512 \<and> (12 :: nat) \<le> 4 else (cc + 2) * 4 \<le> F * 512 \<and> (12 :: nat) \<le> 12"
      using M(4,5) by (simp add: cc_def)
    show "cc = (n - (36 + 2 * F)) div 8" "0 < cc" using M(4) by (simp_all add: cc_def)
    show "if cc < 65525 then 0 < (0 :: nat) else (0 :: nat) = 0 \<and> le_dword (store_read M 0 512) BPB_RootClus = 2"
      using M(4,12) by (simp add: cc_def)
    fix g
    assume g: "mount_geometry fs M = Inr g" "fs_disk g = M" "fs_bpb g = store_read M 0 512" "laid_out g 8 36 F (36 + 2 * F) cc" "fat_ok g" "vol_geo g"
      "fat_base g = 36 * 512" "isFat32 g \<longleftrightarrow> 65525 \<le> cc"
      "\<And>c. (if isFat32 g then 3 else 2) \<le> unat c \<Longrightarrow> \<not> isEof g c \<Longrightarrow> clusEntryVal g c = 0" "root_clear g M"
    have c: "65525 \<le> cc" using M(4) by (simp add: cc_def)
    have l: "unat (countOfClusters g) = cc" "bytsPerSec g = 512" using g(4) by (simp_all add: laid_out_def word_unat_eq_iff)
    have "isFat32 g" using g(8) c by simp
    show ?thesis
    proof (rule mount32 [OF g(1,2,5,6) \<open>isFat32 g\<close> g(7) l(1) _ M(6-10) M(11) [folded cc_def] l(2) _ _ c g(10)])
      show "clusEntryVal g c = 0" if "3 \<le> unat c" "\<not> isEof g c" for c using g(9) that \<open>isFat32 g\<close> by simp
      show "le_dword (fs_bpb g) BPB_RootClus = 2" "le_word (fs_bpb g) BPB_FSInfo = 1" using M(12,13) g(3) by simp_all
    qed (rule that [OF M(1)])
  qed (use M(3) assms(5) in simp_all)
qed

text \<open>A boot sector for all three kinds, and a disk of 1 GB.\<close>

definition ex_sector :: "u8 list" where
  "ex_sector = (replicate 512 0)[44 := 2, 48 := 1, 50 := 6, 510 := 0x55, 511 := 0xaa]"

definition ex_geo :: geometry where
  "ex_geo = \<lparr>g_heads = 16, g_cylinders = 2080, g_sectorsPerTrack = 63, g_bytesPerSector = 512, g_diskSize = 512 * 2097152\<rparr>"

lemma format_fresh:
  assumes "formattable boots d n" "\<not> fs_mounted fs"
  shows "\<exists>M fs' root. format boots (512 * int n) (Some d) m = Inr (M, 0) \<and> mount fs (Some M) = ok (fs', Some root) \<and> vol_ok fs'
    \<and> (isFat12 fs' \<longleftrightarrow> n = 2880) \<and> (isFat32 fs' \<longleftrightarrow> 1048576 \<le> n)
    \<and> fat_free fs' = {c. valid_cluster fs' c \<and> \<not> (isFat32 fs' \<and> c = 2)}
    \<and> unat (freeCount fs') = card (fat_free fs') \<and> fst_root root \<and> fstClus root = (if isFat32 fs' then 2 else 0)
    \<and> root_bytes fs' \<noteq> {} \<and> (\<forall>a \<in> root_bytes fs'. fs_disk fs' a = 0) \<and> (isFat32 fs' \<longrightarrow> cluster_chain fs' [2])"
proof -
  obtain b12 b16 b32 where b: "boots = (b12, b16, b32)" by (cases boots)
  note f = assms(1) [unfolded formattable_def b, simplified]
  consider "n = 2880" | "8400 < n" "n < 1048576" | "1048576 \<le> n" "n < 8388608" using f by linarith
  then show ?thesis
  proof cases
    case 1
    have e: "format boots (512 * int n) (Some d) m = formatFat12 b12 (Some d) m" using 1 by (simp add: format_def b)
    show ?thesis
    proof (rule format12_mount [of b12 d fs m])
      fix M fs' root
      assume "formatFat12 b12 (Some d) m = Inr (M, 0)" "mount fs (Some M) = ok (fs', Some root)" "vol_ok fs'"
        "isFat12 fs'" "\<not> isFat32 fs'" "fat_free fs' = {c. valid_cluster fs' c}" "unat (freeCount fs') = card (fat_free fs')"
        "fst_root root" "fstClus root = 0" "root_bytes fs' \<noteq> {} \<and> (\<forall>a \<in> root_bytes fs'. fs_disk fs' a = 0)"
      then show ?thesis
        using 1 e by (intro exI [of _ M] exI [of _ fs'] exI [of _ root]) simp
    qed (use f 1 assms(2) in simp_all)
  next
    case 2
    have e: "format boots (512 * int n) (Some d) m = formatFat16 b16 (Some d) m" using 2 by (simp add: format_def b)
    show ?thesis
    proof (rule format16_mount [of b16 d n fs m])
      fix M fs' root
      assume "formatFat16 b16 (Some d) m = Inr (M, 0)" "mount fs (Some M) = ok (fs', Some root)" "vol_ok fs'"
        "\<not> isFat12 fs'" "\<not> isFat32 fs'" "fat_free fs' = {c. valid_cluster fs' c}" "unat (freeCount fs') = card (fat_free fs')"
        "fst_root root" "fstClus root = 0" "root_bytes fs' \<noteq> {} \<and> (\<forall>a \<in> root_bytes fs'. fs_disk fs' a = 0)"
      then show ?thesis
        using 2 e by (intro exI [of _ M] exI [of _ fs'] exI [of _ root]) simp
    qed (use f 2 assms(2) in simp_all)
  next
    case 3
    have e: "format boots (512 * int n) (Some d) m = formatFat32 b32 (Some d) m" using 3 by (simp add: format_def b)
    show ?thesis
    proof (rule format32_mount [of b32 d n fs m])
      fix M fs' root
      assume m: "formatFat32 b32 (Some d) m = Inr (M, 0)" "mount fs (Some M) = ok (fs', Some root)" "vol_ok fs'"
        "isFat32 fs'" "fat_free fs' = {c. valid_cluster fs' c \<and> c \<noteq> 2}" "unat (freeCount fs') = card (fat_free fs')"
        "fst_root root" "fstClus root = 2" "root_bytes fs' \<noteq> {} \<and> (\<forall>a \<in> root_bytes fs'. fs_disk fs' a = 0)" "cluster_chain fs' [2]"
      have "\<not> isFat12 fs'" using m(4) fat_types(3) by blast
      then show ?thesis
        using 3 m e by (intro exI [of _ M] exI [of _ fs'] exI [of _ root]) simp
    qed (use f 3 assms(2) in simp_all)
  qed
qed

text \<open>So does the volume of a file system that formats it while it is mounted.\<close>

lemma fs_format_fresh:
  assumes "formattable boots d n" "mounted fs"
  shows "\<exists>fs' root'. fs_format boots (512 * int n) (Some d) fs (Some root) = ok (fs', Some root') \<and> vol_ok fs'
    \<and> fat_free fs' = {c. valid_cluster fs' c \<and> \<not> (isFat32 fs' \<and> c = 2)} \<and> unat (freeCount fs') = card (fat_free fs')"
proof -
  have m: "fs_mounted fs" using assms(2) geometry_mounted by (auto simp: mounted_def)
  obtain fs1 where d: "dismount fs (Some root) = Inr fs1" using dismount_run [OF assms(2) m] by metis
  then have "\<not> fs_mounted fs1" using m by (auto simp: dismount_def andThen_def split: sum.splits)
  then show ?thesis using format_fresh [OF assms(1), of fs1 "fs_disk fs1"] m d by (auto simp: fs_format_def)
qed

text \<open>C8: A disk that \<^verbatim>\<open>format\<close> has formatted mounts as a volume in order, of the type that goes with
  its size: every cluster is free, but for the root directory's of FAT32, and \<^verbatim>\<open>freeCount\<close> is the number
  of them, counted or taken from the FSInfo sector that \<^verbatim>\<open>format\<close> wrote. The root directory, the area behind
  the FATs or the chain of cluster 2 alone, is empty: whatever the disk held before, its bytes are all 0.\<close>

theorem format_then_mount:
  assumes "formattable boots d n" "\<not> fs_mounted fs"
  shows "\<exists>M fs' root. format boots (512 * int n) (Some d) m = Inr (M, 0) \<and> mount fs (Some M) = ok (fs', Some root) \<and> vol_ok fs'
    \<and> (isFat12 fs' \<longleftrightarrow> n = 2880) \<and> (isFat32 fs' \<longleftrightarrow> 1048576 \<le> n)
    \<and> fat_free fs' = {c. valid_cluster fs' c \<and> \<not> (isFat32 fs' \<and> c = 2)}
    \<and> unat (freeCount fs') = card (fat_free fs') \<and> fst_root root \<and> fstClus root = (if isFat32 fs' then 2 else 0)
    \<and> root_bytes fs' \<noteq> {} \<and> (\<forall>a \<in> root_bytes fs'. fs_disk fs' a = 0) \<and> (isFat32 fs' \<longrightarrow> cluster_chain fs' [2])"
  by (rule format_fresh [OF assms])

theorem format_then_mount_witness:
  "\<exists>M fs' root. format (ex_sector, ex_sector, ex_sector) (512 * 2097152) (Some ex_geo) (\<lambda>a. 0xff) = Inr (M, 0)
    \<and> mount (ex12\<lparr>fs_mounted := False\<rparr>) (Some M) = ok (fs', Some root) \<and> vol_ok fs' \<and> isFat32 fs'
    \<and> unat (freeCount fs') = card (fat_free fs') \<and> fstClus root = 2
    \<and> root_bytes fs' \<noteq> {} \<and> (\<forall>a \<in> root_bytes fs'. fs_disk fs' a = 0)"
proof -
  have "formattable (ex_sector, ex_sector, ex_sector) ex_geo 2097152"
    by (simp add: formattable_def boot_ok_def ex_sector_def ex_geo_def le_word_def le_dword_def)
  then show ?thesis
    using format_then_mount [of "(ex_sector, ex_sector, ex_sector)" ex_geo 2097152 "ex12\<lparr>fs_mounted := False\<rparr>" "\<lambda>a. 0xff"]
    by auto
qed

end
