(* ===== verification/FatCheck.thy ===== *)
theory FatCheck
  imports FatDir
begin

text \<open>
  The consistency check of a FAT volume (\<^verbatim>\<open>os/fs/fat/fatCheck.cpp\<close>). It follows the clusters of every
  file below the root and counts the references to each in an array of bytes. Reports are left
  out. The streams that are open already are the parameter \<open>nodes\<close>, as for \<^verbatim>\<open>lookup\<close>.
\<close>

subsection \<open>The check\<close>

definition rounded :: "fatfs \<Rightarrow> u32 \<Rightarrow> u32" where
  "rounded fs sz = (sz + bytsPerClus fs - 1) AND NOT (bytsPerClus fs - 1)"

text \<open>The clusters of one file: the references counted, and the length of the chain, none where
  \<^verbatim>\<open>check\<close> returns false.\<close>

partial_function (option) check_chain :: "fatfs \<Rightarrow> u32 \<Rightarrow> u8 list \<Rightarrow> u64 \<Rightarrow> u32 \<Rightarrow> (u8 list \<times> u64 option) option" where
  "check_chain fs sz refs chainLen clus =
    (if isEof fs clus then Some (refs, Some chainLen)
     else if clus < 2 \<or> isBadCluster fs clus \<or> countOfClusters fs + 2 \<le> clus then Some (refs, None)
     else let refs = refs[unat clus := refs ! unat clus + 1]
          in if 2 \<le> refs ! unat clus then Some (refs, None)
             else let chainLen = chainLen + ucast (bytsPerClus fs);
                      clus = clusEntryVal fs clus
                  in if ucast (rounded fs sz) < chainLen then Some (refs, Some chainLen)
                     else check_chain fs sz refs chainLen clus)"

declare check_chain.simps [code]

text \<open>The first part of \<^verbatim>\<open>check\<close>: the value it returns, or none if it goes on to the entries of the
  directory.\<close>

definition check_clusters :: "fatfs \<Rightarrow> fat_stream \<Rightarrow> u8 list \<Rightarrow> (u8 list \<times> bool option) option" where
  "check_clusters fs st refs =
    (let go_on = (if st_isDirectory st then None else Some True)
     in if st_isDirectory st \<and> fstClus st = 0
        then if isFat32 fs \<or> \<not> fst_root st then Some (refs, Some False) else Some (refs, go_on)
        else if fstClus st = 0 then Some (refs, Some (fst_size st = 0))
        else map_option (\<lambda>(refs, len).
               case len of
                 None \<Rightarrow> (refs, Some False)
               | Some chainLen \<Rightarrow> (refs, if ucast (rounded fs (fst_size st)) \<noteq> chainLen then Some False else go_on))
             (check_chain fs (fst_size st) refs 0 (fstClus st)))"

definition check_start :: "fat_stream \<Rightarrow> u8 list \<Rightarrow> nat" where
  "check_start st dir = (if fst_root st then 0 else min (2 * 32) (length dir))"

text \<open>The stream of an entry that ends at \<open>pos\<close>, with the bytes of a directory.\<close>

definition check_child ::
    "fatfs \<Rightarrow> int \<Rightarrow> fat_node list \<Rightarrow> fat_stream \<Rightarrow> nat \<Rightarrow> u8 list \<Rightarrow> (fat_stream \<times> u8 list) run" where
  "check_child fs now nodes st pos ent =
    (case fs_lookup nodes (fstClus st) (of_nat (pos - 32)) of
       Some j \<Rightarrow> ok (nd_st (nodes ! j), nd_dir (nodes ! j))
     | None \<Rightarrow>
         obind (newFatStream fs (Some st) (of_nat (pos - 32)) ent) (\<lambda>st'.
         obind (open_node fs 0 st' now) (\<lambda>nd. ok (nd_st nd, nd_dir nd))))"

text \<open>The loop over the entries of a directory, in which \<^verbatim>\<open>check\<close> calls itself.\<close>

partial_function (option) check_loop ::
    "fatfs \<Rightarrow> int \<Rightarrow> fat_node list \<Rightarrow> fat_stream \<Rightarrow> u8 list \<Rightarrow> nat \<Rightarrow> u8 list \<Rightarrow> bool \<Rightarrow> (u8 list \<times> bool) run" where
  "check_loop fs now nodes st dir pos refs result =
    obind (Some (findNext dir pos [] 0)) (\<lambda>(found, s, _).
      if \<not> found then ok (refs, result)
      else obind (check_child fs now nodes st (f_pos s) (f_ent s)) (\<lambda>(st', dir').
           obind (Option.bind (check_clusters fs st' refs) (\<lambda>(refs, b).
                    case b of
                      Some b \<Rightarrow> ok (refs, b)
                    | None \<Rightarrow> check_loop fs now nodes st' dir' (check_start st' dir') refs True)) (\<lambda>(refs, b).
           check_loop fs now nodes st dir (f_pos s) refs (if \<not> b then False else result))))"

declare check_loop.simps [code]

definition check :: "fatfs \<Rightarrow> int \<Rightarrow> fat_node list \<Rightarrow> fat_stream \<Rightarrow> u8 list \<Rightarrow> u8 list \<Rightarrow> (u8 list \<times> bool) run" where
  "check fs now nodes st dir refs =
    Option.bind (check_clusters fs st refs) (\<lambda>(refs, b).
      case b of
        Some b \<Rightarrow> ok (refs, b)
      | None \<Rightarrow> check_loop fs now nodes st dir (check_start st dir) refs True)"

definition init_refs :: "fatfs \<Rightarrow> u8 list" where
  "init_refs fs =
    (let n = unat (countOfClusters fs + 2)
     in foldl (\<lambda>refs i. let next = clusEntryVal fs (of_nat i)
                        in if next = 0 \<or> isBadCluster fs next then refs[i := refs ! i + 1] else refs)
          ((replicate n 0)[0 := 1, 1 := 1]) [2..<n])"

definition fs_check :: "fatfs \<Rightarrow> int \<Rightarrow> fat_node list \<Rightarrow> fat_stream \<Rightarrow> u8 list \<Rightarrow> bool run" where
  "fs_check fs now nodes root dir = obind (check fs now nodes root dir (init_refs fs)) (\<lambda>(_, clean). ok clean)"

lemma check_loop_check:
  "check_loop fs now nodes st dir pos refs result =
    obind (Some (findNext dir pos [] 0)) (\<lambda>(found, s, _).
      if \<not> found then ok (refs, result)
      else obind (check_child fs now nodes st (f_pos s) (f_ent s)) (\<lambda>(st', dir').
           obind (check fs now nodes st' dir' refs) (\<lambda>(refs, b).
           check_loop fs now nodes st dir (f_pos s) refs (if \<not> b then False else result))))"
  unfolding check_def by (rule check_loop.simps)

subsection \<open>What it accepts\<close>

text \<open>The clusters \<open>cs\<close> are the chain of a file and cover its size exactly. There are none where the
  first cluster is beyond the end, which the check accepts for a size of 0.\<close>

definition file_chain :: "fatfs \<Rightarrow> fat_stream \<Rightarrow> u32 list \<Rightarrow> bool" where
  "file_chain fs st cs \<longleftrightarrow> (if cs = [] then isEof fs (fstClus st) else hd cs = fstClus st) \<and> chain (fat_map fs) cs \<and> list_all (valid_cluster fs) cs
     \<and> unat (rounded fs (fst_size st)) = length cs * fat_bpc fs"

text \<open>The clusters of a file and, for a directory, of all that is in it, from position \<open>pos\<close> on for
  \<open>entries_tree\<close>.\<close>

inductive file_tree and entries_tree for fs :: fatfs and now :: int and nodes :: "fat_node list" where
  tree_empty: "file_tree fs now nodes st dir []" if "\<not> st_isDirectory st" "fstClus st = 0" "fst_size st = 0"
| tree_file: "file_tree fs now nodes st dir cs" if "\<not> st_isDirectory st" "fstClus st \<noteq> 0" "file_chain fs st cs"
| tree_root: "file_tree fs now nodes st dir ds" if "st_isDirectory st" "fstClus st = 0" "fst_root st" "\<not> isFat32 fs"
    "entries_tree fs now nodes st dir (check_start st dir) ds"
| tree_dir: "file_tree fs now nodes st dir (cs @ ds)" if "st_isDirectory st" "fstClus st \<noteq> 0" "file_chain fs st cs"
    "entries_tree fs now nodes st dir (check_start st dir) ds"
| no_entry: "entries_tree fs now nodes st dir pos []" if "findNext dir pos [] 0 = Inr (False, s, x)"
| an_entry: "entries_tree fs now nodes st dir pos (cs @ ds)" if "findNext dir pos [] 0 = Inr (True, s, x)"
    "check_child fs now nodes st (f_pos s) (f_ent s) = ok (st', dir')" "file_tree fs now nodes st' dir' cs"
    "entries_tree fs now nodes st dir (f_pos s) ds"

text \<open>The references with the clusters \<open>cs\<close> counted.\<close>

definition marked :: "fatfs \<Rightarrow> u8 list \<Rightarrow> u32 list \<Rightarrow> u8 list \<Rightarrow> bool" where
  "marked fs refs cs refs' \<longleftrightarrow> distinct cs \<and> (\<forall>c \<in> set cs. valid_cluster fs c \<and> refs ! unat c = 0)
     \<and> length refs' = length refs \<and> (\<forall>i < length refs. refs' ! i = (if i \<in> unat ` set cs then 1 else refs ! i))"

definition refs_ok :: "fatfs \<Rightarrow> u8 list \<Rightarrow> bool" where
  "refs_ok fs refs \<longleftrightarrow> length refs = unat (countOfClusters fs) + 2 \<and> (\<forall>r \<in> set refs. r \<le> 1)"

lemma refs_ok_nth: "refs_ok fs refs \<Longrightarrow> i < length refs \<Longrightarrow> refs ! i = 0 \<or> refs ! i = 1"
proof -
  assume "refs_ok fs refs" "i < length refs"
  then have "refs ! i \<le> 1" by (auto simp: refs_ok_def)
  then have "unat (refs ! i) \<le> 1" by (simp add: word_le_nat_alt)
  then show ?thesis by (auto simp: word_unat_eq_iff)
qed

lemma marked_ok: "refs_ok fs refs \<Longrightarrow> marked fs refs cs refs' \<Longrightarrow> refs_ok fs refs'"
  using refs_ok_nth [of fs refs] by (fastforce simp: refs_ok_def marked_def in_set_conv_nth)

lemma marked_Nil [simp]: "marked fs refs [] refs' \<longleftrightarrow> refs' = refs"
  by (auto simp: marked_def intro: nth_equalityI)

lemma unat_image: "unat (c :: u32) \<in> unat ` set cs \<longleftrightarrow> c \<in> set cs"
  by (rule inj_image_mem_iff) (simp add: inj_on_def word_unat_eq_iff)

lemma valid_index: "vol_ok fs \<Longrightarrow> refs_ok fs refs \<Longrightarrow> valid_cluster fs c \<Longrightarrow> unat c < length refs"
  using valid_cluster_nat by (simp add: refs_ok_def)

lemma marked_append:
  assumes "vol_ok fs" "refs_ok fs refs" "marked fs refs cs refs'" "marked fs refs' ds refs''"
  shows "marked fs refs (cs @ ds) refs''"
proof -
  have "refs ! unat c = 0 \<and> c \<notin> set cs" if "c \<in> set ds" for c
  proof -
    have c: "valid_cluster fs c" "refs' ! unat c = 0" using assms(4) that by (auto simp: marked_def)
    then have "unat c < length refs" using valid_index [OF assms(1,2)] by simp
    then show ?thesis using assms(3) c(2) by (auto simp: marked_def unat_image split: if_splits)
  qed
  then show ?thesis using assms(3,4) by (auto simp: marked_def image_Un)
qed

lemma marked_split:
  assumes "vol_ok fs" "refs_ok fs refs" "marked fs refs (cs @ ds) refs''"
  obtains refs' where "marked fs refs cs refs'" "marked fs refs' ds refs''"
proof -
  define refs' where "refs' = map (\<lambda>i. if i \<in> unat ` set cs then 1 else refs ! i) [0..<length refs]"
  have r: "length refs' = length refs" "refs' ! i = (if i \<in> unat ` set cs then 1 else refs ! i)" if "i < length refs" for i
    using that by (simp_all add: refs'_def)
  have l: "length refs' = length refs" by (simp add: refs'_def)
  have ds: "unat c < length refs" if "c \<in> set ds" for c using that assms valid_index by (auto simp: marked_def)
  have "marked fs refs cs refs'" using assms(3) r l by (auto simp: marked_def)
  moreover have "marked fs refs' ds refs''"
    using assms(3) r l ds by (auto simp: marked_def unat_image)
  ultimately show ?thesis by (rule that)
qed

lemma marked_Cons:
  assumes "vol_ok fs" "refs_ok fs refs" "valid_cluster fs c" "refs ! unat c = 0"
  shows "marked fs (refs[unat c := refs ! unat c + 1]) cs refs' \<longleftrightarrow> marked fs refs (c # cs) refs'"
proof -
  have 1: "marked fs refs [c] (refs[unat c := refs ! unat c + 1])"
    using assms(3,4) by (auto simp: marked_def nth_list_update)
  have u: "refs'' = refs[unat c := refs ! unat c + 1]" if "marked fs refs [c] refs''" for refs''
    using that 1 by (intro nth_equalityI) (auto simp: marked_def)
  show ?thesis
  proof
    show "marked fs refs (c # cs) refs'" if "marked fs (refs[unat c := refs ! unat c + 1]) cs refs'"
      using marked_append [OF assms(1,2) 1 that] by simp
    show "marked fs (refs[unat c := refs ! unat c + 1]) cs refs'" if "marked fs refs (c # cs) refs'"
    proof -
      have "marked fs refs ([c] @ cs) refs'" using that by simp
      then obtain refs'' where "marked fs refs [c] refs''" "marked fs refs'' cs refs'"
        using marked_split [OF assms(1,2)] by blast
      then show ?thesis using u by blast
    qed
  qed
qed

subsection \<open>The clusters of a file\<close>

lemma in_volume:
  assumes "vol_ok fs" "\<not> isEof fs c"
  shows "\<not> isBadCluster fs c" "\<not> countOfClusters fs + 2 \<le> c" "\<not> c < 2 \<Longrightarrow> valid_cluster fs c"
proof -
  have b: "countOfClusters fs < 0x0ffffff5" using vol_ok_fat(2) [OF assms(1)] by (simp add: fat_ok_def)
  then have c: "unat c \<le> unat (countOfClusters fs) + 1" using assms(2) by (simp add: isEof_nat)
  have "unat (countOfClusters fs + 2) = unat (countOfClusters fs) + 2"
    using b by (subst unat_add_u32) (simp_all add: word_less_nat_alt)
  then show "\<not> countOfClusters fs + 2 \<le> c" using c by (simp add: word_le_nat_alt)
  show "\<not> isBadCluster fs c"
    using b c by (auto simp: isBadCluster_def isFat12_def isFat16_def word_less_nat_alt)
  show "\<not> c < 2 \<Longrightarrow> valid_cluster fs c" using assms(2) by (simp add: valid_cluster_def not_less)
qed

lemma chain_eof: "\<not> isEof fs c \<Longrightarrow> chain (fat_map fs) [c] \<longleftrightarrow> isEof fs (clusEntryVal fs c)"
  by simp

lemma chain_next: "\<not> isEof fs c \<Longrightarrow> cs \<noteq> [] \<Longrightarrow> chain (fat_map fs) (c # cs) \<longleftrightarrow> clusEntryVal fs c = hd cs \<and> chain (fat_map fs) cs"
  by (cases cs) auto

definition chain_seen :: "fatfs \<Rightarrow> u8 list \<Rightarrow> u64 \<Rightarrow> u32 \<Rightarrow> u8 list \<Rightarrow> u64 \<Rightarrow> bool" where
  "chain_seen fs refs len clus refs' L \<longleftrightarrow> isEof fs clus \<and> refs' = refs \<and> L = len
    \<or> (\<exists>cs. cs \<noteq> [] \<and> hd cs = clus \<and> chain (fat_map fs) cs \<and> list_all (valid_cluster fs) cs \<and> marked fs refs cs refs'
        \<and> L = len + of_nat (length cs) * ucast (bytsPerClus fs))"

lemma chain_seen_Cons:
  assumes "vol_ok fs" "refs_ok fs refs" "valid_cluster fs c" "refs ! unat c = 0"
    and "chain_seen fs (refs[unat c := refs ! unat c + 1]) (len + ucast (bytsPerClus fs)) (clusEntryVal fs c) refs' L"
  shows "chain_seen fs refs len c refs' L"
  using assms(5) [unfolded chain_seen_def]
proof (elim disjE conjE exE)
  have e: "\<not> isEof fs c" using assms(3) by (simp add: valid_cluster_def)
  assume a: "isEof fs (clusEntryVal fs c)" "refs' = refs[unat c := refs ! unat c + 1]" "L = len + ucast (bytsPerClus fs)"
  have "marked fs refs [c] refs'" using marked_Cons [OF assms(1-4), of "[]"] a(2) by simp
  then show ?thesis using a e assms(3) by (auto simp: chain_seen_def intro!: exI [of _ "[c]"])
next
  have e: "\<not> isEof fs c" using assms(3) by (simp add: valid_cluster_def)
  fix cs
  assume a: "cs \<noteq> []" "hd cs = clusEntryVal fs c" "chain (fat_map fs) cs" "list_all (valid_cluster fs) cs"
    "marked fs (refs[unat c := refs ! unat c + 1]) cs refs'"
    "L = len + ucast (bytsPerClus fs) + of_nat (length cs) * ucast (bytsPerClus fs)"
  have "marked fs refs (c # cs) refs'" using marked_Cons [OF assms(1-4)] a(5) by simp
  moreover have "chain (fat_map fs) (c # cs)" using chain_next [OF e a(1)] a(2,3) by simp
  ultimately show ?thesis using a assms(3) by (auto simp: chain_seen_def algebra_simps intro!: exI [of _ "c # cs"])
qed

lemma ref_raised:
  assumes "vol_ok fs" "refs_ok fs refs" "valid_cluster fs c"
  defines "refs' \<equiv> refs[unat c := refs ! unat c + 1]"
  shows "refs' ! unat c = refs ! unat c + 1" "2 \<le> refs' ! unat c \<longleftrightarrow> refs ! unat c \<noteq> 0"
    "refs ! unat c = 0 \<Longrightarrow> refs_ok fs refs'"
proof -
  have i: "unat c < length refs" by (rule valid_index [OF assms(1-3)])
  then show n: "refs' ! unat c = refs ! unat c + 1" by (simp add: refs'_def)
  have "refs ! unat c = 0 \<or> refs ! unat c = 1" by (rule refs_ok_nth [OF assms(2) i])
  then show "2 \<le> refs' ! unat c \<longleftrightarrow> refs ! unat c \<noteq> 0" unfolding n by (auto simp: word_le_nat_alt)
  show "refs_ok fs refs'" if "refs ! unat c = 0"
    using marked_ok [OF assms(2)] marked_Cons [OF assms(1-3) that, of "[]" refs'] by (simp add: refs'_def)
qed

lemma check_chain_sound:
  assumes "vol_ok fs" "check_chain fs sz refs len clus = Some (refs', Some L)" "\<not> ucast (rounded fs sz) < L" "refs_ok fs refs"
  shows "chain_seen fs refs len clus refs' L"
proof -
  have "vol_ok fs \<longrightarrow> snd y = Some L \<longrightarrow> fst y = refs' \<longrightarrow> \<not> ucast (rounded fs sz) < L \<longrightarrow> refs_ok fs refs \<longrightarrow> chain_seen fs refs len clus refs' L"
    if "check_chain fs sz refs len clus = Some y" for y
  proof (rule check_chain.raw_induct [OF _ that, where P = "\<lambda>fs sz refs len clus y. vol_ok fs \<longrightarrow> snd y = Some L \<longrightarrow> fst y = refs'
      \<longrightarrow> \<not> ucast (rounded fs sz) < L \<longrightarrow> refs_ok fs refs \<longrightarrow> chain_seen fs refs len clus refs' L"], intro impI)
    fix rec :: "fatfs \<Rightarrow> u32 \<Rightarrow> u8 list \<Rightarrow> u64 \<Rightarrow> u32 \<Rightarrow> (u8 list \<times> u64 option) option"
      and fs :: fatfs and sz :: u32 and refs :: "u8 list" and len :: u64 and clus :: u32 and y :: "u8 list \<times> u64 option"
    let ?refs = "refs[unat clus := refs ! unat clus + 1]"
    assume IH: "\<And>fs sz refs len clus y. rec fs sz refs len clus = Some y \<Longrightarrow> vol_ok fs \<longrightarrow> snd y = Some L \<longrightarrow> fst y = refs'
        \<longrightarrow> \<not> ucast (rounded fs sz) < L \<longrightarrow> refs_ok fs refs \<longrightarrow> chain_seen fs refs len clus refs' L"
      and body: "(if isEof fs clus then Some (refs, Some len)
        else if clus < 2 \<or> isBadCluster fs clus \<or> countOfClusters fs + 2 \<le> clus then Some (refs, None)
        else let refs = refs[unat clus := refs ! unat clus + 1]
             in if 2 \<le> refs ! unat clus then Some (refs, None)
                else let chainLen = len + ucast (bytsPerClus fs); clus = clusEntryVal fs clus
                     in if ucast (rounded fs sz) < chainLen then Some (refs, Some chainLen) else rec fs sz refs chainLen clus) = Some y"
      and h: "vol_ok fs" "snd y = Some L" "fst y = refs'" "\<not> ucast (rounded fs sz) < L" "refs_ok fs refs"
    show "chain_seen fs refs len clus refs' L"
    proof (cases "isEof fs clus")
      case True
      then have "y = (refs, Some len)" using body by simp
      then show ?thesis using True h(2,3) by (simp add: chain_seen_def)
    next
      case False
      then have nl: "\<not> (clus < 2 \<or> isBadCluster fs clus \<or> countOfClusters fs + 2 \<le> clus)" using body h(2) by (auto split: if_splits)
      then have v: "valid_cluster fs clus" using in_volume(3) [OF h(1) False] by simp
      note r = ref_raised [OF h(1,5) v]
      have f: "\<not> 2 \<le> ?refs ! unat clus" using body False nl h(2) by (auto simp: Let_def split: if_splits)
      then have z: "refs ! unat clus = 0" using r(2) by simp
      have "rec fs sz ?refs (len + ucast (bytsPerClus fs)) (clusEntryVal fs clus) = Some y"
      proof (cases "ucast (rounded fs sz) < len + ucast (bytsPerClus fs)")
        case True
        then have "y = (?refs, Some (len + ucast (bytsPerClus fs)))" using body False nl f by (simp add: Let_def)
        then show ?thesis using h(2,4) True by simp
      next
        case g: False
        then show ?thesis using body False nl f by (simp add: Let_def)
      qed
      from IH [OF this] h r(3) [OF z] have "chain_seen fs ?refs (len + ucast (bytsPerClus fs)) (clusEntryVal fs clus) refs' L" by simp
      then show ?thesis by (rule chain_seen_Cons [OF h(1,5) v z])
    qed
  qed
  then show ?thesis using assms by fastforce
qed

lemma unat_of_nat_u64: "x < 2 ^ 64 \<Longrightarrow> unat (of_nat x :: u64) = x"
  by (simp add: unat_of_nat)

lemma unat_below_32: "unat (x :: u32) < 4294967296"
proof -
  have "unat x < 2 ^ LENGTH(32)" by (rule unsigned_less)
  then show ?thesis by simp
qed

lemma unat_u64 [simp]: "unat (ucast (x :: u32) :: u64) = unat x"
  by (rule unat_ucast_up) simp

lemma bpc_u64: "(ucast (bytsPerClus fs) :: u64) = of_nat (fat_bpc fs)"
  by (simp add: word_unat_eq_iff fat_bpc_def unat_of_nat unat_ucast_up less_le_trans [OF unsigned_less])

lemma check_chain_complete:
  assumes "vol_ok fs" "refs_ok fs refs" "cs \<noteq> []" "chain (fat_map fs) cs" "list_all (valid_cluster fs) cs" "marked fs refs cs refs'"
    and "k + length cs * fat_bpc fs \<le> unat (rounded fs sz)"
  shows "check_chain fs sz refs (of_nat k) (hd cs) = Some (refs', Some (of_nat (k + length cs * fat_bpc fs)))"
  using assms(2-)
proof (induction cs arbitrary: refs k)
  case (Cons c cs)
  let ?refs = "refs[unat c := refs ! unat c + 1]"
  have v: "valid_cluster fs c" and e: "\<not> isEof fs c" and c2: "\<not> c < 2" using Cons.prems(4) by (auto simp: valid_cluster_def not_less)
  have z: "refs ! unat c = 0" using Cons.prems(5) by (simp add: marked_def)
  note r = ref_raised [OF assms(1) Cons.prems(1) v]
  have k: "k + fat_bpc fs \<le> unat (rounded fs sz)" using Cons.prems(6) by simp
  have "k + fat_bpc fs < 4294967296" using k unat_below_32 [of "rounded fs sz"] by linarith
  then have "unat (of_nat (k + fat_bpc fs) :: u64) = k + fat_bpc fs" by (intro unat_of_nat_u64) simp
  then have le: "\<not> ucast (rounded fs sz) < (of_nat k + of_nat (fat_bpc fs) :: u64)"
    using k by (simp add: word_less_nat_alt unat_ucast_up)
  have step: "check_chain fs sz refs (of_nat k) c = check_chain fs sz ?refs (of_nat (k + fat_bpc fs)) (clusEntryVal fs c)"
    using e c2 in_volume(1,2) [OF assms(1) e] r(2) z le by (subst check_chain.simps) (simp add: bpc_u64)
  have m: "marked fs ?refs cs refs'" using marked_Cons [OF assms(1) Cons.prems(1) v z] Cons.prems(5) by simp
  show ?case
  proof (cases "cs = []")
    case True
    then show ?thesis using step m Cons.prems(3) e by (subst (asm) (2) check_chain.simps) simp
  next
    case False
    then have "clusEntryVal fs c = hd cs" "chain (fat_map fs) cs" using Cons.prems(3) chain_next [OF e False] by auto
    then show ?thesis
      using step Cons.IH [of ?refs "k + fat_bpc fs"] r(3) [OF z] False m Cons.prems(4,6) by (simp add: algebra_simps)
  qed
qed simp

lemma marked_count:
  assumes "vol_ok fs" "marked fs refs cs refs'"
  shows "length cs * fat_bpc fs < 2 ^ 32"
proof -
  have "unat ` set cs \<subseteq> {2..<unat (countOfClusters fs) + 2}"
    using assms by (auto simp: marked_def valid_cluster_nat)
  then have "card (unat ` set cs) \<le> card {2..<unat (countOfClusters fs) + 2}" by (intro card_mono) auto
  moreover have "card (unat ` set cs) = length cs"
    using assms(2) by (subst card_image) (auto simp: marked_def inj_on_def word_unat_eq_iff distinct_card)
  ultimately have "length cs * fat_bpc fs \<le> unat (countOfClusters fs) * fat_bpc fs" by (intro mult_le_mono1) simp
  also have "\<dots> < 2 ^ 32" using assms(1) unfolding vol_ok_def vol_geo_def by linarith
  finally show ?thesis .
qed

lemma check_chain_iff:
  assumes "vol_ok fs" "refs_ok fs refs"
  shows "check_chain fs (fst_size st) refs 0 (fstClus st) = Some (refs', Some (ucast (rounded fs (fst_size st))))
    \<longleftrightarrow> (\<exists>cs. file_chain fs st cs \<and> marked fs refs cs refs')" (is "?l \<longleftrightarrow> ?r")
proof
  assume ?l
  then have "chain_seen fs refs 0 (fstClus st) refs' (ucast (rounded fs (fst_size st)))"
    by (rule check_chain_sound [OF assms(1) _ _ assms(2)]) simp
  then show ?r unfolding chain_seen_def
  proof (elim disjE conjE exE)
    assume a: "isEof fs (fstClus st)" "refs' = refs" "ucast (rounded fs (fst_size st)) = (0 :: u64)"
    then have "unat (ucast (rounded fs (fst_size st)) :: u64) = 0" by simp
    then have "unat (rounded fs (fst_size st)) = 0" unfolding unat_u64 .
    then show ?thesis using a by (intro exI [of _ "[]"]) (simp add: file_chain_def)
  next
    fix cs
    assume a: "cs \<noteq> []" "hd cs = fstClus st" "chain (fat_map fs) cs" "list_all (valid_cluster fs) cs" "marked fs refs cs refs'"
      "ucast (rounded fs (fst_size st)) = (0 + of_nat (length cs) * ucast (bytsPerClus fs) :: u64)"
    have "unat (of_nat (length cs * fat_bpc fs) :: u64) = length cs * fat_bpc fs"
      using marked_count [OF assms(1) a(5)] by (intro unat_of_nat_u64) simp
    moreover have "unat (ucast (rounded fs (fst_size st)) :: u64) = unat (of_nat (length cs * fat_bpc fs) :: u64)"
      using a(6) by (simp add: bpc_u64)
    ultimately have "unat (rounded fs (fst_size st)) = length cs * fat_bpc fs" by (simp add: unat_ucast_up)
    then show ?thesis using a by (auto simp: file_chain_def)
  qed
next
  assume ?r
  then obtain cs where cs: "file_chain fs st cs" "marked fs refs cs refs'" by blast
  have u: "ucast (rounded fs (fst_size st)) = (of_nat (length cs * fat_bpc fs) :: u64)"
  proof -
    have "unat (of_nat (length cs * fat_bpc fs) :: u64) = length cs * fat_bpc fs"
      using marked_count [OF assms(1) cs(2)] by (intro unat_of_nat_u64) simp
    then show ?thesis using cs(1) by (simp add: file_chain_def word_unat_eq_iff del: of_nat_mult)
  qed
  show ?l
  proof (cases "cs = []")
    case True
    then show ?thesis using cs u by (subst check_chain.simps) (simp add: file_chain_def)
  next
    case False
    then show ?thesis
      using check_chain_complete [OF assms False _ _ cs(2), of 0 "fst_size st"] cs(1) u by (simp add: file_chain_def)
  qed
qed

lemma check_clusters_file:
  assumes "vol_ok fs" "refs_ok fs refs"
  shows "check_clusters fs st refs = Some (refs', Some True) \<longleftrightarrow> \<not> st_isDirectory st
    \<and> (if fstClus st = 0 then fst_size st = 0 \<and> refs' = refs else \<exists>cs. file_chain fs st cs \<and> marked fs refs cs refs')"
  unfolding check_chain_iff [OF assms, symmetric] check_clusters_def Let_def
  by (auto split: option.splits)

lemma check_clusters_dir:
  assumes "vol_ok fs" "refs_ok fs refs"
  shows "check_clusters fs st refs = Some (refs', None) \<longleftrightarrow> st_isDirectory st
    \<and> (if fstClus st = 0 then fst_root st \<and> \<not> isFat32 fs \<and> refs' = refs else \<exists>cs. file_chain fs st cs \<and> marked fs refs cs refs')"
  unfolding check_chain_iff [OF assms, symmetric] check_clusters_def Let_def
  by (auto split: option.splits)

subsection \<open>The tree of files\<close>

text \<open>Everything a tree uses can be counted at once.\<close>

lemma check_tree:
  assumes "vol_ok fs"
  shows "file_tree fs now nodes st dir cs \<Longrightarrow> refs_ok fs refs \<Longrightarrow> marked fs refs cs refs' \<Longrightarrow>
      check fs now nodes st dir refs = ok (refs', True)"
    and "entries_tree fs now nodes st dir pos cs \<Longrightarrow> refs_ok fs refs \<Longrightarrow> marked fs refs cs refs' \<Longrightarrow>
      check_loop fs now nodes st dir pos refs True = ok (refs', True)"
proof (induction arbitrary: refs refs' and refs refs' rule: file_tree_entries_tree.inducts)
  case (tree_empty st dir)
  then have "check_clusters fs st refs = Some (refs', Some True)" by (simp add: check_clusters_file [OF assms])
  then show ?case by (simp add: check_def)
next
  case (tree_file st cs dir)
  then have "check_clusters fs st refs = Some (refs', Some True)" by (auto simp: check_clusters_file [OF assms])
  then show ?case by (simp add: check_def)
next
  case (tree_root st dir ds)
  then have "check_clusters fs st refs = Some (refs, None)" by (simp add: check_clusters_dir [OF assms])
  then show ?case using tree_root by (simp add: check_def)
next
  case (tree_dir st cs dir ds)
  obtain refs1 where m: "marked fs refs cs refs1" "marked fs refs1 ds refs'"
    using marked_split [OF assms tree_dir.prems] by blast
  have "check_clusters fs st refs = Some (refs1, None)"
    using tree_dir.hyps tree_dir.IH(1) m(1) tree_dir.prems(1) by (auto simp: check_clusters_dir [OF assms])
  then show ?case using tree_dir.IH(3) [OF marked_ok [OF tree_dir.prems(1) m(1)] m(2)] by (simp add: check_def)
next
  case (no_entry dir pos s x st)
  then show ?case by (subst check_loop_check) (auto split: prod.splits)
next
  case (an_entry dir pos s x st st' dir' cs ds)
  obtain refs1 where m: "marked fs refs cs refs1" "marked fs refs1 ds refs'"
    using marked_split [OF assms an_entry.prems] by blast
  have "check fs now nodes st' dir' refs = ok (refs1, True)" by (rule an_entry.IH(3) [OF an_entry.prems(1) m(1)])
  moreover have "check_loop fs now nodes st dir (f_pos s) refs1 True = ok (refs', True)"
    by (rule an_entry.IH(5) [OF marked_ok [OF an_entry.prems(1) m(1)] m(2)])
  ultimately show ?case using an_entry.hyps an_entry.IH(1) by (subst check_loop_check) (auto split: prod.splits)
qed

text \<open>And what is accepted is such a tree; \<open>entries\<close> is the loop over the entries.\<close>

lemma accepted_tree:
  assumes "vol_ok fs" "refs_ok fs refs"
    and "Option.bind (check_clusters fs st refs) (\<lambda>(refs, b). case b of Some b \<Rightarrow> ok (refs, b) | None \<Rightarrow> entries refs) = ok (refs', True)"
    and "\<And>refs1. refs_ok fs refs1 \<Longrightarrow> entries refs1 = ok (refs', True) \<Longrightarrow>
      \<exists>ds. entries_tree fs now nodes st dir (check_start st dir) ds \<and> marked fs refs1 ds refs'"
  shows "\<exists>cs. file_tree fs now nodes st dir cs \<and> marked fs refs cs refs'"
proof -
  obtain refs1 b where c: "check_clusters fs st refs = Some (refs1, b)"
    using assms(3) by (cases "check_clusters fs st refs") auto
  show ?thesis
  proof (cases b)
    case (Some b')
    then have f: "check_clusters fs st refs = Some (refs', Some True)" using c assms(3) by auto
    show ?thesis
    proof (cases "fstClus st = 0")
      case True
      then show ?thesis using f check_clusters_file [OF assms(1,2)] tree_empty by (intro exI [of _ "[]"]) auto
    next
      case False
      then show ?thesis using f check_clusters_file [OF assms(1,2)] tree_file by auto blast
    qed
  next
    case None
    then have d: "check_clusters fs st refs = Some (refs1, None)" "entries refs1 = ok (refs', True)"
      using c assms(3) by auto
    note i = d(1) [unfolded check_clusters_dir [OF assms(1,2)]]
    show ?thesis
    proof (cases "fstClus st = 0")
      case True
      then have r: "refs1 = refs" "st_isDirectory st" "fst_root st" "\<not> isFat32 fs" using i by auto
      then obtain ds where "entries_tree fs now nodes st dir (check_start st dir) ds" "marked fs refs ds refs'"
        using assms(4) [OF _ d(2)] assms(2) by auto
      then show ?thesis using tree_root [OF r(2) True r(3,4)] by blast
    next
      case False
      then obtain cs where cs: "st_isDirectory st" "file_chain fs st cs" "marked fs refs cs refs1" using i by auto
      then obtain ds where ds: "entries_tree fs now nodes st dir (check_start st dir) ds" "marked fs refs1 ds refs'"
        using assms(4) [OF marked_ok [OF assms(2) cs(3)] d(2)] by blast
      then show ?thesis using tree_dir [OF cs(1) False cs(2)] marked_append [OF assms(1,2) cs(3) ds(2)] by blast
    qed
  qed
qed

lemma accepted_entries:
  assumes "vol_ok fs" "check_loop fs now nodes st dir pos refs result = ok (refs', True)" "refs_ok fs refs"
  shows "result \<and> (\<exists>ds. entries_tree fs now nodes st dir pos ds \<and> marked fs refs ds refs')"
proof -
  let ?P = "\<lambda>fs now nodes st dir pos refs result (y :: (u8 list \<times> bool) result). vol_ok fs \<longrightarrow> (\<forall>refs'. y = Inr (refs', True) \<longrightarrow>
    result \<and> (refs_ok fs refs \<longrightarrow> (\<exists>ds. entries_tree fs now nodes st dir pos ds \<and> marked fs refs ds refs')))"
  have "?P fs now nodes st dir pos refs result (Inr (refs', True))"
  proof (rule check_loop.raw_induct [where P = ?P, OF _ assms(2)], intro impI allI)
    fix rec fs now nodes st dir pos refs result y refs'
    assume IH: "\<And>fs now nodes st dir pos refs result y. rec fs now nodes st dir pos refs result = Some y \<Longrightarrow> ?P fs now nodes st dir pos refs result y"
      and body: "obind (Some (findNext dir pos [] 0)) (\<lambda>(found, s, _).
        if \<not> found then ok (refs, result)
        else obind (check_child fs now nodes st (f_pos s) (f_ent s)) (\<lambda>(st', dir').
             obind (Option.bind (check_clusters fs st' refs) (\<lambda>(refs, b).
                      case b of
                        Some b \<Rightarrow> ok (refs, b)
                      | None \<Rightarrow> rec fs now nodes st' dir' (check_start st' dir') refs True)) (\<lambda>(refs, b).
             rec fs now nodes st dir (f_pos s) refs (if \<not> b then False else result)))) = Some y"
      and h: "vol_ok fs" "y = Inr (refs', True)"
    obtain found s x where f: "findNext dir pos [] 0 = Inr (found, s, x)"
      using body h(2) by (cases "findNext dir pos [] 0") auto
    show "result \<and> (refs_ok fs refs \<longrightarrow> (\<exists>ds. entries_tree fs now nodes st dir pos ds \<and> marked fs refs ds refs'))"
    proof (cases found)
      case False
      then have "refs' = refs" "result" using body f h(2) by (auto split: prod.splits)
      then show ?thesis using no_entry f False by (intro conjI impI exI [of _ "[]"]) simp_all
    next
      case True
      then obtain st' dir' refs1 b where c: "check_child fs now nodes st (f_pos s) (f_ent s) = ok (st', dir')"
        "Option.bind (check_clusters fs st' refs) (\<lambda>(refs, b). case b of Some b \<Rightarrow> ok (refs, b)
          | None \<Rightarrow> rec fs now nodes st' dir' (check_start st' dir') refs True) = ok (refs1, b)"
        "rec fs now nodes st dir (f_pos s) refs1 (if \<not> b then False else result) = ok (refs', True)"
        using body f h(2) by (auto simp: obind_eq_Some split: prod.splits)
      have b: "b" "result" using IH [OF c(3)] h(1) by (auto split: if_splits)
      have "\<exists>ds. entries_tree fs now nodes st dir pos ds \<and> marked fs refs ds refs'" if r: "refs_ok fs refs"
      proof -
        obtain cs where cs: "file_tree fs now nodes st' dir' cs" "marked fs refs cs refs1"
          using accepted_tree [OF h(1) r c(2) [unfolded eqTrueI [OF b(1)]], of now nodes dir'] IH h(1) by blast
        then obtain ds where "entries_tree fs now nodes st dir (f_pos s) ds" "marked fs refs1 ds refs'"
          using IH [OF c(3)] h(1) b marked_ok [OF r cs(2)] by auto
        then show ?thesis using an_entry [OF f [unfolded eqTrueI [OF True]] c(1) cs(1)] marked_append [OF h(1) r cs(2)] by blast
      qed
      then show ?thesis using b by blast
    qed
  qed
  then show ?thesis using assms by simp
qed

lemma check_iff:
  assumes "vol_ok fs" "refs_ok fs refs"
  shows "check fs now nodes st dir refs = ok (refs', True) \<longleftrightarrow> (\<exists>cs. file_tree fs now nodes st dir cs \<and> marked fs refs cs refs')"
proof
  assume "check fs now nodes st dir refs = ok (refs', True)"
  then show "\<exists>cs. file_tree fs now nodes st dir cs \<and> marked fs refs cs refs'"
    unfolding check_def by (rule accepted_tree [OF assms]) (use accepted_entries [OF assms(1)] in blast)
qed (use check_tree(1) [OF assms(1) _ assms(2)] in blast)

subsection \<open>The references to begin with\<close>

lemma foldl_raise:
  assumes "length r = n" "distinct is" "\<forall>i \<in> set is. i < n"
  shows "length (foldl (\<lambda>r i. if p i then r[i := r ! i + 1] else r) r is) = n
    \<and> (\<forall>j < n. foldl (\<lambda>r i. if p i then r[i := r ! i + 1] else r) r is ! j = (if j \<in> set is \<and> p j then r ! j + 1 else r ! j))"
  using assms
proof (induction "is" arbitrary: r)
  case (Cons i "is")
  then show ?case using Cons.IH [of "if p i then r[i := r ! i + 1] else r"] by (auto simp: nth_list_update)
qed simp

lemma raised_refs:
  fixes p :: "nat \<Rightarrow> bool"
  assumes "2 \<le> n"
  defines "r \<equiv> foldl (\<lambda>r i. if p i then r[i := r ! i + 1] else r) ((replicate n 0)[0 := 1, 1 := 1 :: u8]) [2..<n]"
  shows "length r = n" "j < n \<Longrightarrow> r ! j = (if j < 2 then 1 else if p j then 1 else 0)"
proof -
  let ?r = "(replicate n 0)[0 := 1, 1 := 1 :: u8]"
  have f: "length r = n \<and> (\<forall>j < n. r ! j = (if j \<in> set [2..<n] \<and> p j then ?r ! j + 1 else ?r ! j))"
    unfolding r_def by (rule foldl_raise) simp_all
  then show "length r = n" by blast
  have 0: "?r ! j = (if j < 2 then 1 else 0)" if "j < n"
    using that by (cases "j = 0"; cases "j = 1") (auto simp: nth_list_update)
  show "r ! j = (if j < 2 then 1 else if p j then 1 else 0)" if "j < n"
    using f that 0 [OF that] by auto
qed

lemma init_refs_nth:
  assumes "vol_ok fs"
  shows "length (init_refs fs) = unat (countOfClusters fs) + 2"
    "j < unat (countOfClusters fs) + 2 \<Longrightarrow> init_refs fs ! j = (if j < 2 then 1
      else if clusEntryVal fs (of_nat j) = 0 \<or> isBadCluster fs (clusEntryVal fs (of_nat j)) then 1 else 0)"
proof -
  have "countOfClusters fs < 0x0ffffff5" using vol_ok_fat(2) [OF assms] by (simp add: fat_ok_def)
  then have n: "unat (countOfClusters fs + 2) = unat (countOfClusters fs) + 2"
    by (subst unat_add_u32) (simp_all add: word_less_nat_alt)
  note r = raised_refs [where n = "unat (countOfClusters fs) + 2"
      and p = "\<lambda>i. clusEntryVal fs (of_nat i) = 0 \<or> isBadCluster fs (clusEntryVal fs (of_nat i))", OF le_add2]
  show "length (init_refs fs) = unat (countOfClusters fs) + 2"
    unfolding init_refs_def Let_def n by (rule r(1))
  show "init_refs fs ! j = (if j < 2 then 1
      else if clusEntryVal fs (of_nat j) = 0 \<or> isBadCluster fs (clusEntryVal fs (of_nat j)) then 1 else 0)"
    if "j < unat (countOfClusters fs) + 2"
    unfolding init_refs_def Let_def n by (rule r(2) [OF that])
qed

lemma init_refs_ok: "vol_ok fs \<Longrightarrow> refs_ok fs (init_refs fs)"
  using init_refs_nth by (auto simp: refs_ok_def in_set_conv_nth)

lemma tree_valid:
  "file_tree fs now nodes st dir cs \<Longrightarrow> \<forall>c \<in> set cs. valid_cluster fs c"
  "entries_tree fs now nodes st dir pos cs \<Longrightarrow> \<forall>c \<in> set cs. valid_cluster fs c"
  by (induction rule: file_tree_entries_tree.inducts) (auto simp: file_chain_def list_all_iff)

lemma marked_init:
  assumes "vol_ok fs" "\<forall>c \<in> set cs. valid_cluster fs c"
  shows "(\<exists>refs'. marked fs (init_refs fs) cs refs') \<longleftrightarrow> distinct cs
    \<and> (\<forall>c \<in> set cs. clusEntryVal fs c \<noteq> 0 \<and> \<not> isBadCluster fs (clusEntryVal fs c))" (is "?l \<longleftrightarrow> ?r")
proof -
  have z: "init_refs fs ! unat c = 0 \<longleftrightarrow> clusEntryVal fs c \<noteq> 0 \<and> \<not> isBadCluster fs (clusEntryVal fs c)" if "c \<in> set cs" for c
    using that assms init_refs_nth(2) [OF assms(1), of "unat c"] by (auto simp: valid_cluster_nat)
  define refs' where "refs' = map (\<lambda>i. if i \<in> unat ` set cs then 1 else init_refs fs ! i) [0..<length (init_refs fs)]"
  have "?l \<longleftrightarrow> distinct cs \<and> (\<forall>c \<in> set cs. init_refs fs ! unat c = 0)"
    using assms(2) by (auto simp: marked_def refs'_def intro!: exI [of _ refs'])
  then show ?thesis using z by auto
qed

text \<open>C9: The consistency check accepts exactly the volumes without cross links: every file below the
  root has a chain of clusters that covers its size, no cluster belongs to two files or twice to one,
  and none of them is marked as free or bad. On such a volume the check returns.\<close>

theorem check_accepts_iff:
  assumes "vol_ok fs"
  shows "fs_check fs now nodes root dir = ok True \<longleftrightarrow> (\<exists>cs. file_tree fs now nodes root dir cs \<and> distinct cs
    \<and> (\<forall>c \<in> set cs. clusEntryVal fs c \<noteq> 0 \<and> \<not> isBadCluster fs (clusEntryVal fs c)))"
proof -
  have "fs_check fs now nodes root dir = ok True \<longleftrightarrow> (\<exists>refs'. check fs now nodes root dir (init_refs fs) = ok (refs', True))"
    by (auto simp: fs_check_def obind_eq_Some)
  also have "\<dots> \<longleftrightarrow> (\<exists>refs' cs. file_tree fs now nodes root dir cs \<and> marked fs (init_refs fs) cs refs')"
    using check_iff [OF assms init_refs_ok [OF assms]] by simp
  finally show ?thesis using marked_init [OF assms] tree_valid(1) by blast
qed

text \<open>A root directory with one file, of 600 bytes in the clusters 2 and 3.\<close>

definition ex_check_dir :: "u8 list" where
  "ex_check_dir = (0x41 # replicate 10 0x20 @ replicate 21 0)[26 := 2, 28 := 0x58, 29 := 2]"

theorem check_accepts_iff_witness:
  "fs_check ex12_file 0 [] (ex_stream\<lparr>fst_root := True, fcb := (replicate 32 0)[11 := ATTR_DIRECTORY], fstClus := 0\<rparr>) ex_check_dir = ok True"
proof -
  let ?root = "ex_stream\<lparr>fst_root := True, fcb := (replicate 32 0)[11 := ATTR_DIRECTORY], fstClus := 0\<rparr>"
  let ?st = "\<lparr>fst_root = False, dirClus = 0, entOffset = 0, fstClus = 2, fst_size = 600, fcb = ex_check_dir, fst_flags = 0,
    lastPosition = 0, lastClus = 2\<rparr>"
  have v: "vol_ok ex12_file" "chain (fat_map ex12_file) [2, 3]" "list_all (valid_cluster ex12_file) [2, 3]"
    using ex12_file_ok by (simp_all only: cluster_chain_def)
  have r: "st_isDirectory ?root" "fstClus ?root = 0" "fst_root ?root" by code_simp+
  have t: "isFat12 ex12_file" "\<not> isFat32 ex12_file" by (simp_all add: isFat12_def isFat32_def ex12_file_def ex12_def)
  have start: "check_start ?root ex_check_dir = 0" using r by (simp add: check_start_def)
  have f1: "case findNext ex_check_dir 0 [] 0 of Inr (True, s, _) \<Rightarrow> f_pos s = 32 \<and> f_ent s = ex_check_dir | _ \<Rightarrow> False" by code_simp
  have f2: "case findNext ex_check_dir 32 [] 0 of Inr (False, _) \<Rightarrow> True | _ \<Rightarrow> False" by code_simp
  obtain s x where s: "findNext ex_check_dir 0 [] 0 = Inr (True, s, x)" "f_pos s = 32" "f_ent s = ex_check_dir"
    using f1 by (auto split: sum.splits bool.splits prod.splits)
  obtain s' x' where s': "findNext ex_check_dir 32 [] 0 = Inr (False, s', x')"
    using f2 by (auto split: sum.splits bool.splits prod.splits)
  have n: "newFatStream ex12_file (Some ?root) 0 ex_check_dir = ok ?st" by code_simp
  have nd: "\<not> st_isDirectory ?st" by code_simp
  have c: "check_child ex12_file 0 [] ?root (f_pos s) (f_ent s) = ok (?st, [])"
    using n nd by (simp add: check_child_def fs_lookup_def s open_node_def)
  have "rounded ex12_file 600 = 1024" by (simp add: rounded_def ex12_file_def ex12_def)
  then have "file_chain ex12_file ?st [2, 3]" using v by (simp add: file_chain_def fat_bpc_def) (simp add: ex12_file_def ex12_def)
  then have t1: "file_tree ex12_file 0 [] ?st [] [2, 3]" by (intro tree_file) (simp_all add: nd)
  have "entries_tree ex12_file 0 [] ?root ex_check_dir (f_pos s) []" unfolding s(2) by (rule no_entry [OF s'])
  then have "entries_tree ex12_file 0 [] ?root ex_check_dir 0 ([2, 3] @ [])" by (rule an_entry [OF s(1) c t1])
  then have "file_tree ex12_file 0 [] ?root ex_check_dir [2, 3]" using tree_root [OF r t(2)] start by simp
  moreover have "\<not> isBadCluster ex12_file 3" "\<not> isBadCluster ex12_file 0xfff" using t(1) by (simp_all add: isBadCluster_def)
  ultimately show ?thesis
    unfolding check_accepts_iff [OF v(1)] using ex12_file_entries by (intro exI [of _ "[2, 3]"]) simp
qed

end
