(* ===== verification/Dictionary.thy ===== *)
theory Dictionary
  imports Prelude
begin

text \<open>
  The contract that the tree and the hash table of the class library share: \<^verbatim>\<open>add\<close> throws EEXIST for a
  key that is there and ENOSPC when the container has no room, \<^verbatim>\<open>get\<close> throws ENOENT. A provider keeps
  an invariant under which each operation returns, and refines these operations on maps; its clients
  see no more than the maps.
\<close>

definition dict_add :: "nat option \<Rightarrow> ('k \<rightharpoonup> 'v) \<Rightarrow> 'k \<Rightarrow> 'v \<Rightarrow> ('k \<rightharpoonup> 'v) result" where
  "dict_add room m k v =
    (if m k \<noteq> None then Inl (Thrown EEXIST)
     else if (case room of None \<Rightarrow> False | Some c \<Rightarrow> c \<le> card (dom m)) then Inl (Thrown ENOSPC)
     else Inr (m(k \<mapsto> v)))"

definition dict_get :: "('k \<rightharpoonup> 'v) \<Rightarrow> 'k \<Rightarrow> 'v result" where
  "dict_get m k = (case m k of Some v \<Rightarrow> Inr v | None \<Rightarrow> Inl (Thrown ENOENT))"

text \<open>Calls of a client, and what they return: an exception leaves the container as it was. What \<^verbatim>\<open>remove\<close>
  tells of whether the key was there depends on the container: \<open>told\<close> is that answer, if there is one.\<close>

datatype ('k, 'v) call = Add 'k 'v | Remove 'k | Get 'k

datatype 'v answer = Added | Removed "bool option" | Got 'v

fun map_calls :: "(bool \<Rightarrow> bool option) \<Rightarrow> nat option \<Rightarrow> ('k \<rightharpoonup> 'v) \<Rightarrow> ('k, 'v) call list \<Rightarrow> ('k \<rightharpoonup> 'v) \<times> 'v answer result list" where
  "map_calls told room m [] = (m, [])"
| "map_calls told room m (c # cs) =
    (let (m, r) = (case c of
         Add k v \<Rightarrow> (case dict_add room m k v of Inl e \<Rightarrow> (m, Inl e) | Inr m' \<Rightarrow> (m', Inr Added))
       | Remove k \<Rightarrow> (m(k := None), Inr (Removed (told (m k \<noteq> None))))
       | Get k \<Rightarrow> (m, case dict_get m k of Inl e \<Rightarrow> Inl e | Inr v \<Rightarrow> Inr (Got v)));
         (m, rs) = map_calls told room m cs
     in (m, r # rs))"

definition one_call ::
    "('s \<Rightarrow> 'k \<Rightarrow> 'v \<Rightarrow> 's run) \<Rightarrow> ('s \<Rightarrow> 'k \<Rightarrow> (bool option \<times> 's) run) \<Rightarrow> ('s \<Rightarrow> 'k \<Rightarrow> 'v run) \<Rightarrow> 's \<Rightarrow> ('k, 'v) call \<Rightarrow> ('s \<times> 'v answer result) option"
where
  "one_call add del get s c =
    (case c of
       Add k v \<Rightarrow> map_option (\<lambda>r. case r of Inl e \<Rightarrow> (s, Inl e) | Inr s' \<Rightarrow> (s', Inr Added)) (add s k v)
     | Remove k \<Rightarrow> map_option (\<lambda>r. case r of Inl e \<Rightarrow> (s, Inl e) | Inr (b, s') \<Rightarrow> (s', Inr (Removed b))) (del s k)
     | Get k \<Rightarrow> map_option (\<lambda>r. (s, case r of Inl e \<Rightarrow> Inl e | Inr v \<Rightarrow> Inr (Got v))) (get s k))"

fun run_calls ::
    "('s \<Rightarrow> 'k \<Rightarrow> 'v \<Rightarrow> 's run) \<Rightarrow> ('s \<Rightarrow> 'k \<Rightarrow> (bool option \<times> 's) run) \<Rightarrow> ('s \<Rightarrow> 'k \<Rightarrow> 'v run) \<Rightarrow> 's \<Rightarrow> ('k, 'v) call list
      \<Rightarrow> ('s \<times> 'v answer result list) option"
where
  "run_calls add del get s [] = Some (s, [])"
| "run_calls add del get s (c # cs) =
    Option.bind (one_call add del get s c) (\<lambda>(s, r). map_option (\<lambda>(s, rs). (s, r # rs)) (run_calls add del get s cs))"

locale dictionary =
  fixes inv :: "'s \<Rightarrow> bool"
    and lookup :: "'s \<Rightarrow> 'k \<rightharpoonup> 'v"
    and told :: "bool \<Rightarrow> bool option"
    and room :: "nat option"
    and add :: "'s \<Rightarrow> 'k \<Rightarrow> 'v \<Rightarrow> 's run"
    and del :: "'s \<Rightarrow> 'k \<Rightarrow> (bool option \<times> 's) run"
    and get :: "'s \<Rightarrow> 'k \<Rightarrow> 'v run"
  assumes add_fails: "inv s \<Longrightarrow> dict_add room (lookup s) k v = Inl e \<Longrightarrow> add s k v = Some (Inl e)"
    and add_works: "inv s \<Longrightarrow> dict_add room (lookup s) k v = Inr m \<Longrightarrow> \<exists>s'. add s k v = ok s' \<and> inv s' \<and> lookup s' = m"
    and del: "inv s \<Longrightarrow> \<exists>s'. del s k = ok (told (lookup s k \<noteq> None), s') \<and> inv s' \<and> lookup s' = (lookup s)(k := None)"
    and get: "inv s \<Longrightarrow> get s k = Some (dict_get (lookup s) k)"
begin

text \<open>Whatever the calls are, they return, and what they return is what they would on the map.\<close>

lemma one_refines:
  assumes "inv s"
  shows "\<exists>s' r. one_call add del get s c = Some (s', r) \<and> inv s' \<and> map_calls told room (lookup s) [c] = (lookup s', [r])"
proof (cases c)
  case (Add k v)
  then show ?thesis
    using assms add_fails [OF assms, of k v] add_works [OF assms, of k v]
    by (cases "dict_add room (lookup s) k v") (fastforce simp: one_call_def)+
next
  case (Remove k)
  then show ?thesis using del [OF assms, of k] by (fastforce simp: one_call_def)
next
  case (Get k)
  then show ?thesis using assms get [OF assms, of k] by (simp add: one_call_def)
qed

lemma run_refines:
  assumes "inv s"
  shows "\<exists>s' rs. run_calls add del get s cs = Some (s', rs) \<and> inv s' \<and> map_calls told room (lookup s) cs = (lookup s', rs)"
  using assms
proof (induction cs arbitrary: s)
  case (Cons c cs)
  obtain s1 r where s1: "one_call add del get s c = Some (s1, r)" "inv s1" "map_calls told room (lookup s) [c] = (lookup s1, [r])"
    using one_refines [OF Cons.prems] by blast
  obtain s2 rs where s2: "run_calls add del get s1 cs = Some (s2, rs)" "inv s2" "map_calls told room (lookup s1) cs = (lookup s2, rs)"
    using Cons.IH [OF s1(2)] by blast
  have "map_calls told room (lookup s) (c # cs) = (lookup s2, r # rs)"
    using s1(3) s2(3) by (auto simp: Let_def split: prod.splits)
  then show ?case using s1 s2 by simp
qed simp

lemma run_results: "inv s \<Longrightarrow> map_option snd (run_calls add del get s cs) = Some (snd (map_calls told room (lookup s) cs))"
  using run_refines [of s cs] by auto

end

end
