(* ===== verification/AaTree.thy ===== *)
theory AaTree
  imports Dictionary "HOL-Library.Multiset"
begin

text \<open>
  The balanced tree of Andersson in \<^verbatim>\<open>include/es/tree.h\<close>, which the conduits of the network and the
  ordered map stand on. A node is told by the number it got when it was allocated; its pointers to
  children are the tree, its pointer to the parent is that number, or none for \<^verbatim>\<open>nil\<close>. The parent of the
  sentinel \<^verbatim>\<open>nil\<close> is written but not read and is left out.
\<close>

datatype ('k, 'v) tree = Nil | Node nat int "('k, 'v) tree" 'k 'v "('k, 'v) tree" "nat option"

subsection \<open>Rotations\<close>

fun t_level :: "('k, 'v) tree \<Rightarrow> int" where
  "t_level Nil = 0"
| "t_level (Node i l a k v b p) = l"

fun set_parent :: "nat option \<Rightarrow> ('k, 'v) tree \<Rightarrow> ('k, 'v) tree" where
  "set_parent q Nil = Nil"
| "set_parent q (Node i l a k v b p) = Node i l a k v b q"

fun set_level :: "int \<Rightarrow> ('k, 'v) tree \<Rightarrow> ('k, 'v) tree" where
  "set_level m Nil = Nil"
| "set_level m (Node i l a k v b p) = Node i m a k v b p"

lemma size_set_parent [simp]: "size (set_parent q t) = size t"
  by (cases t) auto

fun skew :: "('k, 'v) tree \<Rightarrow> ('k, 'v) tree" where
  "skew Nil = Nil"
| "skew (Node i l Nil k v b p) = (if l \<noteq> 0 then Node i l Nil k v (skew b) p else Node i l Nil k v b p)"
| "skew (Node i l (Node j m c kj vj d q) k v b p) =
    (if l \<noteq> 0
     then if m = l
          then Node j m c kj vj (skew (Node i l (set_parent (Some i) d) k v b (Some j))) None
          else Node i l (Node j m c kj vj d q) k v (skew b) p
     else Node i l (Node j m c kj vj d q) k v b p)"

fun split :: "('k, 'v) tree \<Rightarrow> ('k, 'v) tree" where
  "split Nil = Nil"
| "split (Node i l a k v Nil p) = Node i l a k v Nil p"
| "split (Node i l a k v (Node j m c kj vj d q) p) =
    (if l \<noteq> 0 \<and> t_level d = l
     then Node j (m + 1) (Node i l a k v (set_parent (Some i) c) (Some j)) kj vj (split d) None
     else Node i l a k v (Node j m c kj vj d q) p)"

subsection \<open>Operations\<close>

text \<open>Inserting, with the number \<open>n\<close> of the node that \<^verbatim>\<open>new\<close> gives.\<close>

fun insert_node :: "nat \<Rightarrow> 'k :: linorder \<Rightarrow> 'v \<Rightarrow> ('k, 'v) tree \<Rightarrow> ('k, 'v) tree result" where
  "insert_node n key val Nil = Inr (Node n 1 Nil key val Nil None)"
| "insert_node n key val (Node i l a k v b p) =
    (if k < key
     then andThen (insert_node n key val b) (\<lambda>b. Inr (split (skew (Node i l a k v (set_parent (Some i) b) p))))
     else if key < k
     then andThen (insert_node n key val a) (\<lambda>a. Inr (split (skew (Node i l (set_parent (Some i) a) k v b p))))
     else Inl (Thrown EEXIST))"

fun rebalance :: "('k, 'v) tree \<Rightarrow> ('k, 'v) tree" where
  "rebalance Nil = Nil"
| "rebalance (Node i l a k v b p) =
    (if t_level a < l - 1 \<or> t_level b < l - 1
     then split (skew (Node i (l - 1) a k v (if l - 1 < t_level b then set_level (l - 1) b else b) p))
     else Node i l a k v b p)"

text \<open>The rightmost node of a tree that is not empty.\<close>

fun heir :: "('k, 'v) tree \<Rightarrow> 'k \<times> 'v" where
  "heir (Node i l a k v Nil p) = (k, v)"
| "heir (Node i l a k v b p) = heir b"

fun remove_node :: "'k :: linorder \<Rightarrow> ('k, 'v) tree \<Rightarrow> ('k, 'v) tree" where
  "remove_node key Nil = Nil"
| "remove_node key (Node i l a k v b p) =
    rebalance
     (if k < key then Node i l a k v (set_parent (Some i) (remove_node key b)) p
      else if key < k then Node i l (set_parent (Some i) (remove_node key a)) k v b p
      else if a = Nil then set_parent None b
      else if b = Nil then set_parent None a
      else let (k, v) = heir a in Node i l (set_parent (Some i) (remove_node k a)) k v b p)"

fun tree_find :: "'k :: linorder \<Rightarrow> ('k, 'v) tree \<Rightarrow> 'v option" where
  "tree_find key Nil = None"
| "tree_find key (Node i l a k v b p) =
    (if k < key then tree_find key b else if key < k then tree_find key a else Some v)"

text \<open>The tree object: its root, and the number of the next node.\<close>

record ('k, 'v) aa_tree =
  aa_root :: "('k, 'v) tree"
  aa_new :: nat

definition aa_isEmpty :: "('k, 'v) aa_tree \<Rightarrow> bool" where
  "aa_isEmpty t = (case aa_root t of Nil \<Rightarrow> True | Node _ _ _ _ _ _ _ \<Rightarrow> False)"

definition aa_contains :: "('k :: linorder, 'v) aa_tree \<Rightarrow> 'k \<Rightarrow> bool" where
  "aa_contains t key = (tree_find key (aa_root t) \<noteq> None)"

definition aa_get :: "('k :: linorder, 'v) aa_tree \<Rightarrow> 'k \<Rightarrow> 'v result" where
  "aa_get t key = (case tree_find key (aa_root t) of Some v \<Rightarrow> Inr v | None \<Rightarrow> Inl (Thrown ENOENT))"

definition aa_add :: "('k :: linorder, 'v) aa_tree \<Rightarrow> 'k \<Rightarrow> 'v \<Rightarrow> ('k, 'v) aa_tree result" where
  "aa_add t key val =
    andThen (insert_node (aa_new t) key val (aa_root t)) (\<lambda>r. Inr \<lparr>aa_root = r, aa_new = aa_new t + 1\<rparr>)"

definition aa_remove :: "('k :: linorder, 'v) aa_tree \<Rightarrow> 'k \<Rightarrow> ('k, 'v) aa_tree" where
  "aa_remove t key = t\<lparr>aa_root := remove_node key (aa_root t)\<rparr>"

subsection \<open>Iteration\<close>

text \<open>Following a pointer to the node \<open>i\<close>.\<close>

fun node_at :: "nat \<Rightarrow> ('k, 'v) tree \<Rightarrow> ('k, 'v) tree" where
  "node_at i Nil = Nil"
| "node_at i (Node j l a k v b p) =
    (if i = j then Node j l a k v b p else case node_at i a of Nil \<Rightarrow> node_at i b | t \<Rightarrow> t)"

fun t_id :: "('k, 'v) tree \<Rightarrow> nat option" where
  "t_id Nil = None"
| "t_id (Node i l a k v b p) = Some i"

fun getFirst :: "('k, 'v) tree \<Rightarrow> nat option" where
  "getFirst Nil = None"
| "getFirst (Node i l Nil k v b p) = Some i"
| "getFirst (Node i l a k v b p) = getFirst a"

fun getLast :: "('k, 'v) tree \<Rightarrow> nat option" where
  "getLast Nil = None"
| "getLast (Node i l a k v Nil p) = Some i"
| "getLast (Node i l a k v b p) = getLast b"

text \<open>Going up from a node as long as it is the right (or the left) child; a pointer to no node
  of the tree is \<open>Undefined\<close>.\<close>

partial_function (option) climb :: "bool \<Rightarrow> ('k, 'v) tree \<Rightarrow> nat \<Rightarrow> nat option run" where
  "climb up t i =
    (case node_at i t of
       Nil \<Rightarrow> Some (Inl Undefined)
     | Node _ _ _ _ _ _ p \<Rightarrow>
         (case p of
            None \<Rightarrow> ok None
          | Some j \<Rightarrow>
              (case node_at j t of
                 Nil \<Rightarrow> Some (Inl Undefined)
               | Node _ _ a _ _ b _ \<Rightarrow> if t_id (if up then b else a) = Some i then climb up t j else ok (Some j))))"

declare climb.simps [code]

definition getNext :: "('k, 'v) tree \<Rightarrow> nat \<Rightarrow> nat option run" where
  "getNext t i =
    (case node_at i t of
       Nil \<Rightarrow> Some (Inl Undefined)
     | Node _ _ _ _ _ b _ \<Rightarrow> if b \<noteq> Nil then ok (getFirst b) else climb True t i)"

definition getPrevious :: "('k, 'v) tree \<Rightarrow> nat \<Rightarrow> nat option run" where
  "getPrevious t i =
    (case node_at i t of
       Nil \<Rightarrow> Some (Inl Undefined)
     | Node _ _ a _ _ _ _ \<Rightarrow> if a \<noteq> Nil then ok (getLast a) else climb False t i)"

text \<open>The iterator: the nodes before and after it. \<^verbatim>\<open>next\<close> gives the node it passes, or none.\<close>

record tree_iter =
  it_pre :: "nat option"
  it_suc :: "nat option"

definition it_hasNext :: "tree_iter \<Rightarrow> bool" where
  "it_hasNext it = (if it_suc it = None then True else False)"

definition it_hasPrevious :: "tree_iter \<Rightarrow> bool" where
  "it_hasPrevious it = (if it_pre it = None then True else False)"

definition it_next :: "('k, 'v) tree \<Rightarrow> tree_iter \<Rightarrow> (tree_iter \<times> nat option) run" where
  "it_next t it =
    (case it_suc it of
       None \<Rightarrow> ok (it, None)
     | Some i \<Rightarrow> obind (getNext t i) (\<lambda>s. ok (\<lparr>it_pre = Some i, it_suc = s\<rparr>, Some i)))"

definition it_previous :: "('k, 'v) tree \<Rightarrow> tree_iter \<Rightarrow> (tree_iter \<times> nat option) run" where
  "it_previous t it =
    (case it_pre it of
       None \<Rightarrow> ok (it, None)
     | Some i \<Rightarrow> obind (getPrevious t i) (\<lambda>s. ok (\<lparr>it_pre = s, it_suc = Some i\<rparr>, Some i)))"

definition aa_begin :: "('k, 'v) aa_tree \<Rightarrow> tree_iter" where
  "aa_begin t = \<lparr>it_pre = None, it_suc = getFirst (aa_root t)\<rparr>"

definition aa_end :: "('k, 'v) aa_tree \<Rightarrow> tree_iter" where
  "aa_end t = \<lparr>it_pre = getLast (aa_root t), it_suc = None\<rparr>"

subsection \<open>Balanced trees\<close>

fun entries :: "('k, 'v) tree \<Rightarrow> ('k \<times> 'v) list" where
  "entries Nil = []"
| "entries (Node i l a k v b p) = entries a @ (k, v) # entries b"

fun ids :: "('k, 'v) tree \<Rightarrow> nat list" where
  "ids Nil = []"
| "ids (Node i l a k v b p) = ids a @ i # ids b"

text \<open>The levels: a left child is one level down, a right child at most one, and two right steps go
  down at least one level.\<close>

fun t_right :: "('k, 'v) tree \<Rightarrow> ('k, 'v) tree" where
  "t_right Nil = Nil"
| "t_right (Node i l a k v b p) = b"

fun aa :: "('k, 'v) tree \<Rightarrow> bool" where
  "aa Nil \<longleftrightarrow> True"
| "aa (Node i l a k v b p) \<longleftrightarrow> aa a \<and> aa b \<and> l = t_level a + 1 \<and> (t_level b = l - 1 \<or> t_level b = l \<and> t_level (t_right b) = l - 1)"

text \<open>Every child points to its parent.\<close>

fun t_parent :: "('k, 'v) tree \<Rightarrow> nat option" where
  "t_parent Nil = None"
| "t_parent (Node i l a k v b p) = p"

fun kids :: "('k, 'v) tree \<Rightarrow> bool" where
  "kids Nil \<longleftrightarrow> True"
| "kids (Node i l a k v b p) \<longleftrightarrow> kids a \<and> kids b \<and> (a = Nil \<or> t_parent a = Some i) \<and> (b = Nil \<or> t_parent b = Some i)"

text \<open>What does not depend on the parent of the root.\<close>

lemma set_parent_simps [simp]:
  "entries (set_parent q t) = entries t" "ids (set_parent q t) = ids t" "aa (set_parent q t) = aa t" "t_level (set_parent q t) = t_level t"
  "t_right (set_parent q t) = t_right t" "kids (set_parent q t) = kids t" "set_parent q t = Nil \<longleftrightarrow> t = Nil"
  "t_parent (set_parent q t) = (if t = Nil then None else q)" "set_parent q (set_parent q' t) = set_parent q t" "t_id (set_parent q t) = t_id t"
  by (cases t; simp)+

lemma aa_level: "aa t \<Longrightarrow> 0 \<le> t_level t" "aa t \<Longrightarrow> t_level t = 0 \<longleftrightarrow> t = Nil" "aa t \<Longrightarrow> t \<noteq> Nil \<Longrightarrow> 1 \<le> t_level t"
proof -
  have "0 \<le> t_level t \<and> (t_level t = 0 \<longleftrightarrow> t = Nil)" if "aa t" using that by (induction t) auto
  then show "aa t \<Longrightarrow> 0 \<le> t_level t" "aa t \<Longrightarrow> t_level t = 0 \<longleftrightarrow> t = Nil" "aa t \<Longrightarrow> t \<noteq> Nil \<Longrightarrow> 1 \<le> t_level t" by force+
qed

text \<open>Rotations leave the order alone, and a tree in balance altogether.\<close>

lemma rotation_entries [simp]:
  "entries (skew t) = entries t" "entries (split t) = entries t" "ids (skew t) = ids t" "ids (split t) = ids t"
proof -
  show "entries (skew t) = entries t" "ids (skew t) = ids t" by (induction t rule: skew.induct) auto
  show "entries (split t) = entries t" "ids (split t) = ids t" by (induction t rule: split.induct) auto
qed

lemma skew_aa: "aa t \<Longrightarrow> skew t = t"
  by (induction t rule: skew.induct) auto

lemma split_aa: "aa t \<Longrightarrow> split t = t"
  by (cases t rule: split.cases) (auto dest: aa_level(1))

text \<open>Balancing after a child has grown by a level: the root grows only if its right child was on
  its own level.\<close>

definition single :: "('k, 'v) tree \<Rightarrow> bool" where
  "single t \<longleftrightarrow> t_level (t_right t) = t_level t - 1"

definition grows :: "('k, 'v) tree \<Rightarrow> ('k, 'v) tree \<Rightarrow> bool" where
  "grows t t' \<longleftrightarrow> t_level t' = t_level t \<or> t_level t' = t_level t + 1 \<and> single t' \<and> (t = Nil \<or> \<not> single t)"

lemma fix_left:
  assumes t: "aa (Node i l a k v b p)" and a': "aa a'" "grows a a'" "a' \<noteq> Nil"
  defines "r \<equiv> split (skew (Node i l (set_parent (Some i) a') k v b p))"
  shows "aa r \<and> grows (Node i l a k v b p) r \<and> (kids (Node i l a k v b p) \<longrightarrow> kids a' \<longrightarrow> kids r) \<and> t_parent r \<in> {None, p} \<and> r \<noteq> Nil"
proof (cases "t_level a' = t_level a")
  case True
  then have "aa (Node i l (set_parent (Some i) a') k v b p)" using t a' by auto
  then have "r = Node i l (set_parent (Some i) a') k v b p" unfolding r_def by (simp only: skew_aa split_aa)
  then show ?thesis using True t a' by (auto simp: grows_def)
next
  case False
  then obtain j c kj vj d q where n: "a' = Node j l c kj vj d q" "t_level d = l - 1" "t_level c = l - 1" "aa c" "aa d"
    using t a' by (cases a') (auto simp: grows_def single_def)
  let ?x = "Node i l (set_parent (Some i) d) k v b (Some j)"
  have l: "l \<noteq> 0" "aa ?x" using t n(2,5) aa_level(1) [of a] by auto
  then have sk: "skew (Node i l (set_parent (Some i) a') k v b p) = Node j l c kj vj ?x None" using n(1) skew_aa [OF l(2)] by simp
  show ?thesis
  proof (cases "t_level b = l")
    case True
    then have "r = Node i (l + 1) (Node j l c kj vj (set_parent (Some j) (set_parent (Some i) d)) (Some i)) k v b None"
      unfolding r_def sk using t l(1) split_aa [of b] by simp
    then show ?thesis using True t n by (auto simp: grows_def single_def)
  next
    case False
    then have "r = Node j l c kj vj ?x None" unfolding r_def sk by simp
    then show ?thesis using False t n by (auto simp: grows_def single_def)
  qed
qed

lemma fix_right:
  assumes t: "aa (Node i l a k v b p)" and b': "aa b'" "grows b b'" "b' \<noteq> Nil"
  defines "r \<equiv> split (skew (Node i l a k v (set_parent (Some i) b') p))"
  shows "aa r \<and> grows (Node i l a k v b p) r \<and> (kids (Node i l a k v b p) \<longrightarrow> kids b' \<longrightarrow> kids r) \<and> t_parent r \<in> {None, p} \<and> r \<noteq> Nil"
proof -
  let ?b = "set_parent (Some i) b'"
  have l: "l \<noteq> 0" "aa ?b" using t b' aa_level(1) [of a] by auto
  have "t_level a \<noteq> l" using t by simp
  then have sk: "skew (Node i l a k v ?b p) = Node i l a k v ?b p"
    using skew_aa [OF l(2)] by (cases a) auto
  obtain j m c kj vj d q where n: "b' = Node j m c kj vj d q" using b'(3) by (cases b') auto
  have d: "aa c" "aa d" "m = t_level c + 1" "t_level d = m - 1 \<or> t_level d = m" using b'(1) n by auto
  have b: "t_level b = l - 1 \<or> t_level b = l \<and> single b \<and> b \<noteq> Nil" using t l(1) by (auto simp: single_def)
  have g: "m = t_level b \<or> m = t_level b + 1 \<and> t_level d = m - 1 \<and> (b = Nil \<or> \<not> single b)"
    using b'(2) n by (simp add: grows_def single_def)
  show ?thesis
  proof (cases "t_level d = l")
    case True
    have m: "m = l" "t_level b = l" using g b True d(4) by (elim disjE conjE; simp)+
    have sb: "set_parent (Some i) b' = Node j l c kj vj d (Some i)" using n m by simp
    have r: "r = Node j (l + 1) (Node i l a k v (set_parent (Some i) c) (Some j)) kj vj d None"
      unfolding r_def sk unfolding sb using True l(1) split_aa [OF d(2)] by simp
    have c: "t_level c = l - 1" using m d(3) by simp
    have "aa r" "single r" "t_level r = l + 1" "\<not> single (Node i l a k v b p)"
      unfolding r single_def using True m t d(1,2) c by simp_all
    moreover have "kids (Node i l a k v b p) \<longrightarrow> kids b' \<longrightarrow> kids r" unfolding r n by auto
    ultimately show ?thesis by (simp add: grows_def) (simp add: r)
  next
    case False
    then have r: "r = Node i l a k v ?b p" unfolding r_def sk unfolding n by simp
    have "m = l - 1 \<or> m = l \<and> t_level d = l - 1" using g b False d(4) by (elim disjE conjE) simp_all
    then have "aa r" unfolding r using t l(2) n by auto
    moreover have "kids (Node i l a k v b p) \<longrightarrow> kids b' \<longrightarrow> kids r" unfolding r n by auto
    ultimately show ?thesis by (simp add: grows_def) (simp add: r)
  qed
qed

subsection \<open>Inserting\<close>

lemma insert_node_balanced:
  assumes "insert_node n key val t = Inr t'" "aa t"
  shows "aa t' \<and> grows t t' \<and> (kids t \<longrightarrow> kids t') \<and> t_parent t' \<in> {None, t_parent t} \<and> t' \<noteq> Nil"
  using assms
proof (induction n key val t arbitrary: t' rule: insert_node.induct)
  case (1 n key val)
  then show ?case by (auto simp: grows_def single_def)
next
  case (2 n key val i l a k v b p)
  consider "k < key" | "key < k" using "2.prems"(1) by (auto split: if_splits)
  then show ?case
  proof cases
    case 1
    then obtain b' where b': "insert_node n key val b = Inr b'" "t' = split (skew (Node i l a k v (set_parent (Some i) b') p))"
      using "2.prems"(1) by (cases "insert_node n key val b") auto
    then show ?thesis using "2.IH"(1) [OF 1 b'(1)] "2.prems"(2) fix_right [OF "2.prems"(2), of b'] by auto
  next
    case 2
    then have nk: "\<not> k < key" by simp
    with 2 obtain a' where a': "insert_node n key val a = Inr a'" "t' = split (skew (Node i l (set_parent (Some i) a') k v b p))"
      using "2.prems"(1) by (cases "insert_node n key val a") auto
    then show ?thesis using "2.IH"(2) [OF nk 2 a'(1)] "2.prems"(2) fix_left [OF "2.prems"(2), of a'] 2 by auto
  qed
qed

subsection \<open>Removing\<close>

text \<open>Removal lowers a tree by at most a level, and does not give a root a right child on its level.\<close>

definition shrinks :: "('k, 'v) tree \<Rightarrow> ('k, 'v) tree \<Rightarrow> bool" where
  "shrinks t t' \<longleftrightarrow> t_level t' = t_level t \<and> (single t \<longrightarrow> single t') \<or> t_level t' = t_level t - 1"

lemma rebalance_aa: "aa t \<Longrightarrow> rebalance t = t"
  by (cases t) auto

lemma rebalance_entries [simp]: "entries (rebalance t) = entries t" "ids (rebalance t) = ids t"
proof -
  have l: "entries (set_level m t) = entries t" "ids (set_level m t) = ids t" for m and t :: "('a, 'b) tree" by (cases t; simp)+
  show "entries (rebalance t) = entries t" "ids (rebalance t) = ids t" by (cases t; simp add: l)+
qed

lemma aa_node:
  assumes "aa t" "t_level t = l" "l \<noteq> 0"
  obtains j c kj vj d q where "t = Node j l c kj vj d q" "aa c" "aa d" "t_level c = l - 1"
    "t_level d = l - 1 \<or> t_level d = l \<and> t_level (t_right d) = l - 1"
  using assms by (cases t) auto

text \<open>The right child has fallen by a level.\<close>

lemma rebalance_right:
  assumes t: "aa (Node i l a k v b p)" and b': "aa b'" "t_level b' = l - 2"
  defines "r \<equiv> rebalance (Node i l a k v b' p)"
  shows "aa r \<and> shrinks (Node i l a k v b p) r"
proof -
  have l: "l - 1 \<noteq> 0" "l - 1 < t_level b' \<longleftrightarrow> False" using aa_level(1) [OF b'(1)] b'(2) by auto
  have ta: "aa a" "t_level a = l - 1" using t by auto
  obtain j c kj vj d q where a: "a = Node j (l - 1) c kj vj d q" "aa c" "aa d" "t_level c = l - 1 - 1"
    "t_level d = l - 1 - 1 \<or> t_level d = l - 1 \<and> t_level (t_right d) = l - 1 - 1"
    by (rule aa_node [OF ta l(1)])
  let ?in = "\<lambda>f m. Node i (l - 1) (set_parent (Some i) f) k v b' (Some m)"
  have r: "r = split (Node j (l - 1) c kj vj (skew (?in d j)) None)"
    unfolding r_def using l b'(2) a by simp
  show ?thesis
  proof (cases "t_level d = l - 1 - 1")
    case True
    then have "aa (?in d j)" using a(3) b' by simp
    then have "skew (?in d j) = ?in d j" by (rule skew_aa)
    then have "r = Node j (l - 1) c kj vj (?in d j) None" unfolding r using b'(2) by simp
    then show ?thesis using \<open>aa (?in d j)\<close> a b' by (simp add: shrinks_def)
  next
    case False
    then have d: "t_level d = l - 1" using a(5) by simp
    obtain m e km vm f q2 where d': "d = Node m (l - 1) e km vm f q2" "aa e" "aa f" "t_level e = l - 1 - 1" "t_level f = l - 1 - 1"
      using aa_node [OF a(3) d l(1)] a(5) d by (metis add_diff_cancel_left' diff_eq_diff_eq t_right.simps(2) False)
    have i: "aa (?in f m)" using d'(3,5) b' by simp
    have "skew (?in d j) = Node m (l - 1) e km vm (?in f m) None" using d'(1) l(1) skew_aa [OF i] by simp
    then have "r = Node m l (Node j (l - 1) c kj vj (set_parent (Some j) e) (Some m)) km vm (?in f m) None"
      unfolding r using split_aa [OF i] l(1) by simp
    then show ?thesis using i a d' by (simp add: shrinks_def single_def)
  qed
qed

text \<open>The left child has fallen by a level.\<close>

lemma rebalance_left:
  assumes t: "aa (Node i l a k v b p)" and a': "aa a'" "t_level a' = l - 2"
  defines "r \<equiv> rebalance (Node i l a' k v b p)"
  shows "aa r \<and> shrinks (Node i l a k v b p) r"
proof -
  have l: "l - 1 \<noteq> 0" "l \<noteq> 0" using aa_level(1) [OF a'(1)] a'(2) by auto
  have tb: "aa b" "t_level b = l - 1 \<or> t_level b = l \<and> t_level (t_right b) = l - 1" using t by auto
  have skip: "skew (Node i (l - 1) a' k v x p) = Node i (l - 1) a' k v (skew x) p" for x
    using a'(2) l(1) by (cases a') auto
  show ?thesis
  proof (cases "t_level b = l - 1")
    case True
    obtain j c kj vj d q where b: "b = Node j (l - 1) c kj vj d q" "aa c" "aa d" "t_level c = l - 1 - 1"
      "t_level d = l - 1 - 1 \<or> t_level d = l - 1 \<and> t_level (t_right d) = l - 1 - 1"
      by (rule aa_node [OF tb(1) True l(1)])
    have r: "r = split (Node i (l - 1) a' k v b p)"
      unfolding r_def using True a'(2) skip [of b] skew_aa [OF tb(1)] by simp
    show ?thesis
    proof (cases "t_level d = l - 1")
      case True
      then have "r = Node j l (Node i (l - 1) a' k v (set_parent (Some i) c) (Some j)) kj vj d None"
        unfolding r b(1) using l(1) split_aa [OF b(3)] by simp
      then show ?thesis using True a' b by (simp add: shrinks_def single_def)
    next
      case False
      then have "r = Node i (l - 1) a' k v b p" unfolding r b(1) by simp
      then show ?thesis using False a' b tb(1) True by (simp add: shrinks_def)
    qed
  next
    case False
    then have bl: "t_level b = l" "t_level (t_right b) = l - 1" using tb(2) by auto
    obtain j c kj vj d q where b: "b = Node j l c kj vj d q" "aa c" "aa d" "t_level c = l - 1" "t_level d = l - 1"
      using aa_node [OF tb(1) bl(1) l(2)] bl(2) by (metis t_right.simps(2))
    obtain m e km vm f q2 where c: "c = Node m (l - 1) e km vm f q2" "aa e" "aa f" "t_level e = l - 1 - 1"
      "t_level f = l - 1 - 1 \<or> t_level f = l - 1 \<and> t_level (t_right f) = l - 1 - 1"
      by (rule aa_node [OF b(2,4) l(1)])
    let ?i = "Node i (l - 1) a' k v (set_parent (Some i) e) (Some m)"
    let ?J = "\<lambda>f m. Node j (l - 1) (set_parent (Some j) f) kj vj d (Some m)"
    have r: "r = split (Node i (l - 1) a' k v (Node m (l - 1) e km vm (skew (?J f m)) None) p)"
      unfolding r_def using a'(2) b c skip l by simp
    have ns: "\<not> single (Node i l a k v b p)" using bl(1) l by (simp add: single_def)
    obtain x g kx vx h q3 where d: "d = Node x (l - 1) g kx vx h q3" "aa g" "aa h" "t_level g = l - 1 - 1"
      "t_level h = l - 1 - 1 \<or> t_level h = l - 1 \<and> t_level (t_right h) = l - 1 - 1"
      by (rule aa_node [OF b(3,5) l(1)])
    have i: "aa ?i" using a' c by simp
    have fin: "aa (Node m l ?i km vm y None) \<and> shrinks (Node i l a k v b p) (Node m l ?i km vm y None)"
      if "aa y" "t_level y = l - 1 \<or> t_level y = l \<and> t_level (t_right y) = l - 1" for y
      using that i ns by (auto simp: shrinks_def)
    show ?thesis
    proof (cases "t_level f = l - 1")
      case False
      then have f: "t_level f = l - 1 - 1" using c(5) by simp
      have J: "aa (?J f m)" if "t_level h = l - 1 - 1" using that f c(3) d by simp
      have "skew (?J f m) = ?J f m" using f l(1) skew_aa [OF b(3)] by (cases f) auto
      then have r: "r = Node m l ?i km vm (split (?J f m)) None" unfolding r using l(1) by simp
      show ?thesis
      proof (cases "t_level h = l - 1")
        case True
        then have "split (?J f m) = Node x l (Node j (l - 1) (set_parent (Some j) f) kj vj (set_parent (Some j) g) (Some x)) kx vx h None"
          unfolding d(1) using l(1) split_aa [OF d(3)] by simp
        then show ?thesis unfolding r using fin True f c(3) d by simp
      next
        case False
        then have h: "t_level h = l - 1 - 1" using d(5) by simp
        then have "split (?J f m) = ?J f m" using split_aa [OF J] by simp
        then have r: "r = Node m l ?i km vm (?J f m) None" unfolding r by (rule arg_cong)
        show ?thesis unfolding r by (rule fin [OF J [OF h]]) simp
      qed
    next
      case True
      obtain y e' ky vy f' q4 where y: "f = Node y (l - 1) e' ky vy f' q4" "aa e'" "aa f'" "t_level e' = l - 1 - 1" "t_level f' = l - 1 - 1"
        using aa_node [OF c(3) True l(1)] c(5) True by (metis add_diff_cancel_left' diff_eq_diff_eq t_right.simps(2) l(1) diff_0_right eq_iff_diff_eq_0)
      let ?K = "Node j (l - 1) (set_parent (Some j) f') kj vj d (Some y)"
      have "skew ?K = ?K" using y(5) l(1) skew_aa [OF b(3)] by (cases f') auto
      then have "skew (?J f m) = Node y (l - 1) e' ky vy ?K None" unfolding y(1) using l(1) by simp
      then have r: "r = Node m l ?i km vm (split (Node y (l - 1) e' ky vy ?K None)) None" unfolding r using l(1) by simp
      have "split (Node y (l - 1) e' ky vy ?K None) = Node j l (Node y (l - 1) e' ky vy (set_parent (Some y) f') (Some j)) kj vj d None"
        using l(1) b(5) split_aa [OF b(3)] by simp
      then show ?thesis unfolding r using fin y b by simp
    qed
  qed
qed

declare rebalance.simps(2) [simp del]

lemma shrinks_key: "shrinks (Node i l a k v b p) = shrinks (Node i l a k' v' b p)"
  by (rule ext) (simp add: shrinks_def single_def)

lemma shrunk_left:
  assumes "aa (Node i l a k v b p)" "aa a'" "shrinks a a'"
  shows "aa (rebalance (Node i l (set_parent q a') k' v' b p)) \<and> shrinks (Node i l a k v b p) (rebalance (Node i l (set_parent q a') k' v' b p))"
proof (cases "t_level a' = t_level a")
  case True
  then have n: "aa (Node i l (set_parent q a') k' v' b p)" using assms by auto
  show ?thesis unfolding rebalance_aa [OF n] using n by (auto simp: shrinks_def single_def)
next
  case False
  then have "t_level (set_parent q a') = l - 2" using assms by (auto simp: shrinks_def)
  moreover have "aa (Node i l a k' v' b p)" using assms(1) by auto
  ultimately show ?thesis unfolding shrinks_key [of i l a k v b p k' v'] using assms(2) by (intro rebalance_left) auto
qed

lemma shrunk_right:
  assumes "aa (Node i l a k v b p)" "aa b'" "shrinks b b'"
  shows "aa (rebalance (Node i l a k v (set_parent q b') p)) \<and> shrinks (Node i l a k v b p) (rebalance (Node i l a k v (set_parent q b') p))"
proof (cases "t_level b' = l - 2")
  case True
  then show ?thesis using assms by (intro rebalance_right) auto
next
  case False
  then have n: "aa (Node i l a k v (set_parent q b') p)" using assms by (auto simp: shrinks_def single_def)
  show ?thesis unfolding rebalance_aa [OF n] using n assms False by (auto simp: shrinks_def single_def)
qed

lemma remove_node_balanced: "aa t \<Longrightarrow> aa (remove_node key t) \<and> shrinks t (remove_node key t)"
proof (induction key t rule: remove_node.induct)
  case (1 key)
  then show ?case by (simp add: shrinks_def)
next
  case (2 key i l a k v b p)
  note t = "2.prems"
  consider "k < key" | "key < k" | "k = key" by (rule linorder_cases)
  then show ?case
  proof cases
    case 1
    then show ?thesis using shrunk_right [OF t, of "remove_node key b"] "2.IH"(1) t by simp
  next
    case 2
    then have nk: "\<not> k < key" by simp
    then show ?thesis using shrunk_left [OF t, of "remove_node key a"] "2.IH"(2) [OF nk 2] t 2 by simp
  next
    case 3
    show ?thesis
    proof (cases "a = Nil \<or> b = Nil")
      case True
      have "a = Nil" using True t aa_level(1,3) [of a] by fastforce
      moreover have "rebalance (set_parent None b) = set_parent None b" using t by (intro rebalance_aa) simp
      ultimately show ?thesis using 3 t by (auto simp: shrinks_def single_def)
    next
      case False
      obtain hk hv where h: "heir a = (hk, hv)" by (cases "heir a")
      have ih: "aa a \<Longrightarrow> aa (remove_node hk a) \<and> shrinks a (remove_node hk a)"
        using "2.IH"(3) [OF _ _ _ _ h [symmetric]] 3 False by simp
      show ?thesis using 3 False h shrunk_left [OF t, of "remove_node hk a"] ih t by simp
    qed
  qed
qed

subsection \<open>The entries in order\<close>

definition t_sorted :: "('k :: linorder, 'v) tree \<Rightarrow> bool" where
  "t_sorted t \<longleftrightarrow> sorted_wrt (<) (map fst (entries t))"

lemma t_sorted_Nil [simp]: "t_sorted Nil"
  by (simp add: t_sorted_def)

lemma t_sorted_Node [simp]:
  "t_sorted (Node i l a k v b p) \<longleftrightarrow> t_sorted a \<and> t_sorted b \<and> (\<forall>e \<in> set (entries a). fst e < k) \<and> (\<forall>e \<in> set (entries b). k < fst e)"
  by (auto simp: t_sorted_def sorted_wrt_append intro: less_trans)

lemma map_of_below: "(\<forall>e \<in> set xs. fst e < (x :: 'k :: linorder)) \<or> (\<forall>e \<in> set xs. x < fst e) \<Longrightarrow> map_of xs x = None"
  by (auto simp: map_of_eq_None_iff)

lemma tree_find_entries: "t_sorted t \<Longrightarrow> tree_find x t = map_of (entries t) x"
proof (induction t)
  case (Node i l a k v b p)
  consider "k < x" | "x < k" | "x = k" by (rule linorder_cases)
  then show ?case
  proof cases
    case 1
    then have "\<forall>e \<in> set (entries a). fst e < x" using Node.prems by auto
    then show ?thesis using 1 Node by (auto simp: Map.map_add_def map_of_below split: option.splits)
  next
    case 2
    then have "\<forall>e \<in> set (entries b). x < fst e" using Node.prems by auto
    then show ?thesis using 2 Node by (auto simp: Map.map_add_def map_of_below split: option.splits)
  next
    case 3
    then show ?thesis using Node.prems by (simp add: Map.map_add_def map_of_below)
  qed
qed simp

lemma filter_all_none: "\<forall>x \<in> set xs. P x \<Longrightarrow> filter P xs = xs" "\<forall>x \<in> set xs. \<not> P x \<Longrightarrow> filter P xs = []"
  by (simp_all add: filter_empty_conv)

lemma insert_node_found: "insert_node n key val t = Inl e \<longleftrightarrow> e = Thrown EEXIST \<and> tree_find key t \<noteq> None"
  by (induction n key val t rule: insert_node.induct) (auto simp: andThen_def split: sum.splits)

lemma insert_node_entries:
  assumes "t_sorted t" "insert_node n key val t = Inr t'"
  shows "entries t' = filter (\<lambda>e. fst e < key) (entries t) @ (key, val) # filter (\<lambda>e. key < fst e) (entries t) \<and> set (ids t') = insert n (set (ids t))
    \<and> (distinct (ids t) \<longrightarrow> n \<notin> set (ids t) \<longrightarrow> distinct (ids t'))"
  using assms
proof (induction n key val t arbitrary: t' rule: insert_node.induct)
  case (2 n key val i l a k v b p)
  note t = "2.prems"(1)
  consider "k < key" | "key < k" using "2.prems"(2) by (auto split: if_splits)
  then show ?case
  proof cases
    case 1
    then obtain b' where b': "insert_node n key val b = Inr b'" "t' = split (skew (Node i l a k v (set_parent (Some i) b') p))"
      using "2.prems"(2) by (cases "insert_node n key val b") auto
    have "\<forall>e \<in> set (entries a). fst e < key" using t 1 by auto
    then have "filter (\<lambda>e. fst e < key) (entries a) = entries a" "filter (\<lambda>e. key < fst e) (entries a) = []"
      by (intro filter_all_none; auto)+
    then show ?thesis using "2.IH"(1) [OF 1 _ b'(1)] b'(2) t 1 by auto
  next
    case 2
    then have nk: "\<not> k < key" by simp
    with 2 obtain a' where a': "insert_node n key val a = Inr a'" "t' = split (skew (Node i l (set_parent (Some i) a') k v b p))"
      using "2.prems"(2) by (cases "insert_node n key val a") auto
    have "\<forall>e \<in> set (entries b). key < fst e" using t 2 by auto
    then have "filter (\<lambda>e. key < fst e) (entries b) = entries b" "filter (\<lambda>e. fst e < key) (entries b) = []"
      by (intro filter_all_none; auto)+
    then show ?thesis using "2.IH"(2) [OF nk 2 _ a'(1)] a'(2) t 2 nk by auto
  qed
qed auto

lemma heir_last: "t \<noteq> Nil \<Longrightarrow> entries t = butlast (entries t) @ [heir t]"
proof (induction t rule: heir.induct)
  case (2 i l a k v j m c kj vj d q p)
  then show ?case by (simp add: butlast_append)
qed auto

lemma remove_node_entries:
  assumes "t_sorted t"
  shows "entries (remove_node key t) = filter (\<lambda>e. fst e \<noteq> key) (entries t) \<and> set (ids (remove_node key t)) \<subseteq> set (ids t)
    \<and> (distinct (ids t) \<longrightarrow> distinct (ids (remove_node key t)))"
  using assms
proof (induction key t rule: remove_node.induct)
  case (2 key i l a k v b p)
  note t = "2.prems"
  consider "k < key" | "key < k" | "k = key" by (rule linorder_cases)
  then show ?case
  proof cases
    case 1
    then have "\<forall>e \<in> set (entries a). fst e \<noteq> key" using t by auto
    then show ?thesis using 1 "2.IH"(1) [OF 1] t filter_all_none(1) [of "entries a" "\<lambda>e. fst e \<noteq> key"] by auto
  next
    case 2
    then have nk: "\<not> k < key" by simp
    have "\<forall>e \<in> set (entries b). fst e \<noteq> key" using t 2 by auto
    then show ?thesis using 2 nk "2.IH"(2) [OF nk 2] t filter_all_none(1) [of "entries b" "\<lambda>e. fst e \<noteq> key"] by auto
  next
    case 3
    have ne: "\<forall>e \<in> set (entries a). fst e \<noteq> key" "\<forall>e \<in> set (entries b). fst e \<noteq> key" using t 3 by auto
    note f = filter_all_none(1) [OF ne(1)] filter_all_none(1) [OF ne(2)]
    show ?thesis
    proof (cases "a = Nil \<or> b = Nil")
      case True
      then show ?thesis using 3 f by auto
    next
      case False
      obtain hk hv where h: "heir a = (hk, hv)" by (cases "heir a")
      have ih: "entries (remove_node hk a) = filter (\<lambda>e. fst e \<noteq> hk) (entries a) \<and> set (ids (remove_node hk a)) \<subseteq> set (ids a)
          \<and> (distinct (ids a) \<longrightarrow> distinct (ids (remove_node hk a)))"
        using "2.IH"(3) [OF _ _ _ _ h [symmetric]] 3 False t by simp
      have e: "entries a = butlast (entries a) @ [(hk, hv)]" using heir_last [of a] False h by simp
      have "sorted_wrt (<) (map fst (butlast (entries a) @ [(hk, hv)]))"
        unfolding e [symmetric] using t by (simp add: t_sorted_def [of a])
      then have "\<forall>e \<in> set (butlast (entries a)). fst e \<noteq> hk" by (auto simp: sorted_wrt_append)
      then have "filter (\<lambda>e. fst e \<noteq> hk) (butlast (entries a) @ [(hk, hv)]) = butlast (entries a)" by simp
      then have "filter (\<lambda>e. fst e \<noteq> hk) (entries a) = butlast (entries a)" using e by simp
      then have "entries (remove_node hk a) @ (hk, hv) # entries b = entries a @ entries b" using ih e by simp
      then show ?thesis using 3 False h ih f by auto
    qed
  qed
qed auto

text \<open>Rotations can lose the pointer to a parent, but leave none to a wrong one.\<close>

fun linked :: "('k, 'v) tree \<Rightarrow> bool" where
  "linked Nil \<longleftrightarrow> True"
| "linked (Node i l a k v b p) \<longleftrightarrow> linked a \<and> linked b \<and> t_parent a \<in> {None, Some i} \<and> t_parent b \<in> {None, Some i}"

lemma linked_set [simp]:
  "linked (set_parent q t) = linked t" "linked (set_level m t) = linked t" "t_parent (set_level m t) = t_parent t"
  by (cases t; simp)+

lemma skew_linked: "linked t \<Longrightarrow> linked (skew t) \<and> t_parent (skew t) \<in> {None, t_parent t}"
  by (induction t rule: skew.induct) auto

lemma split_linked: "linked t \<Longrightarrow> linked (split t) \<and> t_parent (split t) \<in> {None, t_parent t}"
  by (induction t rule: split.induct) auto

lemma fix_linked: "linked t \<Longrightarrow> linked (split (skew t)) \<and> t_parent (split (skew t)) \<in> {None, t_parent t}"
  using skew_linked [of t] split_linked [of "skew t"] by auto

lemma insert_node_linked:
  "insert_node n key val t = Inr t' \<Longrightarrow> linked t \<Longrightarrow> linked t' \<and> t_parent t' \<in> {None, t_parent t}"
proof (induction n key val t arbitrary: t' rule: insert_node.induct)
  case (2 n key val i l a k v b p)
  consider b' where "insert_node n key val b = Inr b'" "k < key" "t' = split (skew (Node i l a k v (set_parent (Some i) b') p))"
    | a' where "insert_node n key val a = Inr a'" "\<not> k < key" "key < k" "t' = split (skew (Node i l (set_parent (Some i) a') k v b p))"
    using "2.prems"(1) by (auto simp: andThen_def split: if_splits sum.splits)
  then show ?case
  proof cases
    case 1
    then have "linked (Node i l a k v (set_parent (Some i) b') p)" using "2.IH"(1) [OF 1(2) 1(1)] "2.prems"(2) by simp
    then show ?thesis using fix_linked 1(3) by fastforce
  next
    case 2
    then have "linked (Node i l (set_parent (Some i) a') k v b p)" using "2.IH"(2) [OF 2(2,3) 2(1)] "2.prems"(2) by simp
    then show ?thesis using fix_linked 2(4) by fastforce
  qed
qed auto

lemma rebalance_linked: "linked t \<Longrightarrow> linked (rebalance t) \<and> t_parent (rebalance t) \<in> {None, t_parent t}"
proof (cases t)
  case (Node i l a k v b p)
  assume "linked t"
  then have "linked (Node i (l - 1) a k v (if l - 1 < t_level b then set_level (l - 1) b else b) p)" using Node by auto
  from fix_linked [OF this] show ?thesis using Node \<open>linked t\<close> by (simp add: rebalance.simps)
qed (simp add: rebalance.simps)

lemma remove_node_linked: "linked t \<Longrightarrow> linked (remove_node key t) \<and> t_parent (remove_node key t) \<in> {None, t_parent t}"
proof (induction key t rule: remove_node.induct)
  case (2 key i l a k v b p)
  have "linked u \<and> t_parent u \<in> {None, p} \<Longrightarrow> linked (rebalance u) \<and> t_parent (rebalance u) \<in> {None, p}" for u :: "('a, 'b) tree"
    using rebalance_linked [of u] by auto
  then show ?case unfolding remove_node.simps t_parent.simps
    using 2 by (auto split: prod.split)
qed simp

subsection \<open>The tree as a map\<close>

definition aa_inv :: "('k :: linorder, 'v) aa_tree \<Rightarrow> bool" where
  "aa_inv t \<longleftrightarrow> aa (aa_root t) \<and> t_sorted (aa_root t) \<and> distinct (ids (aa_root t)) \<and> (\<forall>i \<in> set (ids (aa_root t)). i < aa_new t)
    \<and> linked (aa_root t) \<and> t_parent (aa_root t) = None"

definition aa_map :: "('k :: linorder, 'v) aa_tree \<Rightarrow> 'k \<rightharpoonup> 'v" where
  "aa_map t = map_of (entries (aa_root t))"

definition aa_empty :: "('k, 'v) aa_tree" where
  "aa_empty = \<lparr>aa_root = Nil, aa_new = 0\<rparr>"

lemma map_of_filter_key: "map_of (filter (\<lambda>e. P (fst e)) xs) x = (if P x then map_of xs x else None)"
  by (induction xs) auto

lemma sorted_filter: "t_sorted t \<Longrightarrow> sorted_wrt (<) (map fst (filter P (entries t)))"
  unfolding t_sorted_def sorted_wrt_map by (rule sorted_wrt_filter)

lemma aa_find: "aa_inv t \<Longrightarrow> tree_find k (aa_root t) = aa_map t k"
  by (simp add: aa_inv_def aa_map_def tree_find_entries)

lemma aa_add_Inl: "aa_inv t \<Longrightarrow> aa_add t k v = Inl e \<longleftrightarrow> e = Thrown EEXIST \<and> aa_map t k \<noteq> None"
  using insert_node_found [of "aa_new t" k v "aa_root t" e] aa_find [of t k]
  by (cases "insert_node (aa_new t) k v (aa_root t)") (simp_all add: aa_add_def)

lemma aa_add_Inr:
  assumes "aa_inv t" "aa_add t k v = Inr t'"
  shows "aa_inv t' \<and> aa_map t' = (aa_map t)(k \<mapsto> v) \<and> (kids (aa_root t) \<longrightarrow> kids (aa_root t'))
    \<and> t_parent (aa_root t') \<in> {None, t_parent (aa_root t)}"
proof -
  let ?es = "entries (aa_root t)"
  obtain r where r: "insert_node (aa_new t) k v (aa_root t) = Inr r" "t' = \<lparr>aa_root = r, aa_new = aa_new t + 1\<rparr>"
    using assms(2) by (auto simp: aa_add_def andThen_def split: sum.splits)
  have t: "aa (aa_root t)" "t_sorted (aa_root t)" "distinct (ids (aa_root t))" "aa_new t \<notin> set (ids (aa_root t))"
    using assms(1) by (auto simp: aa_inv_def)
  note e = insert_node_entries [OF t(2) r(1)] and b = insert_node_balanced [OF r(1) t(1)]
  have m: "entries r = filter (\<lambda>e. fst e < k) ?es @ (k, v) # filter (\<lambda>e. k < fst e) ?es" using e by blast
  have "sorted_wrt (<) (map fst (filter (\<lambda>e. fst e < k) ?es))" "sorted_wrt (<) (map fst (filter (\<lambda>e. k < fst e) ?es))"
    by (rule sorted_filter [OF t(2)])+
  then have "t_sorted r" unfolding t_sorted_def [of r] m map_append list.map sorted_wrt_append by (auto intro: less_trans)
  moreover have "aa_map t' = (aa_map t)(k \<mapsto> v)"
  proof
    fix x
    consider "x < k" | "k < x" | "x = k" by (rule linorder_cases)
    then show "aa_map t' x = ((aa_map t)(k \<mapsto> v)) x"
      using map_of_filter_key [of "\<lambda>x. x < k" ?es x] map_of_filter_key [of "\<lambda>x. k < x" ?es x]
      by cases (auto simp: aa_map_def r(2) m Map.map_add_def split: option.splits)
  qed
  moreover have "distinct (ids r) \<and> (\<forall>i \<in> set (ids r). i < aa_new t + 1)"
    using e t(3,4) assms(1) by (auto simp: aa_inv_def less_Suc_eq)
  moreover have "linked r \<and> t_parent r = None" using insert_node_linked [OF r(1)] assms(1) by (auto simp: aa_inv_def)
  ultimately show ?thesis using b r(2) by (simp add: aa_inv_def)
qed

lemma aa_remove_inv: "aa_inv t \<Longrightarrow> aa_inv (aa_remove t k) \<and> aa_map (aa_remove t k) = (aa_map t)(k := None)"
proof -
  assume i: "aa_inv t"
  then have t: "aa (aa_root t)" "t_sorted (aa_root t)" by (simp_all add: aa_inv_def)
  note e = remove_node_entries [OF t(2), of k] and b = remove_node_balanced [OF t(1), of k]
  have "t_sorted (remove_node k (aa_root t))" using e sorted_filter [OF t(2)] by (simp add: t_sorted_def [of "remove_node k (aa_root t)"])
  moreover have "aa_map (aa_remove t k) x = ((aa_map t)(k := None)) x" for x
    using e map_of_filter_key [of "\<lambda>x. x \<noteq> k" "entries (aa_root t)" x] by (simp add: aa_map_def aa_remove_def)
  moreover have "linked (remove_node k (aa_root t)) \<and> t_parent (remove_node k (aa_root t)) = None"
    using remove_node_linked [of "aa_root t" k] i by (auto simp: aa_inv_def)
  ultimately show ?thesis using i e b by (auto simp: aa_inv_def aa_remove_def)
qed

interpretation aa_dict: dictionary aa_inv aa_map "\<lambda>_. None" None "\<lambda>t k v. Some (aa_add t k v)" "\<lambda>t k. ok (None, aa_remove t k)" "\<lambda>t k. Some (aa_get t k)"
proof unfold_locales
  fix t :: "('a, 'b) aa_tree" and k v e m
  show "aa_inv t \<Longrightarrow> dict_add None (aa_map t) k v = Inl e \<Longrightarrow> Some (aa_add t k v) = Some (Inl e)"
    using aa_add_Inl [of t k v e] by (auto simp: dict_add_def split: if_splits)
  show "aa_inv t \<Longrightarrow> dict_add None (aa_map t) k v = Inr m \<Longrightarrow> \<exists>t'. Some (aa_add t k v) = ok t' \<and> aa_inv t' \<and> aa_map t' = m"
    using aa_add_Inr [of t k v] aa_add_Inl [of t k v] by (cases "aa_add t k v") (auto simp: dict_add_def split: if_splits)
  show "aa_inv t \<Longrightarrow> \<exists>t'. ok (None :: bool option, aa_remove t k) = ok (None, t') \<and> aa_inv t' \<and> aa_map t' = (aa_map t)(k := None)" by (simp add: aa_remove_inv)
  show "aa_inv t \<Longrightarrow> Some (aa_get t k) = Some (dict_get (aa_map t) k)" by (simp add: aa_get_def dict_get_def aa_find)
qed

lemma aa_empty_inv: "aa_inv aa_empty" "aa_map aa_empty = Map.empty"
  by (simp_all add: aa_inv_def aa_map_def aa_empty_def)

definition aa_run :: "('k :: linorder, 'v) aa_tree \<Rightarrow> ('k, 'v) call list \<Rightarrow> (('k, 'v) aa_tree \<times> 'v answer result list) option" where
  "aa_run = run_calls (\<lambda>t k v. Some (aa_add t k v)) (\<lambda>t k. ok (None, aa_remove t k)) (\<lambda>t k. Some (aa_get t k))"

text \<open>C18: Starting from an empty tree, whatever \<^verbatim>\<open>add\<close>, \<^verbatim>\<open>remove\<close> and \<^verbatim>\<open>get\<close> calls are made, they return
  what the same calls return on a map, and the tree stays in order and in balance.\<close>

theorem tree_refines_map:
  "\<exists>t rs. aa_run aa_empty cs = Some (t, rs) \<and> aa_inv t \<and> map_calls (\<lambda>_. None) None Map.empty cs = (aa_map t, rs)"
  using aa_dict.run_refines [OF aa_empty_inv(1), of cs] by (simp add: aa_empty_inv(2) aa_run_def)

subsection \<open>The height\<close>

fun t_height :: "('k, 'v) tree \<Rightarrow> nat" where
  "t_height Nil = 0"
| "t_height (Node i l a k v b p) = Suc (max (t_height a) (t_height b))"

lemma aa_height: "aa t \<Longrightarrow> int (t_height t) \<le> 2 * t_level t - (if single t then 1 else 0)"
proof (induction t)
  case (Node i l a k v b p)
  then have a: "int (t_height a) \<le> 2 * (l - 1)" by (auto split: if_splits)
  have "int (t_height b) \<le> (if t_level b = l - 1 then 2 * (l - 1) else 2 * l - 1)"
    using Node by (auto simp: single_def split: if_splits)
  then show ?case using a Node.prems by (auto simp: single_def)
qed (simp add: single_def)

lemma aa_size: "aa t \<Longrightarrow> 2 ^ nat (t_level t) \<le> length (entries t) + 1"
proof (induction t)
  case (Node i l a k v b p)
  have l: "0 \<le> t_level a" "l = t_level a + 1" "t_level a \<le> t_level b" using Node.prems aa_level(1) by auto
  then have n: "nat l = Suc (nat (t_level a))" by simp
  have "(2 :: nat) ^ nat (t_level a) \<le> 2 ^ nat (t_level b)" using l by (intro power_increasing) simp_all
  then show ?case using Node n by (simp del: power_increasing_iff)
qed simp

lemma aa_height_bound: "aa_inv t \<Longrightarrow> 2 ^ ((t_height (aa_root t) + 1) div 2) \<le> card (dom (aa_map t)) + 1"
proof -
  assume "aa_inv t"
  then have t: "aa (aa_root t)" "t_sorted (aa_root t)" by (simp_all add: aa_inv_def)
  have "int (t_height (aa_root t)) \<le> 2 * t_level (aa_root t)" using aa_height [OF t(1)] by (auto split: if_splits)
  then have "(t_height (aa_root t) + 1) div 2 \<le> nat (t_level (aa_root t))" by linarith
  then have "(2 :: nat) ^ ((t_height (aa_root t) + 1) div 2) \<le> 2 ^ nat (t_level (aa_root t))" by (intro power_increasing) simp_all
  also have "\<dots> \<le> length (entries (aa_root t)) + 1" by (rule aa_size [OF t(1)])
  also have "length (entries (aa_root t)) = card (dom (aa_map t))"
  proof -
    have "distinct (map fst (entries (aa_root t)))" using t(2) by (simp add: t_sorted_def strict_sorted_iff)
    then show ?thesis using distinct_card [of "map fst (entries (aa_root t))"] by (simp add: aa_map_def dom_map_of_conv_image_fst)
  qed
  finally show ?thesis .
qed

text \<open>C19: Whatever \<^verbatim>\<open>add\<close>, \<^verbatim>\<open>remove\<close> and \<^verbatim>\<open>get\<close> calls are made on an empty tree, they leave a tree whose height
  is at most \<open>2 log (n + 1)\<close>, where \<open>n\<close> is the number of entries that the same calls leave in a map.\<close>

theorem tree_height_bound:
  "\<exists>t rs. aa_run aa_empty cs = Some (t, rs)
    \<and> 2 ^ ((t_height (aa_root t) + 1) div 2) \<le> card (dom (fst (map_calls (\<lambda>_. None) None Map.empty cs))) + 1"
proof -
  obtain t rs where "aa_run aa_empty cs = Some (t, rs)" "aa_inv t" "map_calls (\<lambda>_. None) None Map.empty cs = (aa_map t, rs)"
    using aa_dict.run_refines [OF aa_empty_inv(1), of cs] by (auto simp: aa_empty_inv(2) aa_run_def)
  then show ?thesis using aa_height_bound [of t] by auto
qed

subsection \<open>Iterating\<close>

text \<open>The loop \<^verbatim>\<open>while (node = it.next())\<close> of the clients: the nodes it visits.\<close>

partial_function (option) it_all :: "('k, 'v) tree \<Rightarrow> tree_iter \<Rightarrow> nat list run" where
  "it_all t it =
    obind (it_next t it) (\<lambda>(it, n).
      case n of None \<Rightarrow> ok [] | Some i \<Rightarrow> obind (it_all t it) (\<lambda>is. ok (i # is)))"

declare it_all.simps [code]

text \<open>The key and value of a node.\<close>

fun t_entry :: "('k, 'v) tree \<Rightarrow> ('k \<times> 'v) option" where
  "t_entry Nil = None"
| "t_entry (Node i l a k v b p) = Some (k, v)"

lemma node_at_out: "i \<notin> set (ids t) \<Longrightarrow> node_at i t = Nil"
  by (induction t) auto

lemma node_at_child:
  assumes "distinct (ids (Node i l a k v b p))"
  shows "x \<in> set (ids a) \<Longrightarrow> node_at x (Node i l a k v b p) = node_at x a"
    "x \<in> set (ids b) \<Longrightarrow> node_at x (Node i l a k v b p) = node_at x b"
proof -
  have in_nz: "x \<in> set (ids t) \<Longrightarrow> node_at x t \<noteq> Nil" for t :: "('a, 'b) tree"
    by (induction t) (auto split: tree.splits)
  show "x \<in> set (ids a) \<Longrightarrow> node_at x (Node i l a k v b p) = node_at x a"
    using assms in_nz [of a] by (auto split: tree.split)
  assume "x \<in> set (ids b)"
  then have "x \<noteq> i" "x \<notin> set (ids a)" using assms by auto
  then show "node_at x (Node i l a k v b p) = node_at x b" using node_at_out [of x a] by simp
qed

lemma getFirst_ids: "t \<noteq> Nil \<Longrightarrow> getFirst t = Some (hd (ids t))"
  by (induction t rule: getFirst.induct) (auto simp: hd_append)

lemma t_id_in: "t \<noteq> Nil \<Longrightarrow> \<exists>i \<in> set (ids t). t_id t = Some i \<and> node_at i t = t"
  by (cases t) auto

text \<open>Single steps, for walking through a given tree.\<close>

lemma climb_step:
  "node_at i t = Node i' l a k v b None \<Longrightarrow> climb up t i = ok None"
  "node_at i t = Node i' l a k v b (Some j) \<Longrightarrow> node_at j t = Node j' l' a' k' v' b' p \<Longrightarrow>
    climb up t i = (if t_id (if up then b' else a') = Some i then climb up t j else ok (Some j))"
  by (subst climb.simps; simp)+

lemma it_all_step:
  "it_all t \<lparr>it_pre = q, it_suc = None\<rparr> = ok []"
  "getNext t i = ok s \<Longrightarrow>
    it_all t \<lparr>it_pre = q, it_suc = Some i\<rparr> = obind (it_all t \<lparr>it_pre = Some i, it_suc = s\<rparr>) (\<lambda>is. ok (i # is))"
  by (subst it_all.simps; simp add: it_next_def)+

text \<open>In the subtree \<open>s\<close> of \<open>T\<close> the next node is the next one in order, and behind the last one the
  search goes on at the root of \<open>s\<close>; unless a pointer to a parent is missing on the way.\<close>

definition stops :: "('k, 'v) tree \<Rightarrow> 'a option run \<Rightarrow> 'a option run \<Rightarrow> bool" where
  "stops s r r' \<longleftrightarrow> r = r' \<or> \<not> kids s \<and> r = ok None"

lemma climb_child:
  assumes "node_at i T = Node i l a k v b p" "linked (Node i l a k v b p)" "distinct (ids (Node i l a k v b p))"
  shows "\<forall>x \<in> set (ids a). node_at x T = node_at x a \<Longrightarrow> a \<noteq> Nil \<Longrightarrow>
      climb True T (the (t_id a)) = ok (Some i) \<or> t_parent a = None \<and> climb True T (the (t_id a)) = ok None"
    "\<forall>x \<in> set (ids b). node_at x T = node_at x b \<Longrightarrow> b \<noteq> Nil \<Longrightarrow>
      climb True T (the (t_id b)) = climb True T i \<or> t_parent b = None \<and> climb True T (the (t_id b)) = ok None"
proof -
  assume a: "\<forall>x \<in> set (ids a). node_at x T = node_at x a" "a \<noteq> Nil"
  obtain x where x: "x \<in> set (ids a)" "t_id a = Some x" "node_at x a = a" using t_id_in [OF a(2)] by blast
  obtain m c kj vj d q where n: "a = Node x m c kj vj d q" using x(2) by (cases a) auto
  have "t_id b \<noteq> Some x" using assms(3) x(1) t_id_in [of b] by (cases "b = Nil") auto
  then show "climb True T (the (t_id a)) = ok (Some i) \<or> t_parent a = None \<and> climb True T (the (t_id a)) = ok None"
    using a(1) x assms(1,2) n by (subst (1 2) climb.simps) (cases q; simp)
next
  assume b: "\<forall>x \<in> set (ids b). node_at x T = node_at x b" "b \<noteq> Nil"
  obtain x where x: "x \<in> set (ids b)" "t_id b = Some x" "node_at x b = b" using t_id_in [OF b(2)] by blast
  obtain m c kj vj d q where n: "b = Node x m c kj vj d q" using x(2) by (cases b) auto
  have "climb True T x = (case q of None \<Rightarrow> ok None | Some j \<Rightarrow> climb True T i)"
    using b(1) x assms(1,2) n by (subst climb.simps) (cases q; simp)
  then show "climb True T (the (t_id b)) = climb True T i \<or> t_parent b = None \<and> climb True T (the (t_id b)) = ok None"
    using x(2) n by (cases q) simp_all
qed

lemma getNext_subtree:
  assumes "distinct (ids s)" "linked s" "\<forall>i \<in> set (ids s). node_at i T = node_at i s" "j < length (ids s)"
  shows "stops s (getNext T (ids s ! j)) (if Suc j < length (ids s) then ok (Some (ids s ! Suc j)) else climb True T (the (t_id s)))"
  using assms
proof (induction s arbitrary: j)
  case (Node i l a k v b p)
  let ?s = "Node i l a k v b p" and ?n = "length (ids a)"
  note child = node_at_child [OF Node.prems(1)]
  have i: "node_at i T = ?s" using Node.prems(3) by simp
  have a: "\<forall>x \<in> set (ids a). node_at x T = node_at x a" using Node.prems(3) child(1) by simp
  have b: "\<forall>x \<in> set (ids b). node_at x T = node_at x b" using Node.prems(3) child(2) by simp
  note climb = climb_child [OF i Node.prems(2,1)]
  have k: "kids ?s \<longrightarrow> kids a \<and> (a = Nil \<or> t_parent a \<noteq> None) \<and> kids b \<and> (b = Nil \<or> t_parent b \<noteq> None)" by auto
  consider "j < ?n" | "j = ?n" | "?n < j" by linarith
  then show ?case
  proof cases
    case 1
    then have nz: "a \<noteq> Nil" by auto
    have "stops a (getNext T (ids a ! j)) (if Suc j < ?n then ok (Some (ids a ! Suc j)) else climb True T (the (t_id a)))"
      using 1 Node.IH(1) [of j] Node.prems(1,2) a by simp
    moreover have "ids ?s ! j = ids a ! j" "ids ?s ! Suc j = (if Suc j < ?n then ids a ! Suc j else i)" "Suc j < length (ids ?s)"
      using 1 by (auto simp: nth_append)
    ultimately show ?thesis using climb(1) [OF a nz] k nz unfolding stops_def by (cases "Suc j < ?n"; simp only: if_True if_False; metis)
  next
    case 2
    show ?thesis
    proof (cases "b = Nil")
      case True
      then show ?thesis using 2 i by (simp add: getNext_def stops_def)
    next
      case False
      then have "ids b \<noteq> []" by (cases b) auto
      then show ?thesis using 2 i False getFirst_ids [OF False] by (simp add: getNext_def stops_def nth_append hd_conv_nth)
    qed
  next
    case 3
    have j: "ids ?s ! j = ids b ! (j - Suc ?n)" "ids ?s ! Suc j = ids b ! Suc (j - Suc ?n)" "j - Suc ?n < length (ids b)"
      using 3 Node.prems(4) by (auto simp: nth_append nth_Cons' Suc_diff_Suc)
    moreover have "Suc j < length (ids ?s) \<longleftrightarrow> Suc (j - Suc ?n) < length (ids b)" using 3 by auto
    moreover have nz: "b \<noteq> Nil" using j(3) by auto
    moreover have "stops b (getNext T (ids b ! (j - Suc ?n)))
        (if Suc (j - Suc ?n) < length (ids b) then ok (Some (ids b ! Suc (j - Suc ?n))) else climb True T (the (t_id b)))"
      using Node.IH(2) [of "j - Suc ?n"] Node.prems(1,2) b j(3) by simp
    ultimately show ?thesis using climb(2) [OF b nz] k nz unfolding stops_def t_id.simps option.sel by (cases "Suc j < length (ids ?s)"; simp only: if_True if_False; metis)
  qed
qed simp

text \<open>A walk from the \<open>j\<close>-th node visits it and some of those behind it, in order, and all of them
  when no pointer is missing.\<close>

lemma it_all_from:
  assumes "distinct (ids t)" "linked t" "t_parent t = None" "j < length (ids t)"
  shows "\<exists>n. it_all t \<lparr>it_pre = q, it_suc = Some (ids t ! j)\<rparr> = ok (take (Suc n) (drop j (ids t)))
    \<and> (kids t \<longrightarrow> length (ids t) \<le> j + Suc n)"
  using assms(4)
proof (induction "length (ids t) - j" arbitrary: j q)
  case (Suc n)
  have top: "climb True t (the (t_id t)) = ok None"
    using assms(3) Suc.prems by (cases t; subst climb.simps) auto
  have nx: "stops t (getNext t (ids t ! j)) (if Suc j < length (ids t) then ok (Some (ids t ! Suc j)) else ok None)"
    using getNext_subtree [OF assms(1,2) _ Suc.prems, of t] top by (auto split: if_splits)
  have d: "drop j (ids t) = ids t ! j # drop (Suc j) (ids t)" using Suc.prems by (rule Cons_nth_drop_Suc [symmetric])
  have stop: "it_all t \<lparr>it_pre = q, it_suc = Some (ids t ! j)\<rparr> = ok (take (Suc 0) (drop j (ids t)))" if "getNext t (ids t ! j) = ok None"
    using that d by (simp add: it_all_step)
  show ?case
  proof (cases "getNext t (ids t ! j) = ok None")
    case True
    then have "kids t \<longrightarrow> length (ids t) \<le> j + Suc 0" using nx Suc.prems by (auto simp: stops_def split: if_splits)
    then show ?thesis using stop [OF True] by blast
  next
    case False
    then have n: "Suc j < length (ids t)" "getNext t (ids t ! j) = ok (Some (ids t ! Suc j))"
      using nx by (auto simp: stops_def split: if_splits)
    obtain m where m: "it_all t \<lparr>it_pre = Some (ids t ! j), it_suc = Some (ids t ! Suc j)\<rparr> = ok (take (Suc m) (drop (Suc j) (ids t)))"
        "kids t \<longrightarrow> length (ids t) \<le> Suc j + Suc m"
    proof -
      have "n = length (ids t) - Suc j" using Suc.hyps(2) by simp
      then show ?thesis using Suc.hyps(1) [of "Suc j" "Some (ids t ! j)"] n(1) that by blast
    qed
    then have "it_all t \<lparr>it_pre = q, it_suc = Some (ids t ! j)\<rparr> = ok (take (Suc (Suc m)) (drop j (ids t)))"
      using n(2) d by (simp add: it_all_step)
    then show ?thesis using m(2) by (intro exI [of _ "Suc m"]) simp
  qed
qed simp

lemma node_entries: "distinct (ids t) \<Longrightarrow> map (\<lambda>i. t_entry (node_at i t)) (ids t) = map Some (entries t)"
proof (induction t)
  case (Node i l a k v b p)
  note child = node_at_child [OF Node.prems]
  have m: "map (\<lambda>x. t_entry (node_at x (Node i l a k v b p))) (ids a) = map (\<lambda>x. t_entry (node_at x a)) (ids a)"
    "map (\<lambda>x. t_entry (node_at x (Node i l a k v b p))) (ids b) = map (\<lambda>x. t_entry (node_at x b)) (ids b)"
    using child by (auto intro: map_cong simp del: node_at.simps)
  have "t_entry (node_at i (Node i l a k v b p)) = Some (k, v)" by simp
  moreover have "distinct (ids a)" "distinct (ids b)" using Node.prems by simp_all
  ultimately show ?case unfolding ids.simps entries.simps map_append list.map m using Node.IH by metis
qed simp

text \<open>The nodes that a walk visits, as keys and values.\<close>

definition aa_walk :: "('k, 'v) aa_tree \<Rightarrow> ('k \<times> 'v) option list run" where
  "aa_walk t = obind (it_all (aa_root t) (aa_begin t)) (\<lambda>is. ok (map (\<lambda>i. t_entry (node_at i (aa_root t))) is))"

lemma walk_prefix:
  assumes "aa_inv t"
  shows "\<exists>n. aa_walk t = ok (map Some (take (Suc n) (entries (aa_root t)))) \<and> (kids (aa_root t) \<longrightarrow> length (entries (aa_root t)) \<le> Suc n)"
proof (cases "aa_root t")
  case Nil
  then show ?thesis by (simp add: aa_walk_def aa_begin_def it_all_step)
next
  case (Node i l a k v b p)
  have t: "distinct (ids (aa_root t))" "linked (aa_root t)" "t_parent (aa_root t) = None" using assms by (simp_all add: aa_inv_def)
  have nz: "aa_root t \<noteq> Nil" "0 < length (ids (aa_root t))" using Node by simp_all
  note m = node_entries [OF t(1)]
  have l: "length (ids (aa_root t)) = length (entries (aa_root t))" using arg_cong [OF m, of length] by simp
  have g: "getFirst (aa_root t) = Some (ids (aa_root t) ! 0)" using getFirst_ids [OF nz(1)] nz(2) by (simp add: hd_conv_nth)
  obtain n where "it_all (aa_root t) \<lparr>it_pre = None, it_suc = Some (ids (aa_root t) ! 0)\<rparr> = ok (take (Suc n) (ids (aa_root t)))"
      "kids (aa_root t) \<longrightarrow> length (ids (aa_root t)) \<le> Suc n"
    using it_all_from [OF t nz(2), of None] by auto
  moreover have "map (\<lambda>i. t_entry (node_at i (aa_root t))) (take (Suc n) (ids (aa_root t))) = map Some (take (Suc n) (entries (aa_root t)))"
    using arg_cong [OF m, of "take (Suc n)"] by (simp add: take_map)
  ultimately show ?thesis using g l by (intro exI [of _ n]) (simp add: aa_walk_def aa_begin_def)
qed

text \<open>Adding entries one after the other.\<close>

fun aa_adds :: "('k :: linorder, 'v) aa_tree \<Rightarrow> ('k \<times> 'v) list \<Rightarrow> ('k, 'v) aa_tree result" where
  "aa_adds t [] = Inr t"
| "aa_adds t ((k, v) # es) = andThen (aa_add t k v) (\<lambda>t. aa_adds t es)"

lemma aa_add_mset:
  assumes "aa_inv t" "aa_add t k v = Inr t'"
  shows "mset (entries (aa_root t')) = add_mset (k, v) (mset (entries (aa_root t)))"
proof -
  let ?es = "entries (aa_root t)"
  obtain r where r: "insert_node (aa_new t) k v (aa_root t) = Inr r" "t' = \<lparr>aa_root = r, aa_new = aa_new t + 1\<rparr>"
    using assms(2) by (auto simp: aa_add_def andThen_def split: sum.splits)
  have t: "t_sorted (aa_root t)" using assms(1) by (simp add: aa_inv_def)
  have "k \<notin> fst ` set ?es"
    using aa_add_Inl [OF assms(1), of k v "Thrown EEXIST"] assms(2) by (auto simp: aa_map_def map_of_eq_None_iff)
  then have "\<forall>e \<in> set ?es. k < fst e \<longleftrightarrow> \<not> fst e < k" by force
  then have "filter (\<lambda>e. k < fst e) ?es = filter (\<lambda>e. \<not> fst e < k) ?es" by (intro filter_cong) auto
  then have "mset (entries r) = add_mset (k, v) (mset (filter (\<lambda>e. fst e < k) ?es) + mset (filter (\<lambda>e. \<not> fst e < k) ?es))"
    using insert_node_entries [OF t r(1)] by simp
  then show ?thesis unfolding r(2) by (simp add: mset_filter)
qed

lemma aa_adds_linked:
  assumes "aa_inv t" "kids (aa_root t)" "t_parent (aa_root t) = None" "distinct (map fst es)"
    "fst ` set es \<inter> fst ` set (entries (aa_root t)) = {}"
  shows "\<exists>t'. aa_adds t es = Inr t' \<and> aa_inv t' \<and> kids (aa_root t') \<and> t_parent (aa_root t') = None
    \<and> mset (entries (aa_root t')) = mset (entries (aa_root t)) + mset es"
  using assms
proof (induction t es rule: aa_adds.induct)
  case (2 t k v es)
  have "aa_map t k = None" using "2.prems"(5) by (auto simp: aa_map_def map_of_eq_None_iff)
  then obtain t1 where t1: "aa_add t k v = Inr t1"
    using aa_add_Inl [OF "2.prems"(1), of k v] by (cases "aa_add t k v") auto
  note a = aa_add_Inr [OF "2.prems"(1) t1] and m = aa_add_mset [OF "2.prems"(1) t1]
  have "set (entries (aa_root t1)) = insert (k, v) (set (entries (aa_root t)))" 
    using arg_cong [OF m, of set_mset] by simp
  then have d: "fst ` set es \<inter> fst ` set (entries (aa_root t1)) = {}" using "2.prems"(4,5) by auto
  have "\<exists>t'. aa_adds t1 es = Inr t' \<and> aa_inv t' \<and> kids (aa_root t') \<and> t_parent (aa_root t') = None
    \<and> mset (entries (aa_root t')) = mset (entries (aa_root t1)) + mset es"
    using "2.IH" [of t1] a d "2.prems" by simp
  then show ?case using t1 m by auto
qed simp

lemma adds_walk:
  assumes "distinct (map fst es)"
  shows "\<exists>t. aa_adds aa_empty es = Inr t \<and> aa_walk t = ok (map Some (sort_key fst es))"
proof -
  obtain t where t: "aa_adds aa_empty es = Inr t" "aa_inv t" "kids (aa_root t)" "t_parent (aa_root t) = None"
      "mset (entries (aa_root t)) = mset es"
    using aa_adds_linked [OF aa_empty_inv(1), of es] assms by (fastforce simp: aa_empty_def)
  have "sorted (map fst (entries (aa_root t)))"
    using t(2) by (simp add: aa_inv_def t_sorted_def strict_sorted_imp_sorted)
  then have "sort_key fst es = entries (aa_root t)"
    using assms t(5) by (intro sort_key_inj_key_eq) (simp_all add: distinct_map)
  moreover have "aa_walk t = ok (map Some (entries (aa_root t)))" using walk_prefix [OF t(2)] t(3) by auto
  ultimately show ?thesis using t(1) by metis
qed

text \<open>C20: The entries added to an empty tree under different keys are all there, and a client that
  walks through them with the iterator gets to each of them, in the order of the keys, and to the
  end.\<close>

theorem tree_iterates:
  assumes "distinct (map fst es)"
  shows "\<exists>t. aa_adds aa_empty es = Inr t \<and> aa_walk t = ok (map Some (sort_key fst es))"
  using assms by (rule adds_walk)

theorem tree_iterates_witness:
  "\<exists>t. aa_adds aa_empty [(3 :: nat, ''c''), (1, ''a''), (2, ''b'')] = Inr t
    \<and> aa_walk t = ok (map Some [(1, ''a''), (2, ''b''), (3, ''c'')])"
  using tree_iterates [of "[(3 :: nat, ''c''), (1, ''a''), (2, ''b'')]"] by (simp add: sort_key_simps)

lemmas walking = aa_walk_def aa_begin_def it_all_step getNext_def climb_step

text \<open>Rotations within rotations forget to set the parent of the node they bring up. So once an
  entry has been removed a walk can end early: here five of the nine entries that are left are
  visited, though the tree still finds the others.\<close>

theorem removal_ends_walk:
  "case aa_adds aa_empty (map (\<lambda>k. (k, ())) [8, 6, 2, 7, 5, 3, 9, 4, 0, 1 :: int]) of
     Inr t \<Rightarrow> aa_walk t = ok (map (\<lambda>k. Some (k, ())) [0, 1, 2, 3, 4, 5, 6, 7, 8, 9])
       \<and> aa_walk (aa_remove t 0) = ok (map (\<lambda>k. Some (k, ())) [1, 2, 3, 4, 5])
       \<and> filter (aa_contains (aa_remove t 0)) [0, 1, 2, 3, 4, 5, 6, 7, 8, 9] = [1, 2, 3, 4, 5, 6, 7, 8, 9]
   | Inl e \<Rightarrow> False"
  by (simp add: aa_empty_def aa_add_def aa_remove_def rebalance.simps aa_contains_def walking)

end
