(* ===== verification/HashTable.thy ===== *)
theory HashTable
  imports Dictionary
begin

text \<open>
  The hash table of \<^verbatim>\<open>include/es/hashtable.h\<close>, which keeps the interfaces known to the kernel. Its
  elements lie in an array; the buckets and the list of free elements are chains of pointers through
  them. Here a pointer is the element's index in the array, or none for 0, and the function \<open>hf\<close> is the
  template argument \<^verbatim>\<open>H\<close>. Two keys are the same when \<^verbatim>\<open>EQ\<close> says so: equality of keys stands for it.
\<close>

subsection \<open>The table\<close>

text \<open>An element is constructed without a key and a value: they are none until it is allocated.\<close>

record ('k, 'v) element =
  el_entry :: "('k \<times> 'v) option"
  el_next :: "nat option"

record ('k, 'v) hashtable =
  ht_entries :: "('k, 'v) element list"
  ht_table :: "nat option list"
  ht_free :: "nat option"

text \<open>The hash of a name: \<^verbatim>\<open>char\<close> is signed, so a byte is extended with its sign.\<close>

definition hash_name :: "u8 list \<Rightarrow> u32" where
  "hash_name cs = foldl (\<lambda>h c. push_bit 1 h XOR scast c) 0 cs"

definition ht_size :: "('k, 'v) hashtable \<Rightarrow> nat" where
  "ht_size t = length (ht_entries t)"

definition allocElement :: "('k, 'v) hashtable \<Rightarrow> (nat \<times> ('k, 'v) hashtable) result" where
  "allocElement t =
    (case ht_free t of
       None \<Rightarrow> Inl (Thrown ENOSPC)
     | Some e \<Rightarrow> Inr (e, t\<lparr>ht_free := el_next (ht_entries t ! e)\<rparr>))"

definition set_next :: "nat \<Rightarrow> nat option \<Rightarrow> ('k, 'v) hashtable \<Rightarrow> ('k, 'v) hashtable" where
  "set_next e p t = t\<lparr>ht_entries := (ht_entries t)[e := (ht_entries t ! e)\<lparr>el_next := p\<rparr>]\<rparr>"

definition freeElement :: "nat \<Rightarrow> ('k, 'v) hashtable \<Rightarrow> ('k, 'v) hashtable" where
  "freeElement e t = (set_next e (ht_free t) t)\<lparr>ht_free := Some e\<rparr>"

text \<open>The constructor, with what the memory of the table holds before it: every element is free, the
  last one in front.\<close>

definition ht_new :: "nat option list \<Rightarrow> ('k, 'v) hashtable" where
  "ht_new junk =
    fold (\<lambda>i t. (freeElement i t)\<lparr>ht_table := (ht_table t)[i := None]\<rparr>) [0..<length junk]
      \<lparr>ht_entries = map (\<lambda>q. \<lparr>el_entry = None, el_next = q\<rparr>) junk, ht_table = junk, ht_free = None\<rparr>"

definition ht_bucket :: "('k \<Rightarrow> nat) \<Rightarrow> ('k, 'v) hashtable \<Rightarrow> 'k \<Rightarrow> nat" where
  "ht_bucket hf t key = hf key mod ht_size t"

text \<open>The loop over a chain from the pointer \<open>p\<close>: the element with the key and the element before it.\<close>

partial_function (option) ht_find ::
  "('k, 'v) hashtable \<Rightarrow> 'k \<Rightarrow> nat option \<Rightarrow> nat option \<Rightarrow> (nat option \<times> nat) option run"
where
  "ht_find t key prev p =
    (case p of
       None \<Rightarrow> ok None
     | Some e \<Rightarrow>
         (case el_entry (ht_entries t ! e) of
            None \<Rightarrow> Some (Inl Undefined)
          | Some (k, v) \<Rightarrow> if key = k then ok (Some (prev, e)) else ht_find t key (Some e) (el_next (ht_entries t ! e))))"

definition ht_contains :: "('k \<Rightarrow> nat) \<Rightarrow> ('k, 'v) hashtable \<Rightarrow> 'k \<Rightarrow> bool run" where
  "ht_contains hf t key =
    obind (ht_find t key None (ht_table t ! ht_bucket hf t key)) (\<lambda>r. ok (r \<noteq> None))"

definition ht_get :: "('k \<Rightarrow> nat) \<Rightarrow> ('k, 'v) hashtable \<Rightarrow> 'k \<Rightarrow> 'v run" where
  "ht_get hf t key =
    obind (ht_find t key None (ht_table t ! ht_bucket hf t key)) (\<lambda>r.
      case r of
        None \<Rightarrow> Some (Inl (Thrown ENOENT))
      | Some (_, e) \<Rightarrow>
          (case el_entry (ht_entries t ! e) of None \<Rightarrow> Some (Inl Undefined) | Some (k, v) \<Rightarrow> ok v))"

definition ht_add :: "('k \<Rightarrow> nat) \<Rightarrow> ('k, 'v) hashtable \<Rightarrow> 'k \<Rightarrow> 'v \<Rightarrow> ('k, 'v) hashtable run" where
  "ht_add hf t key val =
    (let i = ht_bucket hf t key in
     obind (ht_find t key None (ht_table t ! i)) (\<lambda>r.
       if r \<noteq> None then Some (Inl (Thrown EEXIST))
       else Some (andThen (allocElement t) (\<lambda>(e, t).
         Inr (t\<lparr>ht_entries := (ht_entries t)[e := \<lparr>el_entry = Some (key, val), el_next = ht_table t ! i\<rparr>],
                ht_table := (ht_table t)[i := Some e]\<rparr>)))))"

text \<open>\<^verbatim>\<open>*prev = elm->next\<close>, where \<^verbatim>\<open>prev\<close> points to the bucket or to the link of the element before.\<close>

definition ht_unlink :: "nat \<Rightarrow> nat option \<Rightarrow> nat \<Rightarrow> ('k, 'v) hashtable \<Rightarrow> ('k, 'v) hashtable" where
  "ht_unlink i prev e t =
    (let q = el_next (ht_entries t ! e) in
     case prev of
       None \<Rightarrow> t\<lparr>ht_table := (ht_table t)[i := q]\<rparr>
     | Some e' \<Rightarrow> set_next e' q t)"

definition ht_remove :: "('k \<Rightarrow> nat) \<Rightarrow> ('k, 'v) hashtable \<Rightarrow> 'k \<Rightarrow> (bool \<times> ('k, 'v) hashtable) run" where
  "ht_remove hf t key =
    (let i = ht_bucket hf t key in
     obind (ht_find t key None (ht_table t ! i)) (\<lambda>r.
       case r of
         None \<Rightarrow> ok (False, t)
       | Some (prev, e) \<Rightarrow> ok (True, freeElement e (ht_unlink i prev e t))))"

text \<open>\<^verbatim>\<open>clear\<close> takes the elements off the buckets one after the other.\<close>

partial_function (option) clear_bucket :: "nat \<Rightarrow> ('k, 'v) hashtable \<Rightarrow> ('k, 'v) hashtable option" where
  "clear_bucket i t =
    (case ht_table t ! i of
       None \<Rightarrow> Some t
     | Some e \<Rightarrow> clear_bucket i (freeElement e (t\<lparr>ht_table := (ht_table t)[i := el_next (ht_entries t ! e)]\<rparr>)))"

definition ht_clear :: "('k, 'v) hashtable \<Rightarrow> ('k, 'v) hashtable option" where
  "ht_clear t = fold (\<lambda>i t. Option.bind t (clear_bucket i)) [0..<ht_size t] (Some t)"

declare ht_find.simps [code] clear_bucket.simps [code]

subsection \<open>Chains\<close>

fun chain :: "('k, 'v) element list \<Rightarrow> nat option \<Rightarrow> nat list \<Rightarrow> bool" where
  "chain es p [] \<longleftrightarrow> p = None"
| "chain es p (x # xs) \<longleftrightarrow> p = Some x \<and> x < length es \<and> chain es (el_next (es ! x)) xs"

lemma chain_other [simp]: "e \<notin> set xs \<Longrightarrow> chain (es[e := y]) p xs = chain es p xs"
  by (induction xs arbitrary: p) auto

lemma chain_unlink:
  "chain es p (xs @ e # ys) \<Longrightarrow> distinct (xs @ e # ys) \<Longrightarrow> xs \<noteq> [] \<Longrightarrow>
    chain (es[last xs := (es ! last xs)\<lparr>el_next := el_next (es ! e)\<rparr>]) p (xs @ ys)"
proof (induction xs arbitrary: p)
  case (Cons x xs)
  show ?case
  proof (cases "xs = []")
    case True
    then show ?thesis using Cons.prems by auto
  next
    case False
    then have "last xs \<noteq> x" using Cons.prems(2) by auto
    then show ?thesis using Cons False by auto
  qed
qed simp

definition el_key :: "('k, 'v) element list \<Rightarrow> nat \<Rightarrow> 'k" where
  "el_key es e = fst (the (el_entry (es ! e)))"

fun seek :: "('k, 'v) element list \<Rightarrow> 'k \<Rightarrow> nat option \<Rightarrow> nat list \<Rightarrow> (nat option \<times> nat) option" where
  "seek es key prev [] = None"
| "seek es key prev (x # xs) = (if key = el_key es x then Some (prev, x) else seek es key (Some x) xs)"

lemma ht_find_seek:
  "chain (ht_entries t) p xs \<Longrightarrow> \<forall>e \<in> set xs. el_entry (ht_entries t ! e) \<noteq> None \<Longrightarrow>
    ht_find t key prev p = ok (seek (ht_entries t) key prev xs)"
  by (induction xs arbitrary: prev p) (subst ht_find.simps; auto simp: el_key_def)+

lemma seek_None: "seek es key prev xs = None \<longleftrightarrow> key \<notin> el_key es ` set xs"
  by (induction xs arbitrary: prev) auto

lemma seek_Some:
  "seek es key prev xs = Some (q, e) \<Longrightarrow>
    \<exists>ys zs. xs = ys @ e # zs \<and> key = el_key es e \<and> q = (if ys = [] then prev else Some (last ys))"
proof (induction xs arbitrary: prev)
  case (Cons x xs)
  show ?case
  proof (cases "key = el_key es x")
    case True
    then have "x # xs = [] @ e # xs \<and> key = el_key es e \<and> q = prev" using Cons.prems by simp
    then show ?thesis by (metis (full_types))
  next
    case False
    then obtain ys zs where "xs = ys @ e # zs" "key = el_key es e" "q = (if ys = [] then Some x else Some (last ys))"
      using Cons.IH [of "Some x"] Cons.prems by auto
    then have "x # xs = (x # ys) @ e # zs \<and> key = el_key es e \<and> q = (if x # ys = [] then prev else Some (last (x # ys)))" by auto
    then show ?thesis by (metis (full_types))
  qed
qed simp

subsection \<open>What the table stands for\<close>

text \<open>The elements are divided among the buckets, numbered from 0, and the free list, whose number is
  the size of the table.\<close>

definition parts :: "nat \<Rightarrow> (nat \<Rightarrow> nat list) \<Rightarrow> bool" where
  "parts n c \<longleftrightarrow> (\<forall>i \<le> n. distinct (c i)) \<and> (\<forall>i \<le> n. \<forall>j \<le> n. i \<noteq> j \<longrightarrow> set (c i) \<inter> set (c j) = {}) \<and> (\<Union>i \<le> n. set (c i)) = {..<n}"

lemma parts_move:
  assumes "parts n c" "i \<le> n" "j \<le> n" "i \<noteq> j" "c i = xs @ e # ys"
  shows "parts n (c(i := xs @ ys, j := e # c j))"
proof -
  let ?c = "c(i := xs @ ys, j := e # c j)"
  have d: "distinct (c k)" "k \<noteq> l \<Longrightarrow> set (c k) \<inter> set (c l) = {}" if "k \<le> n" "l \<le> n" for k l
    using assms(1) that by (auto simp: parts_def)
  have e: "e \<in> set (c i)" "set (c i) = insert e (set (xs @ ys))" "e \<notin> set (xs @ ys)" "distinct (xs @ ys)" using assms(5) d(1) [OF assms(2)] assms(2) by auto
  have o: "e \<notin> set (c k)" if "k \<le> n" "k \<noteq> i" for k using d(2) [OF that(1) assms(2)] that e(1) by auto
  have "\<forall>k \<le> n. distinct (?c k)" using d(1) o [of j] e assms(3,4) by auto
  moreover have "set (?c k) \<inter> set (?c l) = {}" if "k \<le> n" "l \<le> n" "k \<noteq> l" for k l
    using d(2) [of k l] d(2) [of i l] d(2) [of k i] o [of k] o [of l] e assms(2-4) that d(2) [of j l] d(2) [of k j] d(2) [of i j] d(2) [of j i]
    by (auto split: if_splits)
  moreover have "(\<Union>k \<le> n. set (?c k)) = (\<Union>k \<le> n. set (c k))"
  proof -
    have "x \<in> (\<Union>k \<le> n. set (?c k)) \<longleftrightarrow> x \<in> (\<Union>k \<le> n. set (c k))" for x
    proof
      assume "x \<in> (\<Union>k \<le> n. set (?c k))"
      then obtain k where "k \<le> n" "x \<in> set (?c k)" by auto
      then have "x \<in> set (c k) \<or> x \<in> set (c i)" using e(1,2) by (auto split: if_splits)
      then show "x \<in> (\<Union>k \<le> n. set (c k))" using \<open>k \<le> n\<close> assms(2) by auto
    next
      assume "x \<in> (\<Union>k \<le> n. set (c k))"
      then obtain k where k: "k \<le> n" "x \<in> set (c k)" by auto
      then have "x \<in> set (?c j) \<or> x \<in> set (?c k)" using e(2) assms(4) by (auto split: if_splits)
      then show "x \<in> (\<Union>k \<le> n. set (?c k))" using k(1) assms(3) by blast
    qed
    then show ?thesis by blast
  qed
  ultimately show ?thesis using assms(1) unfolding parts_def by metis
qed

definition ht_head :: "('k, 'v) hashtable \<Rightarrow> nat \<Rightarrow> nat option" where
  "ht_head t i = (if i < ht_size t then ht_table t ! i else ht_free t)"

definition ht_used :: "('k, 'v) hashtable \<Rightarrow> (nat \<Rightarrow> nat list) \<Rightarrow> nat set" where
  "ht_used t c = (\<Union>i < ht_size t. set (c i))"

definition ht_rep :: "('k \<Rightarrow> nat) \<Rightarrow> ('k, 'v) hashtable \<Rightarrow> (nat \<Rightarrow> nat list) \<Rightarrow> bool" where
  "ht_rep hf t c \<longleftrightarrow> 0 < ht_size t \<and> length (ht_table t) = ht_size t \<and> parts (ht_size t) c
    \<and> (\<forall>i \<le> ht_size t. chain (ht_entries t) (ht_head t i) (c i))
    \<and> (\<forall>i < ht_size t. \<forall>e \<in> set (c i). el_entry (ht_entries t ! e) \<noteq> None \<and> hf (el_key (ht_entries t) e) mod ht_size t = i)
    \<and> inj_on (el_key (ht_entries t)) (ht_used t c)"

definition ht_inv :: "('k \<Rightarrow> nat) \<Rightarrow> ('k, 'v) hashtable \<Rightarrow> bool" where
  "ht_inv hf t \<longleftrightarrow> (\<exists>c. ht_rep hf t c)"

definition ht_map :: "('k \<Rightarrow> nat) \<Rightarrow> ('k, 'v) hashtable \<Rightarrow> 'k \<rightharpoonup> 'v" where
  "ht_map hf t key = (case ht_get hf t key of Some (Inr v) \<Rightarrow> Some v | _ \<Rightarrow> None)"

lemma ht_find_rep:
  assumes "ht_rep hf t c"
  shows "ht_find t key None (ht_table t ! ht_bucket hf t key) = ok (seek (ht_entries t) key None (c (ht_bucket hf t key)))"
proof (rule ht_find_seek)
  have "ht_bucket hf t key < ht_size t" using assms by (simp add: ht_rep_def ht_bucket_def)
  then show "chain (ht_entries t) (ht_table t ! ht_bucket hf t key) (c (ht_bucket hf t key))"
    "\<forall>e \<in> set (c (ht_bucket hf t key)). el_entry (ht_entries t ! e) \<noteq> None"
    using assms by (auto simp: ht_rep_def ht_head_def dest: spec [of _ "ht_bucket hf t key"])
qed

lemma ht_seek:
  assumes "ht_rep hf t c" "seek (ht_entries t) key None (c (ht_bucket hf t key)) = Some (q, e)"
  shows "e \<in> ht_used t c \<and> (\<exists>v. el_entry (ht_entries t ! e) = Some (key, v))"
proof -
  have b: "ht_bucket hf t key < ht_size t" using assms(1) by (simp add: ht_rep_def ht_bucket_def)
  have e: "e \<in> set (c (ht_bucket hf t key))" "key = el_key (ht_entries t) e" using seek_Some [OF assms(2)] by auto
  then have "el_entry (ht_entries t ! e) \<noteq> None" using assms(1) b by (auto simp: ht_rep_def)
  then show ?thesis using b e by (auto simp: ht_used_def el_key_def)
qed

lemma ht_unique:
  assumes "ht_rep hf t c" "e \<in> ht_used t c" "e' \<in> ht_used t c"
    "el_entry (ht_entries t ! e) = Some (k, v)" "el_entry (ht_entries t ! e') = Some (k, w)"
  shows "e' = e"
proof (rule inj_onD)
  show "inj_on (el_key (ht_entries t)) (ht_used t c)" using assms(1) by (simp add: ht_rep_def)
  show "el_key (ht_entries t) e' = el_key (ht_entries t) e" using assms(4,5) by (simp add: el_key_def)
qed (fact assms)+

lemma ht_map_iff:
  assumes "ht_rep hf t c"
  shows "ht_map hf t k = Some v \<longleftrightarrow> (\<exists>e \<in> ht_used t c. el_entry (ht_entries t ! e) = Some (k, v))"
proof (cases "seek (ht_entries t) k None (c (ht_bucket hf t k))")
  case None
  have "False" if e: "e \<in> ht_used t c" "el_entry (ht_entries t ! e) = Some (k, v)" for e
  proof -
    have "el_key (ht_entries t) e = k" using e(2) by (simp add: el_key_def)
    moreover obtain i where "i < ht_size t" "e \<in> set (c i)" using e(1) by (auto simp: ht_used_def)
    ultimately have "e \<in> set (c (ht_bucket hf t k))" using assms by (auto simp: ht_rep_def ht_bucket_def)
    then show False using None \<open>el_key (ht_entries t) e = k\<close> by (auto simp: seek_None)
  qed
  then show ?thesis using ht_find_rep [OF assms, of k] None by (auto simp: ht_map_def ht_get_def)
next
  case (Some qe)
  obtain q e where qe: "qe = (q, e)" by (cases qe)
  obtain w where w: "e \<in> ht_used t c" "el_entry (ht_entries t ! e) = Some (k, w)" using ht_seek [OF assms, of k q e] Some qe by auto
  have g: "ht_map hf t k = Some w" using ht_find_rep [OF assms, of k] Some qe w(2) by (simp add: ht_map_def ht_get_def)
  show ?thesis
  proof
    assume "ht_map hf t k = Some v"
    then show "\<exists>e \<in> ht_used t c. el_entry (ht_entries t ! e) = Some (k, v)" using g w by auto
  next
    assume "\<exists>e \<in> ht_used t c. el_entry (ht_entries t ! e) = Some (k, v)"
    then obtain e' where e': "e' \<in> ht_used t c" "el_entry (ht_entries t ! e') = Some (k, v)" by blast
    then have "e' = e" using ht_unique [OF assms w(1) e'(1) w(2) e'(2)] by simp
    then show "ht_map hf t k = Some v" using g w(2) e'(2) by simp
  qed
qed

lemma ht_get_map:
  assumes "ht_inv hf t"
  shows "ht_get hf t k = Some (dict_get (ht_map hf t) k)"
proof -
  obtain c where c: "ht_rep hf t c" using assms by (auto simp: ht_inv_def)
  show ?thesis
  proof (cases "seek (ht_entries t) k None (c (ht_bucket hf t k))")
    case None
    then show ?thesis using ht_find_rep [OF c, of k] by (simp add: dict_get_def ht_map_def ht_get_def)
  next
    case (Some qe)
    then show ?thesis using ht_find_rep [OF c, of k] ht_seek [OF c, of k] by (cases qe) (auto simp: dict_get_def ht_map_def ht_get_def)
  qed
qed

lemma el_entry_update [simp]: "el_entry (es[e := (es ! e)\<lparr>el_next := q\<rparr>] ! x) = el_entry (es ! x)"
  by (cases "e < length es"; cases "x = e") (simp_all add: list_update_beyond)

text \<open>Taking an element off a bucket and freeing it.\<close>

lemma unlink_rep:
  assumes r: "ht_rep hf t c" and i: "i < ht_size t" and x: "c i = xs @ e # ys"
  defines "t' \<equiv> freeElement e (ht_unlink i (if xs = [] then None else Some (last xs)) e t)"
  shows "ht_rep hf t' (c(i := xs @ ys, ht_size t := e # c (ht_size t))) \<and> ht_size t' = ht_size t
    \<and> ht_used t' (c(i := xs @ ys, ht_size t := e # c (ht_size t))) = ht_used t c - {e}
    \<and> (\<forall>x. el_entry (ht_entries t' ! x) = el_entry (ht_entries t ! x))"
proof -
  let ?n = "ht_size t" and ?es = "ht_entries t"
  let ?c = "c(i := xs @ ys, ?n := e # c ?n)" and ?t = "ht_unlink i (if xs = [] then None else Some (last xs)) e t"
  have p: "parts ?n c" and tab: "length (ht_table t) = ?n" using r by (simp_all add: ht_rep_def)
  have d: "distinct (c k)" "k \<noteq> l \<Longrightarrow> set (c k) \<inter> set (c l) = {}" if "k \<le> ?n" "l \<le> ?n" for k l
    using p that by (auto simp: parts_def)
  have ch: "chain ?es (ht_head t k) (c k)" if "k \<le> ?n" for k using r that by (simp add: ht_rep_def)
  have "e \<in> (\<Union>k \<le> ?n. set (c k))" using i x by (intro UN_I [of i]) simp_all
  moreover have "(\<Union>k \<le> ?n. set (c k)) = {..<?n}" using p unfolding parts_def by blast
  ultimately have el: "e < ?n" by blast
  have s: "ht_size ?t = ?n" "ht_size t' = ?n" unfolding t'_def by (simp_all add: ht_size_def ht_unlink_def freeElement_def set_next_def Let_def)
  have en: "el_entry (ht_entries ?t ! x) = el_entry (?es ! x)" "el_entry (ht_entries t' ! x) = el_entry (?es ! x)" for x
    unfolding t'_def by (simp_all add: ht_unlink_def freeElement_def set_next_def Let_def)
  have "distinct (xs @ e # ys)" using d(1) [of i i] i unfolding x by simp
  then have x': "e \<in> set (c i)" "e \<notin> set (xs @ ys)" "distinct (xs @ e # ys)" "set (c i) = insert e (set (xs @ ys))" unfolding x by auto
  have o: "e \<notin> set (c k)" "xs \<noteq> [] \<longrightarrow> last xs \<notin> set (c k)" if "k \<le> ?n" "k \<noteq> i" for k
  proof -
    have dis: "set (c k) \<inter> set (c i) = {}" using d(2) [of k i] that i by simp
    then show "e \<notin> set (c k)" using x'(1) by blast
    have "xs \<noteq> [] \<longrightarrow> last xs \<in> set (c i)" unfolding x'(4) by simp
    then show "xs \<noteq> [] \<longrightarrow> last xs \<notin> set (c k)" using dis by blast
  qed
  have es: "ht_entries t' = (ht_entries ?t)[e := (ht_entries ?t ! e)\<lparr>el_next := ht_free t\<rparr>]"
    unfolding t'_def by (simp add: ht_unlink_def freeElement_def set_next_def Let_def)
  have ch1: "chain (ht_entries ?t) (ht_head t k) (c k)" if "k \<le> ?n" "k \<noteq> i" for k
    using ch [OF that(1)] o [OF that] by (auto simp: ht_unlink_def set_next_def Let_def)
  have hd: "ht_head t' ?n = Some e" "\<And>k. k < ?n \<Longrightarrow> k \<noteq> i \<Longrightarrow> ht_head t' k = ht_head t k"
    unfolding t'_def using s(1) by (auto simp: ht_head_def ht_size_def ht_unlink_def freeElement_def set_next_def Let_def split: option.split)
  have "chain (ht_entries ?t) (ht_head t' i) (xs @ ys)"
  proof (cases "xs = []")
    case True
    then show ?thesis unfolding t'_def
      using ch [of i] i x tab by (simp add: ht_head_def ht_size_def ht_unlink_def freeElement_def set_next_def Let_def)
  next
    case False
    then have "ht_head t' i = ht_head t i" unfolding t'_def
      using i by (simp add: ht_head_def ht_size_def ht_unlink_def freeElement_def set_next_def Let_def)
    then show ?thesis using chain_unlink [OF _ x'(3) False, of "?es" "ht_head t i"] ch [of i] i x False
      by (simp add: ht_unlink_def set_next_def Let_def)
  qed
  then have "chain (ht_entries t') (ht_head t' i) (?c i)" using x'(2) i unfolding es by simp
  moreover have "chain (ht_entries t') (ht_head t' ?n) (?c ?n)"
  proof -
    have "ht_head t ?n = ht_free t" by (simp add: ht_head_def)
    moreover have "e < length (ht_entries ?t)" using el s(1) by (simp add: ht_size_def)
    ultimately show ?thesis using ch1 [of ?n] o(1) [of ?n] i unfolding es by (simp add: hd(1))
  qed
  moreover have "chain (ht_entries t') (ht_head t' k) (?c k)" if "k < ?n" "k \<noteq> i" for k
    using ch1 [of k] o(1) [of k] that unfolding es by (simp add: hd)
  ultimately have "\<forall>k \<le> ?n. chain (ht_entries t') (ht_head t' k) (?c k)" using i by (metis le_neq_implies_less)
  moreover have key: "el_key (ht_entries t') = el_key ?es" by (rule ext) (simp add: el_key_def en)
  have used: "ht_used t' ?c = ht_used t c - {e}"
  proof -
    have "set (?c k) = set (c k) - {e}" if "k < ?n" for k
      using o(1) [of k] x'(2,4) that by (cases "k = i") auto
    then have "ht_used t' ?c = (\<Union>k < ?n. set (c k) - {e})" unfolding ht_used_def s(2) by (intro SUP_cong) simp_all
    then show ?thesis by (auto simp: ht_used_def)
  qed
  moreover have "inj_on (el_key ?es) (ht_used t c - {e})" using r by (auto simp: ht_rep_def intro: inj_on_subset)
  moreover have "\<forall>k < ?n. \<forall>y \<in> set (?c k). el_entry (?es ! y) \<noteq> None \<and> hf (el_key ?es y) mod ?n = k"
    using r i x'(4) by (auto simp: ht_rep_def)
  moreover have "length (ht_table t') = ?n" "0 < ?n"
    unfolding t'_def using tab i by (simp_all add: ht_unlink_def freeElement_def set_next_def Let_def split: option.split)
  ultimately show ?thesis
    using parts_move [OF p _ _ _ x, of ?n] i en s(2) unfolding ht_rep_def key by simp
qed

lemma ht_map_unlinked:
  assumes "ht_rep hf t c" "ht_rep hf t' c'" "ht_used t' c' = ht_used t c - {e}" "e \<in> ht_used t c" "el_entry (ht_entries t ! e) = Some (key, v)"
    "\<forall>x. el_entry (ht_entries t' ! x) = el_entry (ht_entries t ! x)"
  shows "ht_map hf t' = (ht_map hf t)(key := None)"
proof
  fix k
  have "e' = e" if "e' \<in> ht_used t c" "el_entry (ht_entries t ! e') = Some (key, w)" for e' w
    using ht_unique [OF assms(1,4) that(1) assms(5) that(2)] .
  then have "ht_map hf t' k = Some w \<longleftrightarrow> ((ht_map hf t)(key := None)) k = Some w" for w
    using ht_map_iff [OF assms(1), of k w] ht_map_iff [OF assms(2), of k w] assms(3,5,6) by auto
  then show "ht_map hf t' k = ((ht_map hf t)(key := None)) k" by (metis not_Some_eq)
qed

lemma ht_remove_works:
  assumes "ht_inv hf t"
  shows "\<exists>t'. ht_remove hf t key = ok (ht_map hf t key \<noteq> None, t') \<and> ht_inv hf t' \<and> ht_size t' = ht_size t
    \<and> ht_map hf t' = (ht_map hf t)(key := None)"
proof -
  let ?i = "ht_bucket hf t key"
  obtain c where c: "ht_rep hf t c" using assms by (auto simp: ht_inv_def)
  have i: "?i < ht_size t" using c by (simp add: ht_rep_def ht_bucket_def)
  show ?thesis
  proof (cases "seek (ht_entries t) key None (c ?i)")
    case None
    then have "ht_map hf t key = None" using ht_find_rep [OF c, of key] by (simp add: ht_map_def ht_get_def)
    then show ?thesis using None ht_find_rep [OF c, of key] assms by (auto simp: ht_remove_def Let_def fun_upd_idem)
  next
    case (Some qe)
    obtain q e where qe: "qe = (q, e)" by (cases qe)
    obtain v where v: "e \<in> ht_used t c" "el_entry (ht_entries t ! e) = Some (key, v)" using ht_seek [OF c, of key q e] Some qe by auto
    obtain xs ys where x: "c ?i = xs @ e # ys" "q = (if xs = [] then None else Some (last xs))"
      using seek_Some [of "ht_entries t" key None "c ?i" q e] Some qe by auto
    define t' where "t' = freeElement e (ht_unlink ?i q e t)"
    let ?c = "c(?i := xs @ ys, ht_size t := e # c (ht_size t))"
    have u: "ht_rep hf t' ?c" "ht_used t' ?c = ht_used t c - {e}" "\<forall>x. el_entry (ht_entries t' ! x) = el_entry (ht_entries t ! x)"
      "ht_size t' = ht_size t"
      using unlink_rep [OF c i x(1)] x(2) t'_def by simp_all
    have "ht_map hf t key = Some v" using ht_map_iff [OF c, of key v] v by blast
    then have "ht_remove hf t key = ok (ht_map hf t key \<noteq> None, t')"
      using Some qe ht_find_rep [OF c, of key] t'_def by (simp add: ht_remove_def Let_def)
    then show ?thesis using ht_map_unlinked [OF c u(1,2) v u(3)] u(1,4) by (auto simp: ht_inv_def)
  qed
qed

text \<open>The number of entries, and room.\<close>

lemma ht_dom:
  assumes "ht_rep hf t c"
  shows "card (dom (ht_map hf t)) = card (ht_used t c)" "ht_used t c = {..<ht_size t} - set (c (ht_size t))"
    "c (ht_size t) = [] \<longleftrightarrow> ht_size t \<le> card (dom (ht_map hf t))"
proof -
  let ?n = "ht_size t"
  have ne: "el_entry (ht_entries t ! e) \<noteq> None" if "e \<in> ht_used t c" for e using assms that by (auto simp: ht_rep_def ht_used_def)
  have "dom (ht_map hf t) = el_key (ht_entries t) ` ht_used t c"
  proof -
    have "k \<in> dom (ht_map hf t) \<longleftrightarrow> k \<in> el_key (ht_entries t) ` ht_used t c" for k
    proof
      assume "k \<in> dom (ht_map hf t)"
      then show "k \<in> el_key (ht_entries t) ` ht_used t c"
        using ht_map_iff [OF assms, of k] by (force simp: el_key_def)
    next
      assume "k \<in> el_key (ht_entries t) ` ht_used t c"
      then obtain e where e: "e \<in> ht_used t c" "k = el_key (ht_entries t) e" by blast
      then obtain v where "el_entry (ht_entries t ! e) = Some (k, v)" using ne [OF e(1)] by (auto simp: el_key_def)
      then have "ht_map hf t k = Some v" using ht_map_iff [OF assms, of k v] e(1) by blast
      then show "k \<in> dom (ht_map hf t)" by blast
    qed
    then show ?thesis by blast
  qed
  then show card: "card (dom (ht_map hf t)) = card (ht_used t c)" using assms by (simp add: ht_rep_def card_image)
  have p: "\<forall>i \<le> ?n. \<forall>j \<le> ?n. i \<noteq> j \<longrightarrow> set (c i) \<inter> set (c j) = {}" "(\<Union>i \<le> ?n. set (c i)) = {..<?n}"
    using assms by (auto simp: ht_rep_def parts_def)
  have "{..?n} = insert ?n {..<?n}" by auto
  then have "set (c ?n) \<union> ht_used t c = {..<?n}" using p(2) unfolding ht_used_def by auto
  moreover have "set (c ?n) \<inter> set (c k) = {}" if "k < ?n" for k using p(1) that by (metis le_refl less_imp_le nat_neq_iff)
  then have "set (c ?n) \<inter> ht_used t c = {}" unfolding ht_used_def by blast
  ultimately show u: "ht_used t c = {..<?n} - set (c ?n)" "c ?n = [] \<longleftrightarrow> ?n \<le> card (dom (ht_map hf t))"
  proof -
    assume a: "set (c ?n) \<union> ht_used t c = {..<?n}" "set (c ?n) \<inter> ht_used t c = {}"
    then show u: "ht_used t c = {..<?n} - set (c ?n)" by blast
    have "finite (ht_used t c)" unfolding u by simp
    then have "card (set (c ?n)) + card (ht_used t c) = ?n"
      using card_Un_disjoint [OF _ _ a(2)] a(1) by simp
    moreover have "card (set (c ?n)) = 0 \<longleftrightarrow> c ?n = []" by simp
    ultimately show "c ?n = [] \<longleftrightarrow> ?n \<le> card (dom (ht_map hf t))" unfolding card by linarith
  qed
qed

subsection \<open>Adding\<close>

lemma add_rep:
  fixes v :: 'v
  assumes r: "ht_rep hf (t :: ('k, 'v) hashtable) c" and k: "ht_map hf t key = None" and f: "c (ht_size t) = e # fs"
  defines "i \<equiv> ht_bucket hf t key"
  defines "t' \<equiv> t\<lparr>ht_free := el_next (ht_entries t ! e),
      ht_entries := (ht_entries t)[e := \<lparr>el_entry = Some (key, v), el_next = ht_table t ! i\<rparr>], ht_table := (ht_table t)[i := Some e]\<rparr>"
  shows "ht_rep hf t' (c(ht_size t := fs, i := e # c i)) \<and> ht_map hf t' = (ht_map hf t)(key \<mapsto> v)"
proof -
  let ?n = "ht_size t" and ?es = "ht_entries t" and ?es' = "ht_entries t'"
  let ?c = "c(?n := fs, i := e # c i)"
  have i: "i < ?n" using r by (simp add: ht_rep_def i_def ht_bucket_def)
  have p: "parts ?n c" and tab: "length (ht_table t) = ?n" using r by (simp_all add: ht_rep_def)
  have dis: "set (c k) \<inter> set (c l) = {}" if "k \<le> ?n" "l \<le> ?n" "k \<noteq> l" for k l
    using p that unfolding parts_def by blast
  have fs: "distinct (e # fs)" using p f unfolding parts_def by (metis le_refl)
  have ch: "chain ?es (ht_head t k) (c k)" if "k \<le> ?n" for k using r that by (simp add: ht_rep_def)
  have free: "ht_free t = Some e" "e < length ?es" "chain ?es (el_next (?es ! e)) fs"
    using ch [of ?n] f by (simp_all add: ht_head_def)
  have o: "e \<notin> set (c k)" if "k < ?n" for k using dis [of ?n k] that f by auto
  have es: "?es' = ?es[e := \<lparr>el_entry = Some (key, v), el_next = ht_table t ! i\<rparr>]" and s: "ht_size t' = ?n"
    by (simp_all add: t'_def ht_size_def)
  have hd: "ht_head t' ?n = el_next (?es ! e)" "ht_head t' i = Some e" "\<And>k. k < ?n \<Longrightarrow> k \<noteq> i \<Longrightarrow> ht_head t' k = ht_head t k"
    using i tab s by (simp_all add: ht_head_def) (simp_all add: t'_def)
  have "chain ?es' (ht_head t' ?n) (?c ?n)" using free(3) fs i unfolding es by (simp add: hd(1))
  moreover have "chain ?es' (ht_head t' i) (?c i)"
    using ch [of i] i o [OF i] free(2) unfolding es by (simp add: hd(2) ht_head_def [of t])
  moreover have "chain ?es' (ht_head t' k) (?c k)" if "k < ?n" "k \<noteq> i" for k
    using ch [of k] o [of k] that unfolding es by (simp add: hd(3))
  ultimately have chs: "\<forall>k \<le> ?n. chain ?es' (ht_head t' k) (?c k)" by (metis le_neq_implies_less)
  have used: "ht_used t' ?c = insert e (ht_used t c)" "e \<notin> ht_used t c"
  proof -
    have "set (?c k) = (if k = i then insert e (set (c k)) else set (c k))" if "k < ?n" for k using that by simp
    then show "ht_used t' ?c = insert e (ht_used t c)" using i by (auto simp: ht_used_def s split: if_splits)
    show "e \<notin> ht_used t c" using o by (simp add: ht_used_def)
  qed
  have old: "?es' ! y = ?es ! y" if "y \<in> ht_used t c" for y using that used(2) unfolding es by (metis nth_list_update_neq)
  have new: "el_entry (?es' ! e) = Some (key, v)" unfolding es using free(2) by simp
  have keys: "el_key ?es' y = el_key ?es y" if "y \<in> ht_used t c" for y using old [OF that] by (simp add: el_key_def)
  have ne: "el_entry (?es ! y) \<noteq> None" if "y \<in> ht_used t c" for y using r that by (auto simp: ht_rep_def ht_used_def)
  have "key \<notin> el_key ?es ` ht_used t c"
  proof
    assume "key \<in> el_key ?es ` ht_used t c"
    then obtain y where y: "y \<in> ht_used t c" "key = el_key ?es y" by blast
    then obtain w where "el_entry (?es ! y) = Some (key, w)" using ne [OF y(1)] by (auto simp: el_key_def)
    then have "ht_map hf t key = Some w" using ht_map_iff [OF r, of key w] y(1) by blast
    then show False using k by simp
  qed
  then have inj: "inj_on (el_key ?es') (insert e (ht_used t c))"
    using r keys new used(2) by (auto simp: ht_rep_def inj_on_def el_key_def [of ?es' e])
  have en: "\<forall>k < ?n. \<forall>y \<in> set (?c k). el_entry (?es' ! y) \<noteq> None \<and> hf (el_key ?es' y) mod ?n = k"
  proof (intro allI impI ballI)
    fix k y assume k: "k < ?n" "y \<in> set (?c k)"
    show "el_entry (?es' ! y) \<noteq> None \<and> hf (el_key ?es' y) mod ?n = k"
    proof (cases "y \<in> set (c k)")
      case True
      then have "y \<in> ht_used t c" using k(1) by (auto simp: ht_used_def)
      then show ?thesis using True k(1) r old keys by (simp add: ht_rep_def)
    next
      case False
      then have "y = e" "k = i" using k by (auto split: if_splits)
      then show ?thesis using new by (simp add: el_key_def i_def ht_bucket_def)
    qed
  qed
  have parts: "parts ?n ?c" using parts_move [OF p _ _ _ , of ?n i "[]" e fs] f i by simp
  have r': "ht_rep hf t' ?c"
    unfolding ht_rep_def s using i parts chs en inj used(1) tab by (simp add: t'_def)
  moreover have "ht_map hf t' = (ht_map hf t)(key \<mapsto> v)"
  proof
    fix x
    have "ht_map hf t' x = Some w \<longleftrightarrow> ((ht_map hf t)(key \<mapsto> v)) x = Some w" for w
    proof -
      have "ht_map hf t' x = Some w \<longleftrightarrow> (x = key \<and> w = v) \<or> (\<exists>y \<in> ht_used t c. el_entry (?es ! y) = Some (x, w))"
        using ht_map_iff [OF r', of x w] new old unfolding used(1) by auto
      then show ?thesis using ht_map_iff [OF r, of x w] k by auto
    qed
    then show "ht_map hf t' x = ((ht_map hf t)(key \<mapsto> v)) x" by (metis not_Some_eq)
  qed
  ultimately show ?thesis by blast
qed

lemma ht_add_eq:
  assumes "ht_inv hf t"
  shows "ht_add hf t key v =
    (if ht_map hf t key \<noteq> None then Some (Inl (Thrown EEXIST))
     else Some (andThen (allocElement t) (\<lambda>(e, u).
       Inr (u\<lparr>ht_entries := (ht_entries u)[e := \<lparr>el_entry = Some (key, v), el_next = ht_table u ! ht_bucket hf t key\<rparr>],
              ht_table := (ht_table u)[ht_bucket hf t key := Some e]\<rparr>))))"
proof -
  obtain c where c: "ht_rep hf t c" using assms by (auto simp: ht_inv_def)
  let ?s = "seek (ht_entries t) key None (c (ht_bucket hf t key))"
  have "?s = None \<longleftrightarrow> ht_map hf t key = None"
    using ht_find_rep [OF c, of key] ht_seek [OF c, of key] by (cases ?s) (auto simp: ht_map_def ht_get_def)
  then show ?thesis using ht_find_rep [OF c, of key]
    by (cases "allocElement t") (auto simp: ht_add_def Let_def)
qed

lemma ht_add_works:
  assumes "ht_inv hf t"
  shows "dict_add (Some (ht_size t)) (ht_map hf t) key v = Inl e \<Longrightarrow> ht_add hf t key v = Some (Inl e)"
    "dict_add (Some (ht_size t)) (ht_map hf t) key v = Inr m \<Longrightarrow>
      \<exists>t'. ht_add hf t key v = ok t' \<and> ht_inv hf t' \<and> ht_size t' = ht_size t \<and> ht_map hf t' = m"
proof -
  obtain c where c: "ht_rep hf t c" using assms by (auto simp: ht_inv_def)
  have ch: "chain (ht_entries t) (ht_free t) (c (ht_size t))" using c by (auto simp: ht_rep_def ht_head_def dest: spec [of _ "ht_size t"])
  note room = ht_dom(3) [OF c]
  show "ht_add hf t key v = Some (Inl e)" if "dict_add (Some (ht_size t)) (ht_map hf t) key v = Inl e"
  proof (cases "ht_map hf t key = None")
    case True
    then have "c (ht_size t) = []" "e = Thrown ENOSPC" using that room by (auto simp: dict_add_def split: if_splits)
    then show ?thesis using True ch ht_add_eq [OF assms, of key v] by (simp add: allocElement_def)
  next
    case False
    then show ?thesis using that ht_add_eq [OF assms, of key v] by (simp add: dict_add_def)
  qed
  show "\<exists>t'. ht_add hf t key v = ok t' \<and> ht_inv hf t' \<and> ht_size t' = ht_size t \<and> ht_map hf t' = m"
    if "dict_add (Some (ht_size t)) (ht_map hf t) key v = Inr m"
  proof -
    have k: "ht_map hf t key = None" "m = (ht_map hf t)(key \<mapsto> v)" "c (ht_size t) \<noteq> []"
      using that room by (auto simp: dict_add_def split: if_splits)
    obtain e fs where f: "c (ht_size t) = e # fs" using k(3) by (cases "c (ht_size t)") auto
    then have "ht_free t = Some e" using ch by simp
    then show ?thesis using add_rep [OF c k(1) f, of v] ht_add_eq [OF assms, of key v] k(1,2)
      by (auto simp: allocElement_def ht_inv_def ht_size_def)
  qed
qed

interpretation ht_dict: dictionary "\<lambda>t. ht_inv hf t \<and> ht_size t = n" "ht_map hf" Some "Some n"
  "ht_add hf" "\<lambda>t k. obind (ht_remove hf t k) (\<lambda>(b, t). ok (Some b, t))" "ht_get hf" for hf :: "'k \<Rightarrow> nat" and n
proof unfold_locales
  fix t :: "('k, 'b) hashtable" and k v e m
  assume t: "ht_inv hf t \<and> ht_size t = n"
  then have i: "ht_inv hf t" by simp
  show "dict_add (Some n) (ht_map hf t) k v = Inl e \<Longrightarrow> ht_add hf t k v = Some (Inl e)" using ht_add_works(1) [OF i] t by simp
  show "dict_add (Some n) (ht_map hf t) k v = Inr m \<Longrightarrow> \<exists>t'. ht_add hf t k v = ok t' \<and> (ht_inv hf t' \<and> ht_size t' = n) \<and> ht_map hf t' = m"
    using ht_add_works(2) [OF i] t by simp
  show "\<exists>t'. obind (ht_remove hf t k) (\<lambda>(b, t). ok (Some b, t)) = ok (Some (ht_map hf t k \<noteq> None), t') \<and> (ht_inv hf t' \<and> ht_size t' = n) \<and> ht_map hf t' = (ht_map hf t)(k := None)"
    using ht_remove_works [OF i, of k] t by auto
  show "ht_get hf t k = Some (dict_get (ht_map hf t) k)" by (rule ht_get_map [OF i])
qed

subsection \<open>Starting and clearing\<close>

lemma ht_map_empty: "ht_rep hf t c \<Longrightarrow> \<forall>i < ht_size t. c i = [] \<Longrightarrow> ht_map hf t = Map.empty"
proof
  fix k assume "ht_rep hf t c" "\<forall>i < ht_size t. c i = []"
  then show "ht_map hf t k = None" using ht_map_iff [of hf t c k] by (cases "ht_map hf t k") (auto simp: ht_used_def)
qed

lemma new_fold:
  fixes t :: "('k, 'v) hashtable"
  assumes "length (ht_table t) = ht_size t" "ht_free t = None" "j \<le> ht_size t"
  defines "u \<equiv> fold (\<lambda>i t. (freeElement i t)\<lparr>ht_table := (ht_table t)[i := None]\<rparr>) [0..<j] t"
  shows "ht_size u = ht_size t \<and> length (ht_table u) = ht_size t \<and> (\<forall>i < j. ht_table u ! i = None)
    \<and> chain (ht_entries u) (ht_free u) (rev [0..<j])"
  using assms(3) unfolding u_def
proof (induction j)
  case 0
  then show ?case using assms(1,2) by simp
next
  case (Suc j)
  then show ?case by (auto simp: freeElement_def set_next_def ht_size_def less_Suc_eq nth_list_update)
qed

lemma ht_new_rep:
  assumes "junk \<noteq> []"
  shows "ht_inv hf (ht_new junk :: ('a, 'b) hashtable)" "ht_size (ht_new junk :: ('a, 'b) hashtable) = length junk"
    "ht_map hf (ht_new junk :: ('a, 'b) hashtable) = Map.empty"
proof -
  let ?n = "length junk" and ?t = "ht_new junk :: ('a, 'b) hashtable"
  define c where "c = (\<lambda>i. if i = ?n then rev [0..<?n] else [])"
  have "(\<Union>i \<le> ?n. set (c i)) = {..<?n}" by (auto simp: c_def)
  moreover have "\<forall>i \<le> ?n. distinct (c i)" "\<forall>i \<le> ?n. \<forall>j \<le> ?n. i \<noteq> j \<longrightarrow> set (c i) \<inter> set (c j) = {}"
    by (auto simp: c_def)
  ultimately have p: "parts ?n c" unfolding parts_def by blast
  let ?init = "\<lparr>ht_entries = map (\<lambda>q. \<lparr>el_entry = None, el_next = q\<rparr>) junk, ht_table = junk, ht_free = None\<rparr> :: ('a, 'b) hashtable"
  have n: "ht_size ?t = ?n" "length (ht_table ?t) = ?n" "\<forall>i < ?n. ht_table ?t ! i = None" "chain (ht_entries ?t) (ht_free ?t) (rev [0..<?n])"
  proof -
    have t0: "length (ht_table ?init) = ht_size ?init" "ht_free ?init = None" "?n \<le> ht_size ?init" "ht_size ?init = ?n" by (simp_all add: ht_size_def)
    note new_fold [OF t0(1-3), folded ht_new_def, unfolded t0(4)]
    then show "ht_size ?t = ?n" "length (ht_table ?t) = ?n" "\<forall>i < ?n. ht_table ?t ! i = None" "chain (ht_entries ?t) (ht_free ?t) (rev [0..<?n])"
      by blast+
  qed
  then have r: "ht_rep hf ?t c" using p assms by (simp add: ht_rep_def ht_head_def c_def ht_used_def)
  then show "ht_inv hf ?t" by (auto simp: ht_inv_def)
  show "ht_map hf ?t = Map.empty" by (rule ht_map_empty [OF r]) (simp add: n(1) c_def)
  show "ht_size ?t = ?n" by (fact n(1))
qed

lemma clear_bucket_rep:
  "ht_rep hf t c \<Longrightarrow> i < ht_size t \<Longrightarrow> c i = xs \<Longrightarrow>
    \<exists>t' c'. clear_bucket i t = Some t' \<and> ht_rep hf t' c' \<and> ht_size t' = ht_size t \<and> c' i = [] \<and> (\<forall>k < ht_size t. k \<noteq> i \<longrightarrow> c' k = c k)"
proof (induction xs arbitrary: t c)
  case Nil
  then have "ht_table t ! i = None" by (auto simp: ht_rep_def ht_head_def dest: spec [of _ i])
  then have "clear_bucket i t = Some t" by (simp add: clear_bucket.simps)
  then show ?case using Nil by blast
next
  case (Cons e ys)
  let ?c = "c(i := ys, ht_size t := e # c (ht_size t))" and ?u = "freeElement e (ht_unlink i None e t)"
  have u: "ht_rep hf ?u ?c" "ht_size ?u = ht_size t" using unlink_rep [OF Cons.prems(1,2), of "[]" e ys] Cons.prems(3) by simp_all
  obtain t' c' where t': "clear_bucket i ?u = Some t'" "ht_rep hf t' c'" "ht_size t' = ht_size t" "c' i = []"
      "\<forall>k < ht_size t. k \<noteq> i \<longrightarrow> c' k = ?c k"
    using Cons.IH [OF u(1)] Cons.prems(2) u(2) by auto
  have "chain (ht_entries t) (ht_head t i) (c i)" using Cons.prems(1,2) by (simp add: ht_rep_def)
  then have "ht_table t ! i = Some e" using Cons.prems(2,3) by (simp add: ht_head_def)
  then have "clear_bucket i t = clear_bucket i ?u" by (subst clear_bucket.simps) (simp add: ht_unlink_def Let_def)
  moreover have "\<forall>k < ht_size t. k \<noteq> i \<longrightarrow> c' k = c k" using t'(5) by simp
  ultimately show ?case using t' by auto
qed

lemma ht_clear_fold:
  assumes "ht_rep hf t c" "j \<le> ht_size t"
  shows "\<exists>t' c'. fold (\<lambda>i t. Option.bind t (clear_bucket i)) [0..<j] (Some t) = Some t' \<and> ht_rep hf t' c'
    \<and> ht_size t' = ht_size t \<and> (\<forall>k < j. c' k = [])"
  using assms(2)
proof (induction j)
  case (Suc j)
  then obtain t' c' where t': "fold (\<lambda>i t. Option.bind t (clear_bucket i)) [0..<j] (Some t) = Some t'" "ht_rep hf t' c'"
      "ht_size t' = ht_size t" "\<forall>k < j. c' k = []" by auto
  obtain u d where u: "clear_bucket j t' = Some u" "ht_rep hf u d" "ht_size u = ht_size t'" "d j = []" "\<forall>k < ht_size t'. k \<noteq> j \<longrightarrow> d k = c' k"
    using clear_bucket_rep [OF t'(2), of j] Suc.prems t'(3) by auto
  have "\<forall>k < Suc j. d k = []" using u(4,5) t'(3,4) Suc.prems by (auto simp: less_Suc_eq)
  then show ?case using t'(1,3) u by auto
qed (use assms(1) in auto)

definition ht_run :: "('k \<Rightarrow> nat) \<Rightarrow> ('k, 'v) hashtable \<Rightarrow> ('k, 'v) call list \<Rightarrow> (('k, 'v) hashtable \<times> 'v answer result list) option" where
  "ht_run hf = run_calls (ht_add hf) (\<lambda>t k. obind (ht_remove hf t k) (\<lambda>(b, t). ok (Some b, t))) (ht_get hf)"

text \<open>C21: Whatever the memory of a hash table holds when it is constructed, whatever its hash function
  is and whatever \<^verbatim>\<open>add\<close>, \<^verbatim>\<open>remove\<close> and \<^verbatim>\<open>get\<close> calls are made, each of them returns what it would
  return on a map with room for as many entries as the table has elements; \<^verbatim>\<open>remove\<close> returns whether the
  key was there.\<close>

theorem hashtable_refines_map:
  assumes "junk \<noteq> []"
  shows "\<exists>t rs. ht_run hf (ht_new junk) cs = Some (t, rs) \<and> ht_inv hf t \<and> map_calls Some (Some (length junk)) Map.empty cs = (ht_map hf t, rs)"
proof -
  have "ht_inv hf (ht_new junk) \<and> ht_size (ht_new junk) = length junk" using ht_new_rep(1,2) [OF assms] by blast
  from ht_dict.run_refines [OF this, of cs] show ?thesis unfolding ht_run_def ht_new_rep(3) [OF assms] by blast
qed

theorem hashtable_refines_map_witness:
  "\<exists>t. ht_run (\<lambda>s. unat (hash_name s)) (ht_new [Some 7, None]) [Add [1] ''a'', Add [3] ''b'', Add [1] ''c'', Add [5] ''d'', Remove [1], Remove [1], Get [3], Get [1]]
    = Some (t, [Inr Added, Inr Added, Inl (Thrown EEXIST), Inl (Thrown ENOSPC), Inr (Removed (Some True)), Inr (Removed (Some False)), Inr (Got ''b''), Inl (Thrown ENOENT)])"
proof -
  let ?cs = "[Add [1] ''a'', Add [3] ''b'', Add [1] ''c'', Add [5] ''d'', Remove [1], Remove [1], Get [3], Get [1]] :: (u8 list, string) call list"
  have "snd (map_calls Some (Some 2) Map.empty ?cs)
    = [Inr Added, Inr Added, Inl (Thrown EEXIST), Inl (Thrown ENOSPC), Inr (Removed (Some True)), Inr (Removed (Some False)), Inr (Got ''b''), Inl (Thrown ENOENT)]"
    by (simp add: dict_add_def dict_get_def)
  then show ?thesis using hashtable_refines_map [of "[Some 7, None]" "\<lambda>s. unat (hash_name s)" ?cs]
    by (fastforce simp: numeral_2_eq_2)
qed

text \<open>\<^verbatim>\<open>clear\<close> returns and leaves a table without entries that has all its room again.\<close>

theorem hashtable_clear:
  assumes "ht_inv hf t"
  shows "\<exists>t'. ht_clear t = Some t' \<and> ht_inv hf t' \<and> ht_size t' = ht_size t \<and> ht_map hf t' = Map.empty"
proof -
  obtain c where c: "ht_rep hf t c" using assms by (auto simp: ht_inv_def)
  obtain t' c' where "ht_clear t = Some t'" "ht_rep hf t' c'" "ht_size t' = ht_size t" "\<forall>k < ht_size t. c' k = []"
    using ht_clear_fold [OF c order_refl] by (auto simp: ht_clear_def)
  then show ?thesis using ht_map_empty [of hf t' c'] by (auto simp: ht_inv_def)
qed

theorem hashtable_clear_witness:
  "ht_clear (ht_new [Some 0] :: (u8 list, string) hashtable) \<noteq> None"
  using hashtable_clear [OF ht_new_rep(1), of "[Some 0]" "\<lambda>s. unat (hash_name s)"] by auto

end
