(* ===== verification/OrderedMap.thy ===== *)
theory OrderedMap
  imports AaTree "HOL-Library.List_Lexorder"
begin

text \<open>
  The map from strings to strings of \<^verbatim>\<open>include/es/orderedMap.h\<close>, a tree and a count of its entries, which
  can also be read by the position of an entry in the order of the keys. A \<^verbatim>\<open>std::string\<close> is its bytes;
  strings are ordered as lists of unsigned bytes. A C string comes without the 0 that ends it.
\<close>

type_synonym map_tree = "(u8 list, u8 list) aa_tree"

record ordered_map =
  om_tree :: map_tree
  om_size :: s32

definition om_new :: ordered_map where
  "om_new = \<lparr>om_tree = aa_empty, om_size = 0\<rparr>"

text \<open>Copying a string to the caller's buffer: the bytes that are written, without a 0 behind them. A
  negative length would be converted to a huge number.\<close>

definition om_copy :: "s32 \<Rightarrow> u8 list \<Rightarrow> u8 list result" where
  "om_copy stringLength str =
    (let len = min (sint (word_of_nat (length str) :: s32)) (sint stringLength)
     in if len < 0 then Inl Undefined else Inr (take (nat len) str))"

definition om_getSize :: "ordered_map \<Rightarrow> s32" where
  "om_getSize m = om_size m"

text \<open>The loop of \<^verbatim>\<open>getByIndex\<close>; the count is compared as an unsigned number.\<close>

partial_function (option) om_seek :: "('k, 'v) tree \<Rightarrow> u32 \<Rightarrow> u32 \<Rightarrow> tree_iter \<Rightarrow> nat option run" where
  "om_seek t cnt index it =
    obind (it_next t it) (\<lambda>(it, n).
      case n of None \<Rightarrow> ok None | Some i \<Rightarrow> if cnt = index then ok (Some i) else om_seek t (cnt + 1) index it)"

definition om_getByIndex :: "ordered_map \<Rightarrow> s32 \<Rightarrow> u32 \<Rightarrow> u8 list option run" where
  "om_getByIndex m stringLength index =
    obind (om_seek (aa_root (om_tree m)) 0 index (aa_begin (om_tree m))) (\<lambda>n.
      case n of
        None \<Rightarrow> ok None
      | Some i \<Rightarrow>
          (case t_entry (node_at i (aa_root (om_tree m))) of
             None \<Rightarrow> Some (Inl Undefined)
           | Some (k, v) \<Rightarrow> Some (andThen (om_copy stringLength v) (\<lambda>s. Inr (Some s)))))"

text \<open>The loop of \<^verbatim>\<open>setByIndex\<close>, which does not count.\<close>

partial_function (option) om_scan :: "('k, 'v) tree \<Rightarrow> u32 \<Rightarrow> u32 \<Rightarrow> tree_iter \<Rightarrow> nat option run" where
  "om_scan t cnt index it =
    obind (it_next t it) (\<lambda>(it, n).
      case n of None \<Rightarrow> ok None | Some i \<Rightarrow> if cnt = index then ok (Some i) else om_scan t cnt index it)"

declare om_seek.simps [code] om_scan.simps [code]

definition om_setByIndex :: "ordered_map \<Rightarrow> u32 \<Rightarrow> u8 list \<Rightarrow> ordered_map run" where
  "om_setByIndex m index val =
    (if om_size m < index then ok m
     else obind (om_scan (aa_root (om_tree m)) 0 index (aa_begin (om_tree m))) (\<lambda>n.
       case n of
         None \<Rightarrow> ok m
       | Some i \<Rightarrow>
           (case t_entry (node_at i (aa_root (om_tree m))) of
              None \<Rightarrow> Some (Inl Undefined)
            | Some (k, v) \<Rightarrow> Some (andThen (aa_add (aa_remove (om_tree m) k) k val) (\<lambda>t. Inr (m\<lparr>om_tree := t\<rparr>))))))"

text \<open>\<^verbatim>\<open>get\<close> answers 0 for an exception of the tree.\<close>

definition om_get :: "ordered_map \<Rightarrow> s32 \<Rightarrow> u8 list \<Rightarrow> u8 list option result" where
  "om_get m stringLength name =
    (case aa_get (om_tree m) name of
       Inl e \<Rightarrow> Inr None
     | Inr str \<Rightarrow> andThen (om_copy stringLength str) (\<lambda>s. Inr (Some s)))"

definition om_set :: "ordered_map \<Rightarrow> u8 list \<Rightarrow> u8 list \<Rightarrow> ordered_map result" where
  "om_set m name val =
    (let m = (if aa_contains (om_tree m) name
              then \<lparr>om_tree = aa_remove (om_tree m) name, om_size = om_size m - 1\<rparr>
              else m)
     in andThen (aa_add (om_tree m) name val) (\<lambda>t. Inr \<lparr>om_tree = t, om_size = om_size m + 1\<rparr>))"

subsection \<open>Reading and writing by name\<close>

definition om_map :: "ordered_map \<Rightarrow> u8 list \<rightharpoonup> u8 list" where
  "om_map m = aa_map (om_tree m)"

definition om_inv :: "ordered_map \<Rightarrow> bool" where
  "om_inv m \<longleftrightarrow> aa_inv (om_tree m) \<and> om_size m = word_of_nat (card (dom (om_map m)))"

lemma om_new_inv: "om_inv om_new" "om_map om_new = Map.empty"
  by (simp_all add: om_inv_def om_map_def om_new_def aa_empty_inv)

lemma aa_contains_map: "aa_inv t \<Longrightarrow> aa_contains t k \<longleftrightarrow> aa_map t k \<noteq> None"
  by (simp add: aa_contains_def aa_find)

lemma aa_map_finite: "finite (dom (aa_map t))"
  by (simp add: aa_map_def finite_dom_map_of)

lemma om_set_works:
  assumes "om_inv m"
  shows "\<exists>m'. om_set m name val = Inr m' \<and> om_inv m' \<and> om_map m' = (om_map m)(name \<mapsto> val)"
proof -
  define n where "n = (if aa_contains (om_tree m) name then \<lparr>om_tree = aa_remove (om_tree m) name, om_size = om_size m - 1\<rparr> else m)"
  have i: "aa_inv (om_tree m)" using assms by (simp add: om_inv_def)
  have n: "aa_inv (om_tree n)" "aa_map (om_tree n) = (om_map m)(name := None)"
    using aa_remove_inv [OF i, of name] aa_contains_map [OF i, of name] i by (auto simp: n_def om_map_def fun_upd_idem)
  obtain t where t: "aa_add (om_tree n) name val = Inr t"
    using aa_add_Inl [OF n(1), of name val] n(2) by (cases "aa_add (om_tree n) name val") auto
  note a = aa_add_Inr [OF n(1) t]
  have fin: "finite (dom (om_map m))" by (simp add: om_map_def aa_map_finite)
  have "om_size n = word_of_nat (card (dom (om_map m) - {name}))"
  proof (cases "om_map m name = None")
    case True
    then have "dom (om_map m) - {name} = dom (om_map m)" by auto
    then show ?thesis using True assms aa_contains_map [OF i, of name] by (simp add: n_def om_map_def om_inv_def)
  next
    case False
    then have "card (dom (om_map m)) = Suc (card (dom (om_map m) - {name}))" using fin by (intro card.remove) auto
    then show ?thesis using False assms aa_contains_map [OF i, of name] by (simp add: n_def om_map_def [symmetric] om_inv_def)
  qed
  moreover have "card (dom (aa_map t)) = Suc (card (dom (om_map m) - {name}))"
  proof -
    have "dom (aa_map t) = insert name (dom (om_map m))" using a n(2) by auto
    then show ?thesis by (simp only: card.insert_remove [OF fin])
  qed
  ultimately show ?thesis using t a n(2) by (auto simp: om_set_def n_def [symmetric] Let_def om_inv_def om_map_def)
qed

text \<open>\<^verbatim>\<open>set\<close> works for every name, whether there is an entry for it or not, and changes the value of
  this name alone; the size of the map stays the number of its entries. A \<^verbatim>\<open>get\<close> with a buffer that is
  long enough then returns the value.\<close>

theorem ordered_map_set:
  assumes "om_inv m"
  shows "\<exists>m'. om_set m name val = Inr m' \<and> om_inv m' \<and> om_map m' = (om_map m)(name \<mapsto> val)
    \<and> (\<forall>stringLength. int (length val) \<le> sint stringLength \<longrightarrow> om_get m' stringLength name = Inr (Some val))"
proof -
  obtain m' where m': "om_set m name val = Inr m'" "om_inv m'" "om_map m' = (om_map m)(name \<mapsto> val)"
    using om_set_works [OF assms] by blast
  have "aa_get (om_tree m') name = Inr val"
    using m'(2,3) aa_find [of "om_tree m'" name] by (simp add: om_inv_def om_map_def aa_get_def)
  moreover have "om_copy stringLength val = Inr val" if "int (length val) \<le> sint stringLength" for stringLength
  proof -
    have "int (length val) < 2 ^ 31" using that sint_lt [of stringLength] by simp
    then have "sint (word_of_nat (length val) :: s32) = int (length val)"
      by (simp add: signed_of_nat signed_take_bit_int_eq_self)
    then show ?thesis using that by (simp add: om_copy_def)
  qed
  ultimately show ?thesis using m' by (auto simp: om_get_def)
qed

theorem ordered_map_set_witness:
  "\<exists>m. om_set om_new [102] [1, 2] = Inr m \<and> om_get m 8 [102] = Inr (Some [1, 2])"
  using ordered_map_set [OF om_new_inv(1), of "[102]" "[1, 2]"] by fastforce

subsection \<open>Reading and writing by position\<close>

text \<open>What the loops find in terms of the nodes that a walk visits.\<close>

lemma it_all_Nil: "it_all t it = ok [] \<Longrightarrow> \<exists>it'. it_next t it = ok (it', None)"
  by (subst (asm) it_all.simps) (auto simp: obind_eq_Some split: option.splits)

lemma it_all_Cons: "it_all t it = ok (i # is) \<Longrightarrow> \<exists>it'. it_next t it = ok (it', Some i) \<and> it_all t it' = ok is"
  by (subst (asm) it_all.simps) (auto simp: obind_eq_Some split: option.splits)

lemma om_seek_all:
  "it_all t it = ok is \<Longrightarrow>
    om_seek t cnt index it = ok (if unat (index - cnt) < length is then Some (is ! unat (index - cnt)) else None)"
proof (induction "is" arbitrary: it cnt)
  case Nil
  then show ?case using it_all_Nil [OF Nil] by (subst om_seek.simps) auto
next
  case (Cons i "is")
  obtain it' where it': "it_next t it = ok (it', Some i)" "it_all t it' = ok is" using it_all_Cons [OF Cons.prems] by blast
  show ?case
  proof (cases "cnt = index")
    case True
    then show ?thesis using it'(1) by (subst om_seek.simps) simp
  next
    case False
    then have nz: "index - cnt \<noteq> 0" by simp
    then have "0 < unat (index - cnt)" by (simp add: unat_gt_0)
    moreover have d: "index - (cnt + 1) = index - cnt - 1" by (simp only: diff_diff_eq)
    ultimately have "unat (index - cnt) = Suc (unat (index - (cnt + 1)))" unfolding d using unat_minus_one [OF nz] by simp
    then show ?thesis using it' False Cons.IH [OF it'(2), of "cnt + 1"] by (subst om_seek.simps) simp
  qed
qed

lemma om_scan_all: "it_all t it = ok is \<Longrightarrow> cnt \<noteq> index \<Longrightarrow> om_scan t cnt index it = ok None"
proof (induction "is" arbitrary: it)
  case Nil
  then show ?case using it_all_Nil [OF Nil(1)] by (subst om_scan.simps) auto
next
  case (Cons i "is")
  then show ?case using it_all_Cons [OF Cons.prems(1)] by (subst om_scan.simps) auto
qed

text \<open>C39: \<^verbatim>\<open>setByIndex\<close> does not count the entries it passes. So it changes the value of the first
  entry at most: for every other position it does nothing at all.\<close>

theorem set_by_index_stuck:
  assumes "om_inv m" "index \<noteq> 0"
  shows "om_setByIndex m index val = ok m"
proof -
  obtain r where "aa_walk (om_tree m) = ok r" using walk_prefix [of "om_tree m"] assms(1) by (auto simp: om_inv_def)
  then obtain "is" where "it_all (aa_root (om_tree m)) (aa_begin (om_tree m)) = ok is" by (auto simp: aa_walk_def obind_eq_Some)
  from om_scan_all [OF this, of 0 index] show ?thesis using assms(2) by (simp add: om_setByIndex_def)
qed

theorem set_by_index_stuck_witness:
  "\<exists>m. om_set om_new [102] [1] = Inr m \<and> om_setByIndex m 1 [2] = ok m"
proof -
  obtain m where "om_set om_new [102] [1] = Inr m" "om_inv m" using om_set_works [OF om_new_inv(1)] by blast
  then show ?thesis using set_by_index_stuck [of m 1 "[2]"] by simp
qed

text \<open>Setting entries one after the other.\<close>

fun om_sets :: "ordered_map \<Rightarrow> (u8 list \<times> u8 list) list \<Rightarrow> ordered_map result" where
  "om_sets m [] = Inr m"
| "om_sets m ((k, v) # es) = andThen (om_set m k v) (\<lambda>m. om_sets m es)"

lemma om_sets_adds:
  assumes "om_inv m" "distinct (map fst es)" "fst ` set es \<inter> dom (om_map m) = {}"
  shows "\<exists>n. om_sets m es = andThen (aa_adds (om_tree m) es) (\<lambda>t. Inr \<lparr>om_tree = t, om_size = n\<rparr>)"
  using assms
proof (induction es arbitrary: m)
  case Nil
  show ?case by (intro exI [of _ "om_size m"]) simp
next
  case (Cons e es)
  obtain k v where e: "e = (k, v)" by (cases e)
  obtain m' where m': "om_set m k v = Inr m'" "om_inv m'" "om_map m' = (om_map m)(k \<mapsto> v)"
    using om_set_works [OF Cons.prems(1)] by blast
  have "\<not> aa_contains (om_tree m) k"
    using Cons.prems(1,3) aa_contains_map [of "om_tree m" k] e by (auto simp: om_inv_def om_map_def)
  then have "aa_add (om_tree m) k v = Inr (om_tree m')"
    using m'(1) by (cases "aa_add (om_tree m) k v") (auto simp: om_set_def Let_def)
  moreover have "\<exists>n. om_sets m' es = andThen (aa_adds (om_tree m') es) (\<lambda>t. Inr \<lparr>om_tree = t, om_size = n\<rparr>)"
  proof (rule Cons.IH [OF m'(2)])
    show "distinct (map fst es)" using Cons.prems(2) by simp
    have "dom (om_map m') = insert k (dom (om_map m))" using m'(3) by auto
    then show "fst ` set es \<inter> dom (om_map m') = {}" using Cons.prems(2,3) e by auto
  qed
  ultimately show ?case using m'(1) e by simp
qed

text \<open>C22: When every name has been set once, \<^verbatim>\<open>getByIndex\<close> returns the values in the order of the names,
  and nothing behind the last one.\<close>

theorem ordered_map_by_index:
  assumes "distinct (map fst es)"
  shows "\<exists>m. om_sets om_new es = Inr m \<and> (\<forall>stringLength index. om_getByIndex m stringLength index =
    (if unat index < length es
     then Some (andThen (om_copy stringLength (snd (sort_key fst es ! unat index))) (\<lambda>s. Inr (Some s)))
     else ok None))"
proof -
  obtain t where t: "aa_adds aa_empty es = Inr t" "aa_walk t = ok (map Some (sort_key fst es))"
    using adds_walk [OF assms] by blast
  obtain n where n: "om_sets om_new es = Inr \<lparr>om_tree = t, om_size = n\<rparr>"
    using om_sets_adds [OF om_new_inv(1) assms] t(1) by (auto simp: om_new_inv(2)) (auto simp: om_new_def)
  obtain "is" where i: "it_all (aa_root t) (aa_begin t) = ok is" "map (\<lambda>i. t_entry (node_at i (aa_root t))) is = map Some (sort_key fst es)"
    using t(2) by (auto simp: aa_walk_def obind_eq_Some)
  have l: "length is = length es" using arg_cong [OF i(2), of length] by simp
  have "t_entry (node_at (is ! j) (aa_root t)) = Some (sort_key fst es ! j)" if "j < length es" for j
    using arg_cong [OF i(2), of "\<lambda>xs. xs ! j"] that l by simp
  then have "om_getByIndex \<lparr>om_tree = t, om_size = n\<rparr> stringLength index =
    (if unat index < length es
     then Some (andThen (om_copy stringLength (snd (sort_key fst es ! unat index))) (\<lambda>s. Inr (Some s)))
     else ok None)" for stringLength index
    using om_seek_all [OF i(1), of 0 index] l by (simp add: om_getByIndex_def split: prod.split)
  then show ?thesis using n by blast
qed

theorem ordered_map_by_index_witness:
  "\<exists>m. om_sets om_new [([98], [2]), ([97], [1])] = Inr m \<and> om_getByIndex m 4 0 = ok (Some [1]) \<and> om_getByIndex m 4 1 = ok (Some [2])"
proof -
  have "sort_key fst [([98 :: u8], [2 :: u8]), ([97], [1])] = [([97], [1]), ([98], [2])]" by (simp add: sort_key_simps)
  then show ?thesis using ordered_map_by_index [of "[([98], [2]), ([97], [1])]"] by (fastforce simp: om_copy_def)
qed

end
