(* ===== verification/Inet4.thy ===== *)
theory Inet4
  imports Endian
begin

text \<open>
  The header of IPv4 in \<^verbatim>\<open>include/es/net/inet4.h\<close>, the checksum, and the fragmentation of datagrams that are
  too long for a link in \<^verbatim>\<open>os/net/src/inet4.cpp\<close>. A packet is its bytes from the header on. 16 bit fields
  are in network order, but the checksum is read and written in the order of the machine, which is
  little endian.
\<close>

subsection \<open>struct IPHdr\<close>

definition ip_hdrSize :: "u8 list \<Rightarrow> nat" where
  "ip_hdrSize p = unat ((ucast (p ! 0) :: u32) AND 0x0f) * 4"

definition ip_setHdrSize :: "u8 list \<Rightarrow> nat \<Rightarrow> u8 list result" where
  "ip_setHdrSize p hlen =
    (if 20 \<le> hlen \<and> hlen \<le> 60 \<and> hlen mod 4 = 0 then Inr (p[0 := (p ! 0 AND NOT 0x0f) OR word_of_nat (hlen div 4)])
     else Inl AssertFailed)"

definition ip_size :: "u8 list \<Rightarrow> nat" where
  "ip_size p = unat (be_word p 2)"

definition ip_setSize :: "u8 list \<Rightarrow> nat \<Rightarrow> u8 list" where
  "ip_setSize p n = be_xword p 2 (word_of_nat n)"

definition ip_offset :: "u8 list \<Rightarrow> nat" where
  "ip_offset p = unat (be_word p 6 AND 0x1fff) * 8"

definition ip_more :: "u8 list \<Rightarrow> bool" where
  "ip_more p = (be_word p 6 AND 0x2000 \<noteq> 0)"

definition ip_setMore :: "u8 list \<Rightarrow> u8 list" where
  "ip_setMore p = be_xword p 6 (be_word p 6 OR 0x2000)"

text \<open>The argument is converted to 16 bits. The bits of the offset that are there stay set.\<close>

definition ip_setOffset :: "u8 list \<Rightarrow> int \<Rightarrow> u8 list result" where
  "ip_setOffset p offset =
    (let off = nat (offset mod 65536)
     in if off mod 8 = 0 \<and> off \<le> 65512
        then Inr (be_xword p 6 (word_of_nat (off div 8) OR (be_word p 6 AND 0x1fff)))
        else Inl AssertFailed)"

subsection \<open>The checksum\<close>

text \<open>The sum of 16 bit words in the order of the machine, and the carries added to it. For the 65535
  bytes of a packet it stays far below \<open>2 ^ 31\<close>, so it is a natural number.\<close>

fun sumUp :: "u8 list \<Rightarrow> nat" where
  "sumUp [] = 0"
| "sumUp [a] = unat a"
| "sumUp (a # b # bs) = unat a + 256 * unat b + sumUp bs"

function fold_carry :: "nat \<Rightarrow> nat" where
  "fold_carry s = (if s div 65536 = 0 then s else fold_carry (s mod 65536 + s div 65536))"
  by auto

termination fold_carry
proof (relation "measure id")
  fix s :: nat assume s: "s div 65536 \<noteq> 0"
  have "65536 * (s div 65536) + s mod 65536 = s" by (rule mult_div_mod_eq)
  then have "s mod 65536 + s div 65536 < s" using s by linarith
  then show "(s mod 65536 + s div 65536, s) \<in> measure id" by simp
qed simp

declare fold_carry.simps [simp del]

definition checksum :: "u8 list \<Rightarrow> nat \<Rightarrow> u16" where
  "checksum p hlen = NOT (word_of_nat (fold_carry (sumUp (take hlen p))))"

text \<open>Clearing the sum of a header and computing it anew.\<close>

definition ip_setSum :: "u8 list \<Rightarrow> u8 list" where
  "ip_setSum p = (let p = le_xword p 10 0 in le_xword p 10 (ucast (checksum p (ip_hdrSize p))))"

subsection \<open>InReceiver::fragment\<close>

text \<open>The options that go into every fragment. An option that reaches beyond the packet, or that does
  not fit, is \<open>Undefined\<close>.\<close>

partial_function (option) copy_options :: "u8 list \<Rightarrow> nat \<Rightarrow> nat \<Rightarrow> u8 list \<Rightarrow> u8 list run" where
  "copy_options opt optlen i acc =
    (if i < optlen \<and> opt ! i \<noteq> 0x00 then
       if opt ! i \<noteq> 0x01 \<and> length opt \<le> i + 1 then Some (Inl Undefined)
       else let len = (if opt ! i = 0x01 then 1 else unat (opt ! (i + 1))) in
         if opt ! i AND 0x80 \<noteq> 0 then
           if length opt < i + len \<or> 40 < length acc + len then Some (Inl Undefined)
           else copy_options opt optlen (i + len) (acc @ take len (drop i opt))
         else copy_options opt optlen (i + len) acc
     else ok acc)"

text \<open>The first fragment, with \<open>offset\<close> bytes of data.\<close>

definition first_fragment :: "u8 list \<Rightarrow> int \<Rightarrow> u8 list result" where
  "first_fragment org offset =
    (let len = int (ip_hdrSize org) + offset in
     if len < 20 \<or> int (length org) < len then Inl Undefined
     else Inr (ip_setSum (be_xword (ip_setSize (take (nat len) org) (nat len)) 6 0x2000)))"

text \<open>A fragment with \<open>len\<close> bytes of data from \<open>offset\<close>.\<close>

definition next_fragment :: "u8 list \<Rightarrow> u8 list \<Rightarrow> int \<Rightarrow> int \<Rightarrow> u8 list result" where
  "next_fragment org option offset len =
    (let hlen = 20 + length option; src = int (ip_hdrSize org) + offset in
     if len < 0 \<or> src < 0 \<or> int (length org) < src + len then Inl Undefined
     else andThen (ip_setHdrSize (take 20 org @ option @ take (nat len) (drop (nat src) org)) hlen) (\<lambda>frag.
       andThen (ip_setOffset (ip_setSize frag (hlen + nat len)) offset) (\<lambda>frag.
         Inr (ip_setSum (if src + len < int (ip_size org) then ip_setMore frag else frag)))))"

text \<open>The loop over the remaining data. A link with no room for 8 bytes of data gets empty fragments
  for ever.\<close>

partial_function (option) fragment_loop :: "u8 list \<Rightarrow> int \<Rightarrow> u8 list \<Rightarrow> int \<Rightarrow> u8 list list run" where
  "fragment_loop org mtu option offset =
    (if offset < int (ip_size org) - int (ip_hdrSize org) then
       let len = min ((mtu - (20 + int (length option))) AND NOT 7) (int (ip_size org) - int (ip_hdrSize org) - offset)
       in obind (Some (next_fragment org option offset len)) (\<lambda>frag.
            obind (fragment_loop org mtu option (offset + len)) (\<lambda>frags. ok (frag # frags)))
     else ok [])"

text \<open>The options are padded to a multiple of 4 bytes.\<close>

definition fragment :: "u8 list \<Rightarrow> int \<Rightarrow> u8 list list run" where
  "fragment org mtu =
    (let hlen = ip_hdrSize org; offset = (mtu - int hlen) AND NOT 7 in
     obind (Some (first_fragment org offset)) (\<lambda>frag.
       if hlen < 20 then Some (Inl AssertFailed)
       else obind (copy_options (drop 20 org) (hlen - 20) 0 []) (\<lambda>option.
         obind (fragment_loop org mtu (option @ replicate ((4 - length option mod 4) mod 4) 0) offset) (\<lambda>frags.
           ok (frag # frags)))))"

declare copy_options.simps [code] fragment_loop.simps [code]

subsection \<open>Bytes that stay\<close>

definition same_but :: "nat set \<Rightarrow> u8 list \<Rightarrow> u8 list \<Rightarrow> bool" where
  "same_but W buf buf' \<longleftrightarrow> length buf' = length buf \<and> (\<forall>i. i \<notin> W \<longrightarrow> buf' ! i = buf ! i)"

lemma same_but_word: "same_but W buf buf' \<Longrightarrow> i \<notin> W \<Longrightarrow> i + 1 \<notin> W \<Longrightarrow> le_word buf' i = le_word buf i"
  by (simp add: same_but_def le_word_def)

lemma same_but_xword: "same_but {i, i + 1} buf (le_xword buf i v)"
  by (auto simp: same_but_def le_xword_def)

lemma same_but_trans: "same_but V b b' \<Longrightarrow> same_but W b' b'' \<Longrightarrow> same_but (V \<union> W) b b''"
  by (simp add: same_but_def)

lemma same_but_mono: "same_but V b b' \<Longrightarrow> V \<subseteq> W \<Longrightarrow> same_but W b b'"
  by (auto simp: same_but_def)

lemma ip_fields_frame: "same_but W b b' \<Longrightarrow> 0 \<notin> W \<Longrightarrow> ip_hdrSize b' = ip_hdrSize b"
  by (simp add: same_but_def ip_hdrSize_def)

lemma ip_size_frame: "same_but W b b' \<Longrightarrow> 2 \<notin> W \<Longrightarrow> 3 \<notin> W \<Longrightarrow> ip_size b' = ip_size b"
  by (simp add: same_but_def ip_size_def be_word_def)

lemma ip_setSize_size: "4 \<le> length p \<Longrightarrow> n < 65536 \<Longrightarrow> ip_size (ip_setSize p n) = n"
  by (simp add: ip_size_def ip_setSize_def be16.get_put_same unsigned_take_bit_eq unsigned_of_nat take_bit_nat_eq_self)

lemma ip_setSize_frame: "same_but {2, 3} p (ip_setSize p n)"
  by (auto simp: same_but_def ip_setSize_def be_xword_def)

subsection \<open>The checksum of a header\<close>

lemma unat_bytes: "unat (take_bit 16 v) = unat (ucast v :: u8) + 256 * unat (ucast (drop_bit 8 v) :: u8)" for v :: u32
proof -
  have "unat v mod (256 * 256) = 256 * (unat v div 256 mod 256) + unat v mod 256" by (rule mod_mult2_eq)
  then show ?thesis
    by (simp add: unsigned_take_bit_eq unsigned_ucast_eq unsigned_drop_bit_eq take_bit_nat_def drop_bit_nat_def)
qed

lemma le_word_bytes: "ucast (le_word p i) = p ! i" "ucast (drop_bit 8 (le_word p i)) = p ! (i + 1)"
  by (rule bit_word_eqI; auto simp: le_word_def bit_simps dest: bit_imp_le_length)+

lemma unat_le_word: "unat (le_word p i) = unat (p ! i) + 256 * unat (p ! (i + 1))"
  using unat_bytes [of "le_word p i"] by (simp add: le_word_take_bit le_word_bytes)

lemma sumUp_update:
  "i + 1 < length p \<Longrightarrow> i mod 2 = 0 \<Longrightarrow> sumUp (le_xword p i v) + unat (le_word p i) = sumUp p + unat (take_bit 16 v)"
proof (induction p arbitrary: i rule: sumUp.induct)
  case (3 a b bs)
  show ?case
  proof (cases "i = 0")
    case True
    then show ?thesis by (simp add: le_xword_def unat_bytes unat_le_word)
  next
    case False
    then obtain k where k: "i = Suc (Suc k)" using "3.prems"(2) by (metis One_nat_def bits_one_mod_two_eq_one not0_implies_Suc old.nat.exhaust zero_neq_one)
    then have "sumUp (le_xword bs k v) + unat (le_word bs k) = sumUp bs + unat (take_bit 16 v)" using "3.prems" by (intro "3.IH") auto
    moreover have "le_xword (a # b # bs) i v = a # b # le_xword bs k v" "le_word (a # b # bs) i = le_word bs k"
      using k by (simp_all add: le_xword_def le_word_def)
    ultimately show ?thesis by simp
  qed
qed simp_all

lemma fold_carry_facts: "fold_carry s mod 65535 = s mod 65535 \<and> fold_carry s < 65536 \<and> (fold_carry s = 0 \<longleftrightarrow> s = 0)"
proof (induction s rule: fold_carry.induct)
  case (1 s)
  show ?case
  proof (cases "s div 65536 = 0")
    case True
    then show ?thesis by (subst (1 2 3) fold_carry.simps) auto
  next
    case False
    have "(s mod 65536 + s div 65536) mod 65535 = s mod 65535"
    proof -
      have "s = s mod 65536 + s div 65536 + 65535 * (s div 65536)" using mult_div_mod_eq [of 65536 s] by linarith
      then show ?thesis by (metis mod_mult_self2)
    qed
    then show ?thesis using "1.IH" [OF False] False by (subst (1 2 3) fold_carry.simps) auto
  qed
qed

lemma int_and_not_7: "(x :: int) AND NOT 7 = 8 * (x div 8)"
proof -
  have "x AND NOT 7 = x AND NOT (mask 3)" by (simp add: mask_eq_exp_minus_1)
  also have "\<dots> = push_bit 3 (drop_bit 3 x)" by (rule bit_eqI) (auto simp: bit_simps)
  finally show ?thesis by (simp add: push_bit_eq_mult drop_bit_eq_div)
qed

lemma mod_full: "(x :: nat) mod 65535 = 0 \<Longrightarrow> x < 65536 \<Longrightarrow> x \<noteq> 0 \<Longrightarrow> x = 65535"
proof -
  assume x: "x mod 65535 = 0" "x < 65536" "x \<noteq> 0"
  then obtain q where q: "x = 65535 * q" by auto
  then show "x = 65535" using x(2,3) by (cases q) auto
qed

lemma take_le_xword: "i + 2 \<le> k \<Longrightarrow> take k (le_xword p i v) = le_xword (take k p) i v"
  by (simp add: le_xword_def take_update_swap)

lemma ip_setSum_frame: "same_but {10, 11} p (ip_setSum p)"
  unfolding ip_setSum_def Let_def
  by (rule same_but_mono [OF same_but_trans [OF same_but_xword same_but_xword]]) auto

lemma checksum_setSum:
  assumes "12 \<le> ip_hdrSize p" "ip_hdrSize p \<le> length p"
  shows "checksum (ip_setSum p) (ip_hdrSize p) = 0"
proof -
  let ?h = "ip_hdrSize p" and ?p = "take (ip_hdrSize p) (le_xword p 10 0)"
  let ?s = "sumUp ?p"
  have h: "ip_hdrSize (le_xword p 10 0) = ?h" using ip_fields_frame [OF same_but_xword [of 10 p 0]] by simp
  define k where "k = checksum (le_xword p 10 0) ?h"
  have k: "unat k = 65535 - fold_carry ?s"
  proof -
    have "fold_carry ?s < 65536" using fold_carry_facts by blast
    then have "unat (word_of_nat (fold_carry ?s) :: u16) = fold_carry ?s" by (simp add: unsigned_of_nat take_bit_nat_eq_self)
    moreover have "NOT w = - 1 - w" for w :: u16 by (simp add: not_eq_complement)
    moreover have "unat (- 1 - w) = 65535 - unat w" for w :: u16 by (simp add: unat_sub unsigned_minus_1_eq_mask mask_eq_exp_minus_1 word_order.extremum)
    ultimately show ?thesis unfolding k_def checksum_def h by simp
  qed
  have "take ?h (ip_setSum p) = le_xword ?p 10 (ucast k)"
    using assms(1) by (simp add: ip_setSum_def Let_def h k_def take_le_xword)
  moreover have "unat (le_word ?p 10) = 0"
    using assms by (simp add: take_le_xword le16.get_put_same)
  moreover have "unat (take_bit 16 (ucast k :: u32)) = unat k"
  proof -
    have "unat k < 2 ^ 16" using unsigned_less [of k] by simp
    then show ?thesis by (simp add: unsigned_take_bit_eq unsigned_ucast_eq take_bit_nat_eq_self)
  qed
  ultimately have sum: "sumUp (take ?h (ip_setSum p)) = ?s + (65535 - fold_carry ?s)"
    using sumUp_update [of 10 ?p "ucast k"] assms k by simp
  let ?t = "?s + (65535 - fold_carry ?s)"
  have f: "fold_carry ?s mod 65535 = ?s mod 65535" "fold_carry ?s < 65536" "fold_carry ?s = 0 \<longleftrightarrow> ?s = 0" using fold_carry_facts by auto
  have "?t mod 65535 = (fold_carry ?s + (65535 - fold_carry ?s)) mod 65535" using f(1) by (metis mod_add_left_eq)
  then have "?t mod 65535 = 0" using f(2) by simp
  moreover have "?t \<noteq> 0" using f(2,3) by (cases "?s = 0") auto
  ultimately have "fold_carry ?t mod 65535 = 0" "fold_carry ?t < 65536" "fold_carry ?t \<noteq> 0" using fold_carry_facts [of ?t] by auto
  then have "fold_carry ?t = 65535" by (rule mod_full)
  then show ?thesis by (simp add: checksum_def sum)
qed

subsection \<open>What the fragments are\<close>

lemma take_bit_small: "unat w < 2 ^ k \<Longrightarrow> take_bit k w = w" for w :: "'a :: len word"
  by (simp add: word_unat_eq_iff unsigned_take_bit_eq take_bit_nat_eq_self)

lemma unat_small: "j < 2 ^ 32 \<Longrightarrow> unat (word_of_nat j :: u32) = j"
  by (simp add: unsigned_of_nat take_bit_nat_eq_self)

lemma offset_word:
  assumes "j < 8192"
  shows "(word_of_nat j :: u32) AND 0x1fff = word_of_nat j" "(word_of_nat j :: u32) AND 0x2000 = 0"
    "(word_of_nat j OR 0x2000 :: u32) AND 0x1fff = word_of_nat j" "(word_of_nat j OR 0x2000 :: u32) AND 0x2000 = 0x2000"
proof -
  let ?w = "word_of_nat j :: u32"
  have m: "(0x1fff :: u32) = mask 13" "(0x2000 :: u32) = 2 ^ 13" by (simp_all add: mask_eq_exp_minus_1)
  have t: "take_bit 13 ?w = ?w" using assms by (intro take_bit_small) (simp add: unat_small)
  then have n: "\<not> bit ?w 13" by (metis bit_take_bit_iff less_irrefl)
  show "?w AND 0x1fff = ?w" unfolding m take_bit_eq_mask [symmetric] by (fact t)
  show "?w AND 0x2000 = 0" unfolding m and_exp_eq_0_iff_not_bit by (fact n)
  show "(?w OR 0x2000) AND 0x1fff = ?w" 
    unfolding m take_bit_eq_mask [symmetric] take_bit_or t by simp
  have "(x OR y) AND y = y" for x y :: u32 by (rule bit_word_eqI) (auto simp: bit_and_iff bit_or_iff)
  then show "(?w OR 0x2000) AND 0x2000 = 0x2000" .
qed

lemma be_xword_twice: "be_xword (be_xword p i v) i w = be_xword p i w"
  by (simp add: be_xword_def list_update_swap)

lemma be_xword_frame: "same_but {i, i + 1} p (be_xword p i v)"
  by (auto simp: same_but_def be_xword_def)

lemma ip_setHdrSize_plain:
  "\<exists>q. ip_setHdrSize p 20 = Inr q \<and> (p \<noteq> [] \<longrightarrow> ip_hdrSize q = 20) \<and> same_but {0} p q"
proof -
  have "(ucast ((b AND NOT 0x0f) OR 5) :: u32) AND 0x0f = 5" for b :: u8
  proof -
    have m: "(0x0f :: u8) = mask 4" "(0x0f :: u32) = mask 4" by (simp_all add: mask_eq_exp_minus_1)
    have "take_bit 4 ((b AND NOT (mask 4)) OR 5 :: u8) = take_bit 4 5" by (rule bit_word_eqI) (auto simp: bit_simps)
    moreover have "take_bit 4 (ucast x :: u32) = ucast (take_bit 4 x)" for x :: u8 by (rule bit_word_eqI) (auto simp: bit_simps)
    ultimately show ?thesis unfolding m by (simp add: take_bit_eq_mask [symmetric])
  qed
  then show ?thesis by (auto simp: ip_setHdrSize_def ip_hdrSize_def same_but_def)
qed

lemma finish_fragment:
  assumes g: "length g = m" "20 \<le> m" "m < 65536" "ip_hdrSize g = 20" and w: "take_bit 16 w = w"
  defines "f \<equiv> ip_setSum (be_xword (ip_setSize g m) 6 w)"
  shows "length f = m \<and> ip_hdrSize f = 20 \<and> ip_size f = m \<and> be_word f 6 = w \<and> (\<forall>i \<ge> 20. f ! i = g ! i) \<and> checksum f 20 = 0"
proof -
  let ?a = "ip_setSize g m" and ?b = "be_xword (ip_setSize g m) 6 w"
  have s: "same_but {2, 3} g ?a" "same_but {6, 7} ?a ?b" "same_but {10, 11} ?b f"
    using ip_setSize_frame be_xword_frame [of 6 ?a w] ip_setSum_frame by (simp_all add: f_def)
  have len: "length ?a = m" "length ?b = m" "length f = m" using s g(1) by (simp_all add: same_but_def)
  have h: "ip_hdrSize ?b = 20" "ip_hdrSize f = 20" using ip_fields_frame [OF s(1)] ip_fields_frame [OF s(2)] ip_fields_frame [OF s(3)] g(4) by simp_all
  have "ip_size f = m"
    using ip_size_frame [OF s(2)] ip_size_frame [OF s(3)] ip_setSize_size [of g m] g by simp
  moreover have "be_word f 6 = be_word ?b 6" using s(3) by (simp add: same_but_def be_word_def)
  moreover have "be_word ?b 6 = w" using len(1) g(2) w by (simp add: be16.get_put_same)
  moreover have "\<forall>i \<ge> 20. f ! i = g ! i" using s by (simp add: same_but_def)
  moreover have "checksum f 20 = 0" using checksum_setSum [of ?b] h(1) len(2) g(2) by (simp add: f_def)
  ultimately show ?thesis using h(2) len(3) by simp
qed

text \<open>A fragment with the bytes from \<open>o'\<close> up to \<open>e\<close> of the data \<open>D\<close>, without options.\<close>

definition frag_of :: "u8 list \<Rightarrow> nat \<Rightarrow> nat \<Rightarrow> u8 list \<Rightarrow> bool" where
  "frag_of D o' e f \<longleftrightarrow> o' < e \<and> e \<le> length D \<and> o' mod 8 = 0 \<and> (e < length D \<longrightarrow> e mod 8 = 0)
    \<and> ip_hdrSize f = 20 \<and> ip_size f = 20 + (e - o') \<and> length f = 20 + (e - o') \<and> ip_offset f = o' \<and> (ip_more f \<longleftrightarrow> e < length D)
    \<and> (\<forall>x. o' \<le> x \<and> x < e \<longrightarrow> f ! (20 + (x - o')) = D ! x)"

text \<open>The fragments \<open>fs\<close> cut the data at the places \<open>c 0\<close>, \<open>c 1\<close> and so on.\<close>

definition cuts :: "u8 list \<Rightarrow> (nat \<Rightarrow> nat) \<Rightarrow> u8 list list \<Rightarrow> bool" where
  "cuts D c fs \<longleftrightarrow> fs \<noteq> [] \<and> c 0 = 0 \<and> c (length fs) = length D \<and> (\<forall>i < length fs. frag_of D (c i) (c (Suc i)) (fs ! i))"

text \<open>A datagram without options that is not a fragment itself.\<close>

definition whole :: "u8 list \<Rightarrow> bool" where
  "whole p \<longleftrightarrow> ip_hdrSize p = 20 \<and> be_word p 6 = 0 \<and> ip_size p = length p \<and> 20 < length p \<and> length p \<le> 65532"

lemma first_fragment_works:
  assumes p: "whole p" and k: "0 < k" "k mod 8 = 0" "20 + k < length p"
  shows "\<exists>f. first_fragment p (int k) = Inr f \<and> frag_of (drop 20 p) 0 k f \<and> checksum f 20 = 0"
proof -
  let ?g = "take (20 + k) p"
  have h: "ip_hdrSize ?g = 20" using p by (simp add: whole_def ip_hdrSize_def)
  have w: "take_bit 16 (0x2000 :: u32) = 0x2000" by simp
  have "length ?g = 20 + k" "20 + k < 65536" using k(3) p by (simp_all add: whole_def)
  note ff = finish_fragment [OF this(1) _ this(2) h w]
  have n: "nat (20 + int k) = 20 + k" by simp
  have "first_fragment p (int k) = Inr (ip_setSum (be_xword (ip_setSize ?g (20 + k)) 6 0x2000))"
    using p k(3) by (simp add: first_fragment_def whole_def Let_def n)
  then show ?thesis using ff k by (auto simp: frag_of_def ip_offset_def ip_more_def)
qed

lemma next_fragment_works:
  assumes p: "whole p" and o: "o' < e" "20 + e \<le> length p" "o' mod 8 = 0" "20 + e < length p \<longrightarrow> e mod 8 = 0"
  shows "\<exists>f. next_fragment p [] (int o') (int (e - o')) = Inr f \<and> frag_of (drop 20 p) o' e f \<and> checksum f 20 = 0"
proof -
  let ?l = "e - o'" and ?w = "word_of_nat (o' div 8) :: u32"
  let ?g = "take 20 p @ take (e - o') (drop (20 + o') p)"
  obtain g where g: "ip_setHdrSize ?g 20 = Inr g" "ip_hdrSize g = 20" "same_but {0} ?g g"
    using ip_setHdrSize_plain [of ?g] p by (auto simp: whole_def)
  have lg: "length ?g = 20 + ?l" using o p by (simp add: whole_def)
  have off: "int o' mod 65536 = int o'" "nat (int o' mod 65536) = o'" "o' \<le> 65512" "o' div 8 < 8192"
    using o p by (auto simp: whole_def)
  let ?m = "if 20 + e < length p then ?w OR 0x2000 else ?w"
  have w: "take_bit 16 ?m = ?m"
  proof -
    have "take_bit 16 ?w = ?w" using off(4) by (intro take_bit_small) (simp add: unat_small)
    then show ?thesis by (simp add: take_bit_or)
  qed
  have lg': "length g = 20 + ?l" "20 + ?l < 65536" using g(3) lg o p by (auto simp: same_but_def whole_def)
  note ff = finish_fragment [OF lg'(1) _ lg'(2) g(2) w]
  have z: "be_word (ip_setSize g (20 + ?l)) 6 = 0"
  proof -
    have "same_but {2, 3} g (ip_setSize g (20 + ?l))" by (rule ip_setSize_frame)
    then have "be_word (ip_setSize g (20 + ?l)) 6 = be_word g 6" by (simp add: same_but_def be_word_def)
    also have "\<dots> = be_word ?g 6" using g(3) by (simp add: same_but_def be_word_def)
    also have "\<dots> = be_word p 6" using p by (simp add: be_word_def nth_append whole_def)
    finally show ?thesis using p by (simp add: whole_def)
  qed
  have "ip_setOffset (ip_setSize g (20 + ?l)) (int o') = Inr (be_xword (ip_setSize g (20 + ?l)) 6 ?w)"
    using o(3) off by (simp add: ip_setOffset_def z Let_def)
  moreover have "ip_setMore (be_xword (ip_setSize g (20 + ?l)) 6 ?w) = be_xword (ip_setSize g (20 + ?l)) 6 (?w OR 0x2000)"
  proof -
    have "length (ip_setSize g (20 + ?l)) = 20 + ?l" using lg'(1) ip_setSize_frame [of g "20 + ?l"] by (simp add: same_but_def)
    moreover have "take_bit 16 ?w = ?w" using off(4) by (intro take_bit_small) (simp add: unat_small)
    ultimately show ?thesis by (simp add: ip_setMore_def be_xword_twice be16.get_put_same)
  qed
  moreover have n: "nat (20 + int o') = 20 + o'" "nat (int ?l) = ?l" "20 + int o' + int ?l = int (20 + e)" using o(1) by simp_all
  ultimately have "next_fragment p [] (int o') (int ?l) = Inr (ip_setSum (be_xword (ip_setSize g (20 + ?l)) 6 ?m))"
    using g(1) o p by (simp add: next_fragment_def whole_def Let_def)
  moreover have "g ! (20 + (x - o')) = drop 20 p ! x" if "o' \<le> x" "x < e" for x
  proof -
    obtain d where d: "x = o' + d" using \<open>o' \<le> x\<close> le_Suc_ex by blast
    then have "d < e - o'" "20 + (o' + d) < length p" "length (take 20 p) = 20" using that o p by (simp_all add: whole_def)
    then show ?thesis using g(3) d by (simp add: same_but_def nth_append add.assoc)
  qed
  ultimately show ?thesis using ff o off(4) offset_word [OF off(4)] p
    by (auto simp: frag_of_def ip_offset_def ip_more_def whole_def unsigned_of_nat take_bit_nat_eq_self)
qed

text \<open>The places where a datagram with \<open>n\<close> bytes of data is cut into fragments of \<open>k\<close> bytes.\<close>

lemma cuts_prepend:
  assumes "\<forall>j < length fs. frag_of D (min n (o' + j * k)) (min n (o' + (j + 1) * k)) (fs ! j)" "n \<le> o' + length fs * k" "fs = [] \<longleftrightarrow> n \<le> o'"
    and f: "frag_of D (o' - k) o' f" "k \<le> o'" "o' \<le> n"
  shows "\<forall>j < length (f # fs). frag_of D (min n (o' - k + j * k)) (min n (o' - k + (j + 1) * k)) ((f # fs) ! j)"
proof (intro allI impI)
  fix j assume "j < length (f # fs)"
  then show "frag_of D (min n (o' - k + j * k)) (min n (o' - k + (j + 1) * k)) ((f # fs) ! j)"
    using assms by (cases j) (auto simp: min_absorb2)
qed

lemma fragment_loop_works:
  assumes p: "whole p" and k: "(mtu - 20) AND NOT 7 = int k" "0 < k" "k mod 8 = 0" and o: "o' mod 8 = 0"
  shows "\<exists>fs. fragment_loop p mtu [] (int o') = ok fs \<and> length p - 20 \<le> o' + length fs * k \<and> (fs = [] \<longleftrightarrow> length p - 20 \<le> o')
    \<and> (\<forall>j < length fs. frag_of (drop 20 p) (min (length p - 20) (o' + j * k)) (min (length p - 20) (o' + (j + 1) * k)) (fs ! j))
    \<and> (\<forall>f \<in> set fs. length f \<le> 20 + k \<and> checksum f 20 = 0)"
  using o
proof (induction "length p - 20 - o'" arbitrary: o' rule: less_induct)
  case less
  let ?n = "length p - 20"
  have hd: "ip_hdrSize p = 20" "ip_size p = length p" "20 < length p" using p by (simp_all add: whole_def)
  show ?case
  proof (cases "?n \<le> o'")
    case True
    then have "\<not> int o' < int (length p) - 20" using hd by linarith
    then have "fragment_loop p mtu [] (int o') = ok []" using hd by (subst fragment_loop.simps) simp
    then show ?thesis using True by (intro exI [of _ "[]"]) simp
  next
    case False
    let ?e = "min ?n (o' + k)"
    have e: "o' < ?e" "20 + ?e \<le> length p" "20 + ?e < length p \<longrightarrow> ?e mod 8 = 0"
      using False k(2,3) less.prems hd by (auto simp: min_def mod_add_eq)
    obtain f where f: "next_fragment p [] (int o') (int (?e - o')) = Inr f" "frag_of (drop 20 p) o' ?e f" "checksum f 20 = 0"
      using next_fragment_works [OF p e(1,2) less.prems e(3)] by blast
    have len: "min (int k) (int (length p) - 20 - int o') = int (?e - o')" using False by (auto simp: min_def)
    have eo: "int o' + int (?e - o') = int ?e" using e(1) by simp
    have lt: "int o' < int (length p) - 20" using False by linarith
    have step: "fragment_loop p mtu [] (int o') = obind (fragment_loop p mtu [] (int ?e)) (\<lambda>fs. ok (f # fs))"
      using lt hd f(1) k(1) len eo by (subst fragment_loop.simps) (simp add: Let_def)
    have lf: "length f \<le> 20 + k" using f(2) by (simp add: frag_of_def)
    show ?thesis
    proof (cases "?n \<le> o' + k")
      case True
      then have en: "?e = ?n" by (simp add: min_def)
      have "\<not> int ?e < int (length p) - 20" using en hd(3) by linarith
      then have "fragment_loop p mtu [] (int ?e) = ok []" using hd by (subst fragment_loop.simps) simp
      then have "fragment_loop p mtu [] (int o') = ok [f]" using step by simp
      moreover have "frag_of (drop 20 p) (min ?n o') (min ?n (o' + k)) f" using f(2) False by (simp add: min_def)
      ultimately show ?thesis using f(3) lf True False by (intro exI [of _ "[f]"]) simp
    next
      case more: False
      then have en: "?e = o' + k" by (simp add: min_def)
      have dec: "?n - (o' + k) < ?n - o'" "(o' + k) mod 8 = 0" using False k(2,3) less.prems by (auto simp: mod_add_eq)
      obtain fs where fs: "fragment_loop p mtu [] (int (o' + k)) = ok fs" "?n \<le> o' + k + length fs * k" "fs = [] \<longleftrightarrow> ?n \<le> o' + k"
          "\<forall>j < length fs. frag_of (drop 20 p) (min ?n (o' + k + j * k)) (min ?n (o' + k + (j + 1) * k)) (fs ! j)"
          "\<forall>f \<in> set fs. length f \<le> 20 + k \<and> checksum f 20 = 0"
        using less.hyps [OF dec] by blast
      have "fragment_loop p mtu [] (int o') = ok (f # fs)" using step fs(1) en by simp
      moreover have "\<forall>j < length (f # fs). frag_of (drop 20 p) (min ?n (o' + j * k)) (min ?n (o' + (j + 1) * k)) ((f # fs) ! j)"
        using cuts_prepend [OF fs(4,2,3), of f] f(2) en more by simp
      ultimately show ?thesis using f(3) lf fs(2,5) False by (intro exI [of _ "f # fs"]) (simp add: algebra_simps)
    qed
  qed
qed

lemma fragment_works:
  assumes p: "whole p" and mtu: "28 \<le> mtu" "mtu < int (length p)"
  shows "\<exists>fs. fragment p mtu = ok fs \<and> (\<forall>f \<in> set fs. int (length f) \<le> mtu \<and> checksum f 20 = 0)
    \<and> cuts (drop 20 p) (\<lambda>i. min (length p - 20) (i * nat ((mtu - 20) AND NOT 7))) fs"
proof -
  define k where "k = nat ((mtu - 20) AND NOT 7)"
  have "(mtu - 20) AND NOT 7 = 8 * ((mtu - 20) div 8)" by (rule int_and_not_7)
  moreover have "1 \<le> (mtu - 20) div 8" "8 * ((mtu - 20) div 8) \<le> mtu - 20" using mtu(1) by linarith+
  ultimately have k: "(mtu - 20) AND NOT 7 = int k" "0 < k" "k = 8 * nat ((mtu - 20) div 8)" "20 + int k \<le> mtu"
    unfolding k_def by linarith+
  have k8: "k mod 8 = 0" unfolding k(3) by simp
  have lk: "20 + k < length p" using k(4) mtu(2) by linarith
  have hd: "ip_hdrSize p = 20" "ip_size p = length p" using p by (simp_all add: whole_def)
  obtain f where f: "first_fragment p (int k) = Inr f" "frag_of (drop 20 p) 0 k f" "checksum f 20 = 0"
    using first_fragment_works [OF p k(2) k8 lk] by blast
  obtain fs where fs: "fragment_loop p mtu [] (int k) = ok fs" "length p - 20 \<le> k + length fs * k" "fs = [] \<longleftrightarrow> length p - 20 \<le> k"
      "\<forall>j < length fs. frag_of (drop 20 p) (min (length p - 20) (k + j * k)) (min (length p - 20) (k + (j + 1) * k)) (fs ! j)"
      "\<forall>f \<in> set fs. length f \<le> 20 + k \<and> checksum f 20 = 0"
    using fragment_loop_works [OF p k(1,2) k8 k8] by blast
  have "copy_options (drop 20 p) 0 0 [] = ok []" by (subst copy_options.simps) simp
  then have "fragment p mtu = ok (f # fs)" using hd f(1) fs(1) k(1) by (simp add: fragment_def Let_def)
  moreover have "length f \<le> 20 + k" using f(2) by (simp add: frag_of_def)
  moreover have "\<forall>j < length (f # fs). frag_of (drop 20 p) (min (length p - 20) (j * k)) (min (length p - 20) ((j + 1) * k)) ((f # fs) ! j)"
    using cuts_prepend [OF fs(4,2,3), of f] f(2) lk by simp
  ultimately show ?thesis
    using fs(2,5) f(3) k(4) lk unfolding cuts_def k_def [symmetric]
    by (intro exI [of _ "f # fs"]) (auto simp: min_def)
qed

text \<open>C24: A datagram without options that is longer than the MTU of the link is cut into fragments that
  are not, each with a valid checksum; in order they hold the data, in pieces of the largest multiple of
  8 bytes but for the last, with their offset and a mark on all but the last.\<close>

theorem fragment_cuts:
  assumes "whole p" "28 \<le> mtu" "mtu < int (length p)"
  shows "\<exists>fs. fragment p mtu = ok fs \<and> (\<forall>f \<in> set fs. int (length f) \<le> mtu \<and> checksum f 20 = 0)
    \<and> cuts (drop 20 p) (\<lambda>i. min (length p - 20) (i * nat ((mtu - 20) AND NOT 7))) fs"
  using assms by (rule fragment_works)

theorem fragment_cuts_witness:
  "let p = [0x45, 0, 0, 40, 0, 1, 0, 0, 64, 17, 0, 0, 1, 2, 3, 4, 5, 6, 7, 8] @ replicate 20 9 in
    \<exists>fs. fragment p 32 = ok fs \<and> (\<forall>f \<in> set fs. length f \<le> 32 \<and> checksum f 20 = 0)"
proof -
  let ?p = "[0x45, 0, 0, 40, 0, 1, 0, 0, 64, 17, 0, 0, 1, 2, 3, 4, 5, 6, 7, 8] @ replicate 20 9 :: u8 list"
  have "whole ?p" by (simp add: whole_def ip_hdrSize_def ip_size_def be_word_def)
  then show ?thesis using fragment_cuts [of ?p 32] by auto
qed

end
