(* ===== verification/Reassembly.thy ===== *)
theory Reassembly
  imports Inet4 "HOL-Library.Multiset"
begin

text \<open>
  The reassembly of datagrams in \<^verbatim>\<open>os/net/src/inet4reass.cpp\<close>. The receiver keeps a buffer for the datagram
  and a list of the holes in its data; a descriptor of a hole lies in the hole itself, as three 16 bit
  numbers in the order of the machine: the first and the last byte of the hole and the next hole, as
  offsets in the data. An access outside the buffer or the fragment is \<open>Undefined\<close>.
\<close>

subsection \<open>The list of holes\<close>

text \<open>A pointer to a link is none for the variable \<^verbatim>\<open>list\<close>, or the place of the link in the buffer.\<close>

definition link_get :: "nat option \<Rightarrow> nat \<Rightarrow> u8 list \<Rightarrow> nat" where
  "link_get nxt list buf = (case nxt of None \<Rightarrow> list | Some q \<Rightarrow> unat (le_word buf q))"

definition link_set :: "nat option \<Rightarrow> nat \<Rightarrow> nat \<times> u8 list \<Rightarrow> nat \<times> u8 list" where
  "link_set nxt w lb =
    (case nxt of None \<Rightarrow> (w, snd lb) | Some q \<Rightarrow> (fst lb, le_xword (snd lb) q (word_of_nat w)))"

definition hole_first :: "u8 list \<Rightarrow> nat \<Rightarrow> nat" where
  "hole_first buf p = unat (le_word buf p)"

definition hole_last :: "u8 list \<Rightarrow> nat \<Rightarrow> nat" where
  "hole_last buf p = unat (le_word buf (p + 2))"

definition hole_next :: "u8 list \<Rightarrow> nat \<Rightarrow> nat" where
  "hole_next buf p = unat (le_word buf (p + 4))"

text \<open>The first and the last byte of a new hole, which are stored before its link.\<close>

definition put_hole :: "u8 list \<Rightarrow> nat \<Rightarrow> int \<Rightarrow> int \<Rightarrow> u8 list" where
  "put_hole buf p a b = le_xword (le_xword buf p (word_of_int a)) (p + 2) (word_of_int b)"

subsection \<open>Filling holes\<close>

text \<open>The hole at \<open>p\<close> is taken off the list; what lies before the fragment stays a hole. The results are the
  link behind it, the list and the buffer, and how many bytes of the fragment lie before the hole.\<close>

definition fill_left :: "nat \<Rightarrow> int \<Rightarrow> nat option \<Rightarrow> nat \<times> u8 list \<Rightarrow> nat option \<times> (nat \<times> u8 list) \<times> int" where
  "fill_left p first nxt lb =
    (let holeFirst = int (hole_first (snd lb) p);
         lb = link_set nxt (hole_next (snd lb) p) lb
     in if holeFirst < first
        then let lb = (fst lb, le_xword (snd lb) (p + 2) (word_of_int (first - 1)));
                 lb = link_set nxt (hole_first (snd lb) p) lb
             in (Some (p + 4), lb, 0)
        else (nxt, lb, holeFirst - first))"

text \<open>What lies behind the fragment becomes a new hole; behind the last fragment there is none.\<close>

definition fill_right :: "bool \<Rightarrow> int \<Rightarrow> int \<Rightarrow> nat option \<Rightarrow> nat \<times> u8 list \<Rightarrow> (nat option \<times> (nat \<times> u8 list)) result" where
  "fill_right more lst holeLast nxt lb =
    (if more then
       let p = ip_hdrSize (snd lb) + nat (lst + 1) in
       if length (snd lb) < p + 6 then Inl Undefined
       else let buf = put_hole (snd lb) p (lst + 1) holeLast;
                buf = le_xword buf (p + 4) (word_of_nat (link_get nxt (fst lb) buf));
                lb = link_set nxt (hole_first buf p) (fst lb, buf)
            in Inr (Some (p + 4), lb)
     else Inr (nxt, link_set nxt 1 lb))"

definition fill_copy :: "u8 list \<Rightarrow> int \<Rightarrow> int \<Rightarrow> int \<Rightarrow> u8 list \<Rightarrow> u8 list result" where
  "fill_copy frag first offset lst buf =
    (let count = lst - (first + offset) + 1;
         dst = int (ip_hdrSize buf) + first + offset;
         src = int (ip_hdrSize frag) + offset
     in if count < 0 then Inl AssertFailed
        else if int (length buf) < dst + count \<or> int (length frag) < src + count then Inl Undefined
        else Inr (take (nat dst) buf @ take (nat count) (drop (nat src) frag) @ drop (nat (dst + count)) buf))"

partial_function (option) fill_holes ::
  "u8 list \<Rightarrow> int \<Rightarrow> int \<Rightarrow> nat option \<Rightarrow> nat \<times> u8 list \<Rightarrow> (nat \<times> u8 list) run"
where
  "fill_holes frag first lst nxt lb =
    (let w = link_get nxt (fst lb) (snd lb); p = ip_hdrSize (snd lb) + w in
     if w = 1 then ok lb
     else if length (snd lb) < p + 6 then Some (Inl Undefined)
     else if int (hole_last (snd lb) p) < first \<or> lst < int (hole_first (snd lb) p)
     then fill_holes frag first lst (Some (p + 4)) lb
     else
       let holeLast = int (hole_last (snd lb) p);
           (nxt, lb, offset) = fill_left p first nxt lb
       in obind (Some (if lst < holeLast then fill_right (ip_more frag) lst holeLast nxt lb else Inr (nxt, lb))) (\<lambda>(nxt, lb).
            let lst = min lst holeLast in
            obind (Some (fill_copy frag first offset lst (snd lb))) (\<lambda>buf.
              fill_holes frag first lst nxt (fst lb, buf))))"

declare fill_holes.simps [code]

subsection \<open>ReassReceiver\<close>

record reass =
  re_buf :: "u8 list"
  re_list :: nat
  re_first :: "u8 list"

text \<open>The state after the first fragment to arrive, with what the memory of the buffer held.\<close>

definition reass_start :: "u8 list \<Rightarrow> u8 list \<Rightarrow> reass" where
  "reass_start junk frag =
    \<lparr>re_buf = le_xword (put_hole (take 20 frag @ drop 20 junk) 20 0 65515) 24 1, re_list = 0, re_first = 0 # replicate 67 0\<rparr>"

text \<open>The header of the fragment with the first data, with its first 8 bytes, is kept for the error
  message; its options go into the datagram.\<close>

definition save_first :: "u8 list \<Rightarrow> reass \<Rightarrow> reass result" where
  "save_first frag r =
    (let h = ip_hdrSize frag in
     if ip_offset frag = 0 \<and> h + 8 \<le> ip_size frag \<and> re_first r ! 0 = 0 then
       if length frag < h + 8 then Inl Undefined
       else let r = r\<lparr>re_first := take (h + 8) frag @ drop (h + 8) (re_first r)\<rparr>; buf = re_buf r; n = ip_size buf - 20 in
         if 20 < h then
           if ip_size buf < 20 \<or> length buf < h + n then Inl Undefined
           else Inr (r\<lparr>re_buf := take h frag @ take n (drop 20 buf) @ drop (h + n) buf\<rparr>)
         else Inr r
     else Inr r)"

definition grow_size :: "int \<Rightarrow> int \<Rightarrow> u8 list \<Rightarrow> u8 list" where
  "grow_size first len buf =
    (if int (ip_size buf) < int (ip_hdrSize buf) + first + len
     then ip_setSize buf (nat (int (ip_hdrSize buf) + first + len)) else buf)"

text \<open>\<^verbatim>\<open>input\<close>: the state after a fragment, none when the receiver has gone, and the datagram that it
  passes on when the fragment filled the last hole.\<close>

definition reass_input :: "u8 list \<Rightarrow> reass option \<Rightarrow> u8 list \<Rightarrow> (reass option \<times> u8 list option) run" where
  "reass_input junk s frag =
    (let r = (case s of None \<Rightarrow> reass_start junk frag | Some r \<Rightarrow> r);
         first = int (ip_offset frag);
         len = int (ip_size frag) - int (ip_hdrSize frag);
         lst = first + len - 1
     in if len \<le> 0 \<or> ip_more frag \<and> len mod 8 \<noteq> 0 then ok (None, None)
        else obind (Some (save_first frag r)) (\<lambda>r.
          let buf = grow_size first len (re_buf r) in
          obind (fill_holes frag first lst None (re_list r, buf)) (\<lambda>(list, buf).
            if list = 1 then ok (None, Some (take (ip_size buf) buf))
            else ok (Some (r\<lparr>re_list := list, re_buf := buf\<rparr>), None))))"

text \<open>\<^verbatim>\<open>run\<close>: when the time is over, the part of the first fragment that the error message quotes, if it has
  arrived.\<close>

definition reass_timeout :: "reass option \<Rightarrow> u8 list option" where
  "reass_timeout s =
    (case s of
       None \<Rightarrow> None
     | Some r \<Rightarrow> if drop_bit 4 (re_first r ! 0) = 4 then Some (take (ip_hdrSize (re_first r) + 8) (re_first r)) else None)"

text \<open>A sequence of fragments of one datagram, until it is passed on.\<close>

fun reass_all :: "u8 list \<Rightarrow> reass option \<Rightarrow> u8 list list \<Rightarrow> (reass option \<times> u8 list option) run" where
  "reass_all junk s [] = ok (s, None)"
| "reass_all junk s (f # fs) =
    obind (reass_input junk s f) (\<lambda>(s, d). case d of None \<Rightarrow> reass_all junk s fs | Some p \<Rightarrow> ok (s, Some p))"

subsection \<open>The list in the buffer\<close>

text \<open>A hole is the pair of its first and its last byte. \<open>nseg\<close> says that the list from the link \<open>nxt\<close> runs
  through the holes \<open>hs\<close> up to the link \<open>q\<close>, whose value is left open.\<close>

definition hole_in :: "u8 list \<Rightarrow> nat \<times> nat \<Rightarrow> bool" where
  "hole_in buf h \<longleftrightarrow> hole_first buf (20 + fst h) = fst h \<and> hole_last buf (20 + fst h) = snd h \<and> 26 + fst h \<le> length buf"

fun nseg :: "nat option \<Rightarrow> nat \<Rightarrow> u8 list \<Rightarrow> (nat \<times> nat) list \<Rightarrow> nat option \<Rightarrow> bool" where
  "nseg nxt l buf [] q \<longleftrightarrow> q = nxt"
| "nseg nxt l buf (h # hs) q \<longleftrightarrow> link_get nxt l buf = fst h \<and> hole_in buf h \<and> nseg (Some (24 + fst h)) l buf hs q"

definition spaced :: "(nat \<times> nat) list \<Rightarrow> bool" where
  "spaced hs \<longleftrightarrow> sorted_wrt (\<lambda>h h'. fst h + 8 \<le> fst h') hs"

definition link_pos :: "nat option \<Rightarrow> nat set" where
  "link_pos nxt = (case nxt of None \<Rightarrow> {} | Some q \<Rightarrow> {q, q + 1})"

lemma nseg_append: "nseg nxt l buf (xs @ ys) q \<longleftrightarrow> (\<exists>r. nseg nxt l buf xs r \<and> nseg r l buf ys q)"
  by (induction xs arbitrary: nxt) auto

lemma nseg_end: "nseg nxt l buf hs q \<Longrightarrow> q = (if hs = [] then nxt else Some (24 + fst (List.last hs)))"
  by (induction hs arbitrary: nxt) auto

lemma hole_in_frame:
  assumes "hole_in buf h" "same_but W buf buf'" "W \<inter> {20 + fst h..<24 + fst h} = {}"
  shows "hole_in buf' h"
proof -
  have "20 + fst h \<notin> W" "21 + fst h \<notin> W" "22 + fst h \<notin> W" "23 + fst h \<notin> W" using assms(3) by fastforce+
  then show ?thesis
    using assms(1,2) same_but_word [OF assms(2), of "20 + fst h"] same_but_word [OF assms(2), of "22 + fst h"]
    by (simp add: hole_in_def hole_first_def hole_last_def same_but_def)
qed

lemma nseg_frame:
  "nseg nxt l buf hs q \<Longrightarrow> same_but W buf buf' \<Longrightarrow> (hs \<noteq> [] \<longrightarrow> link_get nxt' l' buf' = link_get nxt l buf) \<Longrightarrow>
    \<forall>h \<in> set hs. W \<inter> {20 + fst h..<24 + fst h} = {} \<Longrightarrow> \<forall>h \<in> set (butlast hs). W \<inter> {24 + fst h..<26 + fst h} = {} \<Longrightarrow>
    nseg nxt' l' buf' hs (if hs = [] then nxt' else q)"
proof (induction hs arbitrary: nxt nxt')
  case (Cons h hs)
  have "link_get (Some (24 + fst h)) l' buf' = link_get (Some (24 + fst h)) l buf" if "hs \<noteq> []"
  proof -
    have "24 + fst h \<notin> W" "25 + fst h \<notin> W" using Cons.prems(5) that by fastforce+
    then show ?thesis using same_but_word [OF Cons.prems(2), of "24 + fst h"] by (simp add: link_get_def)
  qed
  moreover have "hole_in buf' h" using hole_in_frame [of buf h W buf'] Cons.prems(1,2,4) by simp
  ultimately show ?case using Cons.IH [of "Some (24 + fst h)" "Some (24 + fst h)"] Cons.prems nseg_end [of "Some (24 + fst h)" l buf hs q]
    by (auto split: if_splits)
qed simp

lemma le_xword_value: "i + 2 \<le> length buf \<Longrightarrow> v < 65536 \<Longrightarrow> unat (le_word (le_xword buf i (word_of_nat v)) i) = v"
  by (simp add: le16.get_put_same unsigned_take_bit_eq unsigned_of_nat take_bit_nat_eq_self)

text \<open>Writing the link at the end of the list.\<close>

lemma link_set_end:
  assumes "nseg None l buf hs q" "spaced hs" "v < 65536" "link_set q v (l, buf) = (l', buf')"
  shows "nseg None l' buf' hs q \<and> link_get q l' buf' = v \<and> same_but (link_pos q) buf buf'"
proof (cases "hs = []")
  case True
  then show ?thesis using assms nseg_end [OF assms(1)] by (simp add: link_set_def link_get_def link_pos_def same_but_def)
next
  case False
  let ?e = "List.last hs"
  have q: "q = Some (24 + fst ?e)" using nseg_end [OF assms(1)] False by simp
  have l: "l' = l" "buf' = le_xword buf (24 + fst ?e) (word_of_nat v)" using assms(4) q by (simp_all add: link_set_def)
  have s: "same_but (link_pos q) buf buf'" using same_but_xword [of "24 + fst ?e" buf "word_of_nat v"] q l(2) by (simp add: link_pos_def)
  have hs: "hs = butlast hs @ [?e]" using False by simp
  then have sp: "spaced (butlast hs @ [?e])" using assms(2) by simp
  have "nseg None l buf (butlast hs @ [?e]) q" using assms(1) hs by simp
  then have "hole_in buf ?e" by (auto simp: nseg_append)
  then have v: "link_get q l' buf' = v" using le_xword_value [OF _ assms(3), of "24 + fst ?e" buf] q l by (simp add: link_get_def hole_in_def)
  have ap: "link_pos q \<inter> {20 + fst h..<26 + fst h} = {}" if "h \<in> set (butlast hs)" for h
    using sp that q by (fastforce simp: spaced_def sorted_wrt_append link_pos_def)
  have "link_pos q \<inter> {20 + fst h..<24 + fst h} = {}" if "h \<in> set hs" for h
  proof (cases "h = ?e")
    case True
    then show ?thesis using q by (auto simp: link_pos_def)
  next
    case False
    then have "h \<in> set (butlast hs)" using that hs by (metis UnE empty_iff insert_iff list.set set_append)
    then show ?thesis using ap [of h] by fastforce
  qed
  moreover have "link_pos q \<inter> {24 + fst h..<26 + fst h} = {}" if "h \<in> set (butlast hs)" for h using ap [OF that] by fastforce
  moreover have "link_get None l' buf' = link_get None l buf" using l by (simp add: link_get_def)
  ultimately have "nseg None l' buf' hs q" using nseg_frame [OF assms(1) s, of None l'] False by simp
  then show ?thesis using v s by simp
qed

lemma spaced_append: "spaced (xs @ ys) \<longleftrightarrow> spaced xs \<and> spaced ys \<and> (\<forall>x \<in> set xs. \<forall>y \<in> set ys. fst x + 8 \<le> fst y)"
  by (auto simp: spaced_def sorted_wrt_append)

lemma spaced_simps [simp]: "spaced []" "spaced [h]" "spaced (h # hs) \<longleftrightarrow> spaced hs \<and> (\<forall>y \<in> set hs. fst h + 8 \<le> fst y)"
  by (auto simp: spaced_def)

lemma link_pos_end: "nseg None l buf hs q \<Longrightarrow> \<forall>h \<in> set hs. fst h + 8 \<le> a \<Longrightarrow> i \<in> link_pos q \<Longrightarrow> i < 20 + a"
proof -
  assume n: "nseg None l buf hs q" and a: "\<forall>h \<in> set hs. fst h + 8 \<le> a" and i: "i \<in> link_pos q"
  then have "hs \<noteq> []" "i \<le> 25 + fst (List.last hs)" using nseg_end [OF n] by (auto simp: link_pos_def split: if_splits)
  moreover have "fst (List.last hs) + 8 \<le> a" using a calculation(1) by simp
  ultimately show "i < 20 + a" by linarith
qed

text \<open>A list does not see a change outside its holes.\<close>

lemma link_pos_in: "nseg None l buf hs q \<Longrightarrow> link_pos q \<subseteq> (\<Union>h \<in> set hs. {20 + fst h..<26 + fst h})"
proof (cases "hs = []")
  case False
  assume "nseg None l buf hs q"
  then have "link_pos q \<subseteq> {20 + fst (List.last hs)..<26 + fst (List.last hs)}" using nseg_end [of None l buf hs q] False by (auto simp: link_pos_def)
  then show ?thesis using last_in_set [OF False] by blast
qed (simp add: link_pos_def)

lemma nseg_apart:
  assumes "nseg None l buf hs q" "\<forall>h \<in> set hs. W \<inter> {20 + fst h..<26 + fst h} = {}" "same_but W buf buf'"
  shows "nseg None l buf' hs q" "link_get q l buf' = link_get q l buf"
proof -
  have "\<forall>h \<in> set hs. W \<inter> {20 + fst h..<24 + fst h} = {}" "\<forall>h \<in> set hs. W \<inter> {24 + fst h..<26 + fst h} = {}"
    using assms(2) by fastforce+
  moreover from this(2) have "\<forall>h \<in> set (butlast hs). W \<inter> {24 + fst h..<26 + fst h} = {}" by (meson in_set_butlastD)
  ultimately have "nseg None l buf' hs (if hs = [] then None else q)"
    using nseg_frame [OF assms(1,3), of None l] by (simp add: link_get_def)
  then show "nseg None l buf' hs q" using nseg_end [OF assms(1)] by (simp split: if_splits)
  show "link_get q l buf' = link_get q l buf"
  proof (cases q)
    case (Some j)
    then have "j \<notin> W" "j + 1 \<notin> W" using link_pos_in [OF assms(1)] assms(2) by (fastforce simp: link_pos_def)+
    then show ?thesis using Some same_but_word [OF assms(3), of j] by (simp add: link_get_def)
  qed (simp add: link_get_def)
qed

lemma nseg_below:
  assumes "nseg None l buf hs q" "\<forall>h \<in> set hs. fst h + 8 \<le> a" "same_but W buf buf'" "\<forall>i \<in> W. 20 + a \<le> i"
  shows "nseg None l buf' hs q" "link_get q l buf' = link_get q l buf"
proof -
  have "\<forall>h \<in> set hs. W \<inter> {20 + fst h..<26 + fst h} = {}" using assms(2,4) by fastforce
  then show "nseg None l buf' hs q" "link_get q l buf' = link_get q l buf" using nseg_apart [OF assms(1) _ assms(3)] by simp_all
qed

lemma fill_left_works:
  assumes n: "nseg None l buf xs q" "spaced xs" "\<forall>h \<in> set xs. fst h + 8 \<le> a" "link_get q l buf = a" "hole_in buf (a, b)"
    and o: "a \<le> o'" "o' \<le> 65536" "fill_left (20 + a) (int o') q (l, buf) = (q', (l', buf'), off)"
  shows "off = 0 \<and> nseg None l' buf' (xs @ (if a < o' then [(a, o' - 1)] else [])) q' \<and> link_get q' l' buf' = hole_next buf (20 + a)
    \<and> same_but (link_pos q \<union> (if a < o' then {22 + a..<24 + a} else {})) buf buf'"
proof -
  let ?w = "hole_next buf (20 + a)"
  have w: "?w < 65536" by (simp add: hole_next_def le_word_less)
  obtain l1 b1 where l1: "link_set q ?w (l, buf) = (l1, b1)" by (cases "link_set q ?w (l, buf)")
  note s1 = link_set_end [OF n(1,2) w l1]
  have f: "hole_first buf (20 + a) = a" "26 + a \<le> length buf" using n(5) by (simp_all add: hole_in_def)
  show ?thesis
  proof (cases "a < o'")
    case False
    then show ?thesis using o f(1) l1 s1 by (auto simp: fill_left_def Let_def)
  next
    case True
    define b2 where "b2 = le_xword b1 (22 + a) (word_of_int (int o' - 1))"
    have wi: "word_of_int (int o' - 1) = (word_of_nat (o' - 1) :: u32)" using True by (simp add: of_nat_diff)
    have s2: "same_but {22 + a, 23 + a} b1 b2" using same_but_xword [of "22 + a" b1] by (simp add: b2_def)
    have n2: "nseg None l1 b2 xs q" using nseg_below(1) [OF _ n(3) s2] s1 by simp
    have lp: "i < 20 + a" if "i \<in> link_pos q" for i using link_pos_end [OF n(1,3) that] .
    have keep: "le_word b1 j = le_word buf j" if "20 + a \<le> j" for j
      using same_but_word [of "link_pos q" buf b1 j] s1 lp that by fastforce
    have "hole_first b2 (20 + a) = a"
      using same_but_word [OF s2, of "20 + a"] keep [of "20 + a"] f(1) by (simp add: hole_first_def)
    moreover obtain l3 b3 where l3: "link_set q a (l1, b2) = (l3, b3)" by (cases "link_set q a (l1, b2)")
    ultimately have r: "q' = Some (24 + a)" "l' = l3" "buf' = b3" "off = 0"
      using o(3) True f(1) l1 by (auto simp: fill_left_def Let_def b2_def)
    have a: "a < 65536" using True o(2) by simp
    note s3 = link_set_end [OF n2 n(2) a l3]
    have keep3: "le_word b3 j = le_word b2 j" if "20 + a \<le> j" for j
      using same_but_word [of "link_pos q" b2 b3 j] s3 lp that by fastforce
    have len: "length b1 = length buf" "length b2 = length buf" "length b3 = length buf" using s1 s2 s3 by (simp_all add: same_but_def)
    have "le_word b2 (20 + a) = le_word b1 (20 + a)" "le_word b2 (24 + a) = le_word b1 (24 + a)"
      using same_but_word [OF s2, of "20 + a"] same_but_word [OF s2, of "24 + a"] by simp_all
    moreover have "unat (le_word b2 (22 + a)) = o' - 1"
      using le_xword_value [of "22 + a" b1 "o' - 1"] o(2) True len f(2) by (simp add: b2_def wi)
    ultimately have "hole_in b3 (a, o' - 1)" "link_get (Some (24 + a)) l3 b3 = ?w"
      using keep3 keep f len by (simp_all add: hole_in_def hole_first_def hole_last_def link_get_def hole_next_def)
    moreover have "same_but (link_pos q \<union> {22 + a..<24 + a}) buf b3"
      using same_but_trans [OF same_but_trans [OF conjunct2 [OF conjunct2 [OF s1]] s2] conjunct2 [OF conjunct2 [OF s3]]]
      by (rule same_but_mono) auto
    ultimately show ?thesis using True r s3 by (auto simp: nseg_append)
  qed
qed

lemma fill_right_works:
  assumes n: "nseg None l buf xs q" "spaced xs" "\<forall>h \<in> set xs. fst h + 8 \<le> e" and e: "26 + e \<le> length buf" "e < 65536" "b < 65536" "link_get q l buf < 65536" "ip_hdrSize buf = 20"
  shows "\<exists>q' l' buf'. fill_right True (int e - 1) (int b) q (l, buf) = Inr (q', (l', buf')) \<and> nseg None l' buf' (xs @ [(e, b)]) q'
    \<and> link_get q' l' buf' = link_get q l buf \<and> same_but (link_pos q \<union> {20 + e..<26 + e}) buf buf'"
proof -
  let ?w = "link_get q l buf"
  define b0 where "b0 = put_hole buf (20 + e) (int e) (int b)"
  define b1 where "b1 = le_xword b0 (24 + e) (word_of_nat ?w)"
  obtain l2 b2 where l2: "link_set q e (l, b1) = (l2, b2)" by (cases "link_set q e (l, b1)")
  have b1: "b1 = le_xword (le_xword (le_xword buf (20 + e) (word_of_nat e)) (22 + e) (word_of_nat b)) (24 + e) (word_of_nat ?w)"
    by (simp add: b1_def b0_def put_hole_def)
  have "same_but {20 + e..<24 + e} buf b0"
    unfolding b0_def put_hole_def by (rule same_but_mono [OF same_but_trans [OF same_but_xword same_but_xword]]) auto
  then have w0: "link_get q l b0 = ?w" by (rule nseg_below(2) [OF n(1,3)]) simp
  have s1: "same_but {20 + e..<26 + e} buf b1"
    unfolding b1
    by (rule same_but_mono [OF same_but_trans [OF same_but_trans [OF same_but_xword same_but_xword] same_but_xword]]) auto
  have n1: "nseg None l b1 xs q" using nseg_below(1) [OF n(1,3) s1] by simp
  note s2 = link_set_end [OF n1 n(2) e(2) l2]
  have len: "length b1 = length buf" using s1 by (simp add: same_but_def)
  have keep: "le_word b2 j = le_word b1 j" if "20 + e \<le> j" for j
    using same_but_word [of "link_pos q" b1 b2 j] s2 link_pos_end [OF n(1,3)] that by fastforce
  have f: "unat (le_word b1 (20 + e)) = e" "unat (le_word b1 (22 + e)) = b"
    using e le_xword_value [of "20 + e" buf e] le_xword_value [of "22 + e" "le_xword buf (20 + e) (word_of_nat e)" b]
    by (simp_all add: b1 le16.get_put_other)
  have w: "unat (le_word b1 (24 + e)) = ?w"
    using e le_xword_value [of "24 + e" _ ?w] by (simp add: b1)
  have "fill_right True (int e - 1) (int b) q (l, buf) = Inr (Some (24 + e), (l2, b2))"
    using e(1,5) l2 f(1) w0 by (simp add: fill_right_def Let_def b0_def [symmetric] b1_def [symmetric] hole_first_def)
  moreover have "hole_in b2 (e, b)" "link_get (Some (24 + e)) l2 b2 = ?w"
    using keep f w len s2 e(1) by (simp_all add: hole_in_def hole_first_def hole_last_def link_get_def [of "Some (24 + e)"] same_but_def)
  moreover have "same_but (link_pos q \<union> {20 + e..<26 + e}) buf b2"
    using same_but_trans [OF s1 conjunct2 [OF conjunct2 [OF s2]]] by (rule same_but_mono) auto
  ultimately show ?thesis using s2 by (auto simp: nseg_append)
qed

lemma fill_copy_works:
  assumes "ip_hdrSize frag = 20" "o' \<le> e" "20 + e \<le> length buf" "20 + (e - o') \<le> length frag" "ip_hdrSize buf = 20"
  shows "\<exists>buf'. fill_copy frag (int o') 0 (int e - 1) buf = Inr buf' \<and> same_but {20 + o'..<20 + e} buf buf'
    \<and> (\<forall>x. o' \<le> x \<and> x < e \<longrightarrow> buf' ! (20 + x) = frag ! (20 + (x - o')))"
proof -
  let ?b = "take (20 + o') buf @ take (e - o') (drop 20 frag) @ drop (20 + e) buf"
  have n: "nat (int 20 + int o' + 0) = 20 + o'" "nat (int 20 + 0) = 20" "nat (int e - 1 - (int o' + 0) + 1) = e - o'"
    "nat (int 20 + int o' + 0 + (int e - 1 - (int o' + 0) + 1)) = 20 + e" by linarith+
  have "fill_copy frag (int o') 0 (int e - 1) buf = Inr ?b"
    unfolding fill_copy_def Let_def assms(1,5) n using assms(2-4) by simp
  moreover have "same_but {20 + o'..<20 + e} buf ?b"
    using assms by (auto simp: same_but_def nth_append not_less)
  moreover have "\<forall>x. o' \<le> x \<and> x < e \<longrightarrow> ?b ! (20 + x) = frag ! (20 + (x - o'))"
    using assms by (auto simp: nth_append)
  ultimately show ?thesis by blast
qed

text \<open>The loop passes holes that the fragment does not touch.\<close>

lemma fill_holes_skip:
  "nseg nxt l buf hs q \<Longrightarrow> \<forall>h \<in> set hs. int (snd h) < first \<or> lst < int (fst h) \<Longrightarrow> \<forall>h \<in> set hs. fst h \<noteq> 1 \<Longrightarrow> ip_hdrSize buf = 20 \<Longrightarrow>
    fill_holes frag first lst nxt (l, buf) = fill_holes frag first lst q (l, buf)"
proof (induction hs arbitrary: nxt)
  case (Cons h hs)
  have "fill_holes frag first lst nxt (l, buf) = fill_holes frag first lst (Some (24 + fst h)) (l, buf)"
    using Cons.prems by (subst fill_holes.simps) (auto simp: Let_def hole_in_def)
  then show ?case using Cons by simp
qed simp

lemma fill_holes_done: "link_get q l buf = 1 \<Longrightarrow> fill_holes frag first lst q (l, buf) = ok (l, buf)"
  by (subst fill_holes.simps) simp

text \<open>The parts of a hole that stay.\<close>

definition left_of :: "nat \<times> nat \<Rightarrow> nat \<Rightarrow> (nat \<times> nat) list" where
  "left_of h x = (if fst h < x then [(fst h, x - 1)] else [])"

definition right_of :: "nat \<times> nat \<Rightarrow> bool \<Rightarrow> nat \<Rightarrow> (nat \<times> nat) list" where
  "right_of h mf e = (if mf \<and> e \<le> snd h then [(e, snd h)] else [])"

lemma fill_holes_one:
  assumes n: "nseg None l buf (xs @ h # ys) q" "link_get q l buf = 1" "spaced (xs @ h # ys)"
    and xs: "\<forall>g \<in> set xs. snd g < o'" and ys: "\<forall>g \<in> set ys. snd h < fst g" and ne1: "\<forall>g \<in> set (xs @ h # ys). fst g \<noteq> 1"
    and f: "fst h \<le> o'" "o' < e" "e \<le> snd h + 1" "ip_hdrSize frag = 20" "20 + (e - o') \<le> length frag" "snd h < 65536"
    and left: "fst h < o' \<longrightarrow> fst h + 8 \<le> o'"
    and right: "e \<le> snd h \<longrightarrow> (if ip_more frag then 26 + e \<le> length buf \<and> (\<forall>g \<in> set ys. e + 8 \<le> fst g) else ys = [])"
    and len: "20 + e \<le> length buf" "ip_hdrSize buf = 20"
  defines "W \<equiv> (\<Union>g \<in> set (xs @ left_of h o' @ right_of h (ip_more frag) e). {20 + fst g..<26 + fst g}) \<union> {20 + o'..<20 + e}"
  shows "\<exists>l' buf' q'. fill_holes frag (int o') (int e - 1) None (l, buf) = ok (l', buf')
    \<and> nseg None l' buf' (xs @ left_of h o' @ right_of h (ip_more frag) e @ ys) q' \<and> link_get q' l' buf' = 1
    \<and> same_but W buf buf' \<and> (\<forall>x. o' \<le> x \<and> x < e \<longrightarrow> buf' ! (20 + x) = frag ! (20 + (x - o')))"
proof -
  obtain a b where h: "h = (a, b)" by (cases h)
  obtain q1 where q1: "nseg None l buf xs q1" "link_get q1 l buf = a" "hole_in buf (a, b)" "nseg (Some (24 + a)) l buf ys q"
    using n(1) by (auto simp: nseg_append h)
  have sp: "spaced xs" "\<forall>g \<in> set xs. fst g + 8 \<le> a" "\<forall>g \<in> set ys. a + 8 \<le> fst g" "spaced ys"
    using n(3) by (auto simp: spaced_append h)
  let ?L = "left_of h o'" and ?R = "right_of h (ip_more frag) e" and ?w = "hole_next buf (20 + a)"
  have w: "?w = link_get (Some (24 + a)) l buf" "?w < 65536" by (simp_all add: hole_next_def link_get_def le_word_less)
  have o: "a \<le> o'" "e \<le> b + 1" "b < 65536" using f h by simp_all
  obtain q2 l1 b1 off where fl: "fill_left (20 + a) (int o') q1 (l, buf) = (q2, (l1, b1), off)"
    by (metis prod.exhaust)
  have L: "off = 0" "nseg None l1 b1 (xs @ ?L) q2" "link_get q2 l1 b1 = ?w"
      "same_but (link_pos q1 \<union> (if a < o' then {22 + a..<24 + a} else {})) buf b1"
    using fill_left_works [OF q1(1) sp(1,2) q1(2,3) o(1) _ fl] f(2) o by (auto simp: left_of_def h)
  have zs: "spaced (xs @ ?L)" "\<forall>g \<in> set (xs @ ?L). fst g + 8 \<le> o'"
    using sp left o(1) by (auto simp: spaced_append left_of_def h)
  have ze: "\<forall>g \<in> set (xs @ ?L). fst g + 8 \<le> e" using zs(2) f(2) by fastforce
  have lb1: "length b1 = length buf" using L(4) by (simp add: same_but_def)
  have low: "0 \<notin> link_pos q1" "0 \<notin> link_pos q2" using link_pos_in [OF q1(1)] link_pos_in [OF L(2)] by fastforce+
  have hb1: "ip_hdrSize b1 = 20" using ip_fields_frame [OF L(4)] low(1) len(2) by auto
  have "\<exists>q3 l2 b2. (if int e - 1 < int b then fill_right (ip_more frag) (int e - 1) (int b) q2 (l1, b1) else Inr (q2, (l1, b1)))
        = Inr (q3, (l2, b2)) \<and> nseg None l2 b2 ((xs @ ?L) @ ?R) q3
      \<and> link_get q3 l2 b2 = (if \<not> ip_more frag \<and> e \<le> b then 1 else ?w)
      \<and> same_but (link_pos q2 \<union> (\<Union>g \<in> set ?R. {20 + fst g..<26 + fst g})) b1 b2"
  proof (cases "e \<le> b")
    case True
    show ?thesis
    proof (cases "ip_more frag")
      case m: True
      have "26 + e \<le> length b1" "link_get q2 l1 b1 < 65536" using right True m h lb1 L(3) w(2) by simp_all
      from fill_right_works [OF L(2) zs(1) ze this(1) _ o(3) this(2) hb1] show ?thesis
        using True m L(3) o by (auto simp: right_of_def h)
    next
      case False
      obtain l2 b2 where l2: "link_set q2 1 (l1, b1) = (l2, b2)" by (cases "link_set q2 1 (l1, b1)")
      show ?thesis using link_set_end [OF L(2) zs(1) _ l2] l2 True False by (auto simp: fill_right_def right_of_def h)
    qed
  next
    case False
    then show ?thesis using L by (auto simp: right_of_def h same_but_def)
  qed
  then obtain q3 l2 b2 where R: "(if int e - 1 < int b then fill_right (ip_more frag) (int e - 1) (int b) q2 (l1, b1) else Inr (q2, (l1, b1))) = Inr (q3, (l2, b2))"
      "nseg None l2 b2 ((xs @ ?L) @ ?R) q3" "link_get q3 l2 b2 = (if \<not> ip_more frag \<and> e \<le> b then 1 else ?w)"
      "same_but (link_pos q2 \<union> (\<Union>g \<in> set ?R. {20 + fst g..<26 + fst g})) b1 b2" by blast
  have lb2: "length b2 = length buf" using R(4) lb1 by (simp add: same_but_def)
  have hb2: "ip_hdrSize b2 = 20" using ip_fields_frame [OF R(4)] low(2) hb1 by auto
  obtain b3 where c: "fill_copy frag (int o') 0 (int e - 1) b2 = Inr b3" "same_but {20 + o'..<20 + e} b2 b3"
      "\<forall>x. o' \<le> x \<and> x < e \<longrightarrow> b3 ! (20 + x) = frag ! (20 + (x - o'))"
    using fill_copy_works [of frag o' e b2] f(2,4,5) len(1) lb2 hb2 by auto
  have "\<forall>g \<in> set ((xs @ ?L) @ ?R). {20 + o'..<20 + e} \<inter> {20 + fst g..<26 + fst g} = {}"
  proof
    fix g assume "g \<in> set ((xs @ ?L) @ ?R)"
    then have "fst g + 8 \<le> o' \<or> e \<le> fst g" using zs(2) by (auto simp: right_of_def split: if_splits)
    then show "{20 + o'..<20 + e} \<inter> {20 + fst g..<26 + fst g} = {}" by auto
  qed
  note n3 = nseg_apart [OF R(2) this c(2)]
  define U where "U = link_pos q1 \<union> (if a < o' then {22 + a..<24 + a} else {}) \<union> (link_pos q2 \<union> (\<Union>g \<in> set ?R. {20 + fst g..<26 + fst g})) \<union> {20 + o'..<20 + e}"
  have U: "same_but U buf b3" unfolding U_def using same_but_trans [OF same_but_trans [OF L(4) R(4)] c(2)] .
  have "U \<subseteq> W"
    using link_pos_in [OF q1(1)] link_pos_in [OF L(2)] by (auto simp: U_def W_def left_of_def h split: if_splits)
  with U have sW: "same_but W buf b3" by (rule same_but_mono)
  have lt: "i < 20 + fst g" if "i \<in> U" "g \<in> set ys" for i g
  proof -
    have g: "a + 8 \<le> fst g" "e \<le> fst g" using that(2) sp(3) ys o(2) h by force+
    have "i < 20 + a" if "i \<in> link_pos q1" using link_pos_end [OF q1(1) sp(2) that] .
    moreover have "i < 20 + e" if "i \<in> link_pos q2" using link_pos_end [OF L(2) ze that] .
    moreover have "i < 20 + fst g" if "i \<in> (\<Union>g \<in> set ?R. {20 + fst g..<26 + fst g})"
      using that right \<open>g \<in> set ys\<close> h by (fastforce simp: right_of_def split: if_splits)
    ultimately show ?thesis using g that(1) by (auto simp: U_def split: if_splits)
  qed
  have Uy: "U \<inter> {20 + fst g..<26 + fst g} = {}" if "g \<in> set ys" for g
  proof (rule equals0I)
    fix i assume i: "i \<in> U \<inter> {20 + fst g..<26 + fst g}"
    have "i < 20 + fst g" by (rule lt [OF IntD1 [OF i] that])
    then show False using IntD2 [OF i] by simp
  qed
  have y3: "nseg q3 l2 b3 ys (if ys = [] then q3 else q)"
  proof (rule nseg_frame [OF q1(4) U])
    show "ys \<noteq> [] \<longrightarrow> link_get q3 l2 b3 = link_get (Some (24 + a)) l buf"
      using n3(2) R(3) w(1) right h by auto
    show "\<forall>g \<in> set ys. U \<inter> {20 + fst g..<24 + fst g} = {}" using Uy by fastforce
    have "\<forall>g \<in> set ys. U \<inter> {24 + fst g..<26 + fst g} = {}" using Uy by fastforce
    then show "\<forall>g \<in> set (butlast ys). U \<inter> {24 + fst g..<26 + fst g} = {}" by (meson in_set_butlastD)
  qed
  have end3: "link_get (if ys = [] then q3 else q) l2 b3 = 1"
  proof (cases "ys = []")
    case True
    then have "?w = 1" using q1(4) n(2) w(1) by simp
    then show ?thesis using True n3(2) R(3) by simp
  next
    case False
    then have q: "q = Some (24 + fst (List.last ys))" using nseg_end [OF q1(4)] by simp
    have "24 + fst (List.last ys) \<notin> U" "24 + fst (List.last ys) + 1 \<notin> U" using Uy [OF last_in_set [OF False]] by fastforce+
    from same_but_word [OF U this] show ?thesis using False q n(2) by (simp add: link_get_def)
  qed
  have hl: "hole_last buf (20 + a) = b" "hole_first buf (20 + a) = a" "26 + a \<le> length buf" using q1(3) by (simp_all add: hole_in_def)
  have "fill_holes frag (int o') (int e - 1) None (l, buf) = fill_holes frag (int o') (int e - 1) q1 (l, buf)"
    by (rule fill_holes_skip [OF q1(1)]) (use xs ne1 len(2) in auto)
  also have "\<dots> = fill_holes frag (int o') (int e - 1) q3 (l2, b3)"
  proof -
    have "min (int e - 1) (int b) = int e - 1" "a \<noteq> 1" using o(2) ne1 h by auto
    then show ?thesis
      using q1(2) hl f(2) o fl R(1) c(1) L(1) len(2) by (subst fill_holes.simps) (simp add: Let_def split del: if_split)
  qed
  also have "\<dots> = fill_holes frag (int o') (int e - 1) (if ys = [] then q3 else q) (l2, b3)"
  proof (rule fill_holes_skip [OF y3])
    show "ip_hdrSize b3 = 20" using ip_fields_frame [OF c(2)] hb2 by simp
  qed (use ys o(2) h ne1 in force)+
  also have "\<dots> = ok (l2, b3)" by (rule fill_holes_done [OF end3])
  finally have run: "fill_holes frag (int o') (int e - 1) None (l, buf) = ok (l2, b3)" .
  have "nseg None l2 b3 (((xs @ ?L) @ ?R) @ ys) (if ys = [] then q3 else q)"
    unfolding nseg_append [of None l2 b3 "(xs @ ?L) @ ?R"] using n3(1) y3 by blast
  then have "nseg None l2 b3 (xs @ ?L @ ?R @ ys) (if ys = [] then q3 else q)" by (simp only: append_assoc)
  then show ?thesis using run end3 sW c(3) by blast
qed

subsection \<open>Reassembling a datagram\<close>

text \<open>The holes in a datagram with \<open>n\<close> bytes of data: in order, at multiples of 8, long enough for a
  descriptor, and none of them behind the data only.\<close>

definition holes_ok :: "nat \<Rightarrow> (nat \<times> nat) list \<Rightarrow> bool" where
  "holes_ok n hs \<longleftrightarrow> sorted_wrt (\<lambda>g h. snd g < fst h) hs \<and> (\<forall>h \<in> set hs. fst h mod 8 = 0 \<and> fst h + 7 \<le> snd h \<and> fst h < n
    \<and> snd h \<le> 65515 \<and> (snd h = 65515 \<or> (snd h + 1) mod 8 = 0))"

definition covers :: "(nat \<times> nat) list \<Rightarrow> nat \<Rightarrow> bool" where
  "covers hs x \<longleftrightarrow> (\<exists>h \<in> set hs. fst h \<le> x \<and> x \<le> snd h)"

lemma covers_simps [simp]:
  "\<not> covers [] x" "covers (h # hs) x \<longleftrightarrow> fst h \<le> x \<and> x \<le> snd h \<or> covers hs x" "covers (xs @ ys) x \<longleftrightarrow> covers xs x \<or> covers ys x"
  by (auto simp: covers_def)

lemma holes_spaced: "holes_ok n hs \<Longrightarrow> spaced hs"
  unfolding spaced_def
proof (rule sorted_wrt_mono_rel [of hs "\<lambda>g h. snd g < fst h"])
  fix g h assume "holes_ok n hs" "g \<in> set hs" "h \<in> set hs" "snd g < fst h"
  then have "fst g + 7 \<le> snd g" by (simp add: holes_ok_def)
  then show "fst g + 8 \<le> fst h" using \<open>snd g < fst h\<close> by simp
qed (simp add: holes_ok_def)

lemma holes_ne1: "holes_ok n hs \<Longrightarrow> \<forall>h \<in> set hs. fst h \<noteq> 1"
proof
  fix h assume "holes_ok n hs" "h \<in> set hs"
  then have "fst h mod 8 = 0" by (simp add: holes_ok_def)
  then show "fst h \<noteq> 1" by auto
qed

lemma mod8_gap: "(a :: nat) mod 8 = 0 \<Longrightarrow> b mod 8 = 0 \<Longrightarrow> a < b \<Longrightarrow> a + 8 \<le> b"
  by presburger

lemma holes_split:
  assumes ok: "holes_ok n (xs @ h # ys)" and n: "n \<le> 65512"
    and f: "fst h \<le> o'" "o' < e" "e \<le> snd h + 1" "e \<le> n" "o' mod 8 = 0" "mf \<longleftrightarrow> e < n" "mf \<longrightarrow> e mod 8 = 0"
  defines "hs \<equiv> xs @ left_of h o' @ right_of h mf e @ ys"
  shows "holes_ok n hs" "x < n \<Longrightarrow> covers hs x \<longleftrightarrow> covers (xs @ h # ys) x \<and> \<not> (o' \<le> x \<and> x < e)"
    "fst h < o' \<longrightarrow> fst h + 8 \<le> o'"
    "e \<le> snd h \<longrightarrow> (if mf then e \<le> 65504 \<and> (\<forall>g \<in> set ys. e + 8 \<le> fst g) else ys = [])"
proof -
  have h: "fst h mod 8 = 0" "fst h + 7 \<le> snd h" "fst h < n" "snd h \<le> 65515" "snd h = 65515 \<or> (snd h + 1) mod 8 = 0"
    using ok by (auto simp: holes_ok_def)
  have xs: "\<forall>g \<in> set xs. snd g < fst h" and ys: "\<forall>g \<in> set ys. snd h < fst g" "\<forall>g \<in> set xs. \<forall>g' \<in> set ys. snd g < fst g'"
    using ok by (auto simp: holes_ok_def sorted_wrt_append)
  have yn: "\<forall>g \<in> set ys. fst g < n \<and> fst g mod 8 = 0" using ok by (auto simp: holes_ok_def)
  show left: "fst h < o' \<longrightarrow> fst h + 8 \<le> o'" using mod8_gap [OF h(1) f(5)] by simp
  have more: "e \<le> 65504 \<and> e mod 8 = 0 \<and> e + 7 \<le> snd h \<and> (\<forall>g \<in> set ys. e + 8 \<le> fst g)" if "e \<le> snd h" mf
  proof -
    have e: "e < n" "e mod 8 = 0" using that f(6,7) by simp_all
    then have "e + 8 \<le> 65512" using n by (intro mod8_gap) simp_all
    moreover from this have "e + 7 \<le> snd h" using h(5) mod8_gap [OF e(2), of "snd h + 1"] that(1) by auto
    ultimately show ?thesis using e(2) ys(1) by fastforce
  qed
  have last: "ys = []" if "e \<le> snd h" "\<not> mf"
  proof (rule ccontr)
    assume "ys \<noteq> []"
    then obtain g where "g \<in> set ys" by (cases ys) auto
    then have "snd h < fst g" "fst g < n" using ys(1) yn by auto
    then show False using that f(4,6) by linarith
  qed
  show "e \<le> snd h \<longrightarrow> (if mf then e \<le> 65504 \<and> (\<forall>g \<in> set ys. e + 8 \<le> fst g) else ys = [])" using more last by auto
  have L: "set (left_of h o') \<subseteq> {(fst h, o' - 1)}" "left_of h o' \<noteq> [] \<Longrightarrow> fst h + 8 \<le> o'" using left by (auto simp: left_of_def)
  have R: "set (right_of h mf e) \<subseteq> {(e, snd h)}" "right_of h mf e \<noteq> [] \<Longrightarrow> e \<le> snd h \<and> mf" by (auto simp: right_of_def split: if_splits)
  have xo: "\<forall>g \<in> set xs. snd g < o' \<and> snd g < e" using xs f(1,2) by fastforce
  have yo: "o' - Suc 0 < a" if "(a, b) \<in> set ys" for a b using ys(1) f(2,3) that by fastforce
  have "sorted_wrt (\<lambda>g h. snd g < fst h) hs"
    using ok xs ys xo f(2) yo unfolding hs_def holes_ok_def
    by (auto simp: sorted_wrt_append left_of_def right_of_def split: if_splits)
  moreover have "(o' - 1 + 1) mod 8 = 0" "o' - 1 \<le> 65515" if "fst h < o'" using that f n by auto
  ultimately show "holes_ok n hs"
    using ok left more f(6) h unfolding hs_def holes_ok_def
    by (auto simp: left_of_def right_of_def split: if_splits)
  show "covers hs x \<longleftrightarrow> covers (xs @ h # ys) x \<and> \<not> (o' \<le> x \<and> x < e)" if "x < n"
  proof -
    have "\<not> covers xs x" if "o' \<le> x" using that xo by (fastforce simp: covers_def)
    moreover have "\<not> covers ys x" if "x < e" using that ys(1) f(3) by (fastforce simp: covers_def)
    moreover have "covers (left_of h o') x \<longleftrightarrow> fst h \<le> x \<and> x < o'" using f(1) by (auto simp: left_of_def)
    moreover have "covers (right_of h mf e) x \<longleftrightarrow> e \<le> x \<and> x \<le> snd h"
      using \<open>x < n\<close> f(4,6) by (auto simp: right_of_def)
    ultimately show ?thesis unfolding hs_def using f(1-3) by auto
  qed
qed

text \<open>The state when the fragments with numbers in \<open>R\<close> have arrived: the data outside the holes is there.\<close>

definition reass_ok :: "u8 list \<Rightarrow> (nat \<Rightarrow> nat) \<Rightarrow> nat \<Rightarrow> nat set \<Rightarrow> reass \<Rightarrow> bool" where
  "reass_ok D c m R r \<longleftrightarrow> length (re_buf r) = 65535 \<and> ip_hdrSize (re_buf r) = 20
    \<and> 20 \<le> ip_size (re_buf r) \<and> ip_size (re_buf r) \<le> 20 + length D \<and> (\<forall>i \<in> R. 20 + c (Suc i) \<le> ip_size (re_buf r))
    \<and> (\<exists>hs q. nseg None (re_list r) (re_buf r) hs q \<and> link_get q (re_list r) (re_buf r) = 1 \<and> holes_ok (length D) hs
      \<and> (\<forall>x < length D. \<not> covers hs x \<longrightarrow> re_buf r ! (20 + x) = D ! x)
      \<and> (\<forall>i < m. if i \<in> R then \<forall>x. c i \<le> x \<and> x < c (Suc i) \<longrightarrow> \<not> covers hs x else \<exists>h \<in> set hs. fst h \<le> c i \<and> c (Suc i) \<le> snd h + 1))"

lemma reass_okI:
  assumes "length buf = 65535" "ip_hdrSize buf = 20" "20 \<le> ip_size buf" "ip_size buf \<le> 20 + length D" "\<forall>i \<in> R. 20 + c (Suc i) \<le> ip_size buf"
    "nseg None l buf hs q" "link_get q l buf = 1" "holes_ok (length D) hs" "\<forall>x < length D. \<not> covers hs x \<longrightarrow> buf ! (20 + x) = D ! x"
    "\<forall>i < m. if i \<in> R then \<forall>x. c i \<le> x \<and> x < c (Suc i) \<longrightarrow> \<not> covers hs x else \<exists>h \<in> set hs. fst h \<le> c i \<and> c (Suc i) \<le> snd h + 1"
  shows "reass_ok D c m R (r\<lparr>re_list := l, re_buf := buf\<rparr>)"
proof -
  have "\<exists>hs q. nseg None l buf hs q \<and> link_get q l buf = 1 \<and> holes_ok (length D) hs
      \<and> (\<forall>x < length D. \<not> covers hs x \<longrightarrow> buf ! (20 + x) = D ! x)
      \<and> (\<forall>i < m. if i \<in> R then \<forall>x. c i \<le> x \<and> x < c (Suc i) \<longrightarrow> \<not> covers hs x else \<exists>h \<in> set hs. fst h \<le> c i \<and> c (Suc i) \<le> snd h + 1)"
    using assms(6-10) by blast
  then show ?thesis unfolding reass_ok_def using assms(1-5) by (simp split del: if_split)
qed

lemma save_first_plain:
  assumes "ip_hdrSize f = 20" "ip_size f \<le> length f"
  shows "\<exists>r'. save_first f r = Inr r' \<and> re_buf r' = re_buf r \<and> re_list r' = re_list r"
  using assms by (auto simp: save_first_def Let_def)

lemma cuts_mono:
  assumes "cuts D c fs" "i < j" "j \<le> length fs"
  shows "c i < c j"
proof -
  have s: "c i < c (Suc i)" if "i < length fs" for i using assms(1) that by (auto simp: cuts_def frag_of_def)
  show ?thesis using assms(2,3)
  proof (induction j)
    case (Suc j)
    then show ?case using s [of j] by (cases "i = j") (auto dest: less_trans)
  qed simp
qed

text \<open>Every byte of the data is in one fragment.\<close>

lemma cuts_find:
  assumes "cuts D c fs" "x < length D"
  shows "\<exists>i < length fs. c i \<le> x \<and> x < c (Suc i)"
proof -
  have "x < c k \<Longrightarrow> \<exists>i < k. c i \<le> x \<and> x < c (Suc i)" for k
  proof (induction k)
    case 0
    then show ?case using assms(1) by (simp add: cuts_def)
  next
    case (Suc k)
    then show ?case by (cases "x < c k") (auto simp: less_Suc_eq)
  qed
  then show ?thesis using assms by (auto simp: cuts_def)
qed

lemma cuts_apart:
  assumes "cuts D c fs" "i < length fs" "j < length fs" "i \<noteq> j" "c i \<le> x" "x < c (Suc i)"
  shows "\<not> (c j \<le> x \<and> x < c (Suc j))"
proof -
  have "c (Suc i) \<le> c j \<or> c (Suc j) \<le> c i"
    using cuts_mono [OF assms(1), of "Suc i" j] cuts_mono [OF assms(1), of "Suc j" i] assms(2-4)
    by (cases "Suc i = j"; cases "Suc j = i") (auto simp: nat_neq_iff)
  then show ?thesis using assms(5,6) by linarith
qed

text \<open>A new receiver has one hole, all data that a datagram can have.\<close>

lemma reass_start_hole:
  assumes "length junk = 65535" "20 \<le> length f"
  defines "buf \<equiv> re_buf (reass_start junk f)"
  shows "hole_in buf (0, 65515)" "link_get (Some 24) 0 buf = 1" "length buf = 65535" "ip_hdrSize buf = ip_hdrSize f" "ip_size buf = ip_size f"
proof -
  let ?b = "take 20 f @ drop 20 junk"
  have lb: "length ?b = 65535" using assms(1,2) by simp
  have b1: "buf = le_xword (le_xword (le_xword ?b 20 (word_of_nat 0)) 22 (word_of_nat 65515)) 24 (word_of_nat 1)"
    by (simp add: buf_def reass_start_def put_hole_def)
  have sb: "same_but {20..<26} ?b buf"
    unfolding b1 by (rule same_but_mono [OF same_but_trans [OF same_but_trans [OF same_but_xword same_but_xword] same_but_xword]]) auto
  show "hole_in buf (0, 65515)" "link_get (Some 24) 0 buf = 1"
    using lb le_xword_value [of 20 ?b 0] le_xword_value [of 22 "le_xword ?b 20 0" 65515]
      le_xword_value [of 24 "le_xword (le_xword ?b 20 0) 22 65515" 1]
    unfolding b1 by (simp_all add: hole_in_def hole_first_def hole_last_def link_get_def le16.get_put_other)
  show "length buf = 65535" using sb lb by (simp add: same_but_def)
  have "ip_hdrSize ?b = ip_hdrSize f" "ip_size ?b = ip_size f"
    using assms(2) by (simp_all add: ip_hdrSize_def ip_size_def be_word_def nth_append)
  then show "ip_hdrSize buf = ip_hdrSize f" "ip_size buf = ip_size f" using ip_fields_frame [OF sb] ip_size_frame [OF sb] by simp_all
qed

lemma holes_of_start:
  assumes "length junk = 65535" "frag_of D o' e f" "length D \<le> 65512" "\<forall>i < m. c (Suc i) \<le> length D"
  shows "reass_ok D c m {} (reass_start junk f)"
proof -
  define buf where "buf = re_buf (reass_start junk f)"
  have f: "20 \<le> length f" "ip_size f = 20 + (e - o')" "ip_hdrSize f = 20" "o' < e" "e \<le> length D" using assms(2) unfolding frag_of_def by linarith+
  note h = reass_start_hole [OF assms(1) f(1), folded buf_def]
  have l: "re_list (reass_start junk f) = 0" by (simp add: reass_start_def)
  have "nseg None 0 buf [(0, 65515)] (Some 24)" using h(1) by (simp add: link_get_def)
  moreover have "holes_ok (length D) [(0, 65515)]" using f(4,5) by (auto simp: holes_ok_def)
  moreover have "covers [(0, 65515)] x" if "x < length D" for x using that assms(3) by simp
  moreover have "c (Suc i) \<le> 65516" if "i < m" for i using assms(3,4) that by fastforce
  ultimately have "\<exists>hs q. nseg None 0 buf hs q \<and> link_get q 0 buf = 1 \<and> holes_ok (length D) hs
      \<and> (\<forall>x < length D. \<not> covers hs x \<longrightarrow> buf ! (20 + x) = D ! x)
      \<and> (\<forall>i < m. \<exists>h \<in> set hs. fst h \<le> c i \<and> c (Suc i) \<le> snd h + 1)"
    using h(2) by (intro exI [of _ "[(0, 65515)]"] exI [of _ "Some 24"]) simp
  then show ?thesis using h(3-5) f l unfolding reass_ok_def buf_def [symmetric] by (simp, linarith)
qed

text \<open>The effect of one fragment on the holes and the buffer.\<close>

lemma fill_step:
  assumes c: "cuts D c fs" "length D \<le> 65512" and i: "i < length fs" and r: "reass_ok D c (length fs) R r"
  defines "buf \<equiv> grow_size (int (c i)) (int (c (Suc i) - c i)) (re_buf r)"
  shows "\<exists>l' buf'. fill_holes (fs ! i) (int (c i)) (int (c (Suc i)) - 1) None (re_list r, buf) = ok (l', buf')
    \<and> reass_ok D c (length fs) (insert i R) (r\<lparr>re_list := l', re_buf := buf'\<rparr>)"
proof -
  let ?n = "length D" and ?o = "c i" and ?e = "c (Suc i)" and ?b = "re_buf r" and ?f = "fs ! i"
  have f: "frag_of D ?o ?e ?f" using c(1) i by (simp add: cuts_def)
  then have oe: "?o < ?e" "?e \<le> ?n" by (simp_all add: frag_of_def)
  have rb: "length ?b = 65535" "ip_hdrSize ?b = 20" "20 \<le> ip_size ?b" "ip_size ?b \<le> 20 + ?n" "\<forall>j \<in> R. 20 + c (Suc j) \<le> ip_size ?b"
    using r by (simp_all add: reass_ok_def)
  obtain hs q where hs: "nseg None (re_list r) ?b hs q" "link_get q (re_list r) ?b = 1" "holes_ok ?n hs"
      "\<forall>x < ?n. \<not> covers hs x \<longrightarrow> ?b ! (20 + x) = D ! x"
      "\<forall>j < length fs. if j \<in> R then \<forall>x. c j \<le> x \<and> x < c (Suc j) \<longrightarrow> \<not> covers hs x else \<exists>h \<in> set hs. fst h \<le> c j \<and> c (Suc j) \<le> snd h + 1"
    using r unfolding reass_ok_def by blast
  have got: "\<not> covers hs x" if "j < length fs" "j \<in> R" "c j \<le> x" "x < c (Suc j)" for j x
    using spec [OF hs(5), of j] that by simp
  have miss: "\<exists>h \<in> set hs. fst h \<le> c j \<and> c (Suc j) \<le> snd h + 1" if "j < length fs" "j \<notin> R" for j
    using spec [OF hs(5), of j] that by simp
  have g: "same_but {2, 3} ?b buf" "ip_size buf = max (ip_size ?b) (20 + ?e)"
  proof -
    have "nat (int 20 + int ?o + int (?e - ?o)) = 20 + ?e" using oe(1) by simp
    then show "same_but {2, 3} ?b buf" "ip_size buf = max (ip_size ?b) (20 + ?e)"
      using ip_setSize_frame [of ?b] ip_setSize_size [of ?b "20 + ?e"] rb(1,2) oe c(2)
      by (auto simp: buf_def grow_size_def same_but_def max_def)
  qed
  have lb: "length buf = 65535" and hd: "ip_hdrSize buf = 20" using g(1) rb(1,2) ip_fields_frame [OF g(1)] by (simp_all add: same_but_def)
  have "\<forall>h \<in> set hs. {2, 3} \<inter> {20 + fst h..<26 + fst h} = {}" by auto
  note n1 = nseg_apart [OF hs(1) this g(1)]
  have data: "\<forall>x < ?n. \<not> covers hs x \<longrightarrow> buf ! (20 + x) = D ! x" using hs(4) g(1) by (simp add: same_but_def)
  show ?thesis
  proof (cases "i \<in> R")
    case True
    then have nc: "\<not> covers hs x" if "?o \<le> x" "x < ?e" for x using got [OF i] that by simp
    have "int (snd h) < int ?o \<or> int ?e - 1 < int (fst h)" if h: "h \<in> set hs" for h
    proof (rule ccontr)
      assume "\<not> ?thesis"
      then have "?o \<le> snd h" "fst h < ?e" by auto
      moreover have "fst h \<le> snd h" using hs(3) h by (auto simp: holes_ok_def)
      ultimately have "covers hs (max ?o (fst h))" unfolding covers_def by (intro bexI [OF _ h]) simp
      then show False using nc [of "max ?o (fst h)"] oe(1) \<open>fst h < ?e\<close> by simp
    qed
    moreover note holes_ne1 [OF hs(3)]
    ultimately have "fill_holes ?f (int ?o) (int ?e - 1) None (re_list r, buf) = ok (re_list r, buf)"
      using fill_holes_skip [OF n1(1), of "int ?o" "int ?e - 1" ?f] fill_holes_done [of q] n1(2) hs(2) hd by simp
    moreover have "reass_ok D c (length fs) (insert i R) (r\<lparr>re_list := re_list r, re_buf := buf\<rparr>)"
      by (rule reass_okI [of buf D _ c "re_list r" hs q])
        (use lb hd g(2) rb(3-5) oe(2) n1 hs(2,3,5) data True in \<open>auto simp: insert_absorb split del: if_split\<close>)
    ultimately show ?thesis by blast
  next
    case False
    then obtain h where h: "h \<in> set hs" "fst h \<le> ?o" "?e \<le> snd h + 1" using miss [OF i] by blast
    then obtain xs ys where xy: "hs = xs @ h # ys" by (meson split_list)
    have fr: "?o mod 8 = 0" "ip_more ?f \<longleftrightarrow> ?e < ?n" "ip_more ?f \<longrightarrow> ?e mod 8 = 0" "ip_hdrSize ?f = 20" "20 + (?e - ?o) \<le> length ?f"
      using f by (auto simp: frag_of_def)
    note sp = holes_split [OF hs(3) [unfolded xy] c(2) h(2) oe(1) h(3) oe(2) fr(1-3)]
    let ?hs = "xs @ left_of h ?o @ right_of h (ip_more ?f) ?e @ ys"
    have xs: "\<forall>g \<in> set xs. snd g < fst h" "\<forall>g \<in> set ys. snd h < fst g" using hs(3) xy by (auto simp: holes_ok_def sorted_wrt_append)
    have ne1: "\<forall>g \<in> set (xs @ h # ys). fst g \<noteq> 1" using holes_ne1 [OF hs(3)] xy by simp
    have a1: "snd h < 65536" using hs(3) h(1) by (auto simp: holes_ok_def)
    have a2: "?e \<le> snd h \<longrightarrow> (if ip_more ?f then 26 + ?e \<le> length buf \<and> (\<forall>g \<in> set ys. ?e + 8 \<le> fst g) else ys = [])"
      using sp(4) lb by auto
    have a3: "\<forall>g \<in> set xs. snd g < ?o" using xs(1) h(2) by fastforce
    have a4: "20 + ?e \<le> length buf" using oe(2) c(2) lb by simp
    have a5: "link_get q (re_list r) buf = 1" using n1(2) hs(2) by simp
    obtain l' buf' q' where st: "fill_holes ?f (int ?o) (int ?e - 1) None (re_list r, buf) = ok (l', buf')"
        "nseg None l' buf' ?hs q'" "link_get q' l' buf' = 1"
        "same_but ((\<Union>g \<in> set (xs @ left_of h ?o @ right_of h (ip_more ?f) ?e). {20 + fst g..<26 + fst g}) \<union> {20 + ?o..<20 + ?e}) buf buf'"
        "\<forall>x. ?o \<le> x \<and> x < ?e \<longrightarrow> buf' ! (20 + x) = ?f ! (20 + (x - ?o))"
      using fill_holes_one [OF n1(1) [unfolded xy] a5 holes_spaced [OF hs(3) [unfolded xy]] a3 xs(2) ne1 h(2) oe(1) h(3) fr(4,5) a1 sp(3) a2 a4 hd]
      by (elim exE conjE) (rule that)
    let ?W = "(\<Union>g \<in> set (xs @ left_of h ?o @ right_of h (ip_more ?f) ?e). {20 + fst g..<26 + fst g}) \<union> {20 + ?o..<20 + ?e}"
    have low: "0 \<notin> ?W" "2 \<notin> ?W" "3 \<notin> ?W" by auto
    have B: "length buf' = 65535" "ip_hdrSize buf' = 20" "ip_size buf' = ip_size buf"
      using st(4) lb hd ip_fields_frame [OF st(4) low(1)] ip_size_frame [OF st(4) low(2,3)] by (simp_all add: same_but_def)
    have D: "buf' ! (20 + x) = D ! x" if x: "x < ?n" "\<not> covers ?hs x" for x
    proof (cases "?o \<le> x \<and> x < ?e")
      case True
      then show ?thesis using st(5) f by (simp add: frag_of_def)
    next
      case False
      then have "\<not> covers hs x" using sp(2) [OF x(1)] x(2) xy by simp
      then have "buf ! (20 + x) = D ! x" using data x(1) by simp
      moreover have "20 + x \<notin> ?W"
      proof
        assume "20 + x \<in> ?W"
        then have "20 + x \<in> (\<Union>g \<in> set (xs @ left_of h ?o @ right_of h (ip_more ?f) ?e). {20 + fst g..<26 + fst g})" using False by simp
        then obtain g where "g \<in> set (xs @ left_of h ?o @ right_of h (ip_more ?f) ?e)" "20 + x \<in> {20 + fst g..<26 + fst g}" by (rule UN_E)
        then have g: "g \<in> set ?hs" "fst g \<le> x" "x < fst g + 6" by auto
        then have "fst g + 7 \<le> snd g" using sp(1) by (auto simp: holes_ok_def)
        then have "covers ?hs x" using g by (auto simp: covers_def)
        then show False using x(2) by simp
      qed
      ultimately show ?thesis using st(4) by (simp add: same_but_def)
    qed
    have parts: "if j \<in> insert i R then \<forall>x. c j \<le> x \<and> x < c (Suc j) \<longrightarrow> \<not> covers ?hs x else \<exists>g \<in> set ?hs. fst g \<le> c j \<and> c (Suc j) \<le> snd g + 1"
      if j: "j < length fs" for j
    proof (cases "j \<in> insert i R")
      case True
      have "c (Suc j) \<le> ?n" using c(1) j by (auto simp: cuts_def frag_of_def)
      then have "\<not> covers ?hs x" if "c j \<le> x" "x < c (Suc j)" for x
        using True sp(2) [of x] got [OF j, of x] xy that by auto
      then show ?thesis using True by simp
    next
      case False
      then obtain g where g: "g \<in> set hs" "fst g \<le> c j" "c (Suc j) \<le> snd g + 1" using miss [OF j] by auto
      have cj: "c j < c (Suc j)" "c (Suc j) \<le> ?n" using c(1) j by (auto simp: cuts_def frag_of_def)
      have "\<exists>g \<in> set ?hs. fst g \<le> c j \<and> c (Suc j) \<le> snd g + 1"
      proof (cases "g = h")
        case True
        have "c (Suc j) \<le> ?o \<or> ?e \<le> c j"
        proof -
          have ij: "i \<noteq> j" "j \<noteq> i" using \<open>j \<notin> insert i R\<close> by auto
          show ?thesis
            using cuts_apart [OF c(1) j i ij(2) le_refl cj(1)] cuts_apart [OF c(1) i j ij(1) le_refl oe(1)] cj(1) oe(1) by linarith
        qed
        then show ?thesis
        proof
          assume "c (Suc j) \<le> ?o"
          then show ?thesis using True g cj(1) by (intro bexI [of _ "(fst h, ?o - 1)"]) (auto simp: left_of_def)
        next
          assume "?e \<le> c j"
          then show ?thesis using True g cj fr(2) by (intro bexI [of _ "(?e, snd h)"]) (auto simp: right_of_def)
        qed
      next
        case False
        then show ?thesis using g xy by auto
      qed
      then show ?thesis using False by simp
    qed
    have "reass_ok D c (length fs) (insert i R) (r\<lparr>re_list := l', re_buf := buf'\<rparr>)"
    proof (rule reass_okI [OF B(1,2) _ _ _ st(2,3) sp(1)])
      show "20 \<le> ip_size buf'" "ip_size buf' \<le> 20 + ?n" "\<forall>j \<in> insert i R. 20 + c (Suc j) \<le> ip_size buf'"
        using B(3) g(2) rb(3-5) oe(2) by auto
    qed (use D parts in blast)+
    then show ?thesis using st(1) by blast
  qed
qed

lemma reass_complete:
  assumes c: "cuts D c fs" and r: "reass_ok D c (length fs) R r" and R: "R \<subseteq> {..<length fs}"
  shows "re_list r = 1 \<longleftrightarrow> R = {..<length fs}"
proof -
  obtain hs q where hs: "nseg None (re_list r) (re_buf r) hs q" "link_get q (re_list r) (re_buf r) = 1" "holes_ok (length D) hs"
      "\<forall>j < length fs. if j \<in> R then \<forall>x. c j \<le> x \<and> x < c (Suc j) \<longrightarrow> \<not> covers hs x else \<exists>h \<in> set hs. fst h \<le> c j \<and> c (Suc j) \<le> snd h + 1"
    using r unfolding reass_ok_def by blast
  have "re_list r = 1 \<longleftrightarrow> hs = []"
  proof (cases hs)
    case Nil
    then show ?thesis using hs(1,2) by (simp add: link_get_def)
  next
    case (Cons h t)
    then have "re_list r = fst h" using hs(1) by (simp add: link_get_def)
    then show ?thesis using holes_ne1 [OF hs(3)] Cons by simp
  qed
  also have "hs = [] \<longleftrightarrow> R = {..<length fs}"
  proof
    assume e: "hs = []"
    have "j \<in> R" if "j < length fs" for j using spec [OF hs(4), of j] that e by (auto split: if_splits)
    then show "R = {..<length fs}" using R by auto
  next
    assume eq: "R = {..<length fs}"
    show "hs = []"
    proof (rule ccontr)
      assume "hs \<noteq> []"
      then obtain h where h: "h \<in> set hs" by (cases hs) auto
      then have "fst h < length D" "fst h \<le> snd h" using hs(3) by (auto simp: holes_ok_def)
      then have "fst h < length D" "covers hs (fst h)" using h by (auto simp: covers_def)
      then show False using cuts_find [OF c, of "fst h"] hs(4) eq by auto
    qed
  qed
  finally show ?thesis .
qed

lemma reass_delivers:
  assumes c: "cuts D c fs" and r: "reass_ok D c (length fs) {..<length fs} r" and D: "length D \<le> 65512"
  defines "d \<equiv> take (ip_size (re_buf r)) (re_buf r)"
  shows "length d = 20 + length D \<and> ip_hdrSize d = 20 \<and> ip_size d = length d \<and> drop 20 d = D"
proof -
  obtain hs q where hs: "nseg None (re_list r) (re_buf r) hs q" "link_get q (re_list r) (re_buf r) = 1" "holes_ok (length D) hs"
      "\<forall>x < length D. \<not> covers hs x \<longrightarrow> re_buf r ! (20 + x) = D ! x"
      "\<forall>j < length fs. if j \<in> {..<length fs} then \<forall>x. c j \<le> x \<and> x < c (Suc j) \<longrightarrow> \<not> covers hs x else \<exists>h \<in> set hs. fst h \<le> c j \<and> c (Suc j) \<le> snd h + 1"
    using r unfolding reass_ok_def by blast
  have m: "0 < length fs" "c (length fs) = length D" using c by (simp_all add: cuts_def)
  have b: "length (re_buf r) = 65535" "ip_hdrSize (re_buf r) = 20" "ip_size (re_buf r) \<le> 20 + length D" using r by (simp_all add: reass_ok_def)
  have "\<forall>j \<in> {..<length fs}. 20 + c (Suc j) \<le> ip_size (re_buf r)" using r unfolding reass_ok_def by blast
  then have "20 + c (Suc (length fs - 1)) \<le> ip_size (re_buf r)" using m(1) by (meson diff_less lessThan_iff zero_less_one)
  then have s: "ip_size (re_buf r) = 20 + length D" using m b(3) by simp
  then have len: "length d = 20 + length D" using b(1) D by (simp add: d_def)
  have "re_buf r ! (20 + x) = D ! x" if "x < length D" for x
    using cuts_find [OF c that] hs(4,5) that by auto
  then have "drop 20 d = D" using len b(1) s by (intro nth_equalityI) (simp_all add: d_def)
  moreover have "ip_hdrSize d = 20" "ip_size d = 20 + length D" using b(2) s by (simp_all add: d_def ip_hdrSize_def ip_size_def be_word_def)
  ultimately show ?thesis using len by simp
qed

lemma reass_input_works:
  assumes c: "cuts D c fs" "length D \<le> 65512" and i: "i < length fs" and R: "R \<subseteq> {..<length fs}"
    and s: "case s of None \<Rightarrow> R = {} \<and> length junk = 65535 | Some r \<Rightarrow> reass_ok D c (length fs) R r"
  shows "\<exists>r. reass_ok D c (length fs) (insert i R) r \<and> reass_input junk s (fs ! i) =
    ok (if insert i R = {..<length fs} then (None, Some (take (ip_size (re_buf r)) (re_buf r))) else (Some r, None))"
proof -
  let ?f = "fs ! i" and ?o = "c i" and ?e = "c (Suc i)"
  have f: "frag_of D ?o ?e ?f" using c(1) i by (simp add: cuts_def)
  have oe: "?o < ?e" "ip_hdrSize ?f = 20" "ip_size ?f = 20 + (?e - ?o)" "ip_offset ?f = ?o" "ip_more ?f \<longrightarrow> (?e - ?o) mod 8 = 0"
    using f by (auto simp: frag_of_def mod_diff_eq)
  define r0 where "r0 = (case s of None \<Rightarrow> reass_start junk ?f | Some r \<Rightarrow> r)"
  have "\<forall>j < length fs. c (Suc j) \<le> length D" using c(1) by (simp add: cuts_def frag_of_def)
  then have r0: "reass_ok D c (length fs) R r0"
    using s holes_of_start [OF _ f c(2)] by (auto simp: r0_def split: option.splits)
  obtain r1 where r1: "save_first ?f r0 = Inr r1" "re_buf r1 = re_buf r0" "re_list r1 = re_list r0"
    using save_first_plain [OF oe(2)] f by (auto simp: frag_of_def)
  have ok1: "reass_ok D c (length fs) R r1" using r0 r1(2,3) by (simp add: reass_ok_def)
  define n where "n = int (?e - ?o)"
  define b where "b = grow_size (int ?o) n (re_buf r1)"
  obtain l' buf' where st: "fill_holes ?f (int ?o) (int ?e - 1) None (re_list r1, b) = ok (l', buf')"
      "reass_ok D c (length fs) (insert i R) (r1\<lparr>re_list := l', re_buf := buf'\<rparr>)"
    using fill_step [OF c i ok1] unfolding b_def n_def by blast
  have hb: "ip_hdrSize b = 20"
    using ok1 ip_fields_frame [OF ip_setSize_frame, of "re_buf r1"] by (simp add: b_def grow_size_def reass_ok_def)
  have len: "int (ip_size ?f) - int (ip_hdrSize ?f) = n" "int ?o + n - 1 = int ?e - 1" "0 < n"
    using oe by (simp_all add: n_def)
  have go: "\<not> (n \<le> 0 \<or> ip_more ?f \<and> n mod 8 \<noteq> 0)"
    using oe(1,5) by (auto simp: n_def zmod_int [symmetric] simp del: of_nat_diff)
  have "reass_input junk s ?f = ok (if l' = 1 then (None, Some (take (ip_size buf') buf')) else (Some (r1\<lparr>re_list := l', re_buf := buf'\<rparr>), None))"
    unfolding reass_input_def r0_def [symmetric] Let_def oe(4) len(1,2) if_not_P [OF go] r1(1) using hb st(1) by (simp add: b_def [symmetric])
  moreover have "l' = 1 \<longleftrightarrow> insert i R = {..<length fs}" using reass_complete [OF c(1) st(2)] R i by simp
  ultimately show ?thesis using st(2) by (intro exI [of _ "r1\<lparr>re_list := l', re_buf := buf'\<rparr>"]) simp
qed

text \<open>Fragments that cut a datagram are told apart by their offset.\<close>

lemma cuts_distinct:
  assumes c: "cuts D c fs" and "i < length fs" "j < length fs" "fs ! i = fs ! j"
  shows "i = j"
proof -
  have "ip_offset (fs ! k) = c k" if "k < length fs" for k using c that by (simp add: cuts_def frag_of_def)
  from this [OF assms(2)] this [OF assms(3)] have "c i = c j" using assms(4) by simp
  then show ?thesis using cuts_mono [OF c, of i j] cuts_mono [OF c, of j i] assms(2,3) by (cases i j rule: linorder_cases) auto
qed

lemma reass_all_works:
  assumes c: "cuts D c fs" "length D \<le> 65512"
  shows "set js \<subseteq> {..<length fs} \<Longrightarrow> R \<union> set js = {..<length fs} \<Longrightarrow> R \<noteq> {..<length fs} \<Longrightarrow>
    (case s of None \<Rightarrow> R = {} \<and> length junk = 65535 | Some r \<Rightarrow> reass_ok D c (length fs) R r) \<Longrightarrow>
    \<exists>r. reass_ok D c (length fs) {..<length fs} r
      \<and> reass_all junk s (map ((!) fs) js) = ok (None, Some (take (ip_size (re_buf r)) (re_buf r)))"
proof (induction js arbitrary: R s)
  case Nil
  then show ?case by simp
next
  case (Cons i js)
  have i: "i < length fs" and R: "R \<subseteq> {..<length fs}" using Cons.prems(1,2) by auto
  obtain r where r: "reass_ok D c (length fs) (insert i R) r" "reass_input junk s (fs ! i) =
      ok (if insert i R = {..<length fs} then (None, Some (take (ip_size (re_buf r)) (re_buf r))) else (Some r, None))"
    using reass_input_works [OF c i R Cons.prems(4)] by blast
  show ?case
  proof (cases "insert i R = {..<length fs}")
    case True
    then show ?thesis using r by (intro exI [of _ r]) simp
  next
    case False
    have "\<exists>r. reass_ok D c (length fs) {..<length fs} r
        \<and> reass_all junk (Some r0) (map ((!) fs) js) = ok (None, Some (take (ip_size (re_buf r)) (re_buf r)))"
      if "r0 = r" for r0
      using Cons.IH [of "insert i R" "Some r0"] Cons.prems(1,2) False r(1) that by simp
    then show ?thesis using r(2) False by simp
  qed
qed

subsection \<open>Results\<close>

lemma reassemble_cuts:
  assumes c: "cuts D c fs" "length D \<le> 65512" and ss: "set ss = set fs" and junk: "length junk = 65535"
  shows "\<exists>d. reass_all junk None ss = ok (None, Some d) \<and> length d = 20 + length D \<and> ip_hdrSize d = 20 \<and> ip_size d = length d \<and> drop 20 d = D"
proof -
  have "\<forall>f \<in> set ss. \<exists>i < length fs. f = fs ! i" using ss by (metis in_set_conv_nth)
  then obtain g where g: "\<And>f. f \<in> set ss \<Longrightarrow> g f < length fs \<and> f = fs ! g f" by metis
  let ?js = "map g ss"
  have m: "map ((!) fs) ?js = ss" using g by (auto intro: map_idI)
  have "i \<in> set ?js" if "i < length fs" for i
  proof -
    have "fs ! i \<in> set ss" using that ss by simp
    then show ?thesis using g cuts_distinct [OF c(1) that, of "g (fs ! i)"] by force
  qed
  then have js: "set ?js = {..<length fs}" using g by auto
  have "0 < length fs" using c(1) by (simp add: cuts_def)
  then obtain r where r: "reass_ok D c (length fs) {..<length fs} r"
      "reass_all junk None ss = ok (None, Some (take (ip_size (re_buf r)) (re_buf r)))"
    using reass_all_works [OF c, where js = ?js and R = "{}" and s = None and junk = junk] js m junk by auto
  then show ?thesis using reass_delivers [OF c(1) r(1) c(2)] by blast
qed

text \<open>C23: A datagram without options that was cut into fragments is put together again, in whatever order
  the fragments arrive and however often: when the last one is there, the receiver passes on a datagram
  with a header of 20 bytes, the size of the original and its data, and is gone.\<close>

theorem fragments_reassemble:
  assumes "whole p" "28 \<le> mtu" "mtu < int (length p)" "length junk = 65535"
  shows "\<exists>fs. fragment p mtu = ok fs \<and> (\<forall>ss. set ss = set fs \<longrightarrow>
    (\<exists>d. reass_all junk None ss = ok (None, Some d) \<and> ip_hdrSize d = 20 \<and> ip_size d = length p \<and> length d = length p \<and> drop 20 d = drop 20 p))"
proof -
  obtain fs c where fs: "fragment p mtu = ok fs" "cuts (drop 20 p) c fs" using fragment_works [OF assms(1-3)] by blast
  have "\<exists>d. reass_all junk None ss = ok (None, Some d) \<and> ip_hdrSize d = 20 \<and> ip_size d = length p \<and> length d = length p \<and> drop 20 d = drop 20 p"
    if "set ss = set fs" for ss
    using reassemble_cuts [OF fs(2) _ that assms(4)] assms(1) by (fastforce simp: whole_def)
  then show ?thesis using fs(1) by blast
qed

theorem fragments_reassemble_witness:
  "let p = [0x45, 0, 0, 40, 0, 1, 0, 0, 64, 17, 0, 0, 1, 2, 3, 4, 5, 6, 7, 8] @ replicate 20 9 in
    \<exists>fs. fragment p 32 = ok fs \<and>
      (\<exists>d. reass_all (replicate 65535 0) None (rev fs) = ok (None, Some d) \<and> ip_size d = 40 \<and> drop 20 d = replicate 20 9)"
proof -
  let ?p = "[0x45, 0, 0, 40, 0, 1, 0, 0, 64, 17, 0, 0, 1, 2, 3, 4, 5, 6, 7, 8] @ replicate 20 9 :: u8 list"
  have p: "whole ?p" "length ?p = 40" "drop 20 ?p = replicate 20 9" by (simp_all add: whole_def ip_hdrSize_def ip_size_def be_word_def)
  obtain fs where fs: "fragment ?p 32 = ok fs" "\<forall>ss. set ss = set fs \<longrightarrow>
      (\<exists>d. reass_all (replicate 65535 0) None ss = ok (None, Some d) \<and> ip_hdrSize d = 20 \<and> ip_size d = length ?p \<and> length d = length ?p \<and> drop 20 d = drop 20 ?p)"
    using fragments_reassemble [OF p(1), of 32 "replicate 65535 0"] p(2) by (metis length_replicate of_nat_numeral numeral_less_iff numeral_le_iff num.distinct rel_simps)
  then show ?thesis using spec [OF fs(2), of "rev fs"] p unfolding Let_def by (metis set_rev)
qed

lemma length_fill_left: "length (snd (fst (snd (fill_left p first nxt lb)))) = length (snd lb)"
  by (simp add: fill_left_def link_set_def Let_def split: option.split)

lemma fill_left_header:
  "2 \<le> p \<Longrightarrow> ip_hdrSize (snd (fst (snd (fill_left p first None (w, buf))))) = ip_hdrSize buf"
  by (simp add: fill_left_def link_set_def Let_def ip_hdrSize_def le_xword_def)

lemma last_hole_beyond:
  assumes junk: "length junk = 65535" and f: "ip_hdrSize f = 20" "20 < ip_size f" "ip_size f \<le> length f" "ip_more f"
    "ip_offset f + (ip_size f - 20) = 65512" "ip_size f mod 8 = 4"
  shows "reass_input junk None f = Some (Inl Undefined)"
proof -
  define r where "r = reass_start junk f"
  have "20 \<le> length f" using f(2,3) by simp
  note h = reass_start_hole [OF junk this, folded r_def]
  have r: "re_list r = 0" "r = reass_start junk f" by (simp_all add: r_def reass_start_def)
  obtain r1 where r1: "save_first f r = Inr r1" "re_buf r1 = re_buf r" "re_list r1 = re_list r"
    using save_first_plain [OF f(1,3)] by blast
  define n b where "n = int (ip_size f) - 20" and "b = grow_size (int (ip_offset f)) n (re_buf r1)"
  have n: "0 < n" "int (ip_offset f) + n = 65512" "n mod 8 = 0" using f by (simp_all add: n_def, presburger+)
  have sb: "same_but {2, 3} (re_buf r) b" using ip_setSize_frame r1(2) by (simp add: b_def grow_size_def same_but_def)
  have b: "hole_first b 20 = 0" "hole_last b 20 = 65515" "length b = 65535" "ip_hdrSize b = 20"
    using hole_in_frame [OF h(1) sb] ip_fields_frame [OF sb] sb h(3,4) f(1) by (simp_all add: hole_in_def same_but_def)
  obtain q l c off where fl: "fill_left 20 (int (ip_offset f)) None (0, b) = (q, (l, c), off)" by (metis prod.exhaust)
  then have "length c = 65535" "ip_hdrSize c = 20"
    using length_fill_left [of 20 "int (ip_offset f)" None "(0, b)"] fill_left_header [of 20 "int (ip_offset f)" 0 b] b(3,4) by simp_all
  then have "fill_right True 65511 65515 q (l, c) = Inl Undefined" by (simp add: fill_right_def)
  then have "fill_holes f (int (ip_offset f)) 65511 None (0, b) = Some (Inl Undefined)"
    using b f(4) n fl by (subst fill_holes.simps) (simp add: link_get_def Let_def)
  moreover have "int (ip_offset f) + n - 1 = 65511" using n(2) by simp
  ultimately show ?thesis
    using n r1(1,3) f(1) r(1) b(4)
    unfolding reass_input_def by (simp add: r(2) [symmetric] Let_def n_def [symmetric] b_def [symmetric])
qed

text \<open>C40: A first fragment whose data ends at 65512, with more to come, makes the receiver write the
  descriptor of the hole behind it past the end of its buffer of 65535 bytes.\<close>

theorem last_hole_overflows:
  assumes "length junk = 65535" "ip_hdrSize f = 20" "20 < ip_size f" "ip_size f \<le> length f" "ip_more f"
    "ip_offset f + (ip_size f - 20) = 65512" "ip_size f mod 8 = 4"
  shows "reass_input junk None f = Some (Inl Undefined)"
  using assms by (rule last_hole_beyond)

theorem last_hole_overflows_witness:
  "reass_input (replicate 65535 0) None ([0x45, 0, 0, 28, 0, 1, 0x3f, 0xfc, 64, 17, 0, 0, 1, 2, 3, 4, 5, 6, 7, 8] @ replicate 8 0) = Some (Inl Undefined)"
  by (rule last_hole_overflows) (simp_all add: ip_hdrSize_def ip_size_def ip_more_def ip_offset_def be_word_def)

end
