(* ===== verification/Spec2Isabelle.thy ===== *)
theory Spec2Isabelle
  imports Prelude Endian RingBuffer RingWindow FatVolume FatCluster DateTimes FatFile FatStreams FatResize CaseFolding Utf FatNames FatDir FatDirSpec FatCreate FatRemove FatMount FatFormat FatCheck Dictionary AaTree HashTable OrderedMap Inet4 Reassembly
begin

text \<open>
  ES is an operating system in C++: a kernel of interface objects (\<^verbatim>\<open>os/kernel\<close>), a class library
  (\<^verbatim>\<open>os/libes++\<close>, \<^verbatim>\<open>include/es\<close>), file systems (\<^verbatim>\<open>os/fs\<close>), a TCP/IP stack (\<^verbatim>\<open>os/net\<close>), an interface
  compiler (\<^verbatim>\<open>esidl\<close>), an ECMAScript interpreter (\<^verbatim>\<open>esjs\<close>) and a browser (\<^verbatim>\<open>escort\<close>). This library models
  the FAT file system from the bytes of the volume up to its directories, the parts of the class
  library that it stands on, the containers of the class library, and how the network layer cuts
  datagrams into fragments and puts them together.

  \<^bold>\<open>The theories.\<close>
  \<^item> \<^verbatim>\<open>Prelude\<close>: types of machine words, the results, byte stores, and generic facts.
    \<open>result\<close> is an error or a value; \<open>run\<close> is a result that may also not exist, when a loop of the
    code does not end. \<open>Thrown\<close> is an exception, \<open>AssertFailed\<close> a failed \<^verbatim>\<open>ASSERT\<close>, \<open>Undefined\<close> behaviour that C++
    leaves undefined (a division by zero, an access outside an array, an uninitialised variable).
  \<^item> \<^verbatim>\<open>Endian\<close>: the byte codecs of \<^verbatim>\<open>include/es/endian.h\<close>, with their round trips.
  \<^item> \<^verbatim>\<open>RingBuffer\<close>, \<^verbatim>\<open>RingWindow\<close>: the ring buffer of \<^verbatim>\<open>include/es/ring.h\<close> and \<^verbatim>\<open>os/libes++/src/ring.cpp\<close> as a record of
    its memory and indices. It refines a bounded list of bytes; the window of blocks written ahead of the
    data keeps the bytes that have arrived and merges them in order.
  \<^item> \<^verbatim>\<open>DateTimes\<close>: the calendar of \<^verbatim>\<open>include/es/dateTime.h\<close>.
  \<^item> \<^verbatim>\<open>Utf\<close>, \<^verbatim>\<open>CaseFolding\<close>: \<^verbatim>\<open>os/libes++/src/utf.c\<close>. A C string is a list that reads 0 at its end; the case
    tables are the ones of the source.
  \<^item> \<^verbatim>\<open>FatVolume\<close>, \<^verbatim>\<open>FatCluster\<close>: the mounted volume (\<^verbatim>\<open>fatFileSystem.cpp\<close>, \<^verbatim>\<open>fatStream.h\<close>) and \<^verbatim>\<open>fatCluster.cpp\<close>.
    \<open>fatfs\<close> holds the fields of \<^verbatim>\<open>FatFileSystem\<close>; \<open>fs_disk\<close> is the partition. \<open>fat_map\<close> is the table as a map
    from cluster numbers to entries, \<open>vol_ok\<close> a volume in order, \<open>cluster_chain\<close> a chain of clusters,
    \<open>fat_step\<close> a change that stays in the FATs and a given set of bytes.
  \<^item> \<^verbatim>\<open>FatFile\<close>, \<^verbatim>\<open>FatStreams\<close>, \<^verbatim>\<open>FatResize\<close>: a file (\<^verbatim>\<open>fatFile.cpp\<close>, \<^verbatim>\<open>fatStream.cpp\<close>): attributes and times, the
    position cache, reading, writing, the size, and writing back the directory entry. \<open>stream_ok\<close> ties a
    stream to its chain, \<open>file_byte\<close> reads its contents.
  \<^item> \<^verbatim>\<open>FatNames\<close>: \<^verbatim>\<open>fatUtf.cpp\<close>, short and long names.
  \<^item> \<^verbatim>\<open>FatDir\<close>: the operations of \<^verbatim>\<open>fatDirectory.cpp\<close>. A directory is the list of bytes that its cached
    stream shows. \<^verbatim>\<open>FatDirSpec\<close> is the abstract directory: a list of rows (a short entry with its long name,
    or a free entry) and \<open>dir_image\<close>, the bytes of such a directory; \<^verbatim>\<open>FatCreate\<close> and \<^verbatim>\<open>FatRemove\<close> show what \<^verbatim>\<open>create\<close> and \<^verbatim>\<open>remove\<close>
    do to it.
  \<^item> \<^verbatim>\<open>FatMount\<close>, \<^verbatim>\<open>FatFormat\<close>, \<^verbatim>\<open>FatCheck\<close>: \<^verbatim>\<open>mount\<close>, \<^verbatim>\<open>dismount\<close>, \<^verbatim>\<open>fatFormat.cpp\<close> and \<^verbatim>\<open>fatCheck.cpp\<close>.
  \<^item> \<^verbatim>\<open>Dictionary\<close>: the contract of a container of keys and values, as a locale: \<^verbatim>\<open>add\<close>, \<^verbatim>\<open>remove\<close> and \<^verbatim>\<open>get\<close>
    return and refine the same operations on maps. \<^verbatim>\<open>AaTree\<close> and \<^verbatim>\<open>HashTable\<close> provide it.
  \<^item> \<^verbatim>\<open>AaTree\<close>: the balanced tree of \<^verbatim>\<open>include/es/tree.h\<close>, with the pointers to parents and the iterator.
    \<open>aa_inv\<close> is a tree in order and in balance whose nodes point to no wrong parent; \<open>kids\<close> says that no
    pointer to a parent is missing.
  \<^item> \<^verbatim>\<open>HashTable\<close>: \<^verbatim>\<open>include/es/hashtable.h\<close>, with its chains of elements in an array. \<open>ht_rep\<close> divides the
    elements among the buckets and the free list.
  \<^item> \<^verbatim>\<open>OrderedMap\<close>: the map of strings of \<^verbatim>\<open>include/es/orderedMap.h\<close> over the tree.
  \<^item> \<^verbatim>\<open>Inet4\<close>: the header of IPv4 (\<^verbatim>\<open>include/es/net/inet4.h\<close>), the checksum, and \<^verbatim>\<open>InReceiver::fragment\<close> of
    \<^verbatim>\<open>os/net/src/inet4.cpp\<close>. \<open>cuts\<close> says that packets are the fragments of given data.
  \<^item> \<^verbatim>\<open>Reassembly\<close>: \<^verbatim>\<open>ReassReceiver\<close> of \<^verbatim>\<open>os/net/src/inet4reass.cpp\<close>, whose list of holes lies in the holes of
    its buffer. \<open>nseg\<close> is that list, \<open>reass_ok\<close> the state after a set of fragments has arrived.

  \<^bold>\<open>What is shown.\<close> The theorems C1 and C2 are about directories: a created name is found, a removed one
  is not, and nothing else changes. C3 to C6, C16 and C17 are about files: resizing keeps the volume in
  order and the contents, also for whoever opens the file again, and what is written is read. C7 and C12 to C15 are about clusters and the table:
  allocation takes free clusters only and undoes itself when the volume is full. C8 to C11 are about
  formatting, checking and mounting. C18 to C22 are about the containers: they behave
  like maps, the tree stays flat, and a walk through a tree of added entries reaches all of them. C23 and
  C24 are about datagrams: fragments come together in any order. C25 to C28 are about names, C29 and C30
  about the ring buffer, C31 to C33 about the conversions, C34 and C35 about dates. C36 to C40 state where
  the code does not do what it means to.

  \<^bold>\<open>Bounds and fuel.\<close> Loops whose end depends on the disk (following a chain, counting free clusters) are
  partial functions; the theorems show that they end on volumes in order. \<open>vol_ok\<close> bounds the number of
  clusters by the FAT32 specification and the volume by \<open>2 ^ 32\<close> bytes, beyond which the code's 32 bit
  positions wrap. C8 covers disks of 2880 and of 8401 to \<open>2 ^ 23 - 1\<close> sectors of 512 bytes.

  \<^bold>\<open>What is not modelled.\<close> The page cache and the partition are one byte store, so reads and writes are
  complete and in order. Monitors, reference counts and the lists of cached streams are left out: the
  operations are sequential. What writing back the entry of a file does to its parent directory is an
  output of the model. The boot sectors are assembly and hence parameters. Uninitialised variables are
  parameters or \<open>Undefined\<close>. Fragments reach the receiver of their datagram
  directly; how conduits find it, routes, timers and the other protocols are left out. The kernel, ISO 9660
  and the applications are not modelled; the manifest lists them.
\<close>

end
